(* ===== verification/Ckb_Prelude.thy ===== *)
theory Ckb_Prelude
  imports Main "HOL-Library.Word" "HOL-Library.Monad_Syntax"
begin

unbundle bit_operations_syntax

text \<open>
  Shared vocabulary of the development: machine integers of the target (riscv64, little
  endian, 64-bit pointers), C objects seen as byte lists, C strings, and the C library
  functions on strings that the sources only call (strlen, strcmp, strcpy, memcmp come from
  the libc of the ckb-c-stdlib submodule, so what is modelled here is what the C standard
  says of them).

  A pointer into an object is the object's bytes from that point on (for reading) or the
  object and an index (for writing). A read or a write outside the object is the value
  \<^const>\<open>None\<close>, so that every access that the sources leave unchecked is a branch of the model.
\<close>

type_synonym u8 = "8 word"
type_synonym u16 = "16 word"
type_synonym u32 = "32 word"
type_synonym u64 = "64 word"
type_synonym bytes = "8 word list"

named_theorems c_mem \<open>reading and writing C objects\<close>
named_theorems c_str \<open>C strings\<close>

section \<open>Reading and writing bytes of an object\<close>

definition rd :: "bytes \<Rightarrow> nat \<Rightarrow> u8 option" where
  "rd b i = (if i < length b then Some (b ! i) else None)"

definition wr :: "bytes \<Rightarrow> nat \<Rightarrow> u8 \<Rightarrow> bytes option" where
  "wr b i v = (if i < length b then Some (b[i := v]) else None)"

definition rd_bytes :: "bytes \<Rightarrow> nat \<Rightarrow> nat \<Rightarrow> bytes option" where
  "rd_bytes b i n = (if i + n \<le> length b then Some (take n (drop i b)) else None)"

definition wr_bytes :: "bytes \<Rightarrow> nat \<Rightarrow> bytes \<Rightarrow> bytes option" where
  "wr_bytes b i vs =
     (if i + length vs \<le> length b
      then Some (take i b @ vs @ drop (i + length vs) b) else None)"

lemma wr_length [c_mem]: "wr b i v = Some b' \<Longrightarrow> length b' = length b"
  by (auto simp: wr_def split: if_splits)

lemma rd_bytes_length [c_mem]: "rd_bytes b i n = Some v \<Longrightarrow> length v = n"
  by (auto simp: rd_bytes_def split: if_splits)

lemma wr_bytes_length [c_mem]: "wr_bytes b i vs = Some b' \<Longrightarrow> length b' = length b"
  by (auto simp: wr_bytes_def split: if_splits)

lemma rd_bytes_append_left [c_mem]:
  "i + n \<le> length xs \<Longrightarrow> rd_bytes (xs @ ys) i n = rd_bytes xs i n"
  by (simp add: rd_bytes_def)

lemma rd_bytes_append_right [c_mem]:
  "rd_bytes (xs @ ys) (length xs + i) n = rd_bytes ys i n"
  by (simp add: rd_bytes_def)

lemma rd_bytes_prefix [c_mem]: "rd_bytes (xs @ ys) 0 (length xs) = Some xs"
  by (simp add: rd_bytes_def)

section \<open>Little-endian integers\<close>

fun le_nat :: "bytes \<Rightarrow> nat" where
  "le_nat [] = 0"
| "le_nat (x # xs) = unat x + 256 * le_nat xs"

fun nat_le :: "nat \<Rightarrow> nat \<Rightarrow> bytes" where
  "nat_le 0 n = []"
| "nat_le (Suc k) n = of_nat n # nat_le k (n div 256)"

lemma length_nat_le [simp]: "length (nat_le k n) = k"
  by (induction k arbitrary: n) auto

lemma unat_u8_bound: "unat (x :: u8) < 256"
  using unsigned_less [of x] by simp

lemma unat_u32_bound: "unat (x :: u32) < 4294967296"
  using unsigned_less [of x] by simp

lemma unat_u64_bound: "unat (x :: u64) < 18446744073709551616"
  using unsigned_less [of x] by simp

lemma unat_of_nat_u32: "n < 2 ^ 32 \<Longrightarrow> unat (of_nat n :: u32) = n"
  by (simp add: unat_of_nat)

lemma of_nat_u32_eq_0: "n < 2 ^ 32 \<Longrightarrow> (of_nat n :: u32) = 0 \<longleftrightarrow> n = 0"
  by (simp add: word_unat_eq_iff unat_of_nat_u32)

lemma unat_of_nat_u64: "n < 2 ^ 64 \<Longrightarrow> unat (of_nat n :: u64) = n"
  by (simp add: unat_of_nat)

lemma unat_of_nat_u8: "unat (of_nat n :: u8) = n mod 256"
  by (simp add: unat_of_nat)

lemma le_nat_nat_le: "le_nat (nat_le k n) = n mod 256 ^ k"
proof (induction k arbitrary: n)
  case 0
  then show ?case by simp
next
  case (Suc k)
  have "le_nat (nat_le (Suc k) n) = n mod 256 + 256 * ((n div 256) mod 256 ^ k)"
    by (simp add: Suc unat_of_nat_u8)
  also have "\<dots> = n mod (256 * 256 ^ k)"
    by (simp add: mod_mult2_eq)
  finally show ?case by simp
qed

lemma le_nat_bound: "le_nat xs < 256 ^ length xs"
proof (induction xs)
  case Nil
  then show ?case by simp
next
  case (Cons x xs)
  have "unat x < 256" by (rule unat_u8_bound)
  moreover have "256 * le_nat xs + 256 \<le> 256 * 256 ^ length xs"
    using Cons by simp
  ultimately show ?case by simp
qed

lemma nat_le_le_nat: "nat_le (length xs) (le_nat xs) = xs"
proof (induction xs)
  case Nil
  then show ?case by simp
next
  case (Cons x xs)
  have "unat x < 256" by (rule unat_u8_bound)
  then have "(unat x + 256 * le_nat xs) div 256 = le_nat xs" by simp
  moreover have "(of_nat (unat x + 256 * le_nat xs) :: u8) = x"
  proof -
    have "(of_nat (256 * le_nat xs) :: u8) = of_nat 256 * of_nat (le_nat xs)" by simp
    also have "(of_nat 256 :: u8) = 0" by simp
    finally show ?thesis by simp
  qed
  ultimately show ?case using Cons by simp
qed

lemma nat_le_4: "nat_le 4 n = [of_nat n, of_nat (n div 256), of_nat (n div 65536), of_nat (n div 16777216)]"
proof -
  have four: "4 = Suc (Suc (Suc (Suc 0)))" by simp
  show ?thesis unfolding four nat_le.simps by (simp flip: div_mult2_eq)
qed

definition u32_le :: "u32 \<Rightarrow> bytes" where
  "u32_le v = nat_le 4 (unat v)"

lemma length_u32_le [simp]: "length (u32_le v) = 4"
  by (simp add: u32_le_def)

lemma of_nat_le_nat_u32_le [simp]: "(of_nat (le_nat (u32_le v)) :: u32) = v"
  using unat_u32_bound [of v] by (simp add: u32_le_def le_nat_nat_le)

section \<open>C strings\<close>

text \<open>The characters before the first NUL; \<^const>\<open>None\<close> when the object ends first.\<close>

fun cstr :: "bytes \<Rightarrow> bytes option" where
  "cstr [] = None"
| "cstr (x # xs) = (if x = 0 then Some [] else map_option ((#) x) (cstr xs))"

definition strlen :: "bytes \<Rightarrow> nat option" where
  "strlen s = map_option length (cstr s)"

text \<open>
  C's strcmp, as a difference of the first bytes that differ (the standard fixes its sign
  only; the sources test it against 0).
\<close>

fun strcmp :: "bytes \<Rightarrow> bytes \<Rightarrow> int option" where
  "strcmp (x # xs) (y # ys) =
     (if x \<noteq> y then Some (uint x - uint y) else if x = 0 then Some 0 else strcmp xs ys)"
| "strcmp _ _ = None"

definition strz :: "bytes \<Rightarrow> bytes" where
  "strz s = s @ [0]"

lemma cstr_append_NUL [c_str]: "0 \<notin> set s \<Longrightarrow> cstr (s @ 0 # r) = Some s"
  by (induction s) auto

lemma cstr_strz [c_str]: "0 \<notin> set s \<Longrightarrow> cstr (strz s) = Some s"
  by (simp add: strz_def cstr_append_NUL)

lemma cstr_SomeD: "cstr p = Some s \<Longrightarrow> \<exists>r. p = s @ 0 # r \<and> 0 \<notin> set s"
proof (induction p arbitrary: s)
  case Nil
  then show ?case by simp
next
  case (Cons x xs)
  show ?case
  proof (cases "x = 0")
    case True
    with Cons.prems show ?thesis by simp
  next
    case False
    with Cons.prems obtain t where "cstr xs = Some t" "s = x # t" by auto
    with Cons.IH False show ?thesis by force
  qed
qed

lemma cstr_None_iff: "cstr p = None \<longleftrightarrow> 0 \<notin> set p"
  by (induction p) auto

lemma uint_eq_iff: "uint x = uint y \<longleftrightarrow> x = y"
  by (simp add: word_uint_eq_iff)

lemma strcmp_cstr:
  "cstr p = Some s \<Longrightarrow> cstr q = Some t \<Longrightarrow> \<exists>d. strcmp p q = Some d \<and> (d = 0 \<longleftrightarrow> s = t)"
proof (induction p q arbitrary: s t rule: strcmp.induct)
  case (1 x xs y ys)
  show ?case
  proof (cases "x = y \<and> x \<noteq> 0")
    case True
    with "1.prems" obtain s' t' where st: "cstr xs = Some s'" "cstr ys = Some t'"
      "s = x # s'" "t = y # t'" by auto
    from True "1.IH" [OF _ _ st(1,2)] st(3,4) show ?thesis by auto
  next
    case False
    with "1.prems" show ?thesis by (auto simp: uint_eq_iff split: if_splits)
  qed
qed simp_all

lemma strcmp_zero_iff:
  "cstr p = Some s \<Longrightarrow> cstr q = Some t \<Longrightarrow> strcmp p q = Some 0 \<longleftrightarrow> s = t"
  using strcmp_cstr by fastforce

section \<open>Options\<close>

lemma bind_eq_Some_iff: "Option.bind x f = Some y \<longleftrightarrow> (\<exists>a. x = Some a \<and> f a = Some y)"
  by (cases x) auto

end
