(* ===== verification/Heap_Ops.thy ===== *)
theory Heap_Ops
  imports Ckb_Prelude
begin

text \<open>
  The allocator as its clients see it. The file system, the stdio layer and the syscalls
  call malloc and free and rely on a few laws only; they are stated here as a locale. The
  operations are passed to the clients' definitions as a record, and the allocator of
  include/c-stdlib/src/malloc_impl.c (theory Malloc) is the instance the program runs on.

  Addresses are natural numbers below 2^64 and 0 is NULL. A call of free may end the program
  (the allocator exits on a corrupted footer), hence its option type.
\<close>

record 'h heap_ops =
  h_malloc :: "'h \<Rightarrow> nat \<Rightarrow> nat \<times> 'h"
  h_free :: "'h \<Rightarrow> nat \<Rightarrow> 'h option"

text \<open>
  The contract: \<open>live h\<close> maps the address of every block in use to its usable size, and
  \<open>hinv h\<close> is the allocator's own invariant.
\<close>

locale c_heap =
  fixes H :: "'h heap_ops"
    and hinv :: "'h \<Rightarrow> bool"
    and live :: "'h \<Rightarrow> nat \<Rightarrow> nat option"
  assumes malloc_inv: "hinv h \<Longrightarrow> n < 2 ^ 64 \<Longrightarrow> h_malloc H h n = (p, h') \<Longrightarrow> hinv h'"
    and malloc_null: "hinv h \<Longrightarrow> n < 2 ^ 64 \<Longrightarrow> h_malloc H h n = (0, h') \<Longrightarrow> live h' = live h"
    and malloc_fresh: "hinv h \<Longrightarrow> n < 2 ^ 64 \<Longrightarrow> h_malloc H h n = (p, h') \<Longrightarrow> p \<noteq> 0 \<Longrightarrow>
          live h p = None \<and> (\<exists>k \<ge> n. live h' = (live h)(p \<mapsto> k))"
    and free_live: "hinv h \<Longrightarrow> live h p = Some k \<Longrightarrow>
          \<exists>h'. h_free H h p = Some h' \<and> hinv h' \<and> live h' = (live h)(p := None)"
begin

text \<open>A block that was just allocated can be given back, and then nothing has changed.\<close>

lemma malloc_free_restores:
  assumes "hinv h" "n < 2 ^ 64" "h_malloc H h n = (p, h1)" "p \<noteq> 0"
  shows "\<exists>h2. h_free H h1 p = Some h2 \<and> hinv h2 \<and> live h2 = live h"
proof -
  obtain k where k: "live h p = None" "live h1 = (live h)(p \<mapsto> k)"
    using malloc_fresh [OF assms] by blast
  then have "live h1 p = Some k" by simp
  from free_live [OF malloc_inv [OF assms(1-3)] this] obtain h2 where
    h2: "h_free H h1 p = Some h2" "hinv h2" "live h2 = (live h1)(p := None)" by blast
  moreover have "live h2 = live h"
    using h2(3) k by (simp add: fun_upd_idem)
  ultimately show ?thesis by blast
qed

lemma malloc_malloc_free_free_restores:
  assumes "hinv h" "n < 2 ^ 64" "h_malloc H h n = (p, h1)" "p \<noteq> 0"
    and "m < 2 ^ 64" "h_malloc H h1 m = (q, h2)" "q \<noteq> 0"
    and "hinv h2'" "live h2' = live h2"
  shows "\<exists>h3 h4. h_free H h2' p = Some h3 \<and> h_free H h3 q = Some h4 \<and> hinv h4 \<and> live h4 = live h"
proof -
  note i1 = malloc_inv [OF assms(1-3)]
  obtain k where k: "live h p = None" "live h1 = (live h)(p \<mapsto> k)"
    using malloc_fresh [OF assms(1-4)] by blast
  obtain l where l: "live h1 q = None" "live h2 = (live h1)(q \<mapsto> l)"
    using malloc_fresh [OF i1 assms(5-7)] by blast
  from k l have neq: "p \<noteq> q" by auto
  with k l have "live h2' p = Some k" by (simp add: assms(9))
  from free_live [OF assms(8) this] obtain h3 where
    h3: "h_free H h2' p = Some h3" "hinv h3" "live h3 = (live h2')(p := None)" by blast
  with l neq have "live h3 q = Some l" by (simp add: assms(9))
  from free_live [OF h3(2) this] obtain h4 where
    h4: "h_free H h3 q = Some h4" "hinv h4" "live h4 = (live h3)(q := None)" by blast
  have "live h4 = live h"
    using h4(3) h3(3) k l neq by (auto simp: fun_eq_iff assms(9))
  with h3 h4 show ?thesis by blast
qed

end

end
