(* ===== verification/Cell_FS.thy ===== *)
theory Cell_FS
  imports Heap_Ops
begin

text \<open>
  The simple file system of include/ckb_cell_fs.c: a stack of mounted images. An image is a
  buffer in memory: a 32-bit count, that many entries of four 32-bit little-endian integers
  (offset and length of the file name, offset and length of the content), then the blobs the
  offsets point into. load_fs pushes an image on the stack, get_file looks a name up from the
  top of the stack down.

  The buffer is the byte list of the C object that buf points to; an access behind its end is
  \<^const>\<open>None\<close>, as is the end of the program in free.
\<close>

section \<open>Data\<close>

record FSBlob =
  blob_offset :: u32
  blob_length :: u32

record FSEntry =
  entry_filename :: FSBlob
  entry_content :: FSBlob

text \<open>A pointer into an object: the object's bytes and an index.\<close>

record cptr =
  p_obj :: bytes
  p_off :: nat

record CellFileSystemNode =
  node_count :: u32
  node_files :: "FSEntry list"
  node_start :: "cptr option"

datatype CellFileSystem =
  CellFileSystem (cfs_current: "CellFileSystemNode option") (cfs_next: "CellFileSystem option")

record FSFile =
  ff_filename :: bytes
  ff_content :: cptr
  ff_size :: u32
  ff_rc :: u8

text \<open>The bytes that \<open>start + off\<close> points at, if that is a position of the object.\<close>

definition deref_at :: "cptr option \<Rightarrow> nat \<Rightarrow> bytes option" where
  "deref_at p off =
     (case p of
        None \<Rightarrow> None
      | Some c \<Rightarrow>
          (if p_off c + off \<le> length (p_obj c) then Some (drop (p_off c + off) (p_obj c)) else None))"

definition cptr_add :: "cptr option \<Rightarrow> nat \<Rightarrow> cptr option" where
  "cptr_add p off = map_option (\<lambda>c. c\<lparr>p_off := p_off c + off\<rparr>) p"

section \<open>Lookup: get_file\<close>

text \<open>The loop over node->files: strcmp with each name, in order.\<close>

fun scan_files :: "bytes \<Rightarrow> cptr option \<Rightarrow> FSEntry list \<Rightarrow> nat \<Rightarrow> FSEntry option option" where
  "scan_files fname start es 0 = Some None"
| "scan_files fname start [] (Suc k) = None"
| "scan_files fname start (e # es) (Suc k) =
     do { s \<leftarrow> deref_at start (unat (blob_offset (entry_filename e)));
          d \<leftarrow> strcmp fname s;
          if d = 0 then Some (Some e) else scan_files fname start es k }"

fun walk_fs :: "bytes \<Rightarrow> CellFileSystem \<Rightarrow> (CellFileSystemNode \<times> FSEntry) option option" where
  "walk_fs fname (CellFileSystem cur nxt) =
     (case cur of
        None \<Rightarrow> Some None
      | Some node \<Rightarrow>
          do { r \<leftarrow> scan_files fname (node_start node) (node_files node) (unat (node_count node));
               case r of
                 Some e \<Rightarrow> Some (Some (node, e))
               | None \<Rightarrow>
                   (case nxt of None \<Rightarrow> Some None | Some c \<Rightarrow> walk_fs fname c) })"

definition sizeof_FSFile :: nat where "sizeof_FSFile = 24"

text \<open>
  The result is the return value, what is stored through f (\<^const>\<open>None\<close>: nothing is), and
  the heap.
\<close>

definition get_file ::
    "'h heap_ops \<Rightarrow> 'h \<Rightarrow> CellFileSystem option \<Rightarrow> bytes \<Rightarrow> (int \<times> FSFile option \<times> 'h) option" where
  "get_file H h fs fname =
     (case fs of
        None \<Rightarrow> Some (- 1, None, h)
      | Some c \<Rightarrow>
          (let (p, h1) = h_malloc H h sizeof_FSFile in
           if p = 0 then Some (- 1, None, h1)
           else
             do { r \<leftarrow> walk_fs fname c;
                  case r of
                    Some (node, e) \<Rightarrow>
                      do { content \<leftarrow> cptr_add (node_start node) (unat (blob_offset (entry_content e)));
                           Some (0, Some \<lparr>ff_filename = fname, ff_content = content,
                                          ff_size = blob_length (entry_content e), ff_rc = 1\<rparr>, h1) }
                  | None \<Rightarrow> do { h2 \<leftarrow> h_free H h1 p; Some (- 1, None, h2) } }))"

section \<open>Mounting: load_fs\<close>

definition rd_u32 :: "bytes \<Rightarrow> nat \<Rightarrow> u32 option" where
  "rd_u32 b i = map_option (\<lambda>v. of_nat (le_nat v)) (rd_bytes b i 4)"

definition rd_entry :: "bytes \<Rightarrow> nat \<Rightarrow> FSEntry option" where
  "rd_entry b i =
     do { fo \<leftarrow> rd_u32 b i; fl \<leftarrow> rd_u32 b (i + 4);
          co \<leftarrow> rd_u32 b (i + 8); cl \<leftarrow> rd_u32 b (i + 12);
          Some \<lparr>entry_filename = \<lparr>blob_offset = fo, blob_length = fl\<rparr>,
                entry_content = \<lparr>blob_offset = co, blob_length = cl\<rparr>\<rparr> }"

fun rd_entries :: "bytes \<Rightarrow> nat \<Rightarrow> nat \<Rightarrow> FSEntry list option" where
  "rd_entries b i 0 = Some []"
| "rd_entries b i (Suc k) =
     do { e \<leftarrow> rd_entry b i; es \<leftarrow> rd_entries b (i + 16) k; Some (e # es) }"

definition sizeof_node :: nat where "sizeof_node = 24"
definition sizeof_cfs :: nat where "sizeof_cfs = 16"
definition sizeof_entry :: nat where "sizeof_entry = 16"

text \<open>
  \<open>fs\<close> is the variable behind the first argument (\<^const>\<open>None\<close>: the argument is NULL), and
  \<open>buf = None\<close> is a NULL buffer. buflen is an argument that the code never reads.
\<close>

definition load_fs ::
    "'h heap_ops \<Rightarrow> 'h \<Rightarrow> CellFileSystem option option \<Rightarrow> bytes option \<Rightarrow> u64 \<Rightarrow>
     (int \<times> CellFileSystem option option \<times> 'h) option" where
  "load_fs H h fs buf buflen =
     (case (fs, buf) of
        (Some old, Some b) \<Rightarrow>
          (let (np, h1) = h_malloc H h sizeof_node in
           if np = 0 then Some (- 1, fs, h1)
           else
             (let (cp, h2) = h_malloc H h1 sizeof_cfs in
              if cp = 0 then do { h3 \<leftarrow> h_free H h2 np; Some (- 1, fs, h3) }
              else
                do { count \<leftarrow> rd_u32 b 0;
                     if count = 0 then
                       Some (0, Some (Some (CellFileSystem
                                (Some \<lparr>node_count = 0, node_files = [], node_start = None\<rparr>) old)), h2)
                     else
                       (let (fp, h3) = h_malloc H h2 (sizeof_entry * unat count) in
                        if fp = 0 then
                          do { h4 \<leftarrow> h_free H h3 np; h5 \<leftarrow> h_free H h4 cp; Some (- 1, fs, h5) }
                        else
                          do { es \<leftarrow> rd_entries b 4 (unat count);
                               Some (0, Some (Some (CellFileSystem
                                  (Some \<lparr>node_count = count, node_files = es,
                                         node_start = Some \<lparr>p_obj = b, p_off = 4 + sizeof_entry * unat count\<rparr>\<rparr>)
                                  old)), h3) }) }))
      | _ \<Rightarrow> Some (- 1, fs, h))"

text \<open>
  The file-scope variable CELL_FILE_SYSTEM and the three functions on it: the address of the
  variable is never NULL.
\<close>

definition ckb_load_fs ::
    "'h heap_ops \<Rightarrow> 'h \<Rightarrow> CellFileSystem option \<Rightarrow> bytes option \<Rightarrow> u64 \<Rightarrow>
     (int \<times> CellFileSystem option \<times> 'h) option" where
  "ckb_load_fs H h cell_fs buf buflen =
     do { (ret, fs, h') \<leftarrow> load_fs H h (Some cell_fs) buf buflen;
          fs' \<leftarrow> fs;
          Some (ret, fs', h') }"

definition ckb_get_file ::
    "'h heap_ops \<Rightarrow> 'h \<Rightarrow> CellFileSystem option \<Rightarrow> bytes \<Rightarrow> (int \<times> FSFile option \<times> 'h) option" where
  "ckb_get_file H h cell_fs fname = get_file H h cell_fs fname"

definition ckb_reset_fs :: "CellFileSystem option \<Rightarrow> CellFileSystem option" where
  "ckb_reset_fs cell_fs = None"

section \<open>The view of a mounted stack as one association list\<close>

text \<open>
  The contract of the file system: the entries of all images, newest image first, as a list
  from names to entries. It is \<^const>\<open>None\<close> when some name is not a C string inside its
  buffer.
\<close>

definition entry_view :: "cptr option \<Rightarrow> FSEntry \<Rightarrow> (bytes \<times> FSEntry) option" where
  "entry_view start e =
     do { s \<leftarrow> deref_at start (unat (blob_offset (entry_filename e)));
          nm \<leftarrow> cstr s;
          Some (nm, e) }"

definition node_view :: "CellFileSystemNode \<Rightarrow> (bytes \<times> CellFileSystemNode \<times> FSEntry) list option" where
  "node_view node =
     (if unat (node_count node) \<le> length (node_files node)
      then map_option (map (\<lambda>(nm, e). (nm, node, e)))
             (those (map (entry_view (node_start node)) (take (unat (node_count node)) (node_files node))))
      else None)"

fun fs_view :: "CellFileSystem \<Rightarrow> (bytes \<times> CellFileSystemNode \<times> FSEntry) list option" where
  "fs_view (CellFileSystem cur nxt) =
     (case cur of
        None \<Rightarrow> Some []
      | Some node \<Rightarrow>
          do { l \<leftarrow> node_view node;
               r \<leftarrow> (case nxt of None \<Rightarrow> Some [] | Some c \<Rightarrow> fs_view c);
               Some (l @ r) })"

lemma entry_view_eq_Some:
  "entry_view start e = Some v \<longleftrightarrow>
     (\<exists>s nm. deref_at start (unat (blob_offset (entry_filename e))) = Some s \<and> cstr s = Some nm \<and> v = (nm, e))"
  by (auto simp: entry_view_def bind_eq_Some_iff)

lemma scan_files_view:
  assumes "cstr fname = Some nm"
    and "those (map (entry_view start) (take k es)) = Some l" "k \<le> length es"
  shows "scan_files fname start es k = Some (map_of l nm)"
  using assms
proof (induction fname start es k arbitrary: l rule: scan_files.induct)
  case (3 fname start e es k)
  obtain s nm' l' where s: "deref_at start (unat (blob_offset (entry_filename e))) = Some s"
    "cstr s = Some nm'" "those (map (entry_view start) (take k es)) = Some l'" "l = (nm', e) # l'"
    using "3.prems" by (auto simp: entry_view_eq_Some split: option.splits)
  obtain d where d: "strcmp fname s = Some d" "d = 0 \<longleftrightarrow> nm = nm'"
    using strcmp_cstr [OF "3.prems"(1) s(2)] by blast
  have "d \<noteq> 0 \<Longrightarrow> scan_files fname start es k = Some (map_of l' nm)"
    using "3.IH" [OF s(1) d(1) _ "3.prems"(1) s(3)] "3.prems"(3) by simp
  with s d show ?case by auto
qed auto

lemma map_of_map_pair: "map_of (map (\<lambda>(k, v). (k, a, v)) xs) x = map_option (Pair a) (map_of xs x)"
  by (induction xs) auto

lemma scan_node_view:
  assumes "cstr fname = Some nm" "node_view node = Some l"
  shows "\<exists>r. scan_files fname (node_start node) (node_files node) (unat (node_count node)) = Some r
           \<and> map_of l nm = map_option (Pair node) r"
proof -
  obtain l' where "those (map (entry_view (node_start node))
      (take (unat (node_count node)) (node_files node))) = Some l'"
    and "l = map (\<lambda>(n, e). (n, node, e)) l'" "unat (node_count node) \<le> length (node_files node)"
    using assms(2) by (auto simp: node_view_def split: if_splits)
  with scan_files_view [OF assms(1)] show ?thesis
    by (auto simp: map_of_map_pair)
qed

lemma walk_fs_view:
  "cstr fname = Some nm \<Longrightarrow> fs_view c = Some l \<Longrightarrow> walk_fs fname c = Some (map_of l nm)"
proof (induction fname c arbitrary: l rule: walk_fs.induct)
  case (1 fname cur nxt)
  show ?case
  proof (cases cur)
    case None
    with 1 show ?thesis by simp
  next
    case (Some node)
    with 1(3) obtain l1 l2 where l: "node_view node = Some l1"
      "(case nxt of None \<Rightarrow> Some [] | Some c \<Rightarrow> fs_view c) = Some l2" "l = l1 @ l2"
      by (auto simp: bind_eq_Some_iff)
    from scan_node_view [OF 1(2) l(1)] obtain r where
      r: "scan_files fname (node_start node) (node_files node) (unat (node_count node)) = Some r"
         "map_of l1 nm = map_option (Pair node) r" by blast
    have "r = None \<Longrightarrow> nxt = Some c \<Longrightarrow> walk_fs fname c = Some (map_of l2 nm)" for c
      using 1(1) [OF Some r(1) _ _ 1(2)] l(2) by simp
    with Some r l show ?thesis
      by (cases r; cases nxt) (auto simp: map_add_Some_iff map_add_def)
  qed
qed

section \<open>Packing: tools/fs.lua\<close>

text \<open>
  The packer that writes the images: \<open>pack\<close> of tools/fs.lua. string.pack raises an error for
  an integer that does not fit into four bytes and for a name that contains a NUL, the value
  \<^const>\<open>None\<close> here. The table of files is the list of its pairs in the order in which Lua
  enumerates them.
\<close>

definition lua_I4 :: "nat \<Rightarrow> bytes option" where
  "lua_I4 n = (if n < 2 ^ 32 then Some (nat_le 4 n) else None)"

definition lua_z :: "bytes \<Rightarrow> bytes option" where
  "lua_z s = (if 0 \<in> set s then None else Some (strz s))"

fun pack_meta :: "nat \<Rightarrow> (bytes \<times> bytes) list \<Rightarrow> bytes option" where
  "pack_meta off [] = Some []"
| "pack_meta off ((nm, ct) # fs) =
     do { a \<leftarrow> lua_I4 off;
          b \<leftarrow> lua_I4 (length nm + 1);
          c \<leftarrow> lua_I4 (off + length nm + 1);
          d \<leftarrow> lua_I4 (length ct);
          r \<leftarrow> pack_meta (off + length nm + 1 + length ct + 1) fs;
          Some (a @ b @ c @ d @ r) }"

fun pack_blobs :: "(bytes \<times> bytes) list \<Rightarrow> bytes option" where
  "pack_blobs [] = Some []"
| "pack_blobs ((nm, ct) # fs) =
     do { n \<leftarrow> lua_z nm; r \<leftarrow> pack_blobs fs; Some (n @ ct @ [0] @ r) }"

definition pack_fs :: "(bytes \<times> bytes) list \<Rightarrow> bytes option" where
  "pack_fs files =
     do { n \<leftarrow> lua_I4 (length files);
          m \<leftarrow> pack_meta 0 files;
          b \<leftarrow> pack_blobs files;
          Some (n @ m @ b) }"

text \<open>The entries that the metadata of a packed image stands for.\<close>

fun packed_entries :: "nat \<Rightarrow> (bytes \<times> bytes) list \<Rightarrow> FSEntry list" where
  "packed_entries off [] = []"
| "packed_entries off ((nm, ct) # fs) =
     \<lparr>entry_filename = \<lparr>blob_offset = of_nat off, blob_length = of_nat (length nm + 1)\<rparr>,
      entry_content = \<lparr>blob_offset = of_nat (off + length nm + 1), blob_length = of_nat (length ct)\<rparr>\<rparr>
     # packed_entries (off + length nm + 1 + length ct + 1) fs"

lemma length_packed_entries [simp]: "length (packed_entries off fs) = length fs"
  by (induction off fs rule: packed_entries.induct) auto

lemma lua_I4_Some: "lua_I4 n = Some b \<longleftrightarrow> n < 2 ^ 32 \<and> b = nat_le 4 n"
  by (auto simp: lua_I4_def)

lemma pack_meta_ConsD:
  assumes "pack_meta off ((nm, ct) # fs) = Some m"
  obtains r where "pack_meta (off + length nm + 1 + length ct + 1) fs = Some r"
    "m = nat_le 4 off @ nat_le 4 (length nm + 1) @ nat_le 4 (off + length nm + 1) @ nat_le 4 (length ct) @ r"
    "off < 2 ^ 32" "length nm + 1 < 2 ^ 32" "off + length nm + 1 < 2 ^ 32" "length ct < 2 ^ 32"
  using assms unfolding pack_meta.simps bind_eq_Some_iff lua_I4_Some by blast

lemma length_pack_meta: "pack_meta off fs = Some m \<Longrightarrow> length m = 16 * length fs"
proof (induction fs arbitrary: off m)
  case Nil
  then show ?case by simp
next
  case (Cons f fs)
  obtain nm ct where f: "f = (nm, ct)" by fastforce
  from Cons.prems [unfolded f] obtain r where
    r: "pack_meta (off + length nm + 1 + length ct + 1) fs = Some r"
    and m: "m = nat_le 4 off @ nat_le 4 (length nm + 1) @ nat_le 4 (off + length nm + 1) @ nat_le 4 (length ct) @ r"
    by (rule pack_meta_ConsD)
  from Cons.IH [OF r] show ?case by (simp add: m)
qed

lemma rd_u32_nat_le:
  assumes "n < 2 ^ 32"
  shows "rd_u32 (pre @ nat_le 4 n @ post) (length pre) = Some (of_nat n)"
proof -
  have "rd_bytes (pre @ nat_le 4 n @ post) (length pre) 4 = Some (nat_le 4 n)"
    by (simp add: rd_bytes_def)
  with assms show ?thesis by (simp add: rd_u32_def le_nat_nat_le)
qed

lemma rd_u32_nat_le_at:
  assumes "n < 2 ^ 32" "b = pre @ nat_le 4 n @ post" "i = length pre"
  shows "rd_u32 b i = Some (of_nat n)"
  using rd_u32_nat_le [OF assms(1)] assms(2,3) by simp

lemma rd_entry_packed:
  assumes "a < 2 ^ 32" "b < 2 ^ 32" "c < 2 ^ 32" "d < 2 ^ 32"
    and buf: "buf = pre @ nat_le 4 a @ nat_le 4 b @ nat_le 4 c @ nat_le 4 d @ post"
  shows "rd_entry buf (length pre) =
           Some \<lparr>entry_filename = \<lparr>blob_offset = of_nat a, blob_length = of_nat b\<rparr>,
                 entry_content = \<lparr>blob_offset = of_nat c, blob_length = of_nat d\<rparr>\<rparr>"
proof -
  have "rd_u32 buf (length pre) = Some (of_nat a)"
    by (rule rd_u32_nat_le_at [OF assms(1) buf]) simp
  moreover have "rd_u32 buf (length pre + 4) = Some (of_nat b)"
    by (rule rd_u32_nat_le_at [OF assms(2), of _ "pre @ nat_le 4 a"]) (simp_all add: buf)
  moreover have "rd_u32 buf (length pre + 8) = Some (of_nat c)"
    by (rule rd_u32_nat_le_at [OF assms(3), of _ "pre @ nat_le 4 a @ nat_le 4 b"]) (simp_all add: buf)
  moreover have "rd_u32 buf (length pre + 12) = Some (of_nat d)"
    by (rule rd_u32_nat_le_at [OF assms(4), of _ "pre @ nat_le 4 a @ nat_le 4 b @ nat_le 4 c"])
      (simp_all add: buf)
  ultimately show ?thesis by (simp add: rd_entry_def)
qed

lemma rd_entries_packed:
  "pack_meta off fs = Some m \<Longrightarrow> buf = pre @ m @ post \<Longrightarrow>
     rd_entries buf (length pre) (length fs) = Some (packed_entries off fs)"
proof (induction fs arbitrary: off m pre)
  case Nil
  then show ?case by simp
next
  case (Cons f fs)
  obtain nm ct where f: "f = (nm, ct)" by fastforce
  let ?off' = "off + length nm + 1 + length ct + 1"
  from Cons.prems(1) [unfolded f] obtain r where r: "pack_meta ?off' fs = Some r"
    and m: "m = nat_le 4 off @ nat_le 4 (length nm + 1) @ nat_le 4 (off + length nm + 1) @
                nat_le 4 (length ct) @ r"
    and lt: "off < 2 ^ 32" "length nm + 1 < 2 ^ 32" "off + length nm + 1 < 2 ^ 32" "length ct < 2 ^ 32"
    by (rule pack_meta_ConsD)
  define pre' where "pre' = pre @ nat_le 4 off @ nat_le 4 (length nm + 1) @ nat_le 4 (off + length nm + 1) @
              nat_le 4 (length ct)"
  have "buf = pre' @ r @ post"
    by (simp only: Cons.prems(2) m pre'_def append_assoc)
  from Cons.IH [OF r this]
  have "rd_entries buf (length pre') (length fs) = Some (packed_entries ?off' fs)" .
  moreover have "length pre' = length pre + 16" by (simp add: pre'_def)
  ultimately have tl: "rd_entries buf (length pre + 16) (length fs) = Some (packed_entries ?off' fs)"
    by (simp only:)
  have "rd_entry buf (length pre) =
      Some \<lparr>entry_filename = \<lparr>blob_offset = of_nat off, blob_length = of_nat (length nm + 1)\<rparr>,
            entry_content = \<lparr>blob_offset = of_nat (off + length nm + 1), blob_length = of_nat (length ct)\<rparr>\<rparr>"
    by (rule rd_entry_packed [OF lt]) (simp only: Cons.prems(2) m append_assoc)
  with tl show ?case by (simp add: f)
qed

lemma pack_blobs_ConsD:
  assumes "pack_blobs ((nm, ct) # fs) = Some b"
  obtains r where "pack_blobs fs = Some r" "b = nm @ [0] @ ct @ [0] @ r" "0 \<notin> set nm"
  using assms by (auto simp: bind_eq_Some_iff lua_z_def strz_def split: if_splits)

lemma deref_at_append:
  "deref_at (Some \<lparr>p_obj = pre @ s, p_off = st\<rparr>) off = Some s" if "st + off = length pre"
  using that by (simp add: deref_at_def)

lemma packed_view:
  assumes "pack_meta off fs = Some m" "pack_blobs fs = Some b"
    and "obj = pre @ b @ post" "st + off = length pre"
  shows "those (map (entry_view (Some \<lparr>p_obj = obj, p_off = st\<rparr>)) (packed_entries off fs)) =
           Some (zip (map fst fs) (packed_entries off fs))"
  using assms
proof (induction fs arbitrary: off m b pre)
  case Nil
  then show ?case by simp
next
  case (Cons f fs)
  obtain nm ct where f: "f = (nm, ct)" by fastforce
  from Cons.prems(1) [unfolded f] obtain r where
    r: "pack_meta (off + length nm + 1 + length ct + 1) fs = Some r" and lt: "off < 2 ^ 32"
    by (rule pack_meta_ConsD)
  from Cons.prems(2) [unfolded f] obtain b' where
    b': "pack_blobs fs = Some b'" "b = nm @ [0] @ ct @ [0] @ b'" "0 \<notin> set nm"
    by (rule pack_blobs_ConsD)
  have obj: "obj = (pre @ nm @ [0] @ ct @ [0]) @ b' @ post"
    by (simp add: Cons.prems(3) b'(2))
  have tl: "those (map (entry_view (Some \<lparr>p_obj = obj, p_off = st\<rparr>))
        (packed_entries (off + length nm + 1 + length ct + 1) fs)) =
      Some (zip (map fst fs) (packed_entries (off + length nm + 1 + length ct + 1) fs))"
    by (rule Cons.IH [OF r b'(1) obj]) (use Cons.prems(4) in simp)
  have "deref_at (Some \<lparr>p_obj = obj, p_off = st\<rparr>) off = Some (nm @ 0 # ct @ [0] @ b' @ post)"
    using deref_at_append [OF Cons.prems(4), of "b @ post"] by (simp add: Cons.prems(3) b'(2))
  moreover have "unat (of_nat off :: u32) = off" using lt by (simp add: unat_of_nat)
  ultimately have "entry_view (Some \<lparr>p_obj = obj, p_off = st\<rparr>) (hd (packed_entries off (f # fs)))
      = Some (nm, hd (packed_entries off (f # fs)))"
    using b'(3) by (simp add: f entry_view_def cstr_append_NUL)
  with tl show ?case by (simp add: f)
qed

text \<open>The content of a packed file is where its entry says, and a NUL follows it.\<close>

lemma packed_terminated:
  assumes "pack_meta off fs = Some m" "pack_blobs fs = Some b"
    and "obj = pre @ b @ post" "st + off = length pre"
    and "map_of (zip (map fst fs) (packed_entries off fs)) nm = Some e"
  shows "\<exists>ct rest. map_of fs nm = Some ct \<and> unat (blob_length (entry_content e)) = length ct \<and>
           drop (st + unat (blob_offset (entry_content e))) obj = ct @ 0 # rest"
  using assms
proof (induction fs arbitrary: off m b pre)
  case Nil
  then show ?case by simp
next
  case (Cons f fs)
  obtain nm' ct where f: "f = (nm', ct)" by fastforce
  from Cons.prems(1) [unfolded f] obtain r where
    r: "pack_meta (off + length nm' + 1 + length ct + 1) fs = Some r"
    and lt: "off + length nm' + 1 < 2 ^ 32" "length ct < 2 ^ 32"
    by (rule pack_meta_ConsD)
  from Cons.prems(2) [unfolded f] obtain b' where
    b': "pack_blobs fs = Some b'" "b = nm' @ [0] @ ct @ [0] @ b'"
    by (rule pack_blobs_ConsD)
  show ?case
  proof (cases "nm = nm'")
    case True
    with Cons.prems(5) have e: "unat (blob_offset (entry_content e)) = off + length nm' + 1"
      "unat (blob_length (entry_content e)) = length ct"
      using lt by (auto simp: f unat_of_nat simp del: of_nat_add of_nat_Suc)
    have "st + (off + length nm' + 1) = length (pre @ nm' @ [0])" using Cons.prems(4) by simp
    moreover have "obj = (pre @ nm' @ [0]) @ ct @ ([0] @ b' @ post)"
      by (simp add: Cons.prems(3) b'(2))
    ultimately have "drop (st + (off + length nm' + 1)) obj = ct @ 0 # b' @ post" by simp
    with e True show ?thesis by (simp add: f)
  next
    case False
    have obj: "obj = (pre @ nm' @ [0] @ ct @ [0]) @ b' @ post"
      by (simp add: Cons.prems(3) b'(2))
    have "map_of (zip (map fst fs) (packed_entries (off + length nm' + 1 + length ct + 1) fs)) nm = Some e"
      using Cons.prems(5) False by (simp add: f split: if_splits)
    from Cons.IH [OF r b'(1) obj _ this] Cons.prems(4) False show ?thesis
      by (simp add: f)
  qed
qed

lemma packed_content:
  assumes "pack_meta off fs = Some m" "pack_blobs fs = Some b"
    and "obj = pre @ b @ post" "st + off = length pre"
    and "map_of (zip (map fst fs) (packed_entries off fs)) nm = Some e"
  shows "\<exists>ct. map_of fs nm = Some ct \<and>
           rd_bytes obj (st + unat (blob_offset (entry_content e)))
             (unat (blob_length (entry_content e))) = Some ct"
proof -
  obtain ct rest where ct: "map_of fs nm = Some ct" "unat (blob_length (entry_content e)) = length ct"
    "drop (st + unat (blob_offset (entry_content e))) obj = ct @ 0 # rest"
    using packed_terminated [OF assms] by blast
  then have "length (drop (st + unat (blob_offset (entry_content e))) obj) = length ct + 1 + length rest" by simp
  then have "st + unat (blob_offset (entry_content e)) + length ct \<le> length obj" by simp
  then show ?thesis using ct by (simp add: rd_bytes_def)
qed

lemma packed_no_entry:
  "map_of (zip (map fst fs) (packed_entries off fs)) nm = None \<longleftrightarrow> map_of fs nm = None"
  by (simp add: map_of_eq_None_iff flip: set_map)

text \<open>What load_fs builds from a packed image.\<close>

definition packed_node :: "(bytes \<times> bytes) list \<Rightarrow> bytes \<Rightarrow> CellFileSystemNode" where
  "packed_node files img =
     (if files = [] then \<lparr>node_count = 0, node_files = [], node_start = None\<rparr>
      else \<lparr>node_count = of_nat (length files), node_files = packed_entries 0 files,
            node_start = Some \<lparr>p_obj = img, p_off = 4 + 16 * length files\<rparr>\<rparr>)"

lemma pack_fs_D:
  assumes "pack_fs files = Some img"
  obtains m b where "pack_meta 0 files = Some m" "pack_blobs files = Some b"
    "length files < 2 ^ 32" "img = nat_le 4 (length files) @ m @ b"
  using assms unfolding pack_fs_def bind_eq_Some_iff lua_I4_Some by blast

lemma load_fs_packed:
  assumes "pack_fs files = Some img"
    and "load_fs H h (Some old) (Some (img @ slack)) buflen = Some (0, fs', h')"
  shows "fs' = Some (Some (CellFileSystem (Some (packed_node files (img @ slack))) old))"
proof -
  from assms(1) obtain m b where mb: "pack_meta 0 files = Some m" "pack_blobs files = Some b"
    and n: "length files < 2 ^ 32" and img: "img = nat_le 4 (length files) @ m @ b"
    by (rule pack_fs_D)
  have cnt: "rd_u32 (img @ slack) 0 = Some (of_nat (length files))"
    by (rule rd_u32_nat_le_at [OF n, of _ "[]" "m @ b @ slack"]) (simp_all add: img)
  have "rd_entries (img @ slack) (length (nat_le 4 (length files))) (length files) = Some (packed_entries 0 files)"
    by (rule rd_entries_packed [OF mb(1), of _ _ "b @ slack"]) (simp add: img)
  then have es: "rd_entries (img @ slack) 4 (length files) = Some (packed_entries 0 files)"
    by simp
  show ?thesis
    using assms(2) es of_nat_u32_eq_0 [OF n] unfolding load_fs_def Let_def
    by (auto simp add: cnt unat_of_nat_u32 [OF n] packed_node_def sizeof_entry_def bind_eq_Some_iff
        split: prod.splits if_splits)
qed

lemma node_view_packed:
  assumes "pack_fs files = Some img"
  shows "node_view (packed_node files (img @ slack)) =
    Some (map (\<lambda>(nm, e). (nm, packed_node files (img @ slack), e))
            (zip (map fst files) (packed_entries 0 files)))"
proof (cases "files = []")
  case True
  then show ?thesis by (simp add: node_view_def packed_node_def)
next
  case False
  from assms obtain m b where mb: "pack_meta 0 files = Some m" "pack_blobs files = Some b"
    and n: "length files < 2 ^ 32" and img: "img = nat_le 4 (length files) @ m @ b"
    by (rule pack_fs_D)
  have "those (map (entry_view (Some \<lparr>p_obj = img @ slack, p_off = 4 + 16 * length files\<rparr>))
          (packed_entries 0 files)) = Some (zip (map fst files) (packed_entries 0 files))"
    by (rule packed_view [OF mb, of _ "nat_le 4 (length files) @ m" slack])
      (simp_all add: img length_pack_meta [OF mb(1)])
  with False n show ?thesis
    by (simp add: node_view_def packed_node_def unat_of_nat_u32)
qed

text \<open>The bytes of an open file, if they lie inside the buffer.\<close>

definition file_bytes :: "FSFile \<Rightarrow> bytes option" where
  "file_bytes f = rd_bytes (p_obj (ff_content f)) (p_off (ff_content f)) (unat (ff_size f))"

lemma packed_file_content:
  assumes "pack_fs files = Some img"
    and "map_of (zip (map fst files) (packed_entries 0 files)) nm = Some e"
  shows "\<exists>content ct. map_of files nm = Some ct
      \<and> cptr_add (node_start (packed_node files (img @ slack))) (unat (blob_offset (entry_content e))) = Some content
      \<and> rd_bytes (p_obj content) (p_off content) (unat (blob_length (entry_content e))) = Some ct"
proof -
  from assms(1) obtain m b where mb: "pack_meta 0 files = Some m" "pack_blobs files = Some b"
    and n: "length files < 2 ^ 32" and img: "img = nat_le 4 (length files) @ m @ b"
    by (rule pack_fs_D)
  have ne: "files \<noteq> []" using assms(2) by auto
  have "\<exists>ct. map_of files nm = Some ct \<and>
      rd_bytes (img @ slack) (4 + 16 * length files + unat (blob_offset (entry_content e)))
        (unat (blob_length (entry_content e))) = Some ct"
    by (rule packed_content [OF mb, of _ "nat_le 4 (length files) @ m" slack])
      (simp_all add: img length_pack_meta [OF mb(1)] assms(2))
  with ne show ?thesis by (simp add: packed_node_def cptr_add_def)
qed

lemma packed_file_terminated:
  assumes "pack_fs files = Some img"
    and "map_of (zip (map fst files) (packed_entries 0 files)) nm = Some e"
  shows "\<exists>content ct rest. map_of files nm = Some ct
      \<and> cptr_add (node_start (packed_node files (img @ slack))) (unat (blob_offset (entry_content e))) = Some content
      \<and> unat (blob_length (entry_content e)) = length ct
      \<and> drop (p_off content) (p_obj content) = ct @ 0 # rest"
proof -
  from assms(1) obtain m b where mb: "pack_meta 0 files = Some m" "pack_blobs files = Some b"
    and n: "length files < 2 ^ 32" and img: "img = nat_le 4 (length files) @ m @ b"
    by (rule pack_fs_D)
  have ne: "files \<noteq> []" using assms(2) by auto
  have "\<exists>ct rest. map_of files nm = Some ct \<and> unat (blob_length (entry_content e)) = length ct \<and>
      drop (4 + 16 * length files + unat (blob_offset (entry_content e))) (img @ slack) = ct @ 0 # rest"
    by (rule packed_terminated [OF mb, of _ "nat_le 4 (length files) @ m" slack])
      (simp_all add: img length_pack_meta [OF mb(1)] assms(2))
  with ne show ?thesis by (simp add: packed_node_def cptr_add_def)
qed

lemma walk_fs_packed:
  assumes "pack_fs files = Some img" "cstr fname = Some nm"
  shows "walk_fs fname (CellFileSystem (Some (packed_node files (img @ slack))) old) =
     (case map_of (zip (map fst files) (packed_entries 0 files)) nm of
        Some e \<Rightarrow> Some (Some (packed_node files (img @ slack), e))
      | None \<Rightarrow> (case old of None \<Rightarrow> Some None | Some c \<Rightarrow> walk_fs fname c))"
proof -
  from scan_node_view [OF assms(2) node_view_packed [OF assms(1)]] obtain r where
    "scan_files fname (node_start (packed_node files (img @ slack))) (node_files (packed_node files (img @ slack)))
       (unat (node_count (packed_node files (img @ slack)))) = Some r"
    and "map_option (Pair (packed_node files (img @ slack)))
           (map_of (zip (map fst files) (packed_entries 0 files)) nm) =
         map_option (Pair (packed_node files (img @ slack))) r"
    by (auto simp: map_of_map_pair)
  then show ?thesis
    by (cases r; cases "map_of (zip (map fst files) (packed_entries 0 files)) nm")
      (auto simp del: map_of_zip_is_None)
qed

text \<open>A read of the entry table stays in the buffer exactly when the table does.\<close>

lemma rd_u32_iff: "(\<exists>v. rd_u32 b i = Some v) \<longleftrightarrow> i + 4 \<le> length b"
  by (simp add: rd_u32_def rd_bytes_def)

lemma rd_entry_iff: "(\<exists>v. rd_entry b i = Some v) \<longleftrightarrow> i + 16 \<le> length b"
proof -
  have "i + 16 \<le> length b \<Longrightarrow> \<exists>v. rd_entry b i = Some v"
    using rd_u32_iff [of b i] rd_u32_iff [of b "i + 4"] rd_u32_iff [of b "i + 8"] rd_u32_iff [of b "i + 12"]
    by (auto simp: rd_entry_def)
  moreover have "rd_entry b i = Some v \<Longrightarrow> i + 16 \<le> length b" for v
    using rd_u32_iff [of b "i + 12"] by (auto simp: rd_entry_def bind_eq_Some_iff)
  ultimately show ?thesis by blast
qed

lemma rd_entries_iff: "(\<exists>es. rd_entries b i k = Some es) \<longleftrightarrow> k = 0 \<or> i + 16 * k \<le> length b"
proof (induction k arbitrary: i)
  case 0
  then show ?case by simp
next
  case (Suc k)
  have "(\<exists>es. rd_entries b i (Suc k) = Some es) \<longleftrightarrow>
        (\<exists>v. rd_entry b i = Some v) \<and> (\<exists>es. rd_entries b (i + 16) k = Some es)"
    by (auto simp: bind_eq_Some_iff)
  also have "\<dots> \<longleftrightarrow> i + 16 \<le> length b \<and> (k = 0 \<or> i + 16 + 16 * k \<le> length b)"
    by (simp add: Suc.IH rd_entry_iff)
  finally show ?case by auto
qed

section \<open>The file system over any allocator\<close>

text \<open>
  What get_file and load_fs do to a heap that keeps the allocator's contract: on failure they
  give back everything they allocated, on success exactly the blocks of the result are new.
\<close>

locale fs_heap = c_heap
begin

lemma get_file_failure_no_leak:
  assumes h: "hinv h" and r: "get_file H h fs fname = Some (ret, f, h')" and neg: "ret \<noteq> 0"
  shows "ret = - 1 \<and> f = None \<and> hinv h' \<and> live h' = live h"
proof (cases fs)
  case None
  with r h show ?thesis by (simp add: get_file_def)
next
  case (Some c)
  obtain p h1 where m: "h_malloc H h sizeof_FSFile = (p, h1)" by fastforce
  have sz: "sizeof_FSFile < 2 ^ 64" by (simp add: sizeof_FSFile_def)
  show ?thesis
  proof (cases "p = 0")
    case True
    with r Some m malloc_inv [OF h sz m] malloc_null [OF h sz] show ?thesis by (simp add: get_file_def)
  next
    case False
    from malloc_free_restores [OF h sz m False] obtain h2 where
      "h_free H h1 p = Some h2" "hinv h2" "live h2 = live h" by blast
    with r Some m False neg show ?thesis
      by (auto simp: get_file_def bind_eq_Some_iff split: option.splits)
  qed
qed

lemma get_file_success_alloc:
  assumes h: "hinv h" and r: "get_file H h fs fname = Some (0, f, h')"
  shows "\<exists>p k. live h p = None \<and> sizeof_FSFile \<le> k \<and> hinv h' \<and> live h' = (live h)(p \<mapsto> k) \<and> f \<noteq> None"
proof -
  from r obtain c where c: "fs = Some c" by (cases fs) (auto simp: get_file_def)
  obtain p h1 where m: "h_malloc H h sizeof_FSFile = (p, h1)" by fastforce
  have sz: "sizeof_FSFile < 2 ^ 64" by (simp add: sizeof_FSFile_def)
  from r c m have p: "p \<noteq> 0" "h' = h1" "f \<noteq> None"
    by (auto simp: get_file_def bind_eq_Some_iff split: option.splits if_splits)
  with malloc_fresh [OF h sz m p(1)] malloc_inv [OF h sz m] show ?thesis by blast
qed

lemma load_fs_failure_no_leak:
  assumes h: "hinv h" and r: "load_fs H h fs buf buflen = Some (ret, fs', h')" and neg: "ret \<noteq> 0"
  shows "ret = - 1 \<and> fs' = fs \<and> hinv h' \<and> live h' = live h"
proof (cases "fs = None \<or> buf = None")
  case True
  with r h show ?thesis by (auto simp: load_fs_def split: option.splits)
next
  case False
  then obtain old b where ob: "fs = Some old" "buf = Some b" by auto
  obtain np h1 where m1: "h_malloc H h sizeof_node = (np, h1)" by fastforce
  obtain cp h2 where m2: "h_malloc H h1 sizeof_cfs = (cp, h2)" by fastforce
  have sz: "sizeof_node < 2 ^ 64" "sizeof_cfs < 2 ^ 64" by (simp_all add: sizeof_node_def sizeof_cfs_def)
  note i1 = malloc_inv [OF h sz(1) m1]
  note i2 = malloc_inv [OF i1 sz(2) m2]
  show ?thesis
  proof (cases "np = 0")
    case True
    with r ob m1 i1 malloc_null [OF h sz(1)] show ?thesis by (simp add: load_fs_def)
  next
    case np: False
    show ?thesis
    proof (cases "cp = 0")
      case True
      obtain k where k: "live h np = None" "live h1 = (live h)(np \<mapsto> k)"
        using malloc_fresh [OF h sz(1) m1 np] by blast
      have l2: "live h2 = live h1" using malloc_null [OF i1 sz(2)] m2 True by simp
      with k have "live h2 np = Some k" by simp
      from free_live [OF i2 this] obtain h3 where "h_free H h2 np = Some h3" "hinv h3" "live h3 = (live h2)(np := None)"
        by blast
      with r ob m1 m2 np True k l2 show ?thesis by (auto simp: load_fs_def fun_upd_idem)
    next
      case cp: False
      from r ob m1 m2 np cp obtain count where cnt: "rd_u32 b 0 = Some count" "count \<noteq> 0"
        using neg by (auto simp: load_fs_def bind_eq_Some_iff split: if_splits)
      obtain fp h3 where m3: "h_malloc H h2 (sizeof_entry * unat count) = (fp, h3)" by fastforce
      have s3: "sizeof_entry * unat count < 2 ^ 64" using unat_u32_bound [of count] by (simp add: sizeof_entry_def)
      have fp: "fp = 0" using r ob m1 m2 m3 np cp cnt neg by (auto simp: load_fs_def bind_eq_Some_iff split: if_splits)
      have i3: "hinv h3" "live h3 = live h2" using malloc_inv [OF i2 s3 m3] malloc_null [OF i2 s3] m3 fp by auto
      from malloc_malloc_free_free_restores [OF h sz(1) m1 np sz(2) m2 cp i3] obtain h4 h5 where
        "h_free H h3 np = Some h4" "h_free H h4 cp = Some h5" "hinv h5" "live h5 = live h" by blast
      with r ob m1 m2 m3 np cp cnt fp show ?thesis by (auto simp: load_fs_def)
    qed
  qed
qed

lemma load_fs_transaction:
  assumes h: "hinv h" and b: "4 \<le> length b" "4 + 16 * le_nat (take 4 b) \<le> length b"
  shows "\<exists>ret fs' h'. load_fs H h (Some old) (Some b) buflen = Some (ret, fs', h') \<and> hinv h' \<and>
    (ret = 0 \<and> (\<exists>node. fs' = Some (Some (CellFileSystem (Some node) old)) \<and> unat (node_count node) = le_nat (take 4 b)) \<or>
     ret = - 1 \<and> fs' = Some old \<and> live h' = live h)"
proof -
  define n where "n = le_nat (take 4 b)"
  have "n < 256 ^ 4" using le_nat_bound [of "take 4 b"] b(1) by (simp add: n_def)
  then have n: "n < 2 ^ 32" by simp
  have cnt: "rd_u32 b 0 = Some (of_nat n)"
    using b(1) by (simp add: rd_u32_def rd_bytes_def n_def)
  obtain es where es: "rd_entries b 4 n = Some es"
    using rd_entries_iff [of b 4 n] b(2) by (auto simp: n_def)
  obtain np h1 where m1: "h_malloc H h sizeof_node = (np, h1)" by fastforce
  obtain cp h2 where m2: "h_malloc H h1 sizeof_cfs = (cp, h2)" by fastforce
  obtain fp h3 where m3: "h_malloc H h2 (sizeof_entry * n) = (fp, h3)" by fastforce
  have sz: "sizeof_node < 2 ^ 64" "sizeof_cfs < 2 ^ 64" "sizeof_entry * n < 2 ^ 64"
    using n by (simp_all add: sizeof_node_def sizeof_cfs_def sizeof_entry_def)
  note i1 = malloc_inv [OF h sz(1) m1]
  note i2 = malloc_inv [OF i1 sz(2) m2]
  note i3 = malloc_inv [OF i2 sz(3) m3]
  have "\<exists>r. load_fs H h (Some old) (Some b) buflen = Some r"
  proof (cases "np \<noteq> 0 \<and> cp \<noteq> 0 \<and> fp \<noteq> 0 \<or> np = 0 \<or> n = 0 \<and> cp \<noteq> 0")
    case True
    with m1 m2 m3 cnt es of_nat_u32_eq_0 [OF n] unat_of_nat_u32 [OF n] show ?thesis
      by (auto simp: load_fs_def)
  next
    case False
    then have np: "np \<noteq> 0" by auto
    show ?thesis
    proof (cases "cp = 0")
      case True
      obtain k where k: "live h np = None" "live h1 = (live h)(np \<mapsto> k)"
        using malloc_fresh [OF h sz(1) m1 np] by blast
      have "live h2 = live h1" using malloc_null [OF i1 sz(2)] m2 True by simp
      with k have "live h2 np = Some k" by simp
      from free_live [OF i2 this] m1 m2 np True show ?thesis by (auto simp: load_fs_def)
    next
      case cp: False
      then have "fp = 0" "n \<noteq> 0" using False np by auto
      then have "hinv h3" "live h3 = live h2" using malloc_inv [OF i2 sz(3) m3] malloc_null [OF i2 sz(3)] m3 by auto
      from malloc_malloc_free_free_restores [OF h sz(1) m1 np sz(2) m2 cp this]
        m1 m2 m3 np cp cnt \<open>fp = 0\<close> \<open>n \<noteq> 0\<close> of_nat_u32_eq_0 [OF n] unat_of_nat_u32 [OF n]
      show ?thesis by (auto simp: load_fs_def)
    qed
  qed
  then obtain ret fs' h' where r: "load_fs H h (Some old) (Some b) buflen = Some (ret, fs', h')"
    by (metis prod_cases3)
  show ?thesis
  proof (cases "ret = 0")
    case True
    with r m1 m2 m3 cnt es i2 i3 of_nat_u32_eq_0 [OF n] unat_of_nat_u32 [OF n]
    have "hinv h' \<and> (\<exists>node. fs' = Some (Some (CellFileSystem (Some node) old)) \<and> unat (node_count node) = n)"
      by (auto simp: load_fs_def bind_eq_Some_iff split: if_splits)
    with r True show ?thesis by (simp add: n_def)
  next
    case False
    with load_fs_failure_no_leak [OF h r] r show ?thesis by simp
  qed
qed

end

section \<open>Properties\<close>

text \<open>
  C6. A file system image written by the packer and mounted by load_fs is looked up
  correctly: for every C string name, get_file opens the packed content of that name, byte for
  byte, and a name that was not packed is looked up in the images mounted before (and is not
  found when there are none). Any bytes may follow the image in the buffer.
\<close>

theorem get_file_after_load_fs_of_pack:
  assumes "pack_fs files = Some img"
    and "load_fs H h (Some old) (Some (img @ slack)) buflen = Some (0, Some (Some c), h1)"
    and "cstr fname = Some nm"
    and "h_malloc H h1 sizeof_FSFile = (p, h2)" "p \<noteq> 0"
  shows "case map_of files nm of
           Some ct \<Rightarrow> \<exists>f. get_file H h1 (Some c) fname = Some (0, Some f, h2) \<and>
                        file_bytes f = Some ct \<and> ff_filename f = fname \<and> ff_rc f = 1
         | None \<Rightarrow> get_file H h1 (Some c) fname =
                     (case old of Some o' \<Rightarrow> get_file H h1 (Some o') fname
                      | None \<Rightarrow> map_option (\<lambda>h3. (- 1, None, h3)) (h_free H h2 p))"
proof -
  have c: "c = CellFileSystem (Some (packed_node files (img @ slack))) old"
    using load_fs_packed [OF assms(1,2)] by simp
  note w = walk_fs_packed [OF assms(1,3), of slack old]
  show ?thesis
  proof (cases "map_of files nm")
    case None
    then have "map_of (zip (map fst files) (packed_entries 0 files)) nm = None"
      by (simp only: packed_no_entry)
    with w None assms(4,5) show ?thesis
      by (cases "h_free H h2 p") (simp_all add: get_file_def c split: option.split)
  next
    case (Some ct)
    then obtain e where e: "map_of (zip (map fst files) (packed_entries 0 files)) nm = Some e"
      using packed_no_entry [of files 0 nm] by fastforce
    from packed_file_content [OF assms(1) e, of slack] Some w e assms(4,5) show ?thesis
      by (auto simp: get_file_def c file_bytes_def)
  qed
qed

text \<open>
  The heap of the witnesses: it hands out fresh addresses and forgets what is freed. (The
  allocator the program runs on is modelled in theory Malloc.)
\<close>

definition bump_heap :: "nat heap_ops" where
  "bump_heap = \<lparr>h_malloc = (\<lambda>h n. (h + 16, h + 16 + n)), h_free = (\<lambda>h p. Some h)\<rparr>"

text \<open>main.js with content hi, and a.bc with empty content.\<close>

definition demo_files :: "(bytes \<times> bytes) list" where
  "demo_files = [([109, 46, 106, 115], [104, 105]), ([97, 46, 98, 99], [])]"

definition demo_image :: bytes where
  "demo_image =
     [2, 0, 0, 0,  0, 0, 0, 0,  5, 0, 0, 0,  5, 0, 0, 0,  2, 0, 0, 0,
      8, 0, 0, 0,  5, 0, 0, 0,  13, 0, 0, 0,  0, 0, 0, 0,
      109, 46, 106, 115, 0, 104, 105, 0,  97, 46, 98, 99, 0, 0]"

definition demo_fs :: CellFileSystem where
  "demo_fs = CellFileSystem (Some (packed_node demo_files (demo_image @ [7]))) None"

lemma pack_demo: "pack_fs demo_files = Some demo_image"
  by (simp add: pack_fs_def demo_files_def demo_image_def lua_I4_def lua_z_def strz_def nat_le_4)

lemma load_demo:
  "load_fs bump_heap 0 (Some None) (Some (demo_image @ [7])) 0 = Some (0, Some (Some demo_fs), 120)"
  by code_simp

lemma get_file_after_load_fs_of_pack_witness:
  "\<exists>f. get_file bump_heap 120 (Some demo_fs) [109, 46, 106, 115, 0] = Some (0, Some f, 160) \<and>
       file_bytes f = Some [104, 105] \<and> ff_filename f = [109, 46, 106, 115, 0] \<and> ff_rc f = 1"
proof -
  have m: "h_malloc bump_heap 120 sizeof_FSFile = (136, 160)"
    by (simp add: bump_heap_def sizeof_FSFile_def)
  have s: "cstr [109, 46, 106, 115, 0] = Some [109, 46, 106, 115]" by simp
  have "map_of demo_files [109, 46, 106, 115] = Some [104, 105]"
    by (simp add: demo_files_def)
  then show ?thesis
    using get_file_after_load_fs_of_pack [OF pack_demo load_demo s m] by simp
qed

text \<open>
  C10. get_file refines a lookup in the association list of all mounted names, newest image
  first: on a stack whose names are all C strings of their buffers it returns the first entry
  of that name, and -1 (after freeing the FSFile it had allocated) when there is none.
\<close>

theorem get_file_refines_lookup:
  assumes "fs_view c = Some l" "cstr fname = Some nm"
    and "h_malloc H h sizeof_FSFile = (p, h1)" "p \<noteq> 0"
  shows "get_file H h (Some c) fname =
     (case map_of l nm of
        None \<Rightarrow> map_option (\<lambda>h2. (- 1, None, h2)) (h_free H h1 p)
      | Some (node, e) \<Rightarrow>
          map_option (\<lambda>st. (0, Some \<lparr>ff_filename = fname, ff_content = st,
                                ff_size = blob_length (entry_content e), ff_rc = 1\<rparr>, h1))
            (cptr_add (node_start node) (unat (blob_offset (entry_content e)))))"
  using walk_fs_view [OF assms(2,1)] assms(3,4)
  by (cases "h_free H h1 p") (auto simp: get_file_def bind_eq_Some_iff map_option_case
      split: option.split)

lemma demo_view: "\<exists>l. fs_view demo_fs = Some l \<and> map_of l [120] = None"
  using node_view_packed [OF pack_demo, of "[7]"]
  by (simp add: demo_fs_def demo_files_def)

lemma get_file_refines_lookup_witness:
  "get_file bump_heap 0 (Some demo_fs) [120, 0] = Some (- 1, None, 40)"
proof -
  obtain l where l: "fs_view demo_fs = Some l" "map_of l [120] = None"
    using demo_view by blast
  have m: "h_malloc bump_heap 0 sizeof_FSFile = (16, 40)"
    by (simp add: bump_heap_def sizeof_FSFile_def)
  have s: "cstr [120, 0] = Some [120]" by simp
  show ?thesis
    using get_file_refines_lookup [OF l(1) s m] l(2) by (simp add: bump_heap_def)
qed



end
