(* ===== verification/Js_Number.thy ===== *)
theory Js_Number
  imports Ckb_Prelude
begin

text \<open>
  The conversions of JavaScript values to machine integers of quickjs/quickjs.c, which every
  binding of ckb_module.c puts its arguments through: JS_ToNumber, JS_ToInt32, JS_ToInt64 and
  the saturating and clamping variants.

  A double is its 64 bits. What the C code does with a double as a number (the cast to an
  integer, comparison with integer bounds) is computed from the bits; the cast of a value that
  the integer type cannot hold is undefined in C and the value \<^const>\<open>None\<close> here. Conversion of
  objects (which runs JavaScript code), parsing of strings and the conversion of libbf's
  numbers are operations of the parameter record js_conv.
\<close>

section \<open>Doubles\<close>

definition f64_sign :: "u64 \<Rightarrow> bool" where "f64_sign b = bit b 63"
definition f64_exp :: "u64 \<Rightarrow> nat" where "f64_exp b = unat (drop_bit 52 b AND 0x7ff)"
definition f64_frac :: "u64 \<Rightarrow> u64" where "f64_frac b = b AND (2 ^ 52 - 1)"

definition isnan :: "u64 \<Rightarrow> bool" where
  "isnan b \<longleftrightarrow> f64_exp b = 2047 \<and> f64_frac b \<noteq> 0"

text \<open>The magnitude of a finite double is \<open>f64_mant b * 2 ^ (max 1 (f64_exp b)) / 2 ^ 1075\<close>.\<close>

definition f64_mant :: "u64 \<Rightarrow> nat" where
  "f64_mant b = unat (f64_frac b) + (if f64_exp b = 0 then 0 else 2 ^ 52)"

definition f64_trunc :: "u64 \<Rightarrow> int" where
  \<comment> \<open>the value rounded towards zero\<close>
  "f64_trunc b =
     (let m = (if 1075 \<le> f64_exp b then f64_mant b * 2 ^ (f64_exp b - 1075)
               else f64_mant b div 2 ^ (1075 - max 1 (f64_exp b)))
      in if f64_sign b then - int m else int m)"

definition f64_scaled :: "u64 \<Rightarrow> int" where
  \<comment> \<open>the value times \<open>2 ^ 1074\<close>; larger than any finite double for an infinity\<close>
  "f64_scaled b =
     (let m = int (f64_mant b) * 2 ^ (max 1 (f64_exp b) - 1) in if f64_sign b then - m else m)"

definition f64_less_int :: "u64 \<Rightarrow> int \<Rightarrow> bool" where
  "f64_less_int b k \<longleftrightarrow> \<not> isnan b \<and> f64_scaled b < k * 2 ^ 1074"

definition f64_greater_int :: "u64 \<Rightarrow> int \<Rightarrow> bool" where
  "f64_greater_int b k \<longleftrightarrow> \<not> isnan b \<and> k * 2 ^ 1074 < f64_scaled b"

definition f64_is_zero :: "u64 \<Rightarrow> bool" where
  "f64_is_zero b \<longleftrightarrow> f64_mant b = 0"

definition cast_int64 :: "u64 \<Rightarrow> u64 option" where
  "cast_int64 b =
     (if f64_exp b \<noteq> 2047 \<and> - (2 ^ 63) \<le> f64_trunc b \<and> f64_trunc b < 2 ^ 63
      then Some (word_of_int (f64_trunc b)) else None)"

definition cast_int32 :: "u64 \<Rightarrow> u32 option" where
  "cast_int32 b =
     (if f64_exp b \<noteq> 2047 \<and> - (2 ^ 31) \<le> f64_trunc b \<and> f64_trunc b < 2 ^ 31
      then Some (word_of_int (f64_trunc b)) else None)"

section \<open>Values\<close>

text \<open>
  Values by their tag. A BigFloat is opaque ('b), an object is its identity ('o). A string is
  its bytes.
\<close>

datatype ('b, 'o) jsval =
    JInt u32
  | JBool bool
  | JNull
  | JUndefined
  | JFloat64 u64
  | JBigInt int
  | JBigFloat 'b
  | JBigDecimal 'b
  | JString bytes
  | JSymbol nat
  | JObject 'o
  | JException

record ('b, 'o) js_conv =
  js_to_primitive :: "'o \<Rightarrow> ('b, 'o) jsval"
  js_string_to_number :: "bytes \<Rightarrow> ('b, 'o) jsval"
  bf_get_int64_mod :: "'b \<Rightarrow> u64"
  bf_get_int32_mod :: "'b \<Rightarrow> u32"
  bf_get_int64_sat :: "'b \<Rightarrow> u64"
  bf_get_int32_sat :: "'b \<Rightarrow> u32"

definition JS_NAN :: u64 where "JS_NAN = 0x7ff8000000000000"

text \<open>The integer that JS_VALUE_GET_INT reads for the tags up to JS_TAG_UNDEFINED.\<close>

fun js_get_int :: "('b, 'o) jsval \<Rightarrow> u32" where
  "js_get_int (JInt n) = n"
| "js_get_int (JBool b) = of_bool b"
| "js_get_int _ = 0"

datatype js_to_number_hint = TON_FLAG_NUMBER | TON_FLAG_NUMERIC

text \<open>
  JS_ToNumberHintFree. The redo after JS_ToPrimitiveFree meets a primitive value: an object
  there would be converted again and again.
\<close>

fun to_number_prim :: "('b, 'o) js_conv \<Rightarrow> js_to_number_hint \<Rightarrow> ('b, 'o) jsval \<Rightarrow> ('b, 'o) jsval option" where
  "to_number_prim E flag (JBigDecimal d) = Some (if flag \<noteq> TON_FLAG_NUMERIC then JException else JBigDecimal d)"
| "to_number_prim E flag (JBigInt n) = Some (if flag \<noteq> TON_FLAG_NUMERIC then JException else JBigInt n)"
| "to_number_prim E flag (JBigFloat f) = Some (if flag \<noteq> TON_FLAG_NUMERIC then JException else JBigFloat f)"
| "to_number_prim E flag (JFloat64 d) = Some (JFloat64 d)"
| "to_number_prim E flag (JInt n) = Some (JInt n)"
| "to_number_prim E flag JException = Some JException"
| "to_number_prim E flag (JBool b) = Some (JInt (of_bool b))"
| "to_number_prim E flag JNull = Some (JInt 0)"
| "to_number_prim E flag JUndefined = Some (JFloat64 JS_NAN)"
| "to_number_prim E flag (JString s) = Some (js_string_to_number E s)"
| "to_number_prim E flag (JSymbol x) = Some JException"
| "to_number_prim E flag (JObject x) = None"

definition JS_ToNumberHintFree ::
    "('b, 'o) js_conv \<Rightarrow> js_to_number_hint \<Rightarrow> ('b, 'o) jsval \<Rightarrow> ('b, 'o) jsval option" where
  "JS_ToNumberHintFree E flag v =
     (case v of
        JObject x \<Rightarrow>
          (case js_to_primitive E x of JException \<Rightarrow> Some JException | p \<Rightarrow> to_number_prim E flag p)
      | _ \<Rightarrow> to_number_prim E flag v)"

definition JS_ToNumberFree :: "('b, 'o) js_conv \<Rightarrow> ('b, 'o) jsval \<Rightarrow> ('b, 'o) jsval option" where
  "JS_ToNumberFree E v = JS_ToNumberHintFree E TON_FLAG_NUMBER v"

section \<open>JS_ToInt64 and JS_ToInt32\<close>

definition float_to_int64 :: "u64 \<Rightarrow> u64 option" where
  "float_to_int64 u =
     (let e = f64_exp u in
      if e \<le> 1023 + 62 then cast_int64 u
      else if e \<le> 1023 + 62 + 53 then
        (let v = (u AND (push_bit 52 1 - 1)) OR push_bit 52 1;
             ret = push_bit ((e - 1023) - 52) v
         in Some (if drop_bit 63 u \<noteq> 0 then - ret else ret))
      else Some 0)"

definition float_to_int32 :: "u64 \<Rightarrow> u32 option" where
  "float_to_int32 u =
     (let e = f64_exp u in
      if e \<le> 1023 + 30 then cast_int32 u
      else if e \<le> 1023 + 30 + 53 then
        (let v = (u AND (push_bit 52 1 - 1)) OR push_bit 52 1;
             v' = push_bit ((e - 1023) + 32 - 52) v;
             ret = ucast (drop_bit 32 v')
         in Some (if drop_bit 63 u \<noteq> 0 then - ret else ret))
      else Some 0)"

text \<open>
  The switch of both functions: \<open>num\<close> converts a double, \<open>big\<close> a BigFloat, and any other value goes
  through JS_ToNumberFree and back to the switch. The result is the return code and the value
  stored through pres. The redo is taken twice at most when JS_ToNumberFree does what it
  should (lemma \<open>js_to_int_total\<close>); \<^const>\<open>None\<close> is a third time.
\<close>

fun js_to_int_redo ::
    "nat \<Rightarrow> ('b, 'o) js_conv \<Rightarrow> (u32 \<Rightarrow> ('w :: zero)) \<Rightarrow> (u64 \<Rightarrow> 'w option) \<Rightarrow> ('b \<Rightarrow> 'w) \<Rightarrow> ('b, 'o) jsval \<Rightarrow>
     (int \<times> 'w) option" where
  "js_to_int_redo k E small num big (JFloat64 d) = map_option (Pair 0) (num d)"
| "js_to_int_redo k E small num big (JBigFloat f) = Some (0, big f)"
| "js_to_int_redo k E small num big (JInt n) = Some (0, small n)"
| "js_to_int_redo k E small num big (JBool b) = Some (0, small (of_bool b))"
| "js_to_int_redo k E small num big JNull = Some (0, small 0)"
| "js_to_int_redo k E small num big JUndefined = Some (0, small 0)"
| "js_to_int_redo 0 E small num big v = None"
| "js_to_int_redo (Suc k) E small num big v =
     (case JS_ToNumberFree E v of
        None \<Rightarrow> None
      | Some JException \<Rightarrow> Some (- 1, 0)
      | Some w \<Rightarrow> js_to_int_redo k E small num big w)"

definition js_to_int ::
    "('b, 'o) js_conv \<Rightarrow> (u32 \<Rightarrow> ('w :: zero)) \<Rightarrow> (u64 \<Rightarrow> 'w option) \<Rightarrow> ('b \<Rightarrow> 'w) \<Rightarrow> ('b, 'o) jsval \<Rightarrow>
     (int \<times> 'w) option" where
  "js_to_int E small num big v = js_to_int_redo 2 E small num big v"

definition JS_ToInt64 :: "('b, 'o) js_conv \<Rightarrow> ('b, 'o) jsval \<Rightarrow> (int \<times> u64) option" where
  "JS_ToInt64 E v = js_to_int E scast float_to_int64 (bf_get_int64_mod E) v"

definition JS_ToInt32 :: "('b, 'o) js_conv \<Rightarrow> ('b, 'o) jsval \<Rightarrow> (int \<times> u32) option" where
  "JS_ToInt32 E v = js_to_int E (\<lambda>n. n) float_to_int32 (bf_get_int32_mod E) v"

definition JS_ToUint32 :: "('b, 'o) js_conv \<Rightarrow> ('b, 'o) jsval \<Rightarrow> (int \<times> u32) option" where
  "JS_ToUint32 E v = JS_ToInt32 E v"

section \<open>The saturating variants\<close>

definition float_to_int32_sat :: "u64 \<Rightarrow> u32 option" where
  "float_to_int32_sat d =
     (if isnan d then Some 0
      else if f64_less_int d (- (2 ^ 31)) then Some (word_of_int (- (2 ^ 31)))
      else if f64_greater_int d (2 ^ 31 - 1) then Some (word_of_int (2 ^ 31 - 1))
      else cast_int32 d)"

text \<open>INT64_MAX is converted to a double for the comparison, and rounds to \<open>2 ^ 63\<close>.\<close>

definition float_to_int64_sat :: "u64 \<Rightarrow> u64 option" where
  "float_to_int64_sat d =
     (if isnan d then Some 0
      else if f64_less_int d (- (2 ^ 63)) then Some (word_of_int (- (2 ^ 63)))
      else if f64_greater_int d (2 ^ 63) then Some (word_of_int (2 ^ 63 - 1))
      else cast_int64 d)"

definition JS_ToInt32Sat :: "('b, 'o) js_conv \<Rightarrow> ('b, 'o) jsval \<Rightarrow> (int \<times> u32) option" where
  "JS_ToInt32Sat E v =
     (if v = JException then Some (- 1, 0)
      else js_to_int E (\<lambda>n. n) float_to_int32_sat (bf_get_int32_sat E) v)"

definition JS_ToInt64Sat :: "('b, 'o) js_conv \<Rightarrow> ('b, 'o) jsval \<Rightarrow> (int \<times> u64) option" where
  "JS_ToInt64Sat E v =
     (if v = JException then Some (- 1, 0)
      else js_to_int E scast float_to_int64_sat (bf_get_int64_sat E) v)"

definition JS_ToInt32Clamp ::
    "('b, 'o) js_conv \<Rightarrow> ('b, 'o) jsval \<Rightarrow> u32 \<Rightarrow> u32 \<Rightarrow> u32 \<Rightarrow> (int \<times> u32) option" where
  "JS_ToInt32Clamp E v mn mx min_offset =
     (case JS_ToInt32Sat E v of
        None \<Rightarrow> None
      | Some (res, p) \<Rightarrow>
          Some (res,
            if res = 0 then
              (if p <s mn then (let q = p + min_offset in if q <s mn then mn else q)
               else if mx <s p then mx else p)
            else p))"

definition JS_ToInt64Clamp ::
    "('b, 'o) js_conv \<Rightarrow> ('b, 'o) jsval \<Rightarrow> u64 \<Rightarrow> u64 \<Rightarrow> u64 \<Rightarrow> (int \<times> u64) option" where
  "JS_ToInt64Clamp E v mn mx neg_offset =
     (case JS_ToInt64Sat E v of
        None \<Rightarrow> None
      | Some (res, p) \<Rightarrow>
          Some (res,
            if res = 0 then
              (let q = (if p <s 0 then p + neg_offset else p)
               in if q <s mn then mn else if mx <s q then mx else q)
            else p))"

definition JS_ToBool :: "('o \<Rightarrow> bool) \<Rightarrow> ('b \<Rightarrow> bool) \<Rightarrow> ('b, 'o) jsval \<Rightarrow> int" where
  \<comment> \<open>the parameters: is_HTMLDDA of an object, and whether a number of libbf is neither zero nor NaN\<close>
  "JS_ToBool htmldda bf_true v =
     (case v of
        JInt n \<Rightarrow> of_bool (n \<noteq> 0)
      | JBool b \<Rightarrow> of_bool b
      | JNull \<Rightarrow> 0
      | JUndefined \<Rightarrow> 0
      | JException \<Rightarrow> - 1
      | JString s \<Rightarrow> of_bool (length s \<noteq> 0)
      | JBigInt n \<Rightarrow> of_bool (n \<noteq> 0)
      | JBigFloat f \<Rightarrow> of_bool (bf_true f)
      | JBigDecimal f \<Rightarrow> of_bool (bf_true f)
      | JObject x \<Rightarrow> of_bool (\<not> htmldda x)
      | JFloat64 d \<Rightarrow> of_bool (\<not> isnan d \<and> \<not> f64_is_zero d)
      | JSymbol x \<Rightarrow> 1)"

section \<open>The bits of a double\<close>

lemma f64_frac_take_bit: "f64_frac b = take_bit 52 b"
  by (simp add: f64_frac_def take_bit_eq_mask mask_eq_exp_minus_1)

lemma f64_frac_bound: "unat (f64_frac b) < 2 ^ 52"
  unfolding f64_frac_take_bit unsigned_take_bit_eq by (rule take_bit_nat_less_exp)

lemma f64_mant_bound: "f64_mant b < 2 ^ 53"
  using f64_frac_bound [of b] by (simp add: f64_mant_def)

lemma f64_exp_bound: "f64_exp b < 2048"
proof -
  have m: "(2047 :: u64) = mask 11" by (simp add: mask_eq_exp_minus_1)
  have "drop_bit 52 b AND 2047 = take_bit 11 (drop_bit 52 b)"
    unfolding m by (simp only: take_bit_eq_mask)
  then have "f64_exp b = take_bit 11 (unat (drop_bit 52 b))"
    by (simp only: f64_exp_def unsigned_take_bit_eq)
  also have "\<dots> < 2 ^ 11" by (rule take_bit_nat_less_exp)
  finally show ?thesis by simp
qed

lemma f64_mant_word:
  assumes "f64_exp u \<noteq> 0"
  shows "(u AND (push_bit 52 1 - 1)) OR push_bit 52 1 = of_nat (f64_mant u)"
proof -
  have a: "u AND (push_bit 52 1 - 1) = f64_frac u" by (simp add: f64_frac_def)
  have "f64_frac u AND push_bit 52 1 = 0"
    unfolding f64_frac_take_bit by (rule bit_word_eqI) (simp only: bit_simps, auto)
  then have "f64_frac u + push_bit 52 1 = f64_frac u OR push_bit 52 1"
    by (rule disjunctive_add_eq_or)
  moreover have "of_nat (f64_mant u) = f64_frac u + push_bit 52 1"
    using assms by (simp add: f64_mant_def)
  ultimately show ?thesis unfolding a by (simp only:)
qed

lemma f64_sign_bit: "drop_bit 63 u \<noteq> 0 \<longleftrightarrow> f64_sign (u :: u64)"
proof
  assume "drop_bit 63 u \<noteq> 0"
  then obtain n where "bit (drop_bit 63 u) n" by (metis bit_0_eq bot_apply bot_bool_def bit_eq_iff)
  then have "bit u (63 + n)" by (simp add: bit_simps)
  moreover from this have "63 + n < 64" using bit_imp_le_length [of u "63 + n"] by simp
  ultimately show "f64_sign u" by (simp add: f64_sign_def)
next
  assume "f64_sign u"
  then have "bit (drop_bit 63 u) 0" by (simp add: f64_sign_def bit_simps)
  then show "drop_bit 63 u \<noteq> 0" by auto
qed

text \<open>The magnitude, rounded down.\<close>

definition f64_mag :: "u64 \<Rightarrow> nat" where
  "f64_mag b = (if 1075 \<le> f64_exp b then f64_mant b * 2 ^ (f64_exp b - 1075)
                else f64_mant b div 2 ^ (1075 - max 1 (f64_exp b)))"

lemma f64_trunc_mag: "f64_trunc b = (if f64_sign b then - int (f64_mag b) else int (f64_mag b))"
  by (simp add: f64_trunc_def f64_mag_def Let_def)

lemma word_of_trunc: "word_of_int (f64_trunc b) = (if f64_sign b then - of_nat (f64_mag b) else of_nat (f64_mag b))"
  by (simp add: f64_trunc_mag)

lemma f64_mag_bound:
  assumes "f64_exp u \<le> 1075 + k"
  shows "f64_mag u < 2 ^ (53 + k)"
proof (cases "1075 \<le> f64_exp u")
  case True
  have "f64_mant u * 2 ^ (f64_exp u - 1075) < 2 ^ 53 * 2 ^ (f64_exp u - 1075)"
    using f64_mant_bound by simp
  also have "\<dots> \<le> 2 ^ 53 * 2 ^ k" using assms by (intro mult_le_mono2 power_increasing) auto
  finally show ?thesis using True by (simp add: f64_mag_def power_add)
next
  case False
  have "f64_mant u div 2 ^ (1075 - max 1 (f64_exp u)) \<le> f64_mant u" by (rule div_le_dividend)
  also have "\<dots> < 2 ^ 53" by (rule f64_mant_bound)
  also have "(2 :: nat) ^ 53 \<le> 2 ^ (53 + k)" by (rule power_increasing) auto
  finally show ?thesis using False by (simp add: f64_mag_def)
qed

lemma f64_mag_small:
  assumes "f64_exp u \<le> 1053"
  shows "f64_mag u < 2 ^ 31"
proof -
  have "(2 :: nat) ^ 22 \<le> 2 ^ (1075 - max 1 (f64_exp u))" using assms by (intro power_increasing) auto
  then have "f64_mant u div 2 ^ (1075 - max 1 (f64_exp u)) \<le> f64_mant u div 2 ^ 22"
    by (rule div_le_mono2 [rotated]) simp
  also have "\<dots> < 2 ^ 31" using f64_mant_bound [of u] by (simp add: less_mult_imp_div_less)
  finally show ?thesis using assms by (simp add: f64_mag_def)
qed

lemma word_pow_zero: "LENGTH('a :: len) \<le> k \<Longrightarrow> of_nat (n * 2 ^ k) = (0 :: 'a word)"
proof -
  assume "LENGTH('a) \<le> k"
  then have "(2 :: 'a word) ^ k = 0" by (simp add: exp_eq_zero_iff)
  then show ?thesis by (simp only: of_nat_mult of_nat_power of_nat_numeral mult_zero_right)
qed

section \<open>Conversion of doubles to integers\<close>

text \<open>The remainder modulo \<open>2 ^ 64\<close> of the value rounded towards zero, 0 for NaN and infinities.\<close>

lemma float_to_int64_mod:
  "float_to_int64 u = Some (if f64_exp u = 2047 then 0 else word_of_int (f64_trunc u))"
proof (cases "f64_exp u \<le> 1085")
  case True
  with f64_mag_bound [of u 10] show ?thesis
    by (simp add: float_to_int64_def cast_int64_def f64_trunc_mag)
next
  case big: False
  let ?k = "f64_exp u - 1075"
  have mag: "f64_mag u = f64_mant u * 2 ^ ?k" using big by (simp add: f64_mag_def)
  show ?thesis
  proof (cases "f64_exp u \<le> 1138")
    case True
    have "push_bit ?k ((u AND (push_bit 52 1 - 1)) OR push_bit 52 1) = of_nat (f64_mag u)"
      using big by (subst f64_mant_word) (simp_all add: push_bit_eq_mult mag)
    with True big f64_sign_bit [of u] show ?thesis
      unfolding float_to_int64_def Let_def word_of_trunc by simp
  next
    case False
    then have "LENGTH(64) \<le> ?k" by simp
    from word_pow_zero [OF this, of "f64_mant u"] False show ?thesis unfolding word_of_trunc mag
      by (simp add: float_to_int64_def del: of_nat_mult)
  qed
qed

lemma shift_32: "(2 :: nat) ^ 32 = 2 ^ k * 2 ^ (32 - k)" if "k \<le> 32"
  using that by (simp flip: power_add)

lemma div_mod_mult: "0 < a \<Longrightarrow> (x mod (a * b)) div a = (x div a) mod (b :: nat)"
  by (simp add: mod_mult2_eq)

lemma div_mod_32: "(x mod 2 ^ 64) div 2 ^ 32 = (x div 2 ^ 32) mod (2 ^ 32 :: nat)"
  using div_mod_mult [of "2 ^ 32" x "2 ^ 32"] by simp

lemma float_to_int32_mod:
  "float_to_int32 u = Some (if f64_exp u = 2047 then 0 else word_of_int (f64_trunc u))"
proof (cases "f64_exp u \<le> 1053")
  case True
  with f64_mag_small [OF True] show ?thesis
    by (simp add: float_to_int32_def cast_int32_def f64_trunc_mag)
next
  case big: False
  define v :: u64 where "v = (u AND (push_bit 52 1 - 1)) OR push_bit 52 1"
  have v: "v = of_nat (f64_mant u)" unfolding v_def using big by (intro f64_mant_word) simp
  show ?thesis
  proof (cases "f64_exp u \<le> 1106")
    case True
    define k where "k = f64_exp u - 1043"
    have k: "11 \<le> k" "k \<le> 63" using True big by (auto simp: k_def)
    have "push_bit k v = of_nat (f64_mant u * 2 ^ k)" by (simp add: v push_bit_eq_mult)
    then have "unat (push_bit k v) = (f64_mant u * 2 ^ k) mod 2 ^ 64"
      by (simp only: unat_of_nat) simp
    moreover have "(f64_mant u * 2 ^ k) div 2 ^ 32 = f64_mag u"
    proof (cases "32 \<le> k")
      case True
      then have "(2 :: nat) ^ k = 2 ^ (k - 32) * 2 ^ 32" by (simp only: power_add [symmetric]) simp
      moreover have "1075 \<le> f64_exp u" "k - 32 = f64_exp u - 1075" using True by (auto simp: k_def)
      ultimately show ?thesis
        by (simp only: f64_mag_def if_True mult.assoc [symmetric] nonzero_mult_div_cancel_right) simp
    next
      case False
      then have "\<not> 1075 \<le> f64_exp u" "32 - k = 1075 - max 1 (f64_exp u)" using big by (auto simp: k_def)
      then have "f64_mag u = f64_mant u div 2 ^ (32 - k)" by (simp only: f64_mag_def if_False)
      moreover have "(f64_mant u * 2 ^ k) div (2 ^ k * 2 ^ (32 - k)) = f64_mant u div 2 ^ (32 - k)"
        by (simp only: div_mult2_eq) simp
      moreover have "k \<le> 32" using False by simp
      ultimately show ?thesis by (simp only: shift_32)
    qed
    ultimately have d: "unat (drop_bit 32 (push_bit k v)) = f64_mag u mod 2 ^ 32"
      unfolding unat_drop_bit_eq by (simp only: drop_bit_eq_div div_mod_32)
    have "ucast (drop_bit 32 (push_bit k v)) = (of_nat (unat (drop_bit 32 (push_bit k v))) :: u32)"
      by (simp only: unsigned_of_nat of_nat_unat)
    also have "\<dots> = of_nat (f64_mag u)" unfolding d by (simp add: word_unat_eq_iff unat_of_nat)
    finally have c: "ucast (drop_bit 32 (push_bit k v)) = (of_nat (f64_mag u) :: u32)" .
    have e: "f64_exp u - 1023 + 32 - 52 = k" using big by (simp add: k_def)
    show ?thesis
      using True big f64_sign_bit [of u] unfolding float_to_int32_def Let_def word_of_trunc
      by (simp only: e v_def [symmetric] c) simp
  next
    case False
    let ?k = "f64_exp u - 1075"
    have mag: "f64_mag u = f64_mant u * 2 ^ ?k" using False by (simp add: f64_mag_def)
    have "LENGTH(32) \<le> ?k" using False by simp
    from word_pow_zero [OF this, of "f64_mant u"] False show ?thesis unfolding word_of_trunc mag
      by (simp add: float_to_int32_def del: of_nat_mult)
  qed
qed

text \<open>The exact magnitude, in units of \<open>2 ^ - 1074\<close>.\<close>

definition f64_units :: "u64 \<Rightarrow> nat" where
  "f64_units b = f64_mant b * 2 ^ (max 1 (f64_exp b) - 1)"

lemma f64_scaled_units: "f64_scaled b = (if f64_sign b then - int (f64_units b) else int (f64_units b))"
  by (simp add: f64_scaled_def f64_units_def Let_def)

lemma f64_mag_units: "f64_mag b = f64_units b div 2 ^ 1074"
proof (cases "1075 \<le> f64_exp b")
  case True
  then have "(2 :: nat) ^ (max 1 (f64_exp b) - 1) = 2 ^ (f64_exp b - 1075) * 2 ^ 1074"
    by (simp only: power_add [symmetric]) (simp add: max_def)
  with True show ?thesis
    by (simp only: f64_mag_def f64_units_def if_True mult.assoc [symmetric] nonzero_mult_div_cancel_right) simp
next
  case False
  define k where "k = max 1 (f64_exp b) - 1"
  have k: "k \<le> 1074" "1075 - max 1 (f64_exp b) = 1074 - k" using False by (auto simp: k_def)
  have "(2 :: nat) ^ 1074 = 2 ^ k * 2 ^ (1074 - k)" using k(1) by (simp only: power_add [symmetric]) simp
  moreover have "(f64_mant b * 2 ^ k) div (2 ^ k * 2 ^ (1074 - k)) = f64_mant b div 2 ^ (1074 - k)"
    by (simp only: div_mult2_eq) simp
  ultimately have "f64_units b div 2 ^ 1074 = f64_mant b div 2 ^ (1074 - k)"
    by (simp only: f64_units_def k_def [symmetric])
  with False k(2) show ?thesis by (simp only: f64_mag_def if_False)
qed

lemma f64_infinite_units:
  assumes "f64_exp b = 2047"
  shows "2 ^ 63 * 2 ^ 1074 < f64_units b"
proof -
  have "(2 :: nat) ^ 63 * 2 ^ 1074 = 2 ^ 1137" by (simp only: power_add [symmetric]) simp
  also have "\<dots> < 2 ^ 2098" by (rule power_strict_increasing) auto
  also have "(2 :: nat) ^ 2098 = 2 ^ 52 * 2 ^ 2046" by (simp only: power_add [symmetric]) simp
  also have "\<dots> \<le> f64_mant b * 2 ^ 2046" using assms by (intro mult_le_mono1) (simp add: f64_mant_def)
  finally show ?thesis using assms by (simp add: f64_units_def)
qed

lemma sat_cases:
  assumes m: "m = M div P" and P: "0 < (P :: nat)" and K: "0 < (K :: nat)"
  shows "K * P < M \<Longrightarrow> K \<le> m" "M \<le> K * P \<Longrightarrow> m \<le> K" "M \<le> K * P \<Longrightarrow> m = K \<longleftrightarrow> M = K * P"
proof -
  show "K * P < M \<Longrightarrow> K \<le> m" using P by (simp add: m less_eq_div_iff_mult_less_eq)
  show le: "M \<le> K * P \<Longrightarrow> m \<le> K" using P div_le_mono [of M "K * P" P] by (simp add: m)
  show "M \<le> K * P \<Longrightarrow> m = K \<longleftrightarrow> M = K * P"
    using P less_eq_div_iff_mult_less_eq [of P K M] le by (auto simp: m)
qed

lemma signed_bounds:
  assumes "0 < K * P"
  shows "(if s then - int M else int M) < - int K * int P \<longleftrightarrow> s \<and> K * P < M"
    and "int K * int P < (if s then - int M else int M) \<longleftrightarrow> \<not> s \<and> K * P < M"
    and "(if s then - int M else int M) = int K * int P \<longleftrightarrow> \<not> s \<and> M = K * P"
proof -
  have e: "int K * int P = int (K * P)" by simp
  note pos = assms [folded of_nat_0_less_iff [where 'a = int]]
  show "(if s then - int M else int M) < - int K * int P \<longleftrightarrow> s \<and> K * P < M"
    and "int K * int P < (if s then - int M else int M) \<longleftrightarrow> \<not> s \<and> K * P < M"
    and "(if s then - int M else int M) = int K * int P \<longleftrightarrow> \<not> s \<and> M = K * P"
    unfolding minus_mult_left [symmetric] e using pos by (simp_all only: split: if_splits) linarith+
qed

lemma float_to_int64_sat:
  "float_to_int64_sat d =
     (if isnan d then Some 0
      else if f64_scaled d = 2 ^ 63 * 2 ^ 1074 then None
      else Some (word_of_int (max (- (2 ^ 63)) (min (2 ^ 63 - 1) (f64_trunc d)))))"
proof (cases "isnan d")
  case nan: False
  define P :: nat where "P = 2 ^ 1074"
  have P: "0 < P" "(2 :: int) ^ 1074 = int P" by (simp_all add: P_def)
  have K: "0 < (2 :: nat) ^ 63" by simp
  let ?M = "f64_units d" and ?m = "f64_mag d"
  have m: "?m = ?M div P" unfolding P_def by (rule f64_mag_units)
  note sc = sat_cases [OF m P(1) K]
  have I: "(2 :: int) ^ 63 = int (2 ^ 63)" by simp
  have KP: "0 < (2 :: nat) ^ 63 * P" using P(1) by simp
  note sb = signed_bounds [OF KP, of "f64_sign d" ?M]
  have lt: "f64_less_int d (- (2 ^ 63)) \<longleftrightarrow> f64_sign d \<and> 2 ^ 63 * P < ?M"
    using nan unfolding f64_less_int_def f64_scaled_units P(2) I sb by blast
  have gt: "f64_greater_int d (2 ^ 63) \<longleftrightarrow> \<not> f64_sign d \<and> 2 ^ 63 * P < ?M"
    using nan unfolding f64_greater_int_def f64_scaled_units P(2) I sb by blast
  have eq: "f64_scaled d = 2 ^ 63 * 2 ^ 1074 \<longleftrightarrow> \<not> f64_sign d \<and> ?M = 2 ^ 63 * P"
    unfolding f64_scaled_units P(2) I sb by blast
  show ?thesis
  proof (cases "2 ^ 63 * P < ?M")
    case True
    with sc(1) have "2 ^ 63 \<le> ?m" by simp
    with True show ?thesis using nan unfolding float_to_int64_sat_def lt gt eq f64_trunc_mag
      by (auto simp: max_def min_def)
  next
    case False
    have e: "f64_exp d \<noteq> 2047" using f64_infinite_units [of d] False by (auto simp: P_def)
    from False sc(2,3) have le: "?m \<le> 2 ^ 63" and iff: "?m = 2 ^ 63 \<longleftrightarrow> ?M = 2 ^ 63 * P" by auto
    show ?thesis
    proof (cases "\<not> f64_sign d \<and> ?M = 2 ^ 63 * P")
      case True
      with nan False iff show ?thesis unfolding float_to_int64_sat_def lt gt eq cast_int64_def f64_trunc_mag
        by simp
    next
      case no: False
      have "- (2 ^ 63) \<le> f64_trunc d \<and> f64_trunc d \<le> 2 ^ 63 - 1"
        using no le iff by (auto simp: f64_trunc_mag)
      then have "max (- (2 ^ 63)) (min (2 ^ 63 - 1) (f64_trunc d)) = f64_trunc d"
        "- (2 ^ 63) \<le> f64_trunc d" "f64_trunc d < 2 ^ 63" by auto
      with no nan False e show ?thesis unfolding float_to_int64_sat_def lt gt eq cast_int64_def by simp
    qed
  qed
qed (simp add: float_to_int64_sat_def)

lemma float_to_int32_sat:
  "float_to_int32_sat d =
     Some (if isnan d then 0 else word_of_int (max (- (2 ^ 31)) (min (2 ^ 31 - 1) (f64_trunc d))))"
proof (cases "isnan d")
  case nan: False
  define P :: nat where "P = 2 ^ 1074"
  have P: "0 < P" "(2 :: int) ^ 1074 = int P" by (simp_all add: P_def)
  let ?M = "f64_units d" and ?m = "f64_mag d" and ?L = "2 ^ 31 - 1 :: nat"
  have m: "?m = ?M div P" unfolding P_def by (rule f64_mag_units)
  have K: "0 < (2 :: nat) ^ 31" "0 < ?L" by simp_all
  note sc = sat_cases [OF m P(1) K(1)] sat_cases [OF m P(1) K(2)]
  have I: "(2 :: int) ^ 31 = int (2 ^ 31)" "int (2 ^ 31) - 1 = int ?L" by simp_all
  have KP: "0 < (2 :: nat) ^ 31 * P" "0 < ?L * P" using P(1) by simp_all
  note sb = signed_bounds [OF KP(1), of "f64_sign d" ?M] signed_bounds [OF KP(2), of "f64_sign d" ?M]
  have lt: "f64_less_int d (- (2 ^ 31)) \<longleftrightarrow> f64_sign d \<and> 2 ^ 31 * P < ?M"
    using nan unfolding f64_less_int_def f64_scaled_units P(2) I(1) sb by blast
  have gt: "f64_greater_int d (2 ^ 31 - 1) \<longleftrightarrow> \<not> f64_sign d \<and> ?L * P < ?M"
    using nan unfolding f64_greater_int_def f64_scaled_units P(2) I sb by blast
  show ?thesis
  proof (cases "f64_sign d \<and> 2 ^ 31 * P < ?M \<or> \<not> f64_sign d \<and> ?L * P < ?M")
    case True
    with sc(1,4) have "f64_sign d \<and> 2 ^ 31 \<le> ?m \<or> \<not> f64_sign d \<and> ?L \<le> ?m" by blast
    then have "max (- (2 ^ 31)) (min (2 ^ 31 - 1) (f64_trunc d)) = (if f64_sign d then - (2 ^ 31) else 2 ^ 31 - 1)"
      by (auto simp: f64_trunc_mag)
    with True nan show ?thesis unfolding float_to_int32_sat_def lt gt by (auto split: if_splits)
  next
    case False
    have "?L * P \<le> 2 ^ 31 * P" by (rule mult_le_mono1) simp
    with False have small: "?M \<le> 2 ^ 31 * P" by linarith
    have "(2 :: nat) ^ 31 * P \<le> 2 ^ 63 * P" by (rule mult_le_mono1) simp
    with small have e: "f64_exp d \<noteq> 2047" using f64_infinite_units [of d] unfolding P_def by linarith
    have "?m \<le> 2 ^ 31" "\<not> f64_sign d \<Longrightarrow> ?m \<le> ?L" using sc(2) [OF small] sc(5) False by (blast intro: leI)+
    then have "- (2 ^ 31) \<le> f64_trunc d" "f64_trunc d \<le> 2 ^ 31 - 1" by (auto simp: f64_trunc_mag)
    then have "max (- (2 ^ 31)) (min (2 ^ 31 - 1) (f64_trunc d)) = f64_trunc d"
      "cast_int32 d = Some (word_of_int (f64_trunc d))" using e by (auto simp: cast_int32_def)
    with False nan show ?thesis unfolding float_to_int32_sat_def lt gt by (auto split: if_splits)
  qed
qed (simp add: float_to_int32_sat_def)

section \<open>JS_ToInt64 and JS_ToInt32 as a whole\<close>

text \<open>What JS_ToPrimitive and the parser of numbers return.\<close>

fun is_number :: "('b, 'o) jsval \<Rightarrow> bool" where
  "is_number (JInt n) = True"
| "is_number (JFloat64 d) = True"
| "is_number JException = True"
| "is_number _ = False"

definition js_conv_ok :: "('b, 'o) js_conv \<Rightarrow> bool" where
  "js_conv_ok E \<longleftrightarrow> (\<forall>x y. js_to_primitive E x \<noteq> JObject y) \<and> (\<forall>s. is_number (js_string_to_number E s))"

lemma JS_ToNumberFree_number:
  assumes "js_conv_ok E"
  obtains w where "JS_ToNumberFree E v = Some w" "is_number w"
proof -
  have p: "\<exists>w. to_number_prim E TON_FLAG_NUMBER u = Some w \<and> is_number w" if "\<And>y. u \<noteq> JObject y" for u
    using that assms by (cases u) (auto simp: js_conv_ok_def)
  have "\<exists>w. JS_ToNumberFree E v = Some w \<and> is_number w"
  proof (cases v)
    case (JObject x)
    have "\<And>y. js_to_primitive E x \<noteq> JObject y" using assms by (simp add: js_conv_ok_def)
    from p [OF this] show ?thesis
      by (auto simp: JS_ToNumberFree_def JS_ToNumberHintFree_def JObject split: jsval.splits)
  qed (use p [of v] in \<open>simp_all add: JS_ToNumberFree_def JS_ToNumberHintFree_def\<close>)
  with that show ?thesis by blast
qed

lemma js_to_int_total:
  assumes E: "js_conv_ok E" and num: "\<And>d. num d \<noteq> None"
  shows "\<exists>r. js_to_int E small num big v = Some r"
proof -
  have two: "2 = Suc (Suc 0)" by simp
  obtain w where w: "JS_ToNumberFree E v = Some w" "is_number w" by (rule JS_ToNumberFree_number [OF E])
  have "js_to_int_redo (Suc (Suc 0)) E small num big v \<noteq> None"
  proof (cases "w = JException")
    case True
    then show ?thesis using w num by (cases v) auto
  next
    case False
    with w(2) consider i where "w = JInt i" | d where "w = JFloat64 d" by (cases w) auto
    then show ?thesis
    proof cases
      case 1
      then show ?thesis using w(1) num by (cases v) auto
    next
      case 2
      then show ?thesis using w(1) num by (cases v) auto
    qed
  qed
  then show ?thesis by (auto simp: js_to_int_def two)
qed

lemma js_to_int_simps:
  "js_to_int E small num big (JFloat64 d) = map_option (Pair 0) (num d)"
  "js_to_int E small num big (JInt n) = Some (0, small n)"
  "js_to_int E small num big (JBool b) = Some (0, small (of_bool b))"
  "js_to_int E small num big JNull = Some (0, small 0)"
  "js_to_int E small num big JUndefined = Some (0, small 0)"
  "js_to_int E small num big (JBigFloat f) = Some (0, big f)"
  "js_to_int E small num big (JBigInt i) = Some (- 1, 0)"
  "js_to_int E small num big (JBigDecimal f) = Some (- 1, 0)"
  "js_to_int E small num big (JSymbol x) = Some (- 1, 0)"
  "js_to_int E small num big JException = Some (- 1, 0)"
  by (simp_all add: js_to_int_def JS_ToNumberFree_def JS_ToNumberHintFree_def numeral_2_eq_2)

section \<open>Properties\<close>

text \<open>
  C12. JS_ToInt64 returns for every value, and converts a Number as ECMAScript's modular
  conversion does: the double rounded towards zero, modulo 2^64, and 0 for NaN and the
  infinities. The code's bit manipulation that avoids fmod is right for every exponent, and
  no cast of it is undefined.
\<close>

theorem JS_ToInt64_modular:
  assumes "js_conv_ok E"
  shows "(\<exists>r. JS_ToInt64 E v = Some r) \<and>
    JS_ToInt64 E (JFloat64 d) = Some (0, if f64_exp d = 2047 then 0 else word_of_int (f64_trunc d)) \<and>
    JS_ToInt64 E (JInt n) = Some (0, word_of_int (sint n))"
proof -
  have "\<exists>r. JS_ToInt64 E v = Some r"
    unfolding JS_ToInt64_def by (rule js_to_int_total [OF assms]) (simp only: float_to_int64_mod option.distinct not_False_eq_True)
  then show ?thesis unfolding JS_ToInt64_def js_to_int_simps float_to_int64_mod scast_eq by simp
qed

definition demo_conv :: "(unit, unit) js_conv" where
  "demo_conv = \<lparr>js_to_primitive = (\<lambda>_. JUndefined), js_string_to_number = (\<lambda>s. JInt 0),
     bf_get_int64_mod = (\<lambda>_. 0), bf_get_int32_mod = (\<lambda>_. 0), bf_get_int64_sat = (\<lambda>_. 0), bf_get_int32_sat = (\<lambda>_. 0)\<rparr>"

lemma demo_conv_ok: "js_conv_ok demo_conv"
  by (simp add: js_conv_ok_def demo_conv_def)

text \<open>The double 0x43f0000000000800 is 2^64 + 2^23 (as far as a double can tell): it wraps.\<close>

lemma demo_double:
  "f64_exp 0x43f0000000000800 = 1087" "f64_frac 0x43f0000000000800 = 0x800" "\<not> f64_sign 0x43f0000000000800"
  by (simp_all add: f64_exp_def f64_frac_def f64_sign_def)

lemma demo_double_trunc: "f64_trunc 0x43f0000000000800 = 2 ^ 64 + 2 ^ 23"
  by (simp add: f64_trunc_mag f64_mag_def f64_mant_def demo_double)

lemma JS_ToInt64_modular_witness:
  "JS_ToInt64 demo_conv (JFloat64 0x43f0000000000800) = Some (0, 2 ^ 23)"
  using JS_ToInt64_modular [OF demo_conv_ok, of JNull "0x43f0000000000800" 0] 
  by (simp add: demo_double demo_double_trunc)

text \<open>
  C17. JS_ToInt64Sat of a Number saturates: NaN gives 0, any other double the value rounded
  towards zero and limited to the range of int64. The one exception is the double 2^63
  exactly: the bound INT64_MAX, converted to a double for the comparison, is 2^63 itself, so
  that this value passes the test and reaches the cast, which is undefined for it.
\<close>

theorem JS_ToInt64Sat_saturates:
  "JS_ToInt64Sat E (JFloat64 d) =
     (if isnan d then Some (0, 0)
      else if f64_scaled d = 2 ^ 63 * 2 ^ 1074 then None
      else Some (0, word_of_int (max (- (2 ^ 63)) (min (2 ^ 63 - 1) (f64_trunc d)))))"
proof -
  have "JS_ToInt64Sat E (JFloat64 d) = map_option (Pair 0) (float_to_int64_sat d)"
    by (simp only: JS_ToInt64Sat_def js_to_int_simps jsval.distinct if_False)
  then show ?thesis
    unfolding float_to_int64_sat by (simp only: option.map if_distrib [of "map_option (Pair 0)"])
qed

text \<open>
  JS_ToInt32 (and JS_ToUint32, which is the same function on the same bits) is total and
  modular: the double rounded towards zero, modulo 2^32, and 0 for NaN and the infinities; its
  saturating variant never casts out of range.
\<close>

theorem JS_ToInt32_modular:
  assumes "js_conv_ok E"
  shows "(\<exists>r. JS_ToUint32 E v = Some r) \<and>
    JS_ToUint32 E (JFloat64 d) = Some (0, if f64_exp d = 2047 then 0 else word_of_int (f64_trunc d)) \<and>
    JS_ToInt32Sat E (JFloat64 d) =
      Some (0, if isnan d then 0 else word_of_int (max (- (2 ^ 31)) (min (2 ^ 31 - 1) (f64_trunc d))))"
proof -
  have "\<exists>r. JS_ToUint32 E v = Some r"
    unfolding JS_ToUint32_def JS_ToInt32_def
    by (rule js_to_int_total [OF assms]) (simp only: float_to_int32_mod option.distinct not_False_eq_True)
  moreover have "JS_ToUint32 E (JFloat64 d) = Some (0, if f64_exp d = 2047 then 0 else word_of_int (f64_trunc d))"
    by (simp only: JS_ToUint32_def JS_ToInt32_def js_to_int_simps float_to_int32_mod option.map)
  moreover have "JS_ToInt32Sat E (JFloat64 d) =
      Some (0, if isnan d then 0 else word_of_int (max (- (2 ^ 31)) (min (2 ^ 31 - 1) (f64_trunc d))))"
    by (simp only: JS_ToInt32Sat_def js_to_int_simps float_to_int32_sat option.map jsval.distinct if_False)
  ultimately show ?thesis by blast
qed

lemma JS_ToInt32_modular_witness:
  "JS_ToUint32 demo_conv (JFloat64 0x43f0000000000800) = Some (0, 2 ^ 23)"
  using JS_ToInt32_modular [OF demo_conv_ok, of JNull "0x43f0000000000800"]
  by (simp add: demo_double demo_double_trunc)

end
