(* ===== verification/Ckb_Module.thy ===== *)
theory Ckb_Module
  imports Js_Number Heap_Ops
begin

text \<open>
  quickjs/ckb_module.c: the bindings of CKB's syscalls as JavaScript functions, and the two
  functions that find and load the code cell named by the script's arguments.

  The syscalls themselves (ckb_syscalls.h, of the submodule ckb-c-stdlib), the molecule reader
  and the parts of the engine that build or read objects are parameters. What a binding does to
  memory through a syscall (the bytes the kernel stores at an address) and the syscalls with
  effects are recorded as events. \<^const>\<open>None\<close> is an access outside an array of the binding
  (the argument vector, passed_argv).
\<close>

section \<open>Numbers that the bindings return\<close>

fun bit_count :: "nat \<Rightarrow> nat" where
  "bit_count n = (if n = 0 then 0 else Suc (bit_count (n div 2)))"

declare bit_count.simps [simp del]

definition round_shift :: "nat \<Rightarrow> nat \<Rightarrow> nat" where
  \<comment> \<open>\<open>n / 2 ^ k\<close> to the nearest integer, ties to even\<close>
  "round_shift n k =
     (let q = n div 2 ^ k; r = n mod 2 ^ k
      in if 2 ^ k < 2 * r \<or> 2 ^ k = 2 * r \<and> odd q then q + 1 else q)"

definition f64_of_nat :: "nat \<Rightarrow> u64" where
  \<comment> \<open>the conversion of an integer to a double\<close>
  "f64_of_nat n =
     (if n = 0 then 0
      else let k = bit_count n - 1;
               m = (if k \<le> 52 then n * 2 ^ (52 - k) else round_shift n (k - 52))
           in of_nat ((k + 1022) * 2 ^ 52 + m))"

definition f64_of_int :: "int \<Rightarrow> u64" where
  "f64_of_int i = (if i < 0 then f64_of_nat (nat (- i)) OR push_bit 63 1 else f64_of_nat (nat i))"

definition JS_NewUint32 :: "u32 \<Rightarrow> ('b, 'o) jsval" where
  "JS_NewUint32 v = (if v \<le> 0x7fffffff then JInt v else JFloat64 (f64_of_nat (unat v)))"

definition JS_NewInt64 :: "u64 \<Rightarrow> ('b, 'o) jsval" where
  "JS_NewInt64 v =
     (if v = scast (ucast v :: u32) then JInt (ucast v) else JFloat64 (f64_of_int (sint v)))"

section \<open>The engine, the kernel and events\<close>

record ('b, 'o) js_engine = "('b, 'o) js_conv" +
  js_new_array_buffer :: "nat \<Rightarrow> bytes \<Rightarrow> int \<Rightarrow> ('b, 'o) jsval"
  js_get_typed_array_buffer :: "('b, 'o) jsval \<Rightarrow> ('b, 'o) jsval"
  js_get_array_buffer :: "('b, 'o) jsval \<Rightarrow> bytes option"
  js_to_cstring :: "('b, 'o) jsval \<Rightarrow> bytes option"
  js_get_property_str :: "('b, 'o) jsval \<Rightarrow> string \<Rightarrow> ('b, 'o) jsval"
  js_new_object :: "(string \<times> ('b, 'o) jsval) list \<Rightarrow> ('b, 'o) jsval"

datatype load_call =
    L_tx_hash u64
  | L_transaction u64
  | L_script_hash u64
  | L_script u64
  | L_cell u64 u64 u64
  | L_input u64 u64 u64
  | L_header u64 u64 u64
  | L_witness u64 u64 u64
  | L_cell_data u64 u64 u64
  | L_cell_by_field u64 u64 u64 u64
  | L_header_by_field u64 u64 u64 u64
  | L_input_by_field u64 u64 u64 u64

text \<open>
  \<open>ck_load c cap\<close> is the loading syscall c on a buffer of cap bytes: the error code, the new
  value of the length argument, and the bytes stored at the buffer's address.
\<close>

record ckb_kernel =
  ck_load :: "load_call \<Rightarrow> u64 \<Rightarrow> int \<times> u64 \<times> bytes"
  ck_look_for_dep :: "bytes \<Rightarrow> u8 \<Rightarrow> int \<times> u64"
  ck_exec_cell :: "bytes \<Rightarrow> u8 \<Rightarrow> u32 \<Rightarrow> u32 \<Rightarrow> int \<Rightarrow> bytes option list \<Rightarrow> int option"
  ck_spawn_cell :: "bytes \<Rightarrow> u8 \<Rightarrow> u64 \<Rightarrow> u64 \<Rightarrow> int \<Rightarrow> bytes option list \<Rightarrow> u64 \<Rightarrow> u64 \<Rightarrow>
                      int \<times> u8 \<times> u64 \<times> bytes"
  ck_set_content :: "bytes \<Rightarrow> int"
  ck_vm_version :: u32
  ck_current_cycles :: u64
  ck_memory_limit :: u32
  ck_current_memory :: u32

datatype ckb_event =
    Ev_store nat bytes
  | Ev_exit u8
  | Ev_debug "bytes option"
  | Ev_exec bytes u8 u32 u32 int "bytes option list"
  | Ev_spawn bytes u8 u64 u64 int "bytes option list" u64 u64
  | Ev_set_content bytes

datatype ('b, 'o) outcome = Return "('b, 'o) jsval" | Stopped

definition NO_VALUE :: u64 where "NO_VALUE = - 1"
definition SyscallErrorUnknown :: int where "SyscallErrorUnknown = 80"
definition SyscallErrorMemory :: int where "SyscallErrorMemory = 81"
definition SyscallErrorArgument :: int where "SyscallErrorArgument = 82"

section \<open>Arguments\<close>

text \<open>
  js_call_c_function of quickjs.c: a function declared with \<open>len\<close> parameters is called with the
  original argument count and a vector that is padded with undefined to at least that length.
\<close>

definition pad_args :: "nat \<Rightarrow> ('b, 'o) jsval list \<Rightarrow> ('b, 'o) jsval list" where
  "pad_args len argv = argv @ replicate (len - length argv) JUndefined"

definition arg :: "'a list \<Rightarrow> nat \<Rightarrow> 'a option" where
  "arg argv i = (if i < length argv then Some (argv ! i) else None)"

record LoadData =
  ld_length :: u64
  ld_index :: u64
  ld_source :: u64
  ld_offset :: u64
  ld_field :: u64

text \<open>Reading an integer argument: the inner \<^const>\<open>None\<close> is an exception.\<close>

definition with_int64 ::
    "('b, 'o) js_engine \<Rightarrow> ('b, 'o) jsval list \<Rightarrow> nat \<Rightarrow> (u64 \<Rightarrow> 'a option option) \<Rightarrow> 'a option option" where
  "with_int64 E argv i k =
     do { v \<leftarrow> arg argv i;
          (r, x) \<leftarrow> JS_ToInt64 (js_conv.truncate E) v;
          if r \<noteq> 0 then Some None else k x }"

definition with_opt_int64 ::
    "('b, 'o) js_engine \<Rightarrow> bool \<Rightarrow> ('b, 'o) jsval list \<Rightarrow> nat \<Rightarrow> (u64 \<Rightarrow> 'a option option) \<Rightarrow> 'a option option" where
  "with_opt_int64 E given argv i k = (if given then with_int64 E argv i k else k NO_VALUE)"

definition parse_args ::
    "('b, 'o) js_engine \<Rightarrow> bool \<Rightarrow> nat \<Rightarrow> ('b, 'o) jsval list \<Rightarrow> LoadData option option" where
  "parse_args E has_field argc argv =
     with_int64 E argv 0 (\<lambda>index.
     with_int64 E argv 1 (\<lambda>source.
     (let var_arg_index = (if has_field then 3 else 2) in
      with_opt_int64 E (has_field \<and> argc > 2) argv 2 (\<lambda>field.
      with_opt_int64 E (argc > var_arg_index) argv var_arg_index (\<lambda>length.
      with_opt_int64 E (argc > var_arg_index + 1) argv (var_arg_index + 1) (\<lambda>offset.
        Some (Some \<lparr>ld_length = length, ld_index = index, ld_source = source,
                    ld_offset = offset, ld_field = field\<rparr>)))))))"

section \<open>Loading\<close>

type_synonym ('b, 'o, 'h) result = "('b, 'o) outcome \<times> 'h \<times> ckb_event list"

text \<open>syscall_load from the allocation of the buffer on.\<close>

definition load_into ::
    "('b, 'o) js_engine \<Rightarrow> 'h heap_ops \<Rightarrow> ckb_kernel \<Rightarrow> 'h \<Rightarrow> (LoadData \<Rightarrow> load_call) \<Rightarrow> LoadData \<Rightarrow>
     ckb_event list \<Rightarrow> ('b, 'o, 'h) result" where
  "load_into E H K h func data evs =
     (let (addr, h1) = h_malloc H h (unat (ld_length data)) in
      if addr = 0 then (Return JException, h1, evs)
      else
        (let (err, len, stored) = ck_load K (func data) (ld_length data);
             evs' = evs @ [Ev_store addr stored]
         in if err \<noteq> 0 then (Return JException, h1, evs')
            else
              (let real_len = (ucast (if len < ld_length data then len else ld_length data) :: u32)
               in (Return (js_new_array_buffer E addr stored (sint real_len)), h1, evs'))))"

definition normal_offset :: "LoadData \<Rightarrow> LoadData" where
  \<comment> \<open>no offset specified, default to 0\<close>
  "normal_offset data = (if ld_offset data = NO_VALUE then data\<lparr>ld_offset := 0\<rparr> else data)"

definition syscall_load ::
    "('b, 'o) js_engine \<Rightarrow> 'h heap_ops \<Rightarrow> ckb_kernel \<Rightarrow> 'h \<Rightarrow> (LoadData \<Rightarrow> load_call) \<Rightarrow> LoadData \<Rightarrow>
     ('b, 'o, 'h) result" where
  "syscall_load E H K h func data0 =
     (let data = normal_offset data0 in
      if ld_length data = 0 then
        (let (err, len, stored) = ck_load K (func data) (ld_length data) in
         (Return (if err \<noteq> 0 then JException else JS_NewUint32 (ucast len)), h, [Ev_store 0 stored]))
      else if ld_length data = NO_VALUE then
        (let (err, len, stored) = ck_load K (func data) (ld_length data) in
         if err \<noteq> 0 then (Return JException, h, [Ev_store 0 stored])
         else load_into E H K h func (data\<lparr>ld_length := len\<rparr>) [Ev_store 0 stored])
      else load_into E H K h func data [])"

definition load_func_tx_hash :: "LoadData \<Rightarrow> load_call" where
  "load_func_tx_hash d = L_tx_hash (ld_offset d)"
definition load_func_transaction :: "LoadData \<Rightarrow> load_call" where
  "load_func_transaction d = L_transaction (ld_offset d)"
definition load_func_script_hash :: "LoadData \<Rightarrow> load_call" where
  "load_func_script_hash d = L_script_hash (ld_offset d)"
definition load_func_script :: "LoadData \<Rightarrow> load_call" where
  "load_func_script d = L_script (ld_offset d)"
definition load_func_cell :: "LoadData \<Rightarrow> load_call" where
  "load_func_cell d = L_cell (ld_offset d) (ld_index d) (ld_source d)"
definition load_func_input :: "LoadData \<Rightarrow> load_call" where
  "load_func_input d = L_input (ld_offset d) (ld_index d) (ld_source d)"
definition load_func_header :: "LoadData \<Rightarrow> load_call" where
  "load_func_header d = L_header (ld_offset d) (ld_index d) (ld_source d)"
definition load_func_witness :: "LoadData \<Rightarrow> load_call" where
  "load_func_witness d = L_witness (ld_offset d) (ld_index d) (ld_source d)"
definition load_func_cell_data :: "LoadData \<Rightarrow> load_call" where
  "load_func_cell_data d = L_cell_data (ld_offset d) (ld_index d) (ld_source d)"
definition load_func_cell_by_field :: "LoadData \<Rightarrow> load_call" where
  "load_func_cell_by_field d = L_cell_by_field (ld_offset d) (ld_index d) (ld_source d) (ld_field d)"
definition load_func_header_by_field :: "LoadData \<Rightarrow> load_call" where
  "load_func_header_by_field d = L_header_by_field (ld_offset d) (ld_index d) (ld_source d) (ld_field d)"
definition load_func_input_by_field :: "LoadData \<Rightarrow> load_call" where
  "load_func_input_by_field d = L_input_by_field (ld_offset d) (ld_index d) (ld_source d) (ld_field d)"

text \<open>The part that all bindings with arguments share: parse_args, then syscall_load.\<close>

definition load_with_args ::
    "('b, 'o) js_engine \<Rightarrow> 'h heap_ops \<Rightarrow> ckb_kernel \<Rightarrow> 'h \<Rightarrow> bool \<Rightarrow> (LoadData \<Rightarrow> load_call) \<Rightarrow>
     nat \<Rightarrow> ('b, 'o) jsval list \<Rightarrow> ('b, 'o, 'h) result option" where
  "load_with_args E H K h has_field func argc argv =
     map_option (\<lambda>r. case r of
                       None \<Rightarrow> (Return JException, h, [])
                     | Some data \<Rightarrow> syscall_load E H K h func data)
       (parse_args E has_field argc argv)"

definition hash_data :: LoadData where
  "hash_data = \<lparr>ld_length = 32, ld_index = 0, ld_source = 0, ld_offset = 0, ld_field = 0\<rparr>"

definition syscall_load_tx_hash where
  "syscall_load_tx_hash E H K h argc argv = Some (syscall_load E H K h load_func_tx_hash hash_data)"
definition syscall_load_transaction where
  "syscall_load_transaction E H K h argc argv = load_with_args E H K h False load_func_transaction argc argv"
definition syscall_load_script_hash where
  "syscall_load_script_hash E H K h argc argv = Some (syscall_load E H K h load_func_script_hash hash_data)"
definition syscall_load_script where
  "syscall_load_script E H K h argc argv = load_with_args E H K h False load_func_script argc argv"
definition syscall_load_cell where
  "syscall_load_cell E H K h argc argv = load_with_args E H K h False load_func_cell argc argv"
definition syscall_load_input where
  "syscall_load_input E H K h argc argv = load_with_args E H K h False load_func_input argc argv"
definition syscall_load_header where
  "syscall_load_header E H K h argc argv = load_with_args E H K h False load_func_header argc argv"
definition syscall_load_witness where
  "syscall_load_witness E H K h argc argv = load_with_args E H K h False load_func_witness argc argv"
definition syscall_load_cell_data where
  "syscall_load_cell_data E H K h argc argv = load_with_args E H K h False load_func_cell_data argc argv"
definition syscall_load_cell_by_field where
  "syscall_load_cell_by_field E H K h argc argv = load_with_args E H K h True load_func_cell_by_field argc argv"
definition syscall_load_header_by_field where
  "syscall_load_header_by_field E H K h argc argv = load_with_args E H K h True load_func_header_by_field argc argv"
definition syscall_load_input_by_field where
  "syscall_load_input_by_field E H K h argc argv = load_with_args E H K h True load_func_input_by_field argc argv"

section \<open>The other bindings\<close>

definition syscall_exit where
  "syscall_exit E H K h argc argv =
     do { v \<leftarrow> arg argv 0;
          (r, status) \<leftarrow> JS_ToInt32 (js_conv.truncate E) v;
          Some (if r \<noteq> 0 then (Return JException, h, []) else (Stopped, h, [Ev_exit (ucast status)])) }"

definition syscall_debug where
  "syscall_debug E H K h argc argv =
     do { v \<leftarrow> arg argv 0; Some (Return JUndefined, h, [Ev_debug (js_to_cstring E v)]) }"

definition syscall_vm_version where
  "syscall_vm_version E H K h argc argv = Some (Return (JInt (ck_vm_version K)), h, [])"

definition syscall_current_cycles where
  "syscall_current_cycles E H K h argc argv = Some (Return (JS_NewInt64 (ck_current_cycles K)), h, [])"

definition syscall_get_memory_limit where
  "syscall_get_memory_limit E H K h argc argv = Some (Return (JS_NewUint32 (ck_memory_limit K)), h, [])"

definition syscall_current_memory where
  "syscall_current_memory E H K h argc argv = Some (Return (JS_NewUint32 (ck_current_memory K)), h, [])"

text \<open>
  The first two arguments of exec_cell and spawn_cell: a typed array of 32 bytes and the hash
  type. The inner \<^const>\<open>None\<close> is an exception.
\<close>

definition cell_args :: "('b, 'o) js_engine \<Rightarrow> ('b, 'o) jsval list \<Rightarrow> (bytes \<times> u8) option option" where
  "cell_args E argv =
     do { a0 \<leftarrow> arg argv 0;
          let buffer = js_get_typed_array_buffer E a0;
          if buffer = JException then Some None
          else
            (case js_get_array_buffer E buffer of
               None \<Rightarrow> Some None
             | Some p \<Rightarrow>
                 if length p \<noteq> 32 then Some None
                 else do { a1 \<leftarrow> arg argv 1;
                           (r, t) \<leftarrow> JS_ToUint32 (js_conv.truncate E) a1;
                           Some (if r \<noteq> 0 then None else Some (p, ucast t)) }) }"

text \<open>The loop that fills passed_argv[256] from the arguments behind the fixed ones.\<close>

definition passed_args ::
    "('b, 'o) js_engine \<Rightarrow> nat \<Rightarrow> nat \<Rightarrow> ('b, 'o) jsval list \<Rightarrow> bytes option list option" where
  "passed_args E off argc argv =
     (if argc - off \<le> 256 then Some (map (js_to_cstring E) (take (argc - off) (drop off argv))) else None)"

definition syscall_exec_cell where
  "syscall_exec_cell E H K h argc argv =
     do { ca \<leftarrow> cell_args E argv;
          case ca of
            None \<Rightarrow> Some (Return JException, h, [])
          | Some (code_hash, hash_type) \<Rightarrow>
              do { a2 \<leftarrow> arg argv 2;
                   (r2, offset) \<leftarrow> JS_ToUint32 (js_conv.truncate E) a2;
                   if r2 \<noteq> 0 then Some (Return JException, h, [])
                   else
                     do { a3 \<leftarrow> arg argv 3;
                          (r3, len) \<leftarrow> JS_ToUint32 (js_conv.truncate E) a3;
                          if r3 \<noteq> 0 then Some (Return JException, h, [])
                          else
                            do { args \<leftarrow> passed_args E 4 argc argv;
                                 let n = int argc - 4;
                                 Some (case ck_exec_cell K code_hash hash_type offset len n args of
                                         None \<Rightarrow> (Stopped, h, [Ev_exec code_hash hash_type offset len n args])
                                       | Some err \<Rightarrow>
                                           (Return JUndefined, h, [Ev_exec code_hash hash_type offset len n args])) } } } }"

definition get_property ::
    "('b, 'o) js_engine \<Rightarrow> ('b, 'o) jsval \<Rightarrow> string \<Rightarrow> u64 \<Rightarrow> (int \<times> u64) option" where
  "get_property E obj prop value =
     (let val = js_get_property_str E obj prop in
      if val = JException then Some (SyscallErrorArgument, value)
      else if val = JUndefined then Some (0, value)
      else JS_ToInt64 (js_conv.truncate E) val)"

definition syscall_spawn_cell where
  "syscall_spawn_cell E H K h argc argv =
     do { ca \<leftarrow> cell_args E argv;
          case ca of
            None \<Rightarrow> Some (Return JException, h, [])
          | Some (code_hash, hash_type) \<Rightarrow>
              do { a2 \<leftarrow> arg argv 2;
                   (e1, content_length) \<leftarrow> get_property E a2 ''content_length'' 0;
                   if e1 \<noteq> 0 then Some (Return JException, h, [])
                   else do { (e2, memory_limit) \<leftarrow> get_property E a2 ''memory_limit'' 8;
                   if e2 \<noteq> 0 then Some (Return JException, h, [])
                   else do { (e3, offset) \<leftarrow> get_property E a2 ''offset'' 0;
                   if e3 \<noteq> 0 then Some (Return JException, h, [])
                   else do { (e4, len) \<leftarrow> get_property E a2 ''length'' 0;
                   if e4 \<noteq> 0 then Some (Return JException, h, [])
                   else do { args \<leftarrow> passed_args E 3 argc argv;
                   let n = int argc - 3;
                   let (content, h1) = h_malloc H h (unat content_length);
                   if content = 0 then Some (Return JException, h1, [])
                   else
                     (let (err, exit_code, clen, bytes) =
                            ck_spawn_cell K code_hash hash_type offset len n args memory_limit content_length;
                          evs = [Ev_spawn code_hash hash_type offset len n args memory_limit content_length,
                                 Ev_store content bytes]
                      in if err \<noteq> 0 then Some (Return JException, h1, evs)
                         else
                           Some (Return (js_new_object E
                             [(''exit_code'', JS_NewUint32 (scast exit_code)),
                              (''content'', js_new_array_buffer E content bytes (uint clen))]), h1, evs)) } } } } } }"

definition syscall_set_content where
  "syscall_set_content E H K h argc argv =
     do { a0 \<leftarrow> arg argv 0;
          let buffer = js_get_typed_array_buffer E a0;
          if buffer = JException then Some (Return JException, h, [])
          else
            (case js_get_array_buffer E buffer of
               None \<Rightarrow> Some (Return JException, h, [])
             | Some content \<Rightarrow>
                 Some (if ck_set_content K content \<noteq> 0 then (Return JException, h, [Ev_set_content content])
                       else (Return JUndefined, h, [Ev_set_content content]))) }"

section \<open>The global object ckb\<close>

text \<open>
  js_init_module_ckb: the functions with the number of parameters they are declared with, and
  the constants. \<open>C\<close> gives the values of the macros of ckb_consts.h (of the submodule).
  JS_NewBigUint64 makes a BigInt here: outside any function, math mode is off.
\<close>

definition ckb_functions ::
    "('b, 'o) js_engine \<Rightarrow> 'h heap_ops \<Rightarrow> ckb_kernel \<Rightarrow>
     (string \<times> ('h \<Rightarrow> nat \<Rightarrow> ('b, 'o) jsval list \<Rightarrow> ('b, 'o, 'h) result option) \<times> nat) list" where
  "ckb_functions E H K =
     [(''exit'', syscall_exit E H K, 1),
      (''load_tx_hash'', syscall_load_tx_hash E H K, 1),
      (''load_transaction'', syscall_load_transaction E H K, 1),
      (''load_script_hash'', syscall_load_script_hash E H K, 1),
      (''load_script'', syscall_load_script E H K, 1),
      (''debug'', syscall_debug E H K, 1),
      (''load_cell'', syscall_load_cell E H K, 3),
      (''load_input'', syscall_load_input E H K, 3),
      (''load_header'', syscall_load_header E H K, 3),
      (''load_witness'', syscall_load_witness E H K, 3),
      (''load_cell_data'', syscall_load_cell_data E H K, 3),
      (''load_cell_by_field'', syscall_load_cell_by_field E H K, 4),
      (''load_header_by_field'', syscall_load_header_by_field E H K, 4),
      (''load_input_by_field'', syscall_load_input_by_field E H K, 4),
      (''vm_version'', syscall_vm_version E H K, 0),
      (''current_cycles'', syscall_current_cycles E H K, 0),
      (''exec_cell'', syscall_exec_cell E H K, 4),
      (''spawn_cell'', syscall_spawn_cell E H K, 3),
      (''set_content'', syscall_set_content E H K, 1),
      (''get_memory_limit'', syscall_get_memory_limit E H K, 0),
      (''current_memory'', syscall_current_memory E H K, 0)]"

definition ckb_constants :: "(string \<Rightarrow> u64) \<Rightarrow> (string \<times> ('b, 'o) jsval) list" where
  "ckb_constants C =
     [(''SOURCE_INPUT'', JS_NewInt64 (C ''CKB_SOURCE_INPUT'')),
      (''SOURCE_OUTPUT'', JS_NewInt64 (C ''CKB_SOURCE_OUTPUT'')),
      (''SOURCE_CELL_DEP'', JS_NewInt64 (C ''CKB_SOURCE_CELL_DEP'')),
      (''SOURCE_HEADER_DEP'', JS_NewInt64 (C ''CKB_SOURCE_HEADER_DEP'')),
      (''SOURCE_GROUP_INPUT'', JBigInt (uint (C ''CKB_SOURCE_GROUP_INPUT''))),
      (''SOURCE_GROUP_OUTPUT'', JBigInt (uint (C ''CKB_SOURCE_GROUP_OUTPUT''))),
      (''CELL_FIELD_CAPACITY'', JS_NewInt64 (C ''CKB_CELL_FIELD_CAPACITY'')),
      (''CELL_FIELD_DATA_HASH'', JS_NewInt64 (C ''CKB_CELL_FIELD_DATA_HASH'')),
      (''CELL_FIELD_LOCK'', JS_NewInt64 (C ''CKB_CELL_FIELD_LOCK'')),
      (''CELL_FIELD_LOCK_HASH'', JS_NewInt64 (C ''CKB_CELL_FIELD_LOCK_HASH'')),
      (''CELL_FIELD_TYPE'', JS_NewInt64 (C ''CKB_CELL_FIELD_TYPE'')),
      (''CELL_FIELD_TYPE_HASH'', JS_NewInt64 (C ''CKB_CELL_FIELD_TYPE_HASH'')),
      (''CELL_FIELD_OCCUPIED_CAPACITY'', JS_NewInt64 (C ''CKB_CELL_FIELD_OCCUPIED_CAPACITY'')),
      (''HEADER_FIELD_EPOCH_NUMBER'', JS_NewInt64 (C ''CKB_HEADER_FIELD_EPOCH_NUMBER'')),
      (''HEADER_FIELD_EPOCH_START_BLOCK_NUMBER'', JS_NewInt64 (C ''CKB_HEADER_FIELD_EPOCH_START_BLOCK_NUMBER'')),
      (''HEADER_FIELD_EPOCH_LENGTH'', JS_NewInt64 (C ''CKB_HEADER_FIELD_EPOCH_LENGTH'')),
      (''INPUT_FIELD_OUT_POINT'', JS_NewInt64 (C ''CKB_INPUT_FIELD_OUT_POINT'')),
      (''INPUT_FIELD_SINCE'', JS_NewInt64 (C ''CKB_INPUT_FIELD_SINCE'')),
      (''SCRIPT_HASH_TYPE_DATA'', JS_NewInt64 0),
      (''SCRIPT_HASH_TYPE_TYPE'', JS_NewInt64 1),
      (''SCRIPT_HASH_TYPE_DATA1'', JS_NewInt64 2),
      (''SCRIPT_HASH_TYPE_DATA2'', JS_NewInt64 4)]"

definition ckb_call ::
    "('b, 'o) js_engine \<Rightarrow> 'h heap_ops \<Rightarrow> ckb_kernel \<Rightarrow> string \<Rightarrow> 'h \<Rightarrow> ('b, 'o) jsval list \<Rightarrow>
     ('b, 'o, 'h) result option" where
  \<comment> \<open>ckb.name(args...)\<close>
  "ckb_call E H K name h args =
     (case map_of (ckb_functions E H K) name of
        None \<Rightarrow> None
      | Some (f, len) \<Rightarrow> f h (length args) (pad_args len args))"

section \<open>The code cell\<close>

definition SCRIPT_SIZE :: nat where "SCRIPT_SIZE = 32768"
definition JS_LOADER_ARGS_SIZE :: nat where "JS_LOADER_ARGS_SIZE = 2"
definition BLAKE2B_BLOCK_SIZE :: nat where "BLAKE2B_BLOCK_SIZE = 32"

text \<open>
  The molecule reader is a parameter: whether the bytes are a Script, and the raw bytes of its
  args. The result is the return value, *buf_size and *index.
\<close>

definition load_cell_code_info ::
    "(bytes \<Rightarrow> bool) \<Rightarrow> (bytes \<Rightarrow> bytes) \<Rightarrow> ckb_kernel \<Rightarrow> u64 \<Rightarrow> u64 \<times> u64 \<Rightarrow> int \<times> u64 \<times> u64" where
  "load_cell_code_info mol_verify mol_args K source_cell_dep out =
     (let (buf_size, index) = out;
          (err, len, stored) = ck_load K (L_script 0) (of_nat SCRIPT_SIZE) in
      if err \<noteq> 0 then (err, buf_size, index)
      else if unat len > SCRIPT_SIZE then (- 1, buf_size, index)
      else if \<not> mol_verify (take (unat len) stored) then (- 1, buf_size, index)
      else
        (let args = mol_args (take (unat len) stored) in
         if length args < JS_LOADER_ARGS_SIZE then (- 1, buf_size, index)
         else if length args < JS_LOADER_ARGS_SIZE + BLAKE2B_BLOCK_SIZE + 1 then (- 1, buf_size, index)
         else
           (let code_hash = take BLAKE2B_BLOCK_SIZE (drop JS_LOADER_ARGS_SIZE args);
                hash_type = args ! (JS_LOADER_ARGS_SIZE + BLAKE2B_BLOCK_SIZE);
                (err, index) = ck_look_for_dep K code_hash hash_type
            in if err \<noteq> 0 then (err, buf_size, index)
               else
                 (let (err, buf_size, stored) = ck_load K (L_cell_data 0 index source_cell_dep) 0
                  in if err \<noteq> 0 then (err, buf_size, index)
                     else if buf_size = 0 then (- 1, buf_size, index)
                     else (0, buf_size, index)))))"

definition load_cell_code :: "ckb_kernel \<Rightarrow> u64 \<Rightarrow> u64 \<Rightarrow> u64 \<Rightarrow> int \<times> bytes" where
  \<comment> \<open>the return value and the bytes stored in buf\<close>
  "load_cell_code K source_cell_dep buf_size index =
     (let (ret, len, stored) = ck_load K (L_cell_data 0 index source_cell_dep) buf_size
      in (if ret \<noteq> 0 then - 1 else 0, stored))"

section \<open>Numbers survive the way to JavaScript and back\<close>

lemma bit_count_bounds: "0 < n \<Longrightarrow> 0 < bit_count n \<and> 2 ^ (bit_count n - 1) \<le> n \<and> n < 2 ^ bit_count n"
proof (induction n rule: bit_count.induct)
  case (1 n)
  show ?case
  proof (cases "n div 2 = 0")
    case True
    with 1(2) have "n = 1" by auto
    then show ?thesis by (simp add: bit_count.simps)
  next
    case False
    with 1(1) 1(2) have IH: "0 < bit_count (n div 2)" "2 ^ (bit_count (n div 2) - 1) \<le> n div 2" "n div 2 < 2 ^ bit_count (n div 2)"
      by auto
    obtain c where c: "bit_count (n div 2) = Suc c" using IH(1) by (cases "bit_count (n div 2)") auto
    have e: "bit_count n = Suc (Suc c)" using 1(2) by (subst bit_count.simps) (simp add: c)
    have "2 ^ Suc c \<le> n" using IH(2) unfolding c by simp
    moreover have "n < 2 * 2 ^ Suc c" using IH(3) unfolding c by linarith
    ultimately show ?thesis by (simp add: e)
  qed
qed

lemma f64_of_bits:
  assumes e: "e < 2048" and f: "f < 2 ^ 52"
  shows "f64_exp (of_nat (e * 2 ^ 52 + f)) = e" "unat (f64_frac (of_nat (e * 2 ^ 52 + f))) = f"
    "\<not> f64_sign (of_nat (e * 2 ^ 52 + f))"
proof -
  define B where "B = e * 2 ^ 52 + f"
  have lt: "B < 2 ^ 63"
  proof -
    have "e * 2 ^ 52 \<le> 2047 * 2 ^ 52" using e by (intro mult_le_mono1) simp
    then have "B < 2047 * 2 ^ 52 + 2 ^ 52" using f unfolding B_def by linarith
    also have "\<dots> = 2 ^ 11 * 2 ^ 52" by simp
    finally show ?thesis by (simp flip: power_add)
  qed
  then have u: "unat (of_nat B :: u64) = B" by (intro unat_of_nat_u64) simp
  have m: "(2047 :: u64) = mask 11" by (simp add: mask_eq_exp_minus_1)
  have "drop_bit 52 (of_nat B :: u64) AND 2047 = take_bit 11 (drop_bit 52 (of_nat B))"
    unfolding m by (simp only: take_bit_eq_mask)
  then have "f64_exp (of_nat B) = take_bit 11 (drop_bit 52 B)"
    by (simp only: f64_exp_def unsigned_take_bit_eq unat_drop_bit_eq u)
  moreover have "B div 2 ^ 52 = e" using f by (simp add: B_def)
  ultimately show "f64_exp (of_nat (e * 2 ^ 52 + f)) = e" using e
    by (simp add: drop_bit_eq_div take_bit_eq_mod B_def)
  have "unat (f64_frac (of_nat B)) = take_bit 52 B"
    by (simp only: f64_frac_take_bit unsigned_take_bit_eq u)
  moreover have "B mod 2 ^ 52 = f" using f by (simp add: B_def)
  ultimately show "unat (f64_frac (of_nat (e * 2 ^ 52 + f))) = f" by (simp add: take_bit_eq_mod B_def)
  have "f64_sign (of_nat B) \<longleftrightarrow> bit (unat (of_nat B :: u64)) 63"
    unfolding f64_sign_def by (simp only: bit_unsigned_iff) simp
  then have "f64_sign (of_nat B) \<longleftrightarrow> odd (B div 2 ^ 63)" by (simp only: u bit_iff_odd)
  then show "\<not> f64_sign (of_nat (e * 2 ^ 52 + f))" using lt by (simp add: B_def)
qed

lemma f64_of_nat_exact:
  assumes n: "n < 2 ^ 53"
  shows "f64_mag (f64_of_nat n) = n" "\<not> f64_sign (f64_of_nat n)" "f64_exp (f64_of_nat n) < 2047"
proof -
  have "f64_mag (f64_of_nat n) = n \<and> \<not> f64_sign (f64_of_nat n) \<and> f64_exp (f64_of_nat n) < 2047"
  proof (cases "n = 0")
    case True
    have "of_nat (0 * 2 ^ 52 + 0) = (0 :: u64)" by simp
    with f64_of_bits [of 0 0] True show ?thesis by (simp add: f64_of_nat_def f64_mag_def f64_mant_def)
  next
    case False
    define k where "k = bit_count n - 1"
    have b: "2 ^ k \<le> n" "n < 2 ^ Suc k" using bit_count_bounds [of n] False by (auto simp: k_def)
    have "(2 :: nat) ^ k < 2 ^ 53" using b(1) n by (rule le_less_trans)
    then have "k < 53" by (rule power_less_imp_less_exp [rotated]) simp
    then have k: "k \<le> 52" by simp
    have two: "(2 :: nat) ^ 52 = 2 ^ k * 2 ^ (52 - k)" using k by (simp flip: power_add)
    define f where "f = n * 2 ^ (52 - k) - 2 ^ 52"
    have ge: "2 ^ 52 \<le> n * 2 ^ (52 - k)" unfolding two by (rule mult_le_mono1 [OF b(1)])
    have "n * 2 ^ (52 - k) < 2 ^ Suc k * 2 ^ (52 - k)" by (rule mult_less_mono1 [OF b(2)]) simp
    then have "n * 2 ^ (52 - k) < 2 * 2 ^ 52" unfolding two by simp
    with ge have f: "f < 2 ^ 52" "n * 2 ^ (52 - k) = 2 ^ 52 + f" unfolding f_def by linarith+
    have "f64_of_nat n = of_nat ((k + 1023) * 2 ^ 52 + f)"
    proof -
      have "(k + 1022) * 2 ^ 52 + n * 2 ^ (52 - k) = (k + 1023) * 2 ^ 52 + f" unfolding f(2) by simp
      then show ?thesis using False k unfolding f64_of_nat_def Let_def k_def [symmetric] by (simp only: if_True if_False)
    qed
    moreover have "k + 1023 < 2048" using k by simp
    note fb = f64_of_bits [OF this f(1)]
    ultimately have fb': "f64_exp (f64_of_nat n) = k + 1023" "unat (f64_frac (f64_of_nat n)) = f" "\<not> f64_sign (f64_of_nat n)"
      using fb by simp_all
    have mant: "f64_mant (f64_of_nat n) = n * 2 ^ (52 - k)" unfolding f64_mant_def fb' f(2) by simp
    have "f64_mag (f64_of_nat n) = n"
    proof (cases "k = 52")
      case True
      then show ?thesis unfolding f64_mag_def mant fb' by simp
    next
      case False
      then have "\<not> 1075 \<le> k + 1023" "1075 - max 1 (k + 1023) = 52 - k" using k by auto
      then show ?thesis unfolding f64_mag_def mant fb' by (simp only: if_False) simp
    qed
    with fb' k show ?thesis by simp
  qed
  then show "f64_mag (f64_of_nat n) = n" "\<not> f64_sign (f64_of_nat n)" "f64_exp (f64_of_nat n) < 2047" by auto
qed

text \<open>
  A sign bit on top.
\<close>

lemma f64_neg:
  assumes "\<not> f64_sign b"
  shows "f64_sign (b OR push_bit 63 1)" "f64_exp (b OR push_bit 63 1) = f64_exp b" "f64_mag (b OR push_bit 63 1) = f64_mag b"
proof -
  show "f64_sign (b OR push_bit 63 1)" by (simp only: f64_sign_def bit_simps) simp
  have low: "bit (b OR push_bit 63 1) n = bit b n" if "n < 63" for n
    using that by (simp only: bit_or_iff bit_push_bit_iff) simp
  have m: "(2047 :: u64) = mask 11" by (simp add: mask_eq_exp_minus_1)
  have e: "drop_bit 52 (b OR push_bit 63 1) AND 2047 = drop_bit 52 b AND 2047"
    unfolding m by (rule bit_word_eqI) (use low in \<open>auto simp only: bit_and_iff bit_drop_bit_eq comp_apply bit_mask_iff\<close>)
  show ex: "f64_exp (b OR push_bit 63 1) = f64_exp b" by (simp only: f64_exp_def e)
  have f: "f64_frac (b OR push_bit 63 1) = f64_frac b"
    unfolding f64_frac_take_bit by (rule bit_word_eqI, simp only: bit_take_bit_iff, rule conj_cong [OF refl low]) simp
  show "f64_mag (b OR push_bit 63 1) = f64_mag b" by (simp only: f64_mag_def f64_mant_def ex f)
qed

lemma JS_ToUint32_NewUint32:
  "JS_ToUint32 E (JS_NewUint32 v) = Some (0, v)"
proof (cases "v \<le> 0x7fffffff")
  case True
  then show ?thesis by (simp add: JS_NewUint32_def JS_ToUint32_def JS_ToInt32_def js_to_int_simps)
next
  case False
  have "unat v < 2 ^ 53" using unat_u32_bound [of v] by simp
  note ex = f64_of_nat_exact [OF this]
  have "f64_exp (f64_of_nat (unat v)) \<noteq> 2047" using ex(3) by simp
  moreover have "word_of_int (f64_trunc (f64_of_nat (unat v))) = v"
    unfolding word_of_trunc using ex(1,2) by simp
  ultimately show ?thesis using False
    by (simp only: JS_NewUint32_def JS_ToUint32_def JS_ToInt32_def js_to_int_simps float_to_int32_mod option.map if_False)
qed

lemma JS_ToInt64_NewInt64:
  assumes "\<bar>sint v\<bar> < 2 ^ 53"
  shows "JS_ToInt64 E (JS_NewInt64 v) = Some (0, v)"
proof (cases "v = scast (ucast v :: u32)")
  case True
  then show ?thesis by (simp add: JS_NewInt64_def JS_ToInt64_def js_to_int_simps)
next
  case False
  define b where "b = f64_of_int (sint v)"
  have "f64_exp b \<noteq> 2047 \<and> word_of_int (f64_trunc b) = v"
  proof (cases "sint v < 0")
    case True
    then have "nat (- sint v) < 2 ^ 53" using assms by (simp add: nat_less_iff)
    note ex = f64_of_nat_exact [OF this] and ng = f64_neg [OF f64_of_nat_exact(2) [OF this]]
    have b: "b = f64_of_nat (nat (- sint v)) OR push_bit 63 1" using True by (simp only: b_def f64_of_int_def if_True)
    have "f64_trunc b = sint v" unfolding f64_trunc_mag b using ng ex(1) True by simp
    then show ?thesis using ng(2) ex(3) by (simp add: b)
  next
    case neg: False
    then have "nat (sint v) < 2 ^ 53" using assms by (simp add: nat_less_iff)
    note ex = f64_of_nat_exact [OF this]
    have b: "b = f64_of_nat (nat (sint v))" using neg by (simp only: b_def f64_of_int_def if_False)
    have "f64_trunc b = sint v" unfolding f64_trunc_mag b using ex neg by simp
    then show ?thesis using ex(3) by (simp add: b)
  qed
  then show ?thesis using False
    by (simp only: JS_NewInt64_def JS_ToInt64_def js_to_int_simps float_to_int64_mod option.map if_False b_def [symmetric])
qed

end
