(* ===== verification/Cutils.thy ===== *)
theory Cutils
  imports Ckb_Prelude "HOL-Library.Sublist"
begin

text \<open>
  quickjs/cutils.c and cutils.h: the bounded string functions, integers in memory, byte
  swapping and the small helpers. (UTF-8, the dynamic buffers and the sort routine of the same
  files have theories of their own.)
\<close>

section \<open>Strings\<close>

text \<open>
  A destination is the bytes of the object from the pointer on, and the result is what they are
  afterwards; \<^const>\<open>None\<close> is an access outside an object.
\<close>

fun pstrcpy_loop :: "bytes \<Rightarrow> nat \<Rightarrow> int \<Rightarrow> bytes \<Rightarrow> bytes option" where
  "pstrcpy_loop buf q buf_size [] = None"
| "pstrcpy_loop buf q buf_size (c # str) =
     (if c = 0 \<or> int q \<ge> buf_size - 1 then wr buf q 0
      else do { buf' \<leftarrow> wr buf q c; pstrcpy_loop buf' (q + 1) buf_size str })"

definition pstrcpy :: "bytes \<Rightarrow> int \<Rightarrow> bytes \<Rightarrow> bytes option" where
  "pstrcpy buf buf_size str = (if buf_size \<le> 0 then Some buf else pstrcpy_loop buf 0 buf_size str)"

definition pstrcat :: "bytes \<Rightarrow> int \<Rightarrow> bytes \<Rightarrow> bytes option" where
  "pstrcat buf buf_size s =
     do { len \<leftarrow> strlen buf;
          if int len < buf_size
          then map_option ((@) (take len buf)) (pstrcpy (drop len buf) (buf_size - int len) s)
          else Some buf }"

text \<open>The inner \<^const>\<open>None\<close> is the return value 0; otherwise what *ptr points at.\<close>

fun strstart :: "bytes \<Rightarrow> bytes \<Rightarrow> bytes option option" where
  "strstart p [] = None"
| "strstart p (c # q) =
     (if c = 0 then Some (Some p)
      else (case p of
              [] \<Rightarrow> None
            | d # p' \<Rightarrow> if d \<noteq> c then Some None else strstart p' q))"

definition has_suffix :: "bytes \<Rightarrow> bytes \<Rightarrow> bool option" where
  "has_suffix str suf =
     do { len \<leftarrow> strlen str;
          slen \<leftarrow> strlen suf;
          Some (len \<ge> slen \<and> take slen (drop (len - slen) str) = take slen suf) }"

definition from_hex :: "int \<Rightarrow> int" where
  "from_hex c =
     (if c \<ge> 48 \<and> c \<le> 57 then c - 48
      else if c \<ge> 65 \<and> c \<le> 70 then c - 65 + 10
      else if c \<ge> 97 \<and> c \<le> 102 then c - 97 + 10
      else - 1)"

lemma wr_take: "wr b i v = Some b' \<Longrightarrow> take i b' = take i b \<and> drop (Suc i) b' = drop (Suc i) b \<and> i < length b \<and> b' ! i = v"
  by (auto simp: wr_def split: if_splits)

lemma pstrcpy_loop_eq:
  assumes "0 \<notin> set s" "0 < n" "q < n" "n \<le> length buf"
  shows "pstrcpy_loop buf q (int n) (s @ 0 # r) =
    Some (take q buf @ take (n - 1 - q) s @ 0 # drop (q + length (take (n - 1 - q) s) + 1) buf)"
  using assms
proof (induction s arbitrary: buf q)
  case Nil
  then show ?case by (simp add: wr_def upd_conv_take_nth_drop)
next
  case (Cons c s)
  show ?case
  proof (cases "q < n - 1")
    case False
    then have "int q \<ge> int n - 1" by linarith
    with False Cons.prems show ?thesis by (simp add: wr_def upd_conv_take_nth_drop)
  next
    case True
    then have lt: "\<not> int q \<ge> int n - 1" by linarith
    let ?b = "buf[q := c]"
    have m: "n - Suc q = Suc (n - 1 - Suc q)" using True by simp
    have "pstrcpy_loop ?b (Suc q) (int n) (s @ 0 # r) =
        Some (take (Suc q) ?b @ take (n - 1 - Suc q) s @ 0 # drop (Suc q + length (take (n - 1 - Suc q) s) + 1) ?b)"
      using Cons.prems True by (intro Cons.IH) auto
    moreover have "take (Suc q) ?b = take q buf @ [c]" using Cons.prems by (simp add: take_Suc_conv_app_nth)
    ultimately show ?thesis using Cons.prems True lt by (simp add: wr_def m)
  qed
qed

lemma pstrcpy_eq:
  assumes "cstr str = Some s" "0 < n" "n \<le> length buf"
  shows "pstrcpy buf (int n) str = Some (take (n - 1) s @ 0 # drop (length (take (n - 1) s) + 1) buf)"
proof -
  obtain r where "str = s @ 0 # r" "0 \<notin> set s" using cstr_SomeD [OF assms(1)] by blast
  then show ?thesis using pstrcpy_loop_eq [of s n 0 buf r] assms(2,3) by (simp add: pstrcpy_def)
qed

lemma has_suffix_eq:
  assumes "cstr str = Some s" "cstr suf = Some t"
  shows "has_suffix str suf = Some (suffix t s)"
proof -
  obtain r u where r: "str = s @ 0 # r" "suf = t @ 0 # u" using cstr_SomeD assms by blast
  have "length t \<le> length s \<and> drop (length s - length t) s = t \<longleftrightarrow> suffix t s"
    by (metis suffix_def suffix_length_le append_eq_conv_conj append_take_drop_id diff_diff_cancel length_append length_drop suffix_drop
        suffix_take)
  then show ?thesis using assms by (auto simp: has_suffix_def strlen_def r)
qed

lemma strstart_eq:
  assumes "cstr p = Some s" "cstr q = Some t"
  shows "strstart p q = Some (if prefix t s then Some (drop (length t) p) else None)"
  using assms
proof (induction p q arbitrary: s t rule: strstart.induct)
  case (2 p c q)
  show ?case
  proof (cases "c = 0")
    case True
    with 2 show ?thesis by auto
  next
    case False
    then obtain t' where t: "t = c # t'" "cstr q = Some t'" using 2 by auto
    obtain d p' where p: "p = d # p'" using 2 by (cases p) auto
    show ?thesis
    proof (cases "d = c")
      case True
      with 2 False t p obtain s' where "s = c # s'" "cstr p' = Some s'" by auto
      with 2(1) [OF False p _ this(2) t(2)] True False t p show ?thesis by simp
    next
      case nd: False
      then have "\<not> prefix t s" using 2(2) p t by (auto split: if_splits)
      with nd False p show ?thesis by simp
    qed
  qed
qed simp

section \<open>Integers in memory\<close>

definition get_u64 :: "bytes \<Rightarrow> u64 option" where
  "get_u64 tab = map_option (\<lambda>b. of_nat (le_nat b)) (rd_bytes tab 0 8)"
definition get_u32 :: "bytes \<Rightarrow> u32 option" where
  "get_u32 tab = map_option (\<lambda>b. of_nat (le_nat b)) (rd_bytes tab 0 4)"
definition get_u16 :: "bytes \<Rightarrow> u32 option" where
  "get_u16 tab = map_option (\<lambda>b. of_nat (le_nat b)) (rd_bytes tab 0 2)"
definition get_u8 :: "bytes \<Rightarrow> u32 option" where
  "get_u8 tab = map_option ucast (rd tab 0)"
definition get_i64 :: "bytes \<Rightarrow> int option" where
  "get_i64 tab = map_option sint (get_u64 tab)"
definition get_i32 :: "bytes \<Rightarrow> int option" where
  "get_i32 tab = map_option sint (get_u32 tab)"
definition get_i16 :: "bytes \<Rightarrow> int option" where
  "get_i16 tab = map_option (\<lambda>v. sint (ucast v :: u16)) (get_u16 tab)"
definition get_i8 :: "bytes \<Rightarrow> int option" where
  "get_i8 tab = map_option sint (rd tab 0)"
definition put_u64 :: "bytes \<Rightarrow> u64 \<Rightarrow> bytes option" where
  "put_u64 tab v = wr_bytes tab 0 (nat_le 8 (unat v))"
definition put_u32 :: "bytes \<Rightarrow> u32 \<Rightarrow> bytes option" where
  "put_u32 tab v = wr_bytes tab 0 (nat_le 4 (unat v))"
definition put_u16 :: "bytes \<Rightarrow> u16 \<Rightarrow> bytes option" where
  "put_u16 tab v = wr_bytes tab 0 (nat_le 2 (unat v))"
definition put_u8 :: "bytes \<Rightarrow> u8 \<Rightarrow> bytes option" where
  "put_u8 tab v = wr tab 0 v"

definition bswap16 :: "u16 \<Rightarrow> u16" where
  "bswap16 x = drop_bit 8 x OR push_bit 8 x"

definition bswap32 :: "u32 \<Rightarrow> u32" where
  "bswap32 v =
     drop_bit 24 (v AND 0xff000000) OR drop_bit 8 (v AND 0x00ff0000) OR
     push_bit 8 (v AND 0x0000ff00) OR push_bit 24 (v AND 0x000000ff)"

definition bswap64 :: "u64 \<Rightarrow> u64" where
  "bswap64 v =
     drop_bit (7 * 8) (v AND push_bit (7 * 8) 0xff) OR
     drop_bit (5 * 8) (v AND push_bit (6 * 8) 0xff) OR
     drop_bit (3 * 8) (v AND push_bit (5 * 8) 0xff) OR
     drop_bit (1 * 8) (v AND push_bit (4 * 8) 0xff) OR
     push_bit (1 * 8) (v AND push_bit (3 * 8) 0xff) OR
     push_bit (3 * 8) (v AND push_bit (2 * 8) 0xff) OR
     push_bit (5 * 8) (v AND push_bit (1 * 8) 0xff) OR
     push_bit (7 * 8) (v AND push_bit (0 * 8) 0xff)"

lemma rd_after_wr:
  assumes "wr_bytes tab 0 vs = Some tab'" "length vs = n"
  shows "rd_bytes tab' 0 n = Some vs"
  using assms by (auto simp: wr_bytes_def rd_bytes_def split: if_splits)

lemma get_put_u64: "put_u64 tab v = Some tab' \<Longrightarrow> get_u64 tab' = Some v"
  using rd_after_wr [of tab "nat_le 8 (unat v)" tab' 8] unat_u64_bound [of v]
  by (simp add: put_u64_def get_u64_def le_nat_nat_le)

lemma get_put_u32: "put_u32 tab v = Some tab' \<Longrightarrow> get_u32 tab' = Some v"
  using rd_after_wr [of tab "nat_le 4 (unat v)" tab' 4] unat_u32_bound [of v]
  by (simp add: put_u32_def get_u32_def le_nat_nat_le)

lemma get_put_u16: "put_u16 tab v = Some tab' \<Longrightarrow> get_u16 tab' = Some (ucast v)"
proof -
  assume "put_u16 tab v = Some tab'"
  moreover have "unat v < 65536" using unsigned_less [of v] by simp
  ultimately show ?thesis using rd_after_wr [of tab "nat_le 2 (unat v)" tab' 2]
    by (simp add: put_u16_def get_u16_def le_nat_nat_le of_nat_unat)
qed

lemma less_32_cases: "(n :: nat) < 32 \<Longrightarrow> n \<in> set [0 ..< 32]"
  by simp

lemma bit_bswap32: "n < 32 \<Longrightarrow> bit (bswap32 v) n = bit v (8 * (3 - n div 8) + n mod 8)"
proof -
  assume n: "n < 32"
  define k j where "k = n div 8" "j = n mod 8"
  have nk: "n = 8 * k + j" "j < 8" "k < 4" using n by (auto simp: k_j_def)
  have m: "(0xff :: u32) = mask 8" "(0xff00 :: u32) = push_bit 8 (mask 8)" "(0xff0000 :: u32) = push_bit 16 (mask 8)"
    "(0xff000000 :: u32) = push_bit 24 (mask 8)" by (simp_all add: mask_eq_exp_minus_1 push_bit_eq_mult)
  from nk(3) consider "k = 0" | "k = 1" | "k = 2" | "k = 3" by linarith
  then have "bit (bswap32 v) (8 * k + j) = bit v (8 * (3 - k) + j)"
    unfolding bswap32_def m using nk(2)
    by cases (simp_all only: bit_or_iff bit_and_iff bit_push_bit_iff bit_drop_bit_eq comp_apply bit_mask_iff, auto dest: bit_imp_le_length)
  moreover have "n div 8 = k" "n mod 8 = j" by (simp_all add: k_j_def)
  ultimately show ?thesis using nk(1) by simp
qed

lemma bit_bswap64: "n < 64 \<Longrightarrow> bit (bswap64 v) n = bit v (8 * (7 - n div 8) + n mod 8)"
proof -
  assume n: "n < 64"
  define k j where "k = n div 8" "j = n mod 8"
  have nk: "n = 8 * k + j" "j < 8" "k < 8" using n by (auto simp: k_j_def)
  have m: "(0xff :: u64) = mask 8" by (simp add: mask_eq_exp_minus_1)
  from nk(3) consider "k = 0" | "k = 1" | "k = 2" | "k = 3" | "k = 4" | "k = 5" | "k = 6" | "k = 7" by linarith
  then have "bit (bswap64 v) (8 * k + j) = bit v (8 * (7 - k) + j)"
    unfolding bswap64_def m using nk(2)
    by cases (simp_all only: bit_or_iff bit_and_iff bit_push_bit_iff bit_drop_bit_eq comp_apply bit_mask_iff, auto dest: bit_imp_le_length)
  moreover have "n div 8 = k" "n mod 8 = j" by (simp_all add: k_j_def)
  ultimately show ?thesis using nk(1) by simp
qed

lemma bit_bswap16: "n < 16 \<Longrightarrow> bit (bswap16 v) n = bit v (8 * (1 - n div 8) + n mod 8)"
proof -
  assume n: "n < 16"
  define k j where "k = n div 8" "j = n mod 8"
  have nk: "n = 8 * k + j" "j < 8" "k < 2" using n by (auto simp: k_j_def)
  from nk(3) consider "k = 0" | "k = 1" by linarith
  then have "bit (bswap16 v) (8 * k + j) = bit v (8 * (1 - k) + j)"
    unfolding bswap16_def using nk(2)
    by cases (simp_all only: bit_or_iff bit_and_iff bit_push_bit_iff bit_drop_bit_eq comp_apply bit_mask_iff, auto dest: bit_imp_le_length)
  moreover have "n div 8 = k" "n mod 8 = j" by (simp_all add: k_j_def)
  ultimately show ?thesis using nk(1) by simp
qed

text \<open>The bytes of a word, as they lie in memory.\<close>

lemma nat_le_word: "nat_le k (unat (w :: 'a :: len word)) = map (\<lambda>i. ucast (drop_bit (8 * i) w)) [0 ..< k]"
proof (rule nth_equalityI)
  fix i assume "i < length (nat_le k (unat w))"
  then have i: "i < k" by simp
  have "nat_le k n ! i = of_nat (n div 256 ^ i)" if "i < k" for n
    using that
  proof (induction k arbitrary: n i)
    case (Suc k)
    then show ?case by (cases i) (simp_all add: div_mult2_eq)
  qed simp
  with i have "nat_le k (unat w) ! i = of_nat (unat w div 256 ^ i)" by blast
  also have "unat w div 256 ^ i = unat (drop_bit (8 * i) w)"
    unfolding unat_drop_bit_eq by (simp add: drop_bit_eq_div power_mult)
  also have "of_nat (unat (drop_bit (8 * i) w)) = (ucast (drop_bit (8 * i) w) :: u8)" by (rule of_nat_unat)
  finally show "nat_le k (unat w) ! i = map (\<lambda>i. ucast (drop_bit (8 * i) w)) [0 ..< k] ! i" using i by simp
qed simp

lemma byte_eqI:
  assumes "\<And>j. j < 8 \<Longrightarrow> bit v (8 * i + j) = bit w (8 * k + j)"
  shows "(ucast (drop_bit (8 * i) v) :: u8) = ucast (drop_bit (8 * k) w)"
  using assms by (intro bit_word_eqI) (simp add: bit_simps ac_simps)

lemma rev_map_upt: "rev (map f [0 ..< Suc n]) = map (\<lambda>i. f (n - i)) [0 ..< Suc n]"
  by (intro nth_equalityI) (auto simp: rev_nth simp del: upt_Suc)

lemma rev_map_upt_numerals:
  "rev (map f [0 ..< 2]) = map (\<lambda>i. f (1 - i)) [0 ..< 2]"
  "rev (map f [0 ..< 4]) = map (\<lambda>i. f (3 - i)) [0 ..< 4]"
  "rev (map f [0 ..< 8]) = map (\<lambda>i. f (7 - i)) [0 ..< 8]"
  using rev_map_upt [of f 1] rev_map_upt [of f 3] rev_map_upt [of f 7]
  by (simp_all add: numeral_2_eq_2 del: upt_Suc)

lemma bswap_bytes:
  "nat_le 2 (unat (bswap16 a)) = rev (nat_le 2 (unat a))"
  "nat_le 4 (unat (bswap32 b)) = rev (nat_le 4 (unat b))"
  "nat_le 8 (unat (bswap64 c)) = rev (nat_le 8 (unat c))"
proof -
  have "ucast (drop_bit (8 * i) (bswap16 a)) = (ucast (drop_bit (8 * (1 - i)) a) :: u8)" if "i < 2" for i
    using that by (intro byte_eqI) (auto simp: bit_bswap16)
  then show "nat_le 2 (unat (bswap16 a)) = rev (nat_le 2 (unat a))"
    unfolding nat_le_word rev_map_upt_numerals by (intro map_cong) simp_all
  have "ucast (drop_bit (8 * i) (bswap32 b)) = (ucast (drop_bit (8 * (3 - i)) b) :: u8)" if "i < 4" for i
    using that by (intro byte_eqI) (auto simp: bit_bswap32)
  then show "nat_le 4 (unat (bswap32 b)) = rev (nat_le 4 (unat b))"
    unfolding nat_le_word rev_map_upt_numerals by (intro map_cong) simp_all
  have "ucast (drop_bit (8 * i) (bswap64 c)) = (ucast (drop_bit (8 * (7 - i)) c) :: u8)" if "i < 8" for i
    using that by (intro byte_eqI) (auto simp: bit_bswap64)
  then show "nat_le 8 (unat (bswap64 c)) = rev (nat_le 8 (unat c))"
    unfolding nat_le_word rev_map_upt_numerals by (intro map_cong) simp_all
qed

section \<open>Small helpers of cutils.h\<close>

definition max_int :: "u32 \<Rightarrow> u32 \<Rightarrow> u32" where "max_int a b = (if b <s a then a else b)"
definition min_int :: "u32 \<Rightarrow> u32 \<Rightarrow> u32" where "min_int a b = (if a <s b then a else b)"
definition max_uint32 :: "u32 \<Rightarrow> u32 \<Rightarrow> u32" where "max_uint32 a b = (if a > b then a else b)"
definition min_uint32 :: "u32 \<Rightarrow> u32 \<Rightarrow> u32" where "min_uint32 a b = (if a < b then a else b)"
definition max_int64 :: "u64 \<Rightarrow> u64 \<Rightarrow> u64" where "max_int64 a b = (if b <s a then a else b)"
definition min_int64 :: "u64 \<Rightarrow> u64 \<Rightarrow> u64" where "min_int64 a b = (if a <s b then a else b)"

text \<open>The compiler's builtins behind clz and ctz; both are undefined for 0.\<close>

definition clz :: "'a :: len word \<Rightarrow> nat option" where
  "clz a = (if a = 0 then None else Some (length (takeWhile (\<lambda>i. \<not> bit a i) (rev [0 ..< LENGTH('a)]))))"
definition ctz :: "'a :: len word \<Rightarrow> nat option" where
  "ctz a = (if a = 0 then None else Some (length (takeWhile (\<lambda>i. \<not> bit a i) [0 ..< LENGTH('a)])))"
definition clz32 :: "u32 \<Rightarrow> nat option" where "clz32 a = clz a"
definition clz64 :: "u64 \<Rightarrow> nat option" where "clz64 a = clz a"
definition ctz32 :: "u32 \<Rightarrow> nat option" where "ctz32 a = ctz a"
definition ctz64 :: "u64 \<Rightarrow> nat option" where "ctz64 a = ctz a"

section \<open>Bounded copying\<close>

lemma nth_behind:
  assumes "length t < k" "length t < length buf"
  shows "(t @ x # drop (length t + 1) buf) ! k = buf ! k"
proof -
  obtain d where "k = length t + 1 + d" using less_imp_Suc_add [OF assms(1)] by auto
  then show ?thesis using assms(2) by (simp add: nth_append)
qed

text \<open>
  pstrcpy into a buffer of n > 0 bytes always leaves a terminated string there: the
  source cut to n - 1 characters, and no byte behind the terminator is touched.
\<close>

theorem pstrcpy_truncates:
  assumes "cstr str = Some s" "0 < n" "n \<le> length buf"
  shows "\<exists>buf'. pstrcpy buf (int n) str = Some buf' \<and> length buf' = length buf \<and>
    cstr buf' = Some (take (n - 1) s) \<and> (\<forall>k. length s < k \<or> n \<le> k \<longrightarrow> buf' ! k = buf ! k)"
proof -
  let ?t = "take (n - 1) s"
  let ?b = "?t @ 0 # drop (length ?t + 1) buf"
  have "0 \<notin> set s" using cstr_SomeD [OF assms(1)] by blast
  then have c: "cstr ?b = Some ?t" by (intro cstr_append_NUL) (meson in_set_takeD)
  have l: "length ?t < n" "length ?t < length buf" using assms by auto
  then have len: "length ?b = length buf" by simp
  have "?b ! k = buf ! k" if "length s < k \<or> n \<le> k" for k
  proof (rule nth_behind)
    show "length ?t < k" using that assms(2) by auto
  qed (rule l(2))
  then show ?thesis using pstrcpy_eq [OF assms] c len by blast
qed

theorem pstrcpy_truncates_witness:
  "\<exists>buf'. pstrcpy [9, 9, 9, 9] (int 3) [1, 2, 3, 0] = Some buf' \<and> length buf' = length [9 :: u8, 9, 9, 9] \<and>
    cstr buf' = Some (take (3 - 1) [1, 2, 3]) \<and>
    (\<forall>k. length [1 :: u8, 2, 3] < k \<or> 3 \<le> k \<longrightarrow> buf' ! k = [9, 9, 9, 9] ! k)"
  by (rule pstrcpy_truncates) simp_all

end
