(* ===== verification/Std_Module.thy ===== *)
theory Std_Module
  imports Cell_FS Ckb_Module Cutils
begin

text \<open>
  quickjs/std_module.c: the console functions, the globals of a program and the module loader,
  which looks modules up in the cell file system. The JavaScript engine (quickjs.c) is a
  parameter: the record js_vm holds the engine operations that the loader calls, over an engine
  state \<open>'w\<close> and values \<open>'v\<close>; an exception is the value \<^const>\<open>None\<close> of such an operation.
  What the program prints is recorded in order. \<^const>\<open>None\<close> as the result of a function of the
  source is an access outside an object, or a call of JS_Eval with an input that is not
  terminated by NUL (its documented requirement).
\<close>

datatype out_arg = A_str bytes | A_int int | A_double u64
datatype out_event = O_printf string "out_arg list" | O_debug bytes | O_check int

datatype c_function = F_print | F_assert | F_ckb string | F_dummy_init
datatype 'v prim = P_string bytes | P_bool bool | P_number "(unit, unit) jsval"

record ('w, 'v) js_vm =
  vm_eval :: "'w \<Rightarrow> bytes \<Rightarrow> bytes \<Rightarrow> nat \<Rightarrow> 'v option \<times> 'w" \<comment> \<open>code, file name, flags\<close>
  vm_read_object :: "'w \<Rightarrow> bytes \<Rightarrow> nat \<Rightarrow> 'v option \<times> 'w"
  vm_write_object :: "'w \<Rightarrow> 'v \<Rightarrow> nat \<Rightarrow> bytes option \<times> 'w"
  vm_is_module :: "'v \<Rightarrow> bool"
  vm_resolve_module :: "'w \<Rightarrow> 'v \<Rightarrow> int \<times> 'w"
  vm_eval_function :: "'w \<Rightarrow> 'v \<Rightarrow> 'v option \<times> 'w"
  vm_module_name :: "'w \<Rightarrow> 'v \<Rightarrow> bytes option" \<comment> \<open>JS_GetModuleName and JS_AtomToCString\<close>
  vm_import_meta :: "'w \<Rightarrow> 'v \<Rightarrow> 'v option \<times> 'w"
  vm_define_property :: "'w \<Rightarrow> 'v \<Rightarrow> string \<Rightarrow> 'v \<Rightarrow> 'w"
  vm_throw_reference_error :: "'w \<Rightarrow> bytes \<Rightarrow> 'w"
  vm_new_c_module :: "'w \<Rightarrow> bytes \<Rightarrow> c_function \<Rightarrow> 'v option \<times> 'w"
  vm_float64 :: "'v \<Rightarrow> u64 option"
  vm_to_cstring :: "'w \<Rightarrow> 'v \<Rightarrow> bytes option \<times> 'w"
  vm_to_bool :: "'w \<Rightarrow> 'v \<Rightarrow> int"
  vm_global :: "'w \<Rightarrow> 'v"
  vm_new_object :: "'w \<Rightarrow> 'v \<times> 'w"
  vm_new_array :: "'w \<Rightarrow> 'v \<times> 'w"
  vm_new_c_function :: "'w \<Rightarrow> c_function \<Rightarrow> string \<Rightarrow> nat \<Rightarrow> 'v \<times> 'w"
  vm_new_value :: "'w \<Rightarrow> 'v prim \<Rightarrow> 'v \<times> 'w"
  vm_set_property :: "'w \<Rightarrow> 'v \<Rightarrow> string \<Rightarrow> 'v \<Rightarrow> 'w"
  vm_set_element :: "'w \<Rightarrow> 'v \<Rightarrow> nat \<Rightarrow> 'v \<Rightarrow> 'w"
  vm_get_exception :: "'w \<Rightarrow> 'v \<times> 'w"
  vm_is_error :: "'w \<Rightarrow> 'v \<Rightarrow> bool"
  vm_get_property :: "'w \<Rightarrow> 'v \<Rightarrow> string \<Rightarrow> 'v \<times> 'w"
  vm_is_undefined :: "'v \<Rightarrow> bool"

text \<open>The state of the process: the engine, the heap, the mounted images, the output.\<close>

record ('w, 'h) process =
  pr_vm :: 'w
  pr_heap :: 'h
  pr_fs :: "CellFileSystem option"
  pr_out :: "out_event list"

definition print_out :: "out_event \<Rightarrow> ('w, 'h) process \<Rightarrow> ('w, 'h) process" where
  "print_out e s = s\<lparr>pr_out := pr_out s @ [e]\<rparr>"

abbreviation set_vm :: "'w \<Rightarrow> ('w, 'h) process \<Rightarrow> ('w, 'h) process" where
  "set_vm w s \<equiv> s\<lparr>pr_vm := w\<rparr>"

section \<open>The console\<close>

text \<open>The result is false for JS_EXCEPTION and true for JS_UNDEFINED.\<close>

fun js_print :: "('w, 'v) js_vm \<Rightarrow> ('w, 'h) process \<Rightarrow> 'v list \<Rightarrow> bool \<times> ('w, 'h) process" where
  "js_print V s [] = (True, s)"
| "js_print V s (v # argv) =
     (case vm_float64 V v of
        Some d \<Rightarrow> js_print V (print_out (O_printf ''%f'' [A_double d]) s) argv
      | None \<Rightarrow>
          (let (str, w) = vm_to_cstring V (pr_vm s) v; s = set_vm w s in
           case str of None \<Rightarrow> (False, s) | Some t \<Rightarrow> js_print V (print_out (O_debug t) s) argv))"

definition js_assert :: "('w, 'v) js_vm \<Rightarrow> ('w, 'h) process \<Rightarrow> 'v list \<Rightarrow> (bool \<times> ('w, 'h) process) option" where
  "js_assert V s argv =
     (case argv of
        [] \<Rightarrow> None
      | v # rest \<Rightarrow>
          (if vm_to_bool V (pr_vm s) v = 0 then Some (False, snd (js_print V s rest)) else Some (True, s)))"

section \<open>The globals\<close>

fun set_args :: "('w, 'v) js_vm \<Rightarrow> 'w \<Rightarrow> 'v \<Rightarrow> nat \<Rightarrow> bytes list \<Rightarrow> 'w option" where
  "set_args V w args i [] = Some w"
| "set_args V w args i (a # argv) =
     do { t \<leftarrow> cstr a;
          let (str, w) = vm_new_value V w (P_string t);
          set_args V (vm_set_element V w args i str) args (i + 1) argv }"

definition set_function :: "('w, 'v) js_vm \<Rightarrow> 'w \<Rightarrow> 'v \<Rightarrow> c_function \<Rightarrow> string \<Rightarrow> nat \<Rightarrow> 'w" where
  "set_function V w obj f name len =
     (let (v, w) = vm_new_c_function V w f name len in vm_set_property V w obj name v)"

definition js_std_add_helpers :: "('w, 'v) js_vm \<Rightarrow> 'w \<Rightarrow> bytes list \<Rightarrow> 'w option" where
  "js_std_add_helpers V w argv =
     (let global_obj = vm_global V w;
          (console, w) = vm_new_object V w;
          w = set_function V w console F_print ''log'' 1;
          w = set_function V w console F_assert ''assert'' 1;
          w = vm_set_property V w global_obj ''console'' console;
          (args, w) = vm_new_array V w
      in do { w \<leftarrow> set_args V w args 0 argv;
              let w = vm_set_property V w global_obj ''scriptArgs'' args;
              Some (set_function V w global_obj F_print ''print'' 1) })"

definition ckb_function_lengths :: "(string \<times> nat) list" where
  "ckb_function_lengths =
     [(''exit'', 1),
      (''load_tx_hash'', 1),
      (''load_transaction'', 1),
      (''load_script_hash'', 1),
      (''load_script'', 1),
      (''debug'', 1),
      (''load_cell'', 3),
      (''load_input'', 3),
      (''load_header'', 3),
      (''load_witness'', 3),
      (''load_cell_data'', 3),
      (''load_cell_by_field'', 4),
      (''load_header_by_field'', 4),
      (''load_input_by_field'', 4),
      (''vm_version'', 0),
      (''current_cycles'', 0),
      (''exec_cell'', 4),
      (''spawn_cell'', 3),
      (''set_content'', 1),
      (''get_memory_limit'', 0),
      (''current_memory'', 0)]"

lemma ckb_function_lengths_table:
  "map (\<lambda>(name, f, len). (name, len)) (ckb_functions E H K) = ckb_function_lengths"
  by (simp add: ckb_functions_def ckb_function_lengths_def)

text \<open>js_init_module_ckb of ckb_module.c builds the ckb object from the tables of theory Ckb_Module.\<close>

definition js_init_module_ckb :: "('w, 'v) js_vm \<Rightarrow> (string \<Rightarrow> u64) \<Rightarrow> 'w \<Rightarrow> int \<times> 'w" where
  "js_init_module_ckb V C w =
     (let global_obj = vm_global V w;
          (ckb, w) = vm_new_object V w;
          w = fold (\<lambda>(name, len) w. set_function V w ckb (F_ckb name) name len) ckb_function_lengths w;
          w = fold (\<lambda>(name, c) w. let (v, w) = vm_new_value V w (P_number c) in vm_set_property V w ckb name v)
                (ckb_constants C) w
      in (0, vm_set_property V w global_obj ''ckb'' ckb))"

section \<open>Modules\<close>

text \<open>JS_Eval reads its input up to a NUL behind it.\<close>

definition js_eval :: "('w, 'v) js_vm \<Rightarrow> 'w \<Rightarrow> bytes \<Rightarrow> nat \<Rightarrow> bytes \<Rightarrow> nat \<Rightarrow> ('v option \<times> 'w) option" where
  "js_eval V w buf buf_len filename flags =
     (if buf_len < length buf \<and> buf ! buf_len = 0
      then Some (vm_eval V w (take buf_len buf) filename flags) else None)"

definition js_read_object :: "('w, 'v) js_vm \<Rightarrow> 'w \<Rightarrow> bytes \<Rightarrow> nat \<Rightarrow> nat \<Rightarrow> ('v option \<times> 'w) option" where
  "js_read_object V w buf buf_len flags =
     do { code \<leftarrow> rd_bytes buf 0 buf_len; Some (vm_read_object V w code flags) }"

definition BC_VERSION :: u8 where "BC_VERSION = 2"
definition JS_EVAL_TYPE_MODULE :: nat where "JS_EVAL_TYPE_MODULE = 1"
definition JS_EVAL_TYPE_MASK :: nat where "JS_EVAL_TYPE_MASK = 3"
definition JS_EVAL_FLAG_COMPILE_ONLY :: nat where "JS_EVAL_FLAG_COMPILE_ONLY = 32"
definition JS_READ_OBJ_BYTECODE :: nat where "JS_READ_OBJ_BYTECODE = 1"
definition PATH_MAX :: nat where "PATH_MAX = 4096"

text \<open>
  The result of js_load_file is NULL or the pointer to the content (the bytes from there to the
  end of the object it points into) and *pbuf_len. The FSFile is not freed by the source.
\<close>

definition js_load_file ::
  "'h heap_ops \<Rightarrow> ('w, 'h) process \<Rightarrow> bytes \<Rightarrow> ((bytes \<times> nat) option \<times> ('w, 'h) process) option" where
  "js_load_file H s filename =
     do { (err, f, h) \<leftarrow> ckb_get_file H (pr_heap s) (pr_fs s) filename;
          let s = s\<lparr>pr_heap := h\<rparr>;
          if err \<noteq> 0 then Some (None, s)
          else do { f \<leftarrow> f;
                    if ff_size f = 0 then Some (None, s)
                    else if p_off (ff_content f) \<le> length (p_obj (ff_content f))
                    then Some (Some (drop (p_off (ff_content f)) (p_obj (ff_content f)), unat (ff_size f)), s)
                    else None } }"

definition js_module_set_import_meta ::
  "('w, 'v) js_vm \<Rightarrow> 'w \<Rightarrow> 'v \<Rightarrow> bool \<Rightarrow> bytes \<Rightarrow> (int \<times> 'w) option" where
  \<comment> \<open>\<open>junk\<close>: what the local buffer holds before it is written\<close>
  "js_module_set_import_meta V w func_val is_main junk =
     (if \<not> vm_is_module V func_val then Some (- 1, w)
      else
        (case vm_module_name V w func_val of
           None \<Rightarrow> Some (- 1, w)
         | Some module_name \<Rightarrow>
             do { buf \<leftarrow> pstrcpy (take (PATH_MAX + 16) junk) (int (PATH_MAX + 16)) (strz module_name);
                  let (meta, w) = vm_import_meta V w func_val;
                  case meta of
                    None \<Rightarrow> Some (- 1, w)
                  | Some meta_obj \<Rightarrow>
                      do { url \<leftarrow> cstr buf;
                           let (u, w) = vm_new_value V w (P_string url);
                           let w = vm_define_property V w meta_obj ''url'' u;
                           let (b, w) = vm_new_value V w (P_bool is_main);
                           Some (0, vm_define_property V w meta_obj ''main'' b) } }))"

text \<open>strcpy and strlen of the C library, on a destination of a given size.\<close>

definition strcpy_at :: "bytes \<Rightarrow> nat \<Rightarrow> bytes \<Rightarrow> bytes option" where
  "strcpy_at buf i str = do { t \<leftarrow> cstr str; wr_bytes buf i (strz t) }"

definition could_not_load :: "('w, 'v) js_vm \<Rightarrow> ('w, 'h) process \<Rightarrow> bytes \<Rightarrow> ('w, 'h) process" where
  "could_not_load V s module_name = set_vm (vm_throw_reference_error V (pr_vm s) module_name) s"

definition js_module_loader ::
  "'h heap_ops \<Rightarrow> ('w, 'v) js_vm \<Rightarrow> bytes \<Rightarrow> ('w, 'h) process \<Rightarrow> bytes \<Rightarrow> ('v option \<times> ('w, 'h) process) option" where
  "js_module_loader H V junk s module_name =
     do { (buf, s) \<leftarrow> js_load_file H s module_name;
          len \<leftarrow> strlen module_name;
          (buf, s) \<leftarrow>
            (case buf of
               Some b \<Rightarrow> Some (Some b, s)
             | None \<Rightarrow>
                 (if len \<le> 3 then Some (None, could_not_load V s module_name)
                  else do {
                    c \<leftarrow> strcmp (drop (len - 3) module_name) (strz [46, 106, 115]);
                    if c \<noteq> 0 then Some (None, could_not_load V s module_name)
                    else do {
                      name \<leftarrow> strcpy_at (take 256 junk) 0 module_name;
                      name \<leftarrow> strcpy_at name (len - 3) (strz [46, 98, 99]);
                      (buf, s) \<leftarrow> js_load_file H s name;
                      Some (case buf of Some b \<Rightarrow> (Some b, s) | None \<Rightarrow> (None, could_not_load V s module_name)) } }));
          case buf of
            None \<Rightarrow> Some (None, s)
          | Some (code, buf_len) \<Rightarrow>
              do { b0 \<leftarrow> rd code 0;
                   t \<leftarrow> cstr module_name;
                   (func_val, w) \<leftarrow>
                     (if b0 = BC_VERSION then js_read_object V (pr_vm s) code buf_len JS_READ_OBJ_BYTECODE
                      else js_eval V (pr_vm s) code buf_len t (JS_EVAL_TYPE_MODULE OR JS_EVAL_FLAG_COMPILE_ONLY));
                   case func_val of
                     None \<Rightarrow> Some (None, set_vm w s)
                   | Some m \<Rightarrow>
                       do { (r, w) \<leftarrow> js_module_set_import_meta V w m False junk;
                            Some (Some m, set_vm w s) } } }"

definition js_module_dummy_loader :: "('w, 'v) js_vm \<Rightarrow> 'w \<Rightarrow> bytes \<Rightarrow> ('v option \<times> 'w) option" where
  "js_module_dummy_loader V w module_name =
     do { t \<leftarrow> cstr module_name; Some (vm_new_c_module V w t F_dummy_init) }"

section \<open>Loading from a packed image\<close>

text \<open>A process in which exactly one packed image is mounted; any bytes may follow it.\<close>

definition mounted :: "(bytes \<times> bytes) list \<Rightarrow> ('w, 'h) process \<Rightarrow> bool" where
  "mounted files s =
     (\<exists>img slack. pack_fs files = Some img \<and>
        pr_fs s = Some (CellFileSystem (Some (packed_node files (img @ slack))) None))"

lemma get_file_mounted:
  assumes "mounted files s" "cstr fname = Some nm" "map_of files nm = Some ct"
    and "h_malloc H h sizeof_FSFile = (p, h1)" "p \<noteq> 0"
  obtains f rest where "ckb_get_file H h (pr_fs s) fname = Some (0, Some f, h1)"
    "unat (ff_size f) = length ct" "drop (p_off (ff_content f)) (p_obj (ff_content f)) = ct @ 0 # rest"
    "p_off (ff_content f) \<le> length (p_obj (ff_content f))"
proof -
  obtain img slack where m: "pack_fs files = Some img"
    "pr_fs s = Some (CellFileSystem (Some (packed_node files (img @ slack))) None)"
    using assms(1) by (auto simp: mounted_def)
  obtain e where e: "map_of (zip (map fst files) (packed_entries 0 files)) nm = Some e"
    using packed_no_entry [of files 0 nm] assms(3) by fastforce
  obtain content ct' rest where c: "map_of files nm = Some ct'"
    "cptr_add (node_start (packed_node files (img @ slack))) (unat (blob_offset (entry_content e))) = Some content"
    "unat (blob_length (entry_content e)) = length ct'" "drop (p_off content) (p_obj content) = ct' @ 0 # rest"
    using packed_file_terminated [OF m(1) e] by blast
  have w: "walk_fs fname (CellFileSystem (Some (packed_node files (img @ slack))) None) =
      Some (Some (packed_node files (img @ slack), e))"
    using walk_fs_packed [OF m(1) assms(2), of slack None] e by (simp del: map_of_zip_is_None)
  let ?f = "\<lparr>ff_filename = fname, ff_content = content, ff_size = blob_length (entry_content e), ff_rc = 1\<rparr>"
  have "ckb_get_file H h (pr_fs s) fname = Some (0, Some ?f, h1)"
    using assms(4,5) m(2) w c(2) by (simp add: ckb_get_file_def get_file_def)
  moreover have "p_off content \<le> length (p_obj content)"
    using c(4) by (metis drop_all linorder_le_cases append_is_Nil_conv list.distinct(1))
  ultimately show ?thesis using that [of ?f rest] c assms(3) by simp
qed

lemma get_file_not_packed:
  assumes "mounted files s" "cstr fname = Some nm" "map_of files nm = None"
    and "h_malloc H h sizeof_FSFile = (p, h1)" "p \<noteq> 0" "h_free H h1 p = Some h2"
  shows "ckb_get_file H h (pr_fs s) fname = Some (- 1, None, h2)"
proof -
  obtain img slack where m: "pack_fs files = Some img"
    "pr_fs s = Some (CellFileSystem (Some (packed_node files (img @ slack))) None)"
    using assms(1) by (auto simp: mounted_def)
  have "map_of (zip (map fst files) (packed_entries 0 files)) nm = None"
    using packed_no_entry assms(3) by metis
  then have "walk_fs fname (CellFileSystem (Some (packed_node files (img @ slack))) None) = Some None"
    by (simp only: walk_fs_packed [OF m(1) assms(2), of slack None] option.case)
  then show ?thesis using assms(4-6) m(2) by (simp add: ckb_get_file_def get_file_def)
qed

lemma js_load_file_mounted:
  assumes "mounted files s" "cstr fname = Some nm" "map_of files nm = Some ct" "ct \<noteq> []"
    and "h_malloc H (pr_heap s) sizeof_FSFile = (p, h1)" "p \<noteq> 0"
  obtains rest where "js_load_file H s fname = Some (Some (ct @ 0 # rest, length ct), s\<lparr>pr_heap := h1\<rparr>)"
proof -
  obtain f rest where f: "ckb_get_file H (pr_heap s) (pr_fs s) fname = Some (0, Some f, h1)"
    "unat (ff_size f) = length ct" "drop (p_off (ff_content f)) (p_obj (ff_content f)) = ct @ 0 # rest"
    "p_off (ff_content f) \<le> length (p_obj (ff_content f))"
    using get_file_mounted [OF assms(1-3,5,6)] by blast
  have "ff_size f \<noteq> 0" using f(2) assms(4) by auto
  then have "js_load_file H s fname = Some (Some (ct @ 0 # rest, length ct), s\<lparr>pr_heap := h1\<rparr>)"
    using f by (simp add: js_load_file_def)
  then show ?thesis by (rule that)
qed

lemma js_load_file_not_packed:
  assumes "mounted files s" "cstr fname = Some nm" "map_of files nm = None"
    and "h_malloc H (pr_heap s) sizeof_FSFile = (p, h1)" "p \<noteq> 0" "h_free H h1 p = Some h2"
  shows "js_load_file H s fname = Some (None, s\<lparr>pr_heap := h2\<rparr>)"
  using get_file_not_packed [OF assms] by (simp add: js_load_file_def)

lemma js_load_file_unmounted:
  "pr_fs s = None \<Longrightarrow> js_load_file H s fname = Some (None, s\<lparr>pr_heap := pr_heap s\<rparr>)"
  by (simp add: js_load_file_def ckb_get_file_def get_file_def)

lemma js_eval_terminated:
  "js_eval V w (ct @ 0 # rest) (length ct) name flags = Some (vm_eval V w ct name flags)"
  by (simp add: js_eval_def nth_append)

lemma js_read_object_eq:
  "js_read_object V w (ct @ rest) (length ct) flags = Some (vm_read_object V w ct flags)"
  by (simp add: js_read_object_def rd_bytes_def)

lemma import_meta_ok:
  assumes "PATH_MAX + 16 \<le> length junk"
  shows "\<exists>r. js_module_set_import_meta V w v is_main junk = Some r"
proof (cases "vm_is_module V v \<and> vm_module_name V w v \<noteq> None")
  case True
  then obtain nm where nm: "vm_module_name V w v = Some nm" by auto
  obtain t where t: "cstr (strz nm) = Some t"
    using cstr_None_iff [of "strz nm"] by (cases "cstr (strz nm)") (auto simp: strz_def)
  obtain buf where b: "pstrcpy (take (PATH_MAX + 16) junk) (int (PATH_MAX + 16)) (strz nm) = Some buf"
    "cstr buf = Some (take (PATH_MAX + 16 - 1) t)"
    using pstrcpy_eq [OF t, of "PATH_MAX + 16" "take (PATH_MAX + 16) junk"] assms cstr_SomeD [OF t]
    by (auto simp: PATH_MAX_def dest: in_set_takeD intro!: cstr_append_NUL)
  show ?thesis using True nm b
    by (auto simp: js_module_set_import_meta_def split: prod.split option.split)
qed (auto simp: js_module_set_import_meta_def)

text \<open>What the engine is asked to do with the bytes of a module.\<close>

definition module_of_code :: "('w, 'v) js_vm \<Rightarrow> 'w \<Rightarrow> bytes \<Rightarrow> bytes \<Rightarrow> 'v option \<times> 'w" where
  "module_of_code V w ct name =
     (if hd ct = BC_VERSION then vm_read_object V w ct JS_READ_OBJ_BYTECODE
      else vm_eval V w ct name (JS_EVAL_TYPE_MODULE OR JS_EVAL_FLAG_COMPILE_ONLY))"

text \<open>The second half of the loader, once the bytes are there.\<close>

lemma js_module_loader_code:
  assumes "ct \<noteq> []" "cstr module_name = Some nm" "PATH_MAX + 16 \<le> length junk"
  shows "\<exists>w. (do { b0 \<leftarrow> rd (ct @ 0 # rest) 0;
                   t \<leftarrow> cstr module_name;
                   (func_val, w) \<leftarrow>
                     (if b0 = BC_VERSION then js_read_object V (pr_vm s) (ct @ 0 # rest) (length ct) JS_READ_OBJ_BYTECODE
                      else js_eval V (pr_vm s) (ct @ 0 # rest) (length ct) t (JS_EVAL_TYPE_MODULE OR JS_EVAL_FLAG_COMPILE_ONLY));
                   case func_val of
                     None \<Rightarrow> Some (None, set_vm w s)
                   | Some m \<Rightarrow>
                       do { (r, w) \<leftarrow> js_module_set_import_meta V w m False junk;
                            Some (Some m, set_vm w s) } }) =
             Some (fst (module_of_code V (pr_vm s) ct nm), set_vm w s)"
proof -
  have b0: "rd (ct @ 0 # rest) 0 = Some (hd ct)" using assms(1) by (cases ct) (simp_all add: rd_def)
  obtain m w where mw: "module_of_code V (pr_vm s) ct nm = (m, w)" by fastforce
  show ?thesis
  proof (cases m)
    case None
    then show ?thesis using b0 assms(2) mw
      by (auto simp: module_of_code_def js_read_object_eq js_eval_terminated)
  next
    case (Some f)
    obtain r w' where "js_module_set_import_meta V w f False junk = Some (r, w')"
      using import_meta_ok [OF assms(3), of V w f False] by auto
    then show ?thesis using b0 assms(2) mw Some
      by (auto simp: module_of_code_def js_read_object_eq js_eval_terminated)
  qed
qed

text \<open>
  C8. An import of a module whose name is packed in the mounted image hands exactly the packed
  bytes to the engine: as bytecode when they start with the version byte, else as the source of
  a module with that name, with the NUL behind them that the engine needs.
\<close>

theorem js_module_loader_loads_packed:
  assumes "mounted files s" "cstr module_name = Some nm" "map_of files nm = Some ct" "ct \<noteq> []"
    and "h_malloc H (pr_heap s) sizeof_FSFile = (p, h1)" "p \<noteq> 0" "PATH_MAX + 16 \<le> length junk"
  shows "\<exists>w. js_module_loader H V junk s module_name =
    Some (fst (module_of_code V (pr_vm s) ct nm), s\<lparr>pr_heap := h1, pr_vm := w\<rparr>)"
proof -
  obtain rest where l: "js_load_file H s module_name = Some (Some (ct @ 0 # rest, length ct), s\<lparr>pr_heap := h1\<rparr>)"
    using js_load_file_mounted [OF assms(1-6)] by blast
  show ?thesis
    using js_module_loader_code [OF assms(4,2,7), of rest V "s\<lparr>pr_heap := h1\<rparr>"] assms(2)
    by (simp add: js_module_loader_def l strlen_def)
qed

lemma strcmp_suffix:
  assumes "cstr module_name = Some nm" "0 \<notin> set t"
  obtains c where "strcmp (drop (length nm - 3) module_name) (strz t) = Some c"
    "c = 0 \<longleftrightarrow> drop (length nm - 3) nm = t"
proof -
  obtain r where r: "module_name = nm @ 0 # r" "0 \<notin> set nm" using cstr_SomeD [OF assms(1)] by blast
  have "0 \<notin> set (drop (length nm - 3) nm)" using r(2) by (meson in_set_dropD)
  then have "cstr (drop (length nm - 3) module_name) = Some (drop (length nm - 3) nm)"
    by (simp add: r(1) cstr_append_NUL)
  then show ?thesis using that strcmp_cstr cstr_strz [OF assms(2)] by blast
qed

lemma strcpy_at_eq:
  assumes "cstr str = Some t"
  shows "strcpy_at buf i str = (if i + length t < length buf then
    Some (take i buf @ t @ 0 # drop (i + length t + 1) buf) else None)"
  using assms by (simp add: strcpy_at_def wr_bytes_def strz_def)

text \<open>The two calls of strcpy that build the second name.\<close>

lemma second_name:
  assumes "cstr module_name = Some nm" "nm = base @ [46, 106, 115]" "256 \<le> length junk"
  shows "do { name \<leftarrow> strcpy_at (take 256 junk) 0 module_name;
              strcpy_at name (length nm - 3) (strz [46, 98, 99]) } =
    (if length nm < 256 then Some ((base @ [46, 98, 99]) @ 0 # drop (length nm + 1) (take 256 junk)) else None)"
proof -
  have "cstr (strz [46, 98, 99]) = Some [46, 98, 99]" by (simp add: cstr_strz)
  then show ?thesis using assms by (simp add: strcpy_at_eq min_def)
qed

lemma js_module_loader_fallback:
  assumes nm: "cstr module_name = Some nm" "nm = base @ [46, 106, 115]" "base \<noteq> []" and junk: "256 \<le> length junk"
    and l1: "js_load_file H s module_name = Some (None, s1)"
  shows "length nm < 256 \<Longrightarrow> js_load_file H s1 ((base @ [46, 98, 99]) @ 0 # drop (length nm + 1) (take 256 junk)) = Some (None, s2)
      \<Longrightarrow> js_module_loader H V junk s module_name = Some (None, could_not_load V s2 module_name)"
    and "256 \<le> length nm \<Longrightarrow> js_module_loader H V junk s module_name = None"
    and "length nm < 256 \<Longrightarrow> PATH_MAX + 16 \<le> length junk \<Longrightarrow> ct \<noteq> [] \<Longrightarrow>
      js_load_file H s1 ((base @ [46, 98, 99]) @ 0 # drop (length nm + 1) (take 256 junk)) = Some (Some (ct @ 0 # rest, length ct), s2)
      \<Longrightarrow> \<exists>w. js_module_loader H V junk s module_name = Some (fst (module_of_code V (pr_vm s2) ct nm), set_vm w s2)"
proof -
  obtain c where c: "strcmp (drop (length nm - 3) module_name) (strz [46, 106, 115]) = Some c"
    "c = 0 \<longleftrightarrow> drop (length nm - 3) nm = [46, 106, 115]"
    using strcmp_suffix [OF nm(1), of "[46, 106, 115]"] by auto
  have c0: "c = 0" using c(2) by (simp add: nm(2))
  have len: "strlen module_name = Some (length nm)" "\<not> length nm \<le> 3"
    using nm by (simp_all add: strlen_def)
  note two = second_name [OF nm(1,2) junk]
  let ?second = "(base @ [46, 98, 99]) @ 0 # drop (length nm + 1) (take 256 junk)"
  show "js_module_loader H V junk s module_name = None" if "256 \<le> length nm"
  proof (cases "strcpy_at (take 256 junk) 0 module_name")
    case None
    then show ?thesis using c c0 len by (simp add: js_module_loader_def l1)
  next
    case (Some n1)
    then have "strcpy_at n1 (length nm - 3) (strz [46, 98, 99]) = None" using two that by simp
    then show ?thesis using c c0 len Some by (simp add: js_module_loader_def l1)
  qed
  have n1: "\<exists>n1. strcpy_at (take 256 junk) 0 module_name = Some n1 \<and>
      strcpy_at n1 (length nm - 3) (strz [46, 98, 99]) = Some ?second" if "length nm < 256"
    using two that by (cases "strcpy_at (take 256 junk) 0 module_name") auto
  show "js_module_loader H V junk s module_name = Some (None, could_not_load V s2 module_name)"
    if "length nm < 256" "js_load_file H s1 ?second = Some (None, s2)"
    using c c0 len n1 [OF that(1)] that nm(1) by (auto simp: js_module_loader_def l1)
  show "\<exists>w. js_module_loader H V junk s module_name = Some (fst (module_of_code V (pr_vm s2) ct nm), set_vm w s2)"
    if "length nm < 256" "PATH_MAX + 16 \<le> length junk" "ct \<noteq> []"
      "js_load_file H s1 ?second = Some (Some (ct @ 0 # rest, length ct), s2)"
    using c c0 len n1 [OF that(1)] that nm(1) js_module_loader_code [OF that(3) nm(1) that(2), of rest V s2]
    by (auto simp: js_module_loader_def l1)
qed

text \<open>
  An import of x.js that is not packed falls back to the compiled module x.bc of the image;
  the name the engine sees stays x.js.
\<close>

theorem js_module_loader_falls_back:
  assumes "mounted files s" "cstr module_name = Some (base @ [46, 106, 115])" "base \<noteq> []"
    and "map_of files (base @ [46, 106, 115]) = None"
    and "map_of files (base @ [46, 98, 99]) = Some ct" "ct \<noteq> []" "length base < 253"
    and "h_malloc H (pr_heap s) sizeof_FSFile = (p, h1)" "p \<noteq> 0" "h_free H h1 p = Some h2"
    and "h_malloc H h2 sizeof_FSFile = (q, h3)" "q \<noteq> 0" "PATH_MAX + 16 \<le> length junk"
  shows "\<exists>w. js_module_loader H V junk s module_name =
    Some (fst (module_of_code V (pr_vm s) ct (base @ [46, 106, 115])), s\<lparr>pr_heap := h3, pr_vm := w\<rparr>)"
proof -
  let ?nm = "base @ [46, 106, 115]" and ?s1 = "s\<lparr>pr_heap := h2\<rparr>"
  let ?second = "(base @ [46, 98, 99]) @ 0 # drop (length ?nm + 1) (take 256 junk)"
  have l1: "js_load_file H s module_name = Some (None, ?s1)"
    by (rule js_load_file_not_packed [OF assms(1,2,4,8,9,10)])
  have "0 \<notin> set ?nm" using cstr_SomeD [OF assms(2)] by blast
  then have "cstr ?second = Some (base @ [46, 98, 99])" by (intro cstr_append_NUL) auto
  moreover have "mounted files ?s1" using assms(1) by (simp add: mounted_def)
  ultimately obtain rest where l2: "js_load_file H ?s1 ?second = Some (Some (ct @ 0 # rest, length ct), ?s1\<lparr>pr_heap := h3\<rparr>)"
    using js_load_file_mounted [of files ?s1 ?second "base @ [46, 98, 99]" ct H q h3] assms(5,6,11,12) by auto
  have "length ?nm < 256" "256 \<le> length junk" using assms(7,13) by (simp_all add: PATH_MAX_def)
  then show ?thesis
    using js_module_loader_fallback(3) [OF assms(2) refl assms(3) _ l1 _ assms(13,6) l2] by simp
qed


section \<open>A concrete engine and image\<close>

text \<open>The engine of the witnesses counts: a value is a number, and the code it is given is its state.\<close>

definition demo_vm :: "(bytes, nat) js_vm" where
  "demo_vm =
     \<lparr>vm_eval = (\<lambda>w code name fl. (Some (length code), code)),
      vm_read_object = (\<lambda>w code fl. (Some (length code), code)),
      vm_write_object = (\<lambda>w v fl. (Some [], w)),
      vm_is_module = (\<lambda>v. True),
      vm_resolve_module = (\<lambda>w v. (0, w)),
      vm_eval_function = (\<lambda>w v. (Some v, w)),
      vm_module_name = (\<lambda>w v. None),
      vm_import_meta = (\<lambda>w v. (None, w)),
      vm_define_property = (\<lambda>w v p x. w),
      vm_throw_reference_error = (\<lambda>w name. w),
      vm_new_c_module = (\<lambda>w name f. (Some 0, w)),
      vm_float64 = (\<lambda>v. None),
      vm_to_cstring = (\<lambda>w v. (Some [], w)),
      vm_to_bool = (\<lambda>w v. 1),
      vm_global = (\<lambda>w. 0),
      vm_new_object = (\<lambda>w. (0, w)),
      vm_new_array = (\<lambda>w. (0, w)),
      vm_new_c_function = (\<lambda>w f name len. (0, w)),
      vm_new_value = (\<lambda>w v. (0, w)),
      vm_set_property = (\<lambda>w v p x. w),
      vm_set_element = (\<lambda>w v i x. w),
      vm_get_exception = (\<lambda>w. (0, w)),
      vm_is_error = (\<lambda>w v. False),
      vm_get_property = (\<lambda>w v p. (0, w)),
      vm_is_undefined = (\<lambda>v. False)\<rparr>"

text \<open>main.js with content hi, and x.bc with a bytecode of two bytes.\<close>

definition demo_modules :: "(bytes \<times> bytes) list" where
  "demo_modules = [([109, 97, 105, 110, 46, 106, 115], [104, 105]), ([120, 46, 98, 99], [2, 7])]"

definition demo_modules_image :: bytes where
  "demo_modules_image =
     [2, 0, 0, 0,  0, 0, 0, 0,  8, 0, 0, 0,  8, 0, 0, 0,  2, 0, 0, 0,
      11, 0, 0, 0,  5, 0, 0, 0,  16, 0, 0, 0,  2, 0, 0, 0,
      109, 97, 105, 110, 46, 106, 115, 0, 104, 105, 0,  120, 46, 98, 99, 0, 2, 7, 0]"

lemma pack_demo_modules: "pack_fs demo_modules = Some demo_modules_image"
  by (simp add: pack_fs_def demo_modules_def demo_modules_image_def lua_I4_def lua_z_def strz_def nat_le_4)

definition demo_process :: "(bytes, nat) process" where
  "demo_process = \<lparr>pr_vm = [], pr_heap = 0,
     pr_fs = Some (CellFileSystem (Some (packed_node demo_modules (demo_modules_image @ []))) None), pr_out = []\<rparr>"

lemma demo_mounted: "mounted demo_modules demo_process"
  using pack_demo_modules unfolding mounted_def demo_process_def by (intro exI conjI) (assumption, simp only: process.simps)

lemma demo_malloc: "h_malloc bump_heap h sizeof_FSFile = (h + 16, h + 40)" "h_free bump_heap h p = Some h"
  by (simp_all add: bump_heap_def sizeof_FSFile_def)

lemma demo_modules_lookup:
  "map_of demo_modules [109, 97, 105, 110, 46, 106, 115] = Some [104, 105]"
  "map_of demo_modules [120, 46, 106, 115] = None" "map_of demo_modules [120, 46, 98, 99] = Some [2, 7]"
  by (simp_all add: demo_modules_def)

lemma demo_module_of_code: "fst (module_of_code demo_vm w ct nm) = Some (length ct)"
  by (simp add: module_of_code_def demo_vm_def)

lemma demo_heap_value: "pr_heap demo_process = 0"
  by (simp add: demo_process_def)

theorem js_module_loader_loads_packed_witness:
  "\<exists>w. js_module_loader bump_heap demo_vm (replicate 5000 0) demo_process [109, 97, 105, 110, 46, 106, 115, 0] =
    Some (Some (Suc (Suc 0)), demo_process\<lparr>pr_heap := 40, pr_vm := w\<rparr>)"
  using js_module_loader_loads_packed [OF demo_mounted _ demo_modules_lookup(1) _ demo_malloc(1),
      of "[109, 97, 105, 110, 46, 106, 115, 0]" "replicate 5000 0" demo_vm]
  by (simp add: demo_module_of_code demo_heap_value PATH_MAX_def)

theorem js_module_loader_falls_back_witness:
  "\<exists>w. js_module_loader bump_heap demo_vm (replicate 5000 0) demo_process [120, 46, 106, 115, 0] =
    Some (Some (Suc (Suc 0)), demo_process\<lparr>pr_heap := 80, pr_vm := w\<rparr>)"
proof -
  have "map_of demo_modules ([120] @ [46, 106, 115]) = None" "map_of demo_modules ([120] @ [46, 98, 99]) = Some [2, 7]"
    using demo_modules_lookup by simp_all
  from js_module_loader_falls_back [OF demo_mounted _ _ this _ _ demo_malloc(1) _ demo_malloc(2) demo_malloc(1),
      of "[120, 46, 106, 115, 0]" "replicate 5000 0" demo_vm]
  show ?thesis by (simp add: demo_module_of_code demo_heap_value PATH_MAX_def)
qed


end
