(* ===== verification/Malloc.thy ===== *)
theory Malloc
  imports Heap_Ops
begin

text \<open>
  The allocator of include/c-stdlib/src/malloc_impl.c (the binned free-list allocator of older
  musl versions, single-threaded, on a program break that only grows).

  Memory is a function from addresses to 64-bit values, both natural numbers: every access of
  the allocator is to an aligned word. Arithmetic on size_t wraps modulo 2^64 where the code's
  does (\<open>add64\<close>, \<open>sub64\<close>); pointer arithmetic is that of the addresses, since a pointer that
  leaves the address space is undefined in C.

  A chunk at address c has the fields psize (at c), csize (c + 8), next (c + 16) and prev
  (c + 24). The bins live in the static object mal: a 64-bit binmap and 64 bins of 24 bytes
  (two lock words that are never touched, head, tail), so that the address
  CKB_BIN_TO_CHUNK(i), 16 bytes before bins[i].head, is \<open>mal_base + 24 * i\<close>, and head and tail
  of the bin are the fields next and prev of that chunk.
\<close>

section \<open>State\<close>

record malloc_state =
  mem :: "nat \<Rightarrow> nat"
  binmap :: u64
  mal_base :: nat
  s_program_break :: nat
  s_brk_min :: nat
  s_brk_max :: nat
  heap_end :: nat

definition add64 :: "nat \<Rightarrow> nat \<Rightarrow> nat" where
  "add64 a b = (a + b) mod 2 ^ 64"

definition sub64 :: "nat \<Rightarrow> nat \<Rightarrow> nat" where
  "sub64 a b = (a + (2 ^ 64 - b mod 2 ^ 64)) mod 2 ^ 64"

definition and_minus :: "nat \<Rightarrow> nat \<Rightarrow> nat" where
  \<comment> \<open>x & -a on size_t\<close>
  "and_minus x a = x AND (2 ^ 64 - a)"

definition CKB_SIZE_ALIGN :: nat where "CKB_SIZE_ALIGN = 32"
definition CKB_OVERHEAD :: nat where "CKB_OVERHEAD = 16"
definition CKB_DONTCARE :: nat where "CKB_DONTCARE = 16"
definition CKB_MMAP_THRESHOLD :: nat where "CKB_MMAP_THRESHOLD = 7168 * CKB_SIZE_ALIGN"
definition CKB_PAGE_SIZE :: nat where "CKB_PAGE_SIZE = 4096"

lemmas ckb_consts = CKB_SIZE_ALIGN_def CKB_OVERHEAD_def CKB_DONTCARE_def
  CKB_MMAP_THRESHOLD_def CKB_PAGE_SIZE_def

abbreviation psize :: "malloc_state \<Rightarrow> nat \<Rightarrow> nat" where "psize s c \<equiv> mem s c"
abbreviation csize :: "malloc_state \<Rightarrow> nat \<Rightarrow> nat" where "csize s c \<equiv> mem s (c + 8)"
abbreviation next_of :: "malloc_state \<Rightarrow> nat \<Rightarrow> nat" where "next_of s c \<equiv> mem s (c + 16)"
abbreviation prev_of :: "malloc_state \<Rightarrow> nat \<Rightarrow> nat" where "prev_of s c \<equiv> mem s (c + 24)"

definition store :: "nat \<Rightarrow> nat \<Rightarrow> malloc_state \<Rightarrow> malloc_state" where
  "store a v s = s\<lparr>mem := (mem s)(a := v)\<rparr>"

definition CKB_CHUNK_SIZE :: "malloc_state \<Rightarrow> nat \<Rightarrow> nat" where
  "CKB_CHUNK_SIZE s c = and_minus (csize s c) 2"

definition CKB_CHUNK_PSIZE :: "malloc_state \<Rightarrow> nat \<Rightarrow> nat" where
  "CKB_CHUNK_PSIZE s c = and_minus (psize s c) 2"

definition CKB_PREV_CHUNK :: "malloc_state \<Rightarrow> nat \<Rightarrow> nat" where
  "CKB_PREV_CHUNK s c = c - CKB_CHUNK_PSIZE s c"

definition CKB_NEXT_CHUNK :: "malloc_state \<Rightarrow> nat \<Rightarrow> nat" where
  "CKB_NEXT_CHUNK s c = c + CKB_CHUNK_SIZE s c"

definition CKB_MEM_TO_CHUNK :: "nat \<Rightarrow> nat" where "CKB_MEM_TO_CHUNK p = p - CKB_OVERHEAD"
definition CKB_CHUNK_TO_MEM :: "nat \<Rightarrow> nat" where "CKB_CHUNK_TO_MEM c = c + CKB_OVERHEAD"

definition CKB_BIN_TO_CHUNK :: "malloc_state \<Rightarrow> nat \<Rightarrow> nat" where
  "CKB_BIN_TO_CHUNK s i = mal_base s + 24 * i"

definition malloc_config :: "nat \<Rightarrow> nat \<Rightarrow> malloc_state \<Rightarrow> malloc_state" where
  "malloc_config mn mx s = s\<lparr>s_brk_min := mn, s_brk_max := mx, s_program_break := 0\<rparr>"

section \<open>The program break\<close>

definition round_page :: "nat \<Rightarrow> nat" where
  \<comment> \<open>x + (-x & (CKB_PAGE_SIZE - 1))\<close>
  "round_page x = add64 x (sub64 0 x AND (CKB_PAGE_SIZE - 1))"

definition sbrk :: "nat \<Rightarrow> malloc_state \<Rightarrow> nat option \<times> malloc_state" where
  "sbrk incr s =
     (let s1 = (if s_program_break s = 0 then s\<lparr>s_program_break := round_page (s_brk_min s)\<rparr> else s) in
      if add64 (s_program_break s1) incr > s_brk_max s1 then (None, s1)
      else (Some (s_program_break s1), s1\<lparr>s_program_break := add64 (s_program_break s1) incr\<rparr>))"

definition expand_heap0 :: "nat \<Rightarrow> malloc_state \<Rightarrow> (nat \<times> nat) option \<times> malloc_state" where
  \<comment> \<open>__expand_heap: the start of the new space and its size\<close>
  "expand_heap0 n s =
     (let n' = round_page n; (p, s1) = sbrk n' s in
      (map_option (\<lambda>q. (q, n')) p, s1))"

definition expand_heap :: "nat \<Rightarrow> malloc_state \<Rightarrow> nat option \<times> malloc_state" where
  "expand_heap n0 s =
     (case expand_heap0 (add64 n0 CKB_SIZE_ALIGN) s of
        (None, s1) \<Rightarrow> (None, s1)
      | (Some (p0, m0), s1) \<Rightarrow>
          (let fresh = (p0 \<noteq> heap_end s1);
               n = (if fresh then sub64 m0 CKB_SIZE_ALIGN else m0);
               p = (if fresh then p0 + CKB_SIZE_ALIGN else p0);
               s2 = (if fresh then store (CKB_MEM_TO_CHUNK p) 1 s1 else s1);
               s3 = s2\<lparr>heap_end := p + n\<rparr>;
               w = CKB_MEM_TO_CHUNK (p + n);
               s4 = store w (n OR 1) s3;
               s5 = store (w + 8) 1 s4;
               w' = CKB_MEM_TO_CHUNK p;
               s6 = store (w' + 8) (n OR 1) s5
           in (Some w', s6)))"

section \<open>Bins\<close>

definition lock_bin :: "nat \<Rightarrow> malloc_state \<Rightarrow> malloc_state" where
  "lock_bin i s =
     (let b = CKB_BIN_TO_CHUNK s i in
      if next_of s b = 0 then store (b + 16) b (store (b + 24) b s) else s)"

text \<open>The instruction behind first_set counts trailing zeros (64 for 0).\<close>

definition first_set :: "u64 \<Rightarrow> nat" where
  "first_set x = length (takeWhile (\<lambda>i. \<not> bit x i) [0..<64])"

definition bin_tab :: "nat list" where
  "bin_tab =
    [32, 33, 34, 35, 36, 36, 37, 37, 38, 38, 39, 39, 40, 40, 40, 40, 41, 41, 41, 41,
     42, 42, 42, 42, 43, 43, 43, 43, 44, 44, 44, 44, 44, 44, 44, 44, 45, 45, 45, 45,
     45, 45, 45, 45, 46, 46, 46, 46, 46, 46, 46, 46, 47, 47, 47, 47, 47, 47, 47, 47]"

definition bin_index :: "nat \<Rightarrow> nat" where
  "bin_index x0 =
     (let x = sub64 (x0 div CKB_SIZE_ALIGN) 1 in
      if x \<le> 32 then x
      else if x < 512 then bin_tab ! (x div 8 - 4)
      else if x > 7168 then 63
      else bin_tab ! (x div 128 - 4) + 16)"

definition bin_index_up :: "nat \<Rightarrow> nat" where
  "bin_index_up x0 =
     (let x = sub64 (x0 div CKB_SIZE_ALIGN) 1 in
      if x \<le> 32 then x
      else
        (let y = x - 1 in
         if y < 512 then bin_tab ! (y div 8 - 4) + 1
         else bin_tab ! (y div 128 - 4) + 17))"

definition adjust_size :: "nat \<Rightarrow> nat option" where
  \<comment> \<open>\<open>None\<close> is the return value -1\<close>
  "adjust_size n =
     (if sub64 n 1 > 2 ^ 63 - 1 - CKB_SIZE_ALIGN - CKB_PAGE_SIZE
      then (if n \<noteq> 0 then None else Some CKB_SIZE_ALIGN)
      else Some (and_minus (add64 n (CKB_OVERHEAD + CKB_SIZE_ALIGN - 1)) CKB_SIZE_ALIGN))"

definition unbin :: "nat \<Rightarrow> nat \<Rightarrow> malloc_state \<Rightarrow> malloc_state" where
  "unbin c i s =
     (let s1 = (if prev_of s c = next_of s c
                then s\<lparr>binmap := binmap s AND NOT (push_bit i 1)\<rparr> else s);
          s2 = store (prev_of s1 c + 16) (next_of s1 c) s1;
          s3 = store (next_of s2 c + 24) (prev_of s2 c) s2;
          s4 = store (c + 8) (csize s3 c OR 1) s3;
          n = CKB_NEXT_CHUNK s4 c
      in store n (psize s4 n OR 1) s4)"

definition bin_chunk :: "nat \<Rightarrow> nat \<Rightarrow> malloc_state \<Rightarrow> malloc_state" where
  "bin_chunk self i s =
     (let b = CKB_BIN_TO_CHUNK s i;
          s1 = store (self + 16) b s;
          s2 = store (self + 24) (prev_of s1 b) s1;
          s3 = store (next_of s2 self + 24) self s2;
          s4 = store (prev_of s3 self + 16) self s3
      in if prev_of s4 self = b then s4\<lparr>binmap := binmap s4 OR push_bit i 1\<rparr> else s4)"

definition trim :: "nat \<Rightarrow> nat \<Rightarrow> malloc_state \<Rightarrow> malloc_state" where
  "trim self n s =
     (let n1 = CKB_CHUNK_SIZE s self in
      if n \<ge> sub64 n1 CKB_DONTCARE then s
      else
        (let nxt = CKB_NEXT_CHUNK s self;
             split = self + n;
             s1 = store split (n OR 1) s;
             s2 = store (split + 8) (sub64 n1 n) s1;
             s3 = store nxt (sub64 n1 n) s2;
             s4 = store (self + 8) (n OR 1) s3;
             i = bin_index (sub64 n1 n)
         in bin_chunk split i (lock_bin i s4)))"

section \<open>malloc\<close>

text \<open>The loop over the bins that the mask names, lowest first.\<close>

lemma mask_low_bit: "x \<noteq> 0 \<Longrightarrow> x AND - x \<noteq> (0 :: u64)"
proof
  assume x: "x \<noteq> 0" and z: "x AND - x = 0"
  have "- x = NOT (x - 1)" by (simp add: not_eq_complement)
  with z have "x AND NOT (x - 1) = 0" by simp
  then have "x AND (x - 1) = x"
    by (simp add: bit_eq_iff bit_simps) blast
  then have "x \<le> x - 1"
    by (metis word_and_le1)
  moreover have "unat (x - 1) = unat x - 1" "unat x \<noteq> 0"
    using x by (simp_all add: unat_minus_one unat_eq_zero)
  ultimately show False by (simp add: word_le_nat_alt)
qed

lemma mask_step_less: "x \<noteq> 0 \<Longrightarrow> unat (x - (x AND - x)) < unat (x :: u64)"
proof -
  assume "x \<noteq> 0"
  then have "x AND - x \<noteq> 0" by (rule mask_low_bit)
  then have "unat (x AND - x) \<noteq> 0" by (simp add: unat_eq_zero)
  moreover have "x AND - x \<le> x" by (rule word_and_le2)
  ultimately show ?thesis
    by (simp add: unat_sub word_le_nat_alt)
qed

function pick_bin :: "u64 \<Rightarrow> malloc_state \<Rightarrow> nat option \<times> malloc_state" where
  "pick_bin msk s =
     (if msk = 0 then (None, s)
      else
        (let j = first_set msk;
             s1 = lock_bin j s;
             c = next_of s1 (CKB_BIN_TO_CHUNK s1 j)
         in if c \<noteq> CKB_BIN_TO_CHUNK s1 j then (Some c, unbin c j s1)
            else pick_bin (msk - (msk AND - msk)) s1))"
  by pat_completeness auto
termination
  by (relation "measure (\<lambda>(msk, s). unat msk)") (auto simp: mask_step_less)

declare pick_bin.simps [simp del]

definition malloc_large :: "nat \<Rightarrow> nat \<Rightarrow> malloc_state \<Rightarrow> nat \<times> malloc_state" where
  \<comment> \<open>the second half of malloc: the loop over the bins from i up, then the break\<close>
  "malloc_large i n s =
     (case (case pick_bin (binmap s AND - push_bit i 1) s of
              (Some c, s1) \<Rightarrow> (Some c, s1)
            | (None, s1) \<Rightarrow> expand_heap n s1) of
        (None, s2) \<Rightarrow> (0, s2)
      | (Some c, s2) \<Rightarrow> (CKB_CHUNK_TO_MEM c, trim c n s2))"

definition malloc :: "nat \<Rightarrow> malloc_state \<Rightarrow> nat \<times> malloc_state" where
  "malloc n0 s =
     (case adjust_size n0 of
        None \<Rightarrow> (0, s)
      | Some n \<Rightarrow>
          (if n \<ge> CKB_MMAP_THRESHOLD then (0, s)
           else
             (let i = bin_index_up n in
              if i < 63 \<and> binmap s AND push_bit i 1 \<noteq> 0 then
                (let s1 = lock_bin i s;
                     c = next_of s1 (CKB_BIN_TO_CHUNK s1 i)
                 in if c \<noteq> CKB_BIN_TO_CHUNK s1 i \<and> sub64 (CKB_CHUNK_SIZE s1 c) n \<le> CKB_DONTCARE
                    then (CKB_CHUNK_TO_MEM c, unbin c i s1)
                    else malloc_large i n s1)
              else malloc_large i n s)))"

section \<open>free and realloc\<close>

text \<open>
  A corrupted footer ends the program (a_crash calls ckb_exit(-1)): the value
  \<^const>\<open>None\<close>.
\<close>

definition bin_chunk0 :: "nat \<Rightarrow> malloc_state \<Rightarrow> malloc_state option" where
  \<comment> \<open>__bin_chunk\<close>
  "bin_chunk0 self0 s =
     (let next0 = CKB_NEXT_CHUNK s self0 in
      if psize s next0 \<noteq> csize s self0 then None
      else
        (let osize = CKB_CHUNK_SIZE s self0;
             psz = (if psize s self0 AND 1 \<noteq> 0 then 0 else CKB_CHUNK_PSIZE s self0);
             nsz = (if csize s next0 AND 1 \<noteq> 0 then 0 else CKB_CHUNK_SIZE s next0);
             (self, size1, s1) =
               (if psz \<noteq> 0 then
                  (let i = bin_index psz; s' = lock_bin i s in
                   if psize s' self0 AND 1 = 0 then
                     (let pv = CKB_PREV_CHUNK s' self0 in (pv, add64 osize psz, unbin pv i s'))
                   else (self0, osize, s'))
                else (self0, osize, s));
             (next1, size2, s2) =
               (if nsz \<noteq> 0 then
                  (let i = bin_index nsz; s' = lock_bin i s1 in
                   if csize s' next0 AND 1 = 0 then
                     (let s'' = unbin next0 i s' in (CKB_NEXT_CHUNK s'' next0, add64 size1 nsz, s''))
                   else (next0, size1, s'))
                else (next0, size1, s1));
             i = bin_index size2;
             s3 = lock_bin i s2;
             s4 = store (self + 8) size2 s3;
             s5 = store next1 size2 s4
         in Some (bin_chunk self i s5)))"

definition free :: "nat \<Rightarrow> malloc_state \<Rightarrow> malloc_state option" where
  "free p s = (if p = 0 then Some s else bin_chunk0 (CKB_MEM_TO_CHUNK p) s)"

definition memcpy_mem :: "nat \<Rightarrow> nat \<Rightarrow> nat \<Rightarrow> malloc_state \<Rightarrow> malloc_state" where
  "memcpy_mem dst src len s =
     s\<lparr>mem := (\<lambda>a. if dst \<le> a \<and> a < dst + len then mem s (src + (a - dst)) else mem s a)\<rparr>"

definition copy_realloc :: "nat \<Rightarrow> nat \<Rightarrow> nat \<Rightarrow> nat \<Rightarrow> malloc_state \<Rightarrow> (nat \<times> malloc_state) option" where
  "copy_realloc p self n n0 s =
     (let (q, s1) = malloc (sub64 n CKB_OVERHEAD) s in
      if q = 0 then Some (0, s1)
      else
        (let s2 = memcpy_mem q p (sub64 (if n < n0 then n else n0) CKB_OVERHEAD) s1 in
         map_option (Pair q) (free (CKB_CHUNK_TO_MEM self) s2)))"

definition realloc :: "nat \<Rightarrow> nat \<Rightarrow> malloc_state \<Rightarrow> (nat \<times> malloc_state) option" where
  "realloc p n1 s =
     (if p = 0 then Some (malloc n1 s)
      else
        (case adjust_size n1 of
           None \<Rightarrow> Some (0, s)
         | Some n \<Rightarrow>
             (let self = CKB_MEM_TO_CHUNK p; n0 = CKB_CHUNK_SIZE s self in
              if n \<le> n0 \<and> sub64 n0 n \<le> CKB_DONTCARE then Some (p, s)
              else
                (let nxt = CKB_NEXT_CHUNK s self in
                 if psize s nxt \<noteq> csize s self then None
                 else if n < n0 then
                   (let i = bin_index_up n; j = bin_index n0 in
                    if i < j \<and> binmap s AND push_bit i 1 \<noteq> 0 then copy_realloc p self n n0 s
                    else
                      (let split = self + n;
                           s1 = store (self + 8) (n OR 1) (store split (n OR 1) s);
                           s2 = store (split + 8) (sub64 n0 n OR 1) (store nxt (sub64 n0 n OR 1) s1)
                       in map_option (Pair (CKB_CHUNK_TO_MEM self)) (bin_chunk0 split s2)))
                 else
                   (let nsz = (if csize s nxt AND 1 \<noteq> 0 then 0 else CKB_CHUNK_SIZE s nxt) in
                    if add64 n0 nsz \<ge> n then
                      (let i = bin_index nsz; s1 = lock_bin i s in
                       if csize s1 nxt AND 1 = 0 then
                         (let s2 = unbin nxt i s1;
                              nxt2 = CKB_NEXT_CHUNK s2 nxt;
                              v = add64 n0 nsz OR 1;
                              s3 = store (self + 8) v (store nxt2 v s2)
                          in Some (CKB_CHUNK_TO_MEM self, trim self n s3))
                       else copy_realloc p self n n0 s1)
                    else copy_realloc p self n n0 s)))))"

text \<open>The allocator as its clients see it.\<close>

definition ckb_heap :: "malloc_state heap_ops" where
  "ckb_heap = \<lparr>h_malloc = (\<lambda>s n. malloc n s), h_free = (\<lambda>s p. free p s)\<rparr>"

end
