(* ===== verification/Malloc_Inv.thy ===== *)
theory Malloc_Inv
  imports Malloc
begin

text \<open>
  The invariant of the allocator and the lemmas that its operations are proved with: size
  arithmetic, the table that maps sizes to bins, doubly linked rings, the layout of the heap as
  a sequence of blocks with boundary tags, and the three changes of state that every operation
  is made of (rewriting headers, unlinking a chunk from a bin, linking one into a bin).
\<close>

section \<open>Arithmetic of size_t\<close>

lemma add64_small [simp]: "a + b < 2 ^ 64 \<Longrightarrow> add64 a b = a + b"
  by (simp add: add64_def)

lemma sub64_small [simp]: "b \<le> a \<Longrightarrow> a < 2 ^ 64 \<Longrightarrow> sub64 a b = a - b"
proof -
  assume "b \<le> a" "a < 2 ^ 64"
  then have "b mod 2 ^ 64 = b" and "a + (2 ^ 64 - b) = (a - b) + 2 ^ 64" by auto
  then have "sub64 a b = ((a - b) + 2 ^ 64) mod 2 ^ 64" by (simp only: sub64_def)
  also have "\<dots> = a - b" using \<open>a < 2 ^ 64\<close> by (simp del: power_numeral)
  finally show ?thesis .
qed

lemma sub64_wrap: "a < b \<Longrightarrow> b < 2 ^ 64 \<Longrightarrow> sub64 a b = a + 2 ^ 64 - b"
  by (simp add: sub64_def)

lemma and_minus_pow:
  assumes "x < 2 ^ 64" "k \<le> 64"
  shows "and_minus x (2 ^ k) = 2 ^ k * (x div 2 ^ k)"
proof -
  have e: "(2 :: nat) ^ 64 - 2 ^ k = push_bit k (mask (64 - k))"
    using assms(2) by (simp add: push_bit_eq_mult mask_eq_exp_minus_1 diff_mult_distrib power_add [symmetric])
  have "x AND push_bit k (mask (64 - k)) = push_bit k (drop_bit k x)"
  proof (rule bit_eqI)
    fix n
    have "bit x n \<Longrightarrow> n < 64"
      using assms(1) by (metis bit_take_bit_iff take_bit_nat_eq_self_iff)
    then show "bit (x AND push_bit k (mask (64 - k))) n = bit (push_bit k (drop_bit k x)) n"
      using assms(2) by (auto simp: bit_simps)
  qed
  then show ?thesis
    unfolding and_minus_def e by (simp add: push_bit_eq_mult drop_bit_eq_div mult.commute)
qed

lemma and_minus_2: "x < 2 ^ 64 \<Longrightarrow> and_minus x 2 = 2 * (x div 2)"
  using and_minus_pow [of x 1] by simp

lemma and_minus_32: "x < 2 ^ 64 \<Longrightarrow> and_minus x 32 = 32 * (x div 32)"
  using and_minus_pow [of x 5] by simp

lemma round_page:
  assumes x: "x < 2 ^ 63"
  shows "4096 dvd round_page x \<and> x \<le> round_page x \<and> round_page x < x + 4096"
proof -
  define y where "y = sub64 0 x"
  have y: "(x + y) mod 4096 = 0"
  proof (cases "x = 0")
    case True
    then show ?thesis by (simp add: y_def)
  next
    case False
    then have "x + y = 2 ^ 64" using x by (simp add: y_def sub64_wrap)
    then show ?thesis by simp
  qed
  have m: "(4095 :: nat) = mask 12" by (simp add: mask_eq_exp_minus_1)
  have "y AND 4095 = y mod 4096"
    unfolding m by (simp add: take_bit_eq_mask [symmetric] take_bit_eq_mod del: mask_numeral)
  then have e: "round_page x = add64 x (y mod 4096)"
    by (simp add: round_page_def y_def CKB_PAGE_SIZE_def)
  have l: "y mod 4096 < 4096" by simp
  with x have "round_page x = x + y mod 4096" by (simp add: e)
  moreover from y have "4096 dvd x + y mod 4096"
    by (simp add: mod_simps dvd_eq_mod_eq_0)
  ultimately show ?thesis using l by simp
qed

section \<open>Sizes and bins\<close>

lemma bin_tab_facts: "length bin_tab = 60" "sorted bin_tab" "bin_tab ! 0 = 32" "bin_tab ! 59 = 47" "bin_tab ! 51 = 46"
  by (simp_all add: bin_tab_def)

lemma bin_tab_mono: "i \<le> j \<Longrightarrow> j < 60 \<Longrightarrow> bin_tab ! i \<le> bin_tab ! j"
  using bin_tab_facts by (metis sorted_nth_mono)

lemma bin_tab_bounds: "i < 60 \<Longrightarrow> 32 \<le> bin_tab ! i \<and> bin_tab ! i \<le> 47"
  using bin_tab_mono [of 0 i] bin_tab_mono [of i 59] bin_tab_facts by simp

lemma bin_index_units:
  "a < 2 ^ 58 \<Longrightarrow> bin_index (32 * Suc a) =
     (if a \<le> 32 then a else if a < 512 then bin_tab ! (a div 8 - 4)
      else if a > 7168 then 63 else bin_tab ! (a div 128 - 4) + 16)"
  by (simp add: bin_index_def CKB_SIZE_ALIGN_def del: mult_Suc_right)

lemma bin_index_up_units:
  "a < 2 ^ 58 \<Longrightarrow> bin_index_up (32 * Suc a) =
     (if a \<le> 32 then a else if a - 1 < 512 then bin_tab ! ((a - 1) div 8 - 4) + 1
      else bin_tab ! ((a - 1) div 128 - 4) + 17)"
  by (simp add: bin_index_up_def CKB_SIZE_ALIGN_def Let_def del: mult_Suc_right)

lemma size_units: "32 dvd sz \<Longrightarrow> 32 \<le> sz \<Longrightarrow> sz < 2 ^ 63 \<Longrightarrow> \<exists>a. sz = 32 * Suc a \<and> a < 2 ^ 58"
  by (rule exI [of _ "sz div 32 - 1"]) (auto elim!: dvdE)

lemma bin_index_lt:
  assumes "32 dvd sz" "32 \<le> sz" "sz < 2 ^ 63"
  shows "bin_index sz < 64"
proof -
  obtain a where a: "sz = 32 * Suc a" "a < 2 ^ 58" using size_units [OF assms] by blast
  have "a < 512 \<Longrightarrow> a div 8 - 4 < 60" "a \<le> 7168 \<Longrightarrow> a div 128 - 4 < 60"
    by (auto simp: less_mult_imp_div_less)
  with bin_tab_bounds [of "a div 8 - 4"] bin_tab_bounds [of "a div 128 - 4"] show ?thesis
    unfolding a(1) bin_index_units [OF a(2)] by auto
qed

lemma bin_index_up_lt:
  assumes "32 dvd n" "32 \<le> n" "n < 7168 * 32"
  shows "bin_index_up n < 64"
proof -
  obtain a where a: "n = 32 * Suc a" "a < 2 ^ 58" using size_units [OF assms(1,2)] assms(3) by auto
  with assms(3) have b: "a < 7168" by simp
  then have l: "a - 1 < 512 \<Longrightarrow> (a - 1) div 8 - 4 < 60" "(a - 1) div 128 - 4 \<le> 51"
    using div_le_mono [of "a - 1" 7166 128] by (auto simp: less_mult_imp_div_less)
  with bin_tab_bounds [of "(a - 1) div 8 - 4"] bin_tab_mono [OF l(2)] bin_tab_facts show ?thesis
    unfolding a(1) bin_index_up_units [OF a(2)] by auto
qed

text \<open>A chunk of a bin from bin_index_up(n) on is large enough for n.\<close>

lemma bin_index_up_sound:
  assumes n: "32 dvd n" "32 \<le> n" "n < 7168 * 32"
    and sz: "32 dvd sz" "32 \<le> sz" "sz < 2 ^ 63"
    and le: "bin_index_up n \<le> bin_index sz"
  shows "n \<le> sz"
proof (rule ccontr)
  assume "\<not> n \<le> sz"
  obtain a where a: "sz = 32 * Suc a" "a < 2 ^ 58" using size_units [OF sz] by blast
  obtain b where b: "n = 32 * Suc b" "b < 2 ^ 58" using size_units [OF n(1,2)] n(3) by auto
  from \<open>\<not> n \<le> sz\<close> n(3) have ab: "a < b" "b < 7168" by (auto simp: a b)
  have "bin_index (32 * Suc a) < bin_index_up (32 * Suc b)"
  proof (cases "b \<le> 32")
    case True
    with ab show ?thesis
      unfolding bin_index_units [OF a(2)] bin_index_up_units [OF b(2)] by simp
  next
    case b32: False
    show ?thesis
    proof (cases "b - 1 < 512")
      case True
      with b32 have l: "(b - 1) div 8 - 4 < 60" by (auto simp: less_mult_imp_div_less)
      have "a div 8 - 4 \<le> (b - 1) div 8 - 4" using ab by (intro diff_le_mono div_le_mono) simp
      from bin_tab_mono [OF this l] bin_tab_bounds [OF l] True b32 ab show ?thesis
        unfolding bin_index_units [OF a(2)] bin_index_up_units [OF b(2)] by auto
    next
      case False
      have l: "(b - 1) div 128 - 4 < 60" using ab by (auto simp: less_mult_imp_div_less)
      have m: "a div 128 - 4 \<le> (b - 1) div 128 - 4" using ab by (intro diff_le_mono div_le_mono) simp
      have "a < 512 \<Longrightarrow> a div 8 - 4 < 60" by (auto simp: less_mult_imp_div_less)
      with bin_tab_bounds [of "a div 8 - 4"] bin_tab_mono [OF m l] bin_tab_bounds [OF l] False b32 ab
      show ?thesis
        unfolding bin_index_units [OF a(2)] bin_index_up_units [OF b(2)] by auto
    qed
  qed
  with le show False by (simp add: a(1) b(1))
qed

section \<open>Doubly linked rings\<close>

text \<open>
  \<open>chain nx pv x l y\<close>: following nx from x one passes the nodes of l and arrives at y, and pv
  leads back. A ring through the node b is \<open>chain nx pv b l b\<close>.
\<close>

fun chain :: "(nat \<Rightarrow> nat) \<Rightarrow> (nat \<Rightarrow> nat) \<Rightarrow> nat \<Rightarrow> nat list \<Rightarrow> nat \<Rightarrow> bool" where
  "chain nx pv x [] y \<longleftrightarrow> nx x = y \<and> pv y = x"
| "chain nx pv x (z # zs) y \<longleftrightarrow> nx x = z \<and> pv z = x \<and> chain nx pv z zs y"

lemma chain_append: "chain nx pv x (l @ z # l') y \<longleftrightarrow> chain nx pv x l z \<and> chain nx pv z l' y"
  by (induction l arbitrary: x) auto

lemma chain_cong:
  assumes "\<And>a. a = x \<or> a \<in> set l \<Longrightarrow> nx a = nx' a" "\<And>a. a = y \<or> a \<in> set l \<Longrightarrow> pv a = pv' a"
  shows "chain nx pv x l y \<longleftrightarrow> chain nx' pv' x l y"
  using assms by (induction l arbitrary: x) auto

lemma chain_next: "chain nx pv x l y \<Longrightarrow> nx x = hd (l @ [y])"
  by (cases l) auto

lemma chain_prev: "chain nx pv x l y \<Longrightarrow> pv y = last (x # l)"
  by (induction l arbitrary: x) auto

lemma chain_unlink:
  assumes "chain nx pv x (l @ c # l') y" "distinct (x # l @ c # l')" "y \<notin> set (l @ c # l')"
  shows "chain (nx(pv c := nx c)) (pv(nx c := pv c)) x (l @ l') y"
  using assms
proof (induction l arbitrary: x)
  case Nil
  then have x: "nx x = c" "pv c = x" "chain nx pv c l' y" by auto
  show ?case
  proof (cases l')
    case Nil
    with x show ?thesis by simp
  next
    case (Cons a as)
    with x have a: "nx c = a" "pv a = c" "chain nx pv a as y" by auto
    have "chain (nx(x := a)) (pv(a := x)) a as y \<longleftrightarrow> chain nx pv a as y"
      by (rule chain_cong) (use Nil.prems Cons in auto)
    with a x Cons show ?thesis by (simp del: fun_upd_apply add: fun_upd_same fun_upd_other)
  qed
next
  case (Cons z l)
  have IH: "chain (nx(pv c := nx c)) (pv(nx c := pv c)) z (l @ l') y"
    by (rule Cons.IH) (use Cons.prems in auto)
  have ch: "chain nx pv z l c" "chain nx pv c l' y"
    using Cons.prems(1) by (simp_all add: chain_append)
  have "pv c = last (z # l)" "nx c = hd (l' @ [y])"
    using chain_prev [OF ch(1)] chain_next [OF ch(2)] .
  moreover have "last (z # l) \<in> set (z # l)" by (rule last_in_set) simp
  moreover have "hd (l' @ [y]) \<in> set (l' @ [y])" by (cases l') auto
  ultimately have "pv c \<noteq> x" "nx c \<noteq> z" using Cons.prems(2,3) by auto
  with IH Cons.prems(1) show ?case
    by (simp del: fun_upd_apply add: fun_upd_same fun_upd_other)
qed

lemma chain_link:
  assumes "chain nx pv x l y" "distinct (x # l)" "y \<notin> set l" "c \<noteq> x" "c \<noteq> y" "c \<notin> set l"
  shows "chain (nx(c := y, pv y := c)) (pv(c := pv y, y := c)) x (l @ [c]) y"
  using assms
proof (induction l arbitrary: x)
  case Nil
  then show ?case by auto
next
  case (Cons z l)
  have IH: "chain (nx(c := y, pv y := c)) (pv(c := pv y, y := c)) z (l @ [c]) y"
    by (rule Cons.IH) (use Cons.prems in auto)
  have "pv y = last (z # l)" using Cons.prems(1) chain_prev [of nx pv z l y] by simp
  moreover have "last (z # l) \<in> set (z # l)" by (rule last_in_set) simp
  ultimately have "pv y \<noteq> x" using Cons.prems(2) by auto
  with IH Cons.prems show ?case
    by (simp del: fun_upd_apply add: fun_upd_same fun_upd_other)
qed

lemma ring_singleton_iff:
  assumes "chain nx pv b (l @ c # l') b" "distinct (b # l @ c # l')"
  shows "pv c = nx c \<longleftrightarrow> l @ l' = []"
proof -
  have ch: "chain nx pv b l c" "chain nx pv c l' b" using assms(1) by (simp_all add: chain_append)
  have e: "pv c = last (b # l)" "nx c = hd (l' @ [b])"
    using chain_prev [OF ch(1)] chain_next [OF ch(2)] .
  show ?thesis
  proof (cases l')
    case Nil
    have "last l \<noteq> b" if "l \<noteq> []"
      using last_in_set [OF that] assms(2) by auto
    with e Nil show ?thesis by auto
  next
    case (Cons z zs)
    have "last (b # l) \<in> set (b # l)" by (rule last_in_set) simp
    with e Cons assms(2) show ?thesis by auto
  qed
qed

section \<open>Blocks and boundary tags\<close>

text \<open>
  The heap is a sequence of blocks, each with its size and whether it is in use. \<open>pre m a bs\<close>
  says that the headers of the blocks \<open>bs\<close> from address a on are in memory: every block's
  csize and, equal to it, the psize of the chunk behind it.
\<close>

type_synonym blocks = "(nat \<times> bool) list"

definition btotal :: "blocks \<Rightarrow> nat" where
  "btotal bs = sum_list (map fst bs)"

lemma btotal_simps [simp]:
  "btotal [] = 0" "btotal (b # bs) = fst b + btotal bs" "btotal (bs @ cs) = btotal bs + btotal cs"
  by (simp_all add: btotal_def)

fun blks :: "nat \<Rightarrow> blocks \<Rightarrow> (nat \<times> nat \<times> bool) list" where
  "blks a [] = []"
| "blks a ((sz, u) # bs) = (a, sz, u) # blks (a + sz) bs"

fun pre :: "(nat \<Rightarrow> nat) \<Rightarrow> nat \<Rightarrow> blocks \<Rightarrow> bool" where
  "pre m a [] \<longleftrightarrow> True"
| "pre m a ((sz, u) # bs) \<longleftrightarrow>
     m (a + 8) = sz + of_bool u \<and> m (a + sz) = sz + of_bool u \<and> pre m (a + sz) bs"

definition wf_blocks :: "blocks \<Rightarrow> bool" where
  "wf_blocks bs \<longleftrightarrow> (\<forall>(sz, u) \<in> set bs. 32 \<le> sz \<and> 32 dvd sz)"

text \<open>No two free blocks are neighbours.\<close>

definition coalesced :: "blocks \<Rightarrow> bool" where
  "coalesced bs \<longleftrightarrow> successively (\<lambda>x y. snd x \<or> snd y) bs"

lemma blks_append [simp]: "blks a (bs @ cs) = blks a bs @ blks (a + btotal bs) cs"
  by (induction a bs rule: blks.induct) (auto simp: add.assoc)

lemma pre_append [simp]: "pre m a (bs @ cs) \<longleftrightarrow> pre m a bs \<and> pre m (a + btotal bs) cs"
  by (induction m a bs rule: pre.induct) (auto simp: add.assoc)

lemma wf_blocks_simps [simp]:
  "wf_blocks []" "wf_blocks ((sz, u) # bs) \<longleftrightarrow> 32 \<le> sz \<and> 32 dvd sz \<and> wf_blocks bs"
  "wf_blocks (bs @ cs) \<longleftrightarrow> wf_blocks bs \<and> wf_blocks cs"
  by (auto simp: wf_blocks_def)

lemma btotal_dvd: "wf_blocks bs \<Longrightarrow> 32 dvd btotal bs"
  by (induction bs) auto

lemma blks_split:
  "(a, sz, u) \<in> set (blks S bs) \<longleftrightarrow> (\<exists>xs ys. bs = xs @ (sz, u) # ys \<and> a = S + btotal xs)"
proof
  show "(a, sz, u) \<in> set (blks S bs) \<Longrightarrow> \<exists>xs ys. bs = xs @ (sz, u) # ys \<and> a = S + btotal xs"
  proof (induction S bs rule: blks.induct)
    case (2 S sz' u' bs)
    show ?case
    proof (cases "(a, sz, u) = (S, sz', u')")
      case True
      then have "(sz', u') # bs = [] @ (sz, u) # bs \<and> a = S + btotal []" by simp
      then show ?thesis by blast
    next
      case False
      with 2 obtain xs ys where "bs = xs @ (sz, u) # ys" "a = S + sz' + btotal xs" by auto
      then have "(sz', u') # bs = ((sz', u') # xs) @ (sz, u) # ys \<and> a = S + btotal ((sz', u') # xs)"
        by simp
      then show ?thesis by blast
    qed
  qed simp
qed auto

lemma blks_range:
  assumes "(a, sz, u) \<in> set (blks S bs)" "wf_blocks bs"
  shows "S \<le> a \<and> a + sz \<le> S + btotal bs \<and> 32 \<le> sz \<and> 32 dvd sz \<and> 32 dvd a - S"
  using assms by (auto simp: blks_split btotal_dvd)

lemma blks_disjoint:
  assumes "(a, sz, u) \<in> set (blks S bs)" "(a', sz', u') \<in> set (blks S bs)" "wf_blocks bs"
  shows "(a, sz, u) = (a', sz', u') \<or> a + sz \<le> a' \<or> a' + sz' \<le> a"
  using assms
proof (induction S bs rule: blks.induct)
  case (2 S sz0 u0 bs)
  have r: "(b, s, v) \<in> set (blks (S + sz0) bs) \<Longrightarrow> S + sz0 \<le> b" for b s v
    using blks_range [of b s v "S + sz0" bs] "2.prems"(3) by simp
  show ?case using "2.prems" "2.IH" r by fastforce
qed simp

lemma pre_cong:
  assumes "wf_blocks bs" "a mod 32 = 16"
    and "\<And>x. a < x \<Longrightarrow> x \<le> a + btotal bs \<Longrightarrow> x mod 32 = 16 \<or> x mod 32 = 24 \<Longrightarrow> m x = m' x"
  shows "pre m a bs \<longleftrightarrow> pre m' a bs"
  using assms
proof (induction m a bs rule: pre.induct)
  case (2 m a sz u bs)
  have sz: "32 \<le> sz" "32 dvd sz" "wf_blocks bs" using "2.prems"(1) by auto
  then have md: "(a + sz) mod 32 = 16" "(a + 8) mod 32 = 24"
    using "2.prems"(2) by (auto elim!: dvdE simp: mod_add_eq [symmetric, of a])
  have "m (a + 8) = m' (a + 8)" "m (a + sz) = m' (a + sz)"
    using "2.prems"(3) [of "a + 8"] "2.prems"(3) [of "a + sz"] md sz by auto
  moreover have "pre m (a + sz) bs = pre m' (a + sz) bs"
    using "2.IH" [OF sz(3) md(1)] "2.prems"(3) sz by auto
  ultimately show ?case by simp
qed simp

section \<open>The invariant\<close>

definition ring :: "(nat \<Rightarrow> nat) \<Rightarrow> nat \<Rightarrow> nat list \<Rightarrow> bool" where
  "ring m b l \<longleftrightarrow>
     m (b + 16) = 0 \<and> l = [] \<or> chain (\<lambda>a. m (a + 16)) (\<lambda>a. m (a + 24)) b l b"

definition heap_ok :: "malloc_state \<Rightarrow> nat \<Rightarrow> blocks \<Rightarrow> bool" where
  "heap_ok s S bs \<longleftrightarrow>
     S mod 32 = 16 \<and> 0 < mal_base s \<and> mal_base s + 1544 \<le> S \<and> wf_blocks bs \<and>
     mem s S = 1 \<and> pre (mem s) S bs \<and> mem s (S + btotal bs + 8) = 1 \<and>
     heap_end s = S + btotal bs + 16 \<and> s_program_break s = heap_end s \<and>
     heap_end s \<le> s_brk_max s \<and> s_brk_max s < 2 ^ 63"

text \<open>
  \<open>L i\<close> is the content of bin i: the free blocks of its size class, those of the set h
  excepted (chunks that an operation holds in its hands).
\<close>

definition free_in :: "nat \<Rightarrow> blocks \<Rightarrow> nat \<Rightarrow> nat set \<Rightarrow> nat set" where
  "free_in S bs i h = {a. \<exists>sz. (a, sz, False) \<in> set (blks S bs) \<and> bin_index sz = i \<and> a \<notin> h}"

definition bins_ok :: "malloc_state \<Rightarrow> nat \<Rightarrow> blocks \<Rightarrow> (nat \<Rightarrow> nat list) \<Rightarrow> nat set \<Rightarrow> bool" where
  "bins_ok s S bs L h \<longleftrightarrow>
     (\<forall>i < 64. ring (mem s) (mal_base s + 24 * i) (L i) \<and> distinct (L i) \<and>
        set (L i) = free_in S bs i h \<and> (bit (binmap s) i \<longleftrightarrow> L i \<noteq> []))"

definition minv :: "malloc_state \<Rightarrow> nat \<Rightarrow> blocks \<Rightarrow> (nat \<Rightarrow> nat list) \<Rightarrow> nat set \<Rightarrow> bool" where
  "minv s S bs L h \<longleftrightarrow> heap_ok s S bs \<and> bins_ok s S bs L h"

text \<open>The words that belong to the user: those of blocks in use, behind their header.\<close>

definition ucells :: "nat \<Rightarrow> blocks \<Rightarrow> nat set" where
  "ucells S bs = {x. \<exists>a sz. (a, sz, True) \<in> set (blks S bs) \<and> a + 16 \<le> x \<and> x < a + sz}"

section \<open>Nodes of rings\<close>

definition node :: "nat \<Rightarrow> nat \<Rightarrow> nat \<Rightarrow> bool" where
  "node base S x \<longleftrightarrow> x mod 32 = 16 \<and> S \<le> x \<or> (\<exists>i < 64. x = base + 24 * i)"

lemma mod32:
  assumes "x mod 32 = (16 :: nat)"
  shows "(x + 16) mod 32 = 0" "(x + 24) mod 32 = 8" "(x + 8) mod 32 = 24"
    "32 dvd d \<Longrightarrow> (x + d) mod 32 = 16"
proof -
  have e: "(x + d) mod 32 = (16 + d) mod 32" for d
    using mod_add_left_eq [of x 32 d] assms by simp
  show "(x + 16) mod 32 = 0" "(x + 24) mod 32 = 8" "(x + 8) mod 32 = 24"
    "32 dvd d \<Longrightarrow> (x + d) mod 32 = 16"
    unfolding e by (auto elim!: dvdE)
qed

lemma node_cells:
  assumes "node base S x" "node base S y" "base + 1544 \<le> S"
  shows "x + 16 \<noteq> y + 24"
proof
  assume e: "x + 16 = y + 24"
  have m: "x mod 32 = 16 \<Longrightarrow> y mod 32 = 16 \<Longrightarrow> False" using e mod32 [of x] mod32 [of y] by simp
  have b: "24 * i + 16 = 24 * j + 24 \<Longrightarrow> False" for i j :: nat by presburger
  from assms(1,2) show False
    unfolding node_def
  proof (elim disjE conjE exE)
    fix i j
    assume "i < 64" "j < 64" "x = base + 24 * i" "y = base + 24 * j"
    with e b [of i j] show False by simp
  qed (use m e assms(3) in auto)
qed

lemma node_not_header:
  assumes "node base S x" "base + 1544 \<le> S" "S \<le> y" "y mod 32 = 16 \<or> y mod 32 = 24"
  shows "x + 16 \<noteq> y" "x + 24 \<noteq> y"
proof -
  have "x mod 32 = 16 \<Longrightarrow> x + 16 = y \<Longrightarrow> False" "x mod 32 = 16 \<Longrightarrow> x + 24 = y \<Longrightarrow> False"
    using assms(4) mod32 [of x] by auto
  then show "x + 16 \<noteq> y" "x + 24 \<noteq> y" using assms by (auto simp: node_def)
qed

lemma blks_mod: "(a, sz, u) \<in> set (blks S bs) \<Longrightarrow> wf_blocks bs \<Longrightarrow> S mod 32 = 16 \<Longrightarrow> a mod 32 = 16"
  using blks_range [of a sz u S bs] mod32(4) [of S "a - S"] by simp

lemma free_node:
  "heap_ok s S bs \<Longrightarrow> (a, sz, u) \<in> set (blks S bs) \<Longrightarrow> node (mal_base s) S a"
  using blks_range [of a sz u S bs] blks_mod [of a sz u S bs]
  by (auto simp: heap_ok_def node_def)

lemma free_in_node: "heap_ok s S bs \<Longrightarrow> a \<in> free_in S bs i h \<Longrightarrow> node (mal_base s) S a"
  by (auto simp: free_in_def intro: free_node)

lemma bin_node: "i < 64 \<Longrightarrow> node base S (base + 24 * i)"
  by (auto simp: node_def)

lemma free_not_ucell:
  assumes "wf_blocks bs" "(a, sz, False) \<in> set (blks S bs)" "a \<le> x" "x < a + sz"
  shows "x \<notin> ucells S bs"
proof
  assume "x \<in> ucells S bs"
  then obtain a' sz' where b: "(a', sz', True) \<in> set (blks S bs)" "a' + 16 \<le> x" "x < a' + sz'"
    by (auto simp: ucells_def)
  from blks_disjoint [OF assms(2) b(1) assms(1)] b(2,3) assms(3,4) show False by auto
qed

lemma free_in_disjoint:
  assumes "wf_blocks bs" "a \<in> free_in S bs i h" "a \<in> free_in S bs j h'"
  shows "i = j"
proof -
  from assms(2,3) obtain sz sz' where b: "(a, sz, False) \<in> set (blks S bs)" "bin_index sz = i"
    "(a, sz', False) \<in> set (blks S bs)" "bin_index sz' = j" by (auto simp: free_in_def)
  from blks_disjoint [OF b(1,3) assms(1)] blks_range [OF b(1) assms(1)] blks_range [OF b(3) assms(1)]
  show ?thesis using b(2,4) by auto
qed

text \<open>Cells of links, the only ones that the operations on bins write.\<close>

definition link_cells :: "malloc_state \<Rightarrow> nat \<Rightarrow> blocks \<Rightarrow> nat set" where
  "link_cells s S bs =
     {x. \<exists>a. (a \<in> {mal_base s + 24 * i |i. i < 64} \<or> (\<exists>sz. (a, sz, False) \<in> set (blks S bs)))
           \<and> (x = a + 16 \<or> x = a + 24)}"

lemma link_cells_not_ucell:
  assumes "heap_ok s S bs" "x \<in> link_cells s S bs"
  shows "x \<notin> ucells S bs"
proof -
  from assms(1) have wf: "wf_blocks bs" "mal_base s + 1544 \<le> S" by (auto simp: heap_ok_def)
  from assms(2) obtain a where a: "x = a + 16 \<or> x = a + 24"
    and c: "(\<exists>i < 64. a = mal_base s + 24 * i) \<or> (\<exists>sz. (a, sz, False) \<in> set (blks S bs))"
    unfolding link_cells_def by blast
  from c show ?thesis
  proof
    assume "\<exists>i < 64. a = mal_base s + 24 * i"
    then have "x < S" using a wf(2) by auto
    then show ?thesis using blks_range wf(1) by (fastforce simp: ucells_def)
  next
    assume "\<exists>sz. (a, sz, False) \<in> set (blks S bs)"
    then obtain sz where f: "(a, sz, False) \<in> set (blks S bs)" by blast
    from blks_range [OF f wf(1)] a have "a \<le> x" "x < a + sz" by auto
    with free_not_ucell [OF wf(1) f] show ?thesis by blast
  qed
qed

lemma link_cells_frame:
  assumes ok: "heap_ok s S bs"
    and same: "\<And>x. x \<notin> link_cells s S bs \<Longrightarrow> m' x = mem s x"
  shows "heap_ok (s\<lparr>mem := m'\<rparr>) S bs"
proof -
  from ok have k: "S mod 32 = 16" "wf_blocks bs" "mal_base s + 1544 \<le> S" by (auto simp: heap_ok_def)
  have hdr: "m' y = mem s y" if y: "S \<le> y" "y mod 32 = 16 \<or> y mod 32 = 24" for y
  proof (rule same)
    have "y \<noteq> a + 16 \<and> y \<noteq> a + 24" if "node (mal_base s) S a" for a
      using node_not_header [OF that k(3) y] by auto
    then show "y \<notin> link_cells s S bs"
      using free_node [OF ok] bin_node unfolding link_cells_def by blast
  qed
  have "pre m' S bs \<longleftrightarrow> pre (mem s) S bs"
    by (rule pre_cong [OF k(2,1)]) (use hdr in auto)
  moreover have "m' S = mem s S" using hdr k(1) by auto
  moreover have "(S + btotal bs + 8) mod 32 = 24" using mod32 [of "S + btotal bs"] mod32(4) [OF k(1) btotal_dvd [OF k(2)]] by simp
  then have "m' (S + btotal bs + 8) = mem s (S + btotal bs + 8)" using hdr by auto
  ultimately show ?thesis using ok by (simp add: heap_ok_def)
qed

lemma ring_frame:
  assumes "\<And>a. a = b \<or> a \<in> set l \<Longrightarrow> m' (a + 16) = m (a + 16) \<and> m' (a + 24) = m (a + 24)"
  shows "ring m' b l \<longleftrightarrow> ring m b l"
proof -
  have "chain (\<lambda>a. m' (a + 16)) (\<lambda>a. m' (a + 24)) b l b = chain (\<lambda>a. m (a + 16)) (\<lambda>a. m (a + 24)) b l b"
    by (rule chain_cong) (use assms in auto)
  then show ?thesis using assms by (simp add: ring_def)
qed

section \<open>The changes of state the operations are made of\<close>

text \<open>Rewriting the headers of some neighbouring blocks, none of them in a bin.\<close>

lemma free_in_replace:
  assumes "wf_blocks xs" "wf_blocks mid" "wf_blocks ys" "wf_blocks mid'" "btotal mid' = btotal mid"
    and held: "\<And>a sz. (a, sz, False) \<in> set (blks (S + btotal xs) mid) \<Longrightarrow> a \<in> h"
    and h': "h' = (h - {S + btotal xs ..< S + btotal xs + btotal mid}) \<union>
                   {a. \<exists>sz. (a, sz, False) \<in> set (blks (S + btotal xs) mid')}"
  shows "free_in S (xs @ mid' @ ys) i h' = free_in S (xs @ mid @ ys) i h"
proof -
  let ?c = "S + btotal xs" and ?e = "S + btotal xs + btotal mid"
  define P where "P a = (\<exists>sz. ((a, sz, False) \<in> set (blks S xs) \<or> (a, sz, False) \<in> set (blks ?e ys)) \<and>
                              bin_index sz = i)" for a
  have r1: "a < ?c" if "(a, sz, u) \<in> set (blks S xs)" for a sz u
    using blks_range [OF that assms(1)] by auto
  have r3: "?e \<le> a" if "(a, sz, u) \<in> set (blks ?e ys)" for a sz u
    using blks_range [OF that assms(3)] by auto
  have r2: "?c \<le> a \<and> a < ?e" if "(a, sz, u) \<in> set (blks ?c mid')" for a sz u
    using blks_range [OF that assms(4)] assms(5) by auto
  have out: "P a \<Longrightarrow> a < ?c \<or> ?e \<le> a" for a
    unfolding P_def using r1 r3 by blast
  have "a \<notin> h' \<longleftrightarrow> a \<notin> h" if "a < ?c \<or> ?e \<le> a" for a
    using that r2 [of a] unfolding h' by (auto simp: not_less)
  with out have hP: "P a \<Longrightarrow> a \<notin> h' \<longleftrightarrow> a \<notin> h" for a by blast
  have hm: "(a, sz, False) \<in> set (blks ?c mid') \<Longrightarrow> a \<in> h'" for a sz
    unfolding h' by blast
  have "free_in S (xs @ mid' @ ys) i h' = {a. P a \<and> a \<notin> h'}"
    using hm unfolding free_in_def P_def by (auto simp: assms(5))
  moreover have "free_in S (xs @ mid @ ys) i h = {a. P a \<and> a \<notin> h}"
    using held unfolding free_in_def P_def by auto
  ultimately show ?thesis using hP by blast
qed

lemma set_headers:
  assumes inv: "minv s S (xs @ mid @ ys) L h"
    and s': "s' = s\<lparr>mem := m'\<rparr>"
    and wf: "wf_blocks mid'" "btotal mid' = btotal mid" "pre m' (S + btotal xs) mid'"
    and diff: "\<And>x. m' x \<noteq> mem s x \<Longrightarrow> S + btotal xs < x \<and> x \<le> S + btotal xs + btotal mid \<and>
                 (x mod 32 = 16 \<or> x mod 32 = 24)"
    and held: "\<And>a sz. (a, sz, False) \<in> set (blks (S + btotal xs) mid) \<Longrightarrow> a \<in> h"
    and h': "h' = (h - {S + btotal xs ..< S + btotal xs + btotal mid}) \<union>
                   {a. \<exists>sz. (a, sz, False) \<in> set (blks (S + btotal xs) mid')}"
  shows "minv s' S (xs @ mid' @ ys) L h'"
proof -
  let ?c = "S + btotal xs" and ?e = "S + btotal xs + btotal mid"
  from inv have ok: "heap_ok s S (xs @ mid @ ys)" and bins: "bins_ok s S (xs @ mid @ ys) L h"
    by (auto simp: minv_def)
  from ok have w: "wf_blocks xs" "wf_blocks mid" "wf_blocks ys" and S: "S mod 32 = 16"
    and base: "mal_base s + 1544 \<le> S"
    by (auto simp: heap_ok_def)
  have c16: "?c mod 32 = 16" "?e mod 32 = 16"
    using mod32(4) [OF S btotal_dvd [OF w(1)]] mod32(4) [OF _ btotal_dvd [OF w(2)]] by auto
  have e16: "(?e + btotal ys) mod 32 = 16" using mod32(4) [OF c16(2) btotal_dvd [OF w(3)]] .
  have same: "m' x = mem s x" if "x \<le> ?c \<or> ?e < x" for x
  proof (rule ccontr)
    assume "m' x \<noteq> mem s x"
    from diff [OF this] that show False by auto
  qed
  have "pre m' S xs = pre (mem s) S xs" by (rule pre_cong [OF w(1) S]) (use same in auto)
  moreover have "pre m' ?e ys = pre (mem s) ?e ys" by (rule pre_cong [OF w(3) c16(2)]) (use same in auto)
  moreover have "m' (?e + btotal ys + 8) = mem s (?e + btotal ys + 8)" using same by auto
  moreover have "m' S = mem s S" using same by auto
  ultimately have ok': "heap_ok s' S (xs @ mid' @ ys)"
    using ok wf by (simp add: heap_ok_def s' add.assoc)
  note fin = free_in_replace [OF w wf(1,2) held h']
  have link: "m' (a + 16) = mem s (a + 16) \<and> m' (a + 24) = mem s (a + 24)"
    if n: "node (mal_base s) S a" for a
  proof -
    have "m' (a + 16) = mem s (a + 16)"
    proof (rule ccontr)
      assume "m' (a + 16) \<noteq> mem s (a + 16)"
      from diff [OF this] node_not_header(1) [OF n base, of "a + 16"] show False by auto
    qed
    moreover have "m' (a + 24) = mem s (a + 24)"
    proof (rule ccontr)
      assume "m' (a + 24) \<noteq> mem s (a + 24)"
      from diff [OF this] node_not_header(2) [OF n base, of "a + 24"] show False by auto
    qed
    ultimately show ?thesis ..
  qed
  have "ring m' (mal_base s + 24 * i) (L i) = ring (mem s) (mal_base s + 24 * i) (L i)"
    if "i < 64" for i
  proof (rule ring_frame)
    fix a assume "a = mal_base s + 24 * i \<or> a \<in> set (L i)"
    with bins that have "node (mal_base s) S a"
      using bin_node free_in_node [OF ok] by (auto simp: bins_ok_def)
    then show "m' (a + 16) = mem s (a + 16) \<and> m' (a + 24) = mem s (a + 24)" by (rule link)
  qed
  with bins fin have "bins_ok s' S (xs @ mid' @ ys) L h'"
    by (simp add: bins_ok_def s')
  with ok' show ?thesis by (simp add: minv_def)
qed

text \<open>Taking a chunk out of its bin.\<close>

definition unlink :: "nat \<Rightarrow> nat \<Rightarrow> malloc_state \<Rightarrow> malloc_state" where
  "unlink c i s =
     (let s1 = (if prev_of s c = next_of s c
                then s\<lparr>binmap := binmap s AND NOT (push_bit i 1)\<rparr> else s);
          s2 = store (prev_of s1 c + 16) (next_of s1 c) s1
      in store (next_of s2 c + 24) (prev_of s2 c) s2)"

lemma unbin_unlink:
  "unbin c i s =
     (let s3 = unlink c i s; s4 = store (c + 8) (csize s3 c OR 1) s3; n = CKB_NEXT_CHUNK s4 c
      in store n (psize s4 n OR 1) s4)"
  by (simp add: unbin_def unlink_def Let_def)

lemma bit_clear_u64: "i < 64 \<Longrightarrow> j < 64 \<Longrightarrow> bit (w AND NOT (2 ^ i) :: u64) j \<longleftrightarrow> bit w j \<and> j \<noteq> i"
  by (auto simp: bit_simps)

lemma bit_set_u64: "i < 64 \<Longrightarrow> j < 64 \<Longrightarrow> bit (w OR 2 ^ i :: u64) j \<longleftrightarrow> bit w j \<or> j = i"
  by (auto simp: bit_simps)

lemma bit_test_u64: "i < 64 \<Longrightarrow> (w AND 2 ^ i \<noteq> (0 :: u64)) \<longleftrightarrow> bit w i"
  by (simp add: and_exp_eq_0_iff_not_bit)

lemma ring_member_chain: "ring m b l \<Longrightarrow> l \<noteq> [] \<Longrightarrow> chain (\<lambda>a. m (a + 16)) (\<lambda>a. m (a + 24)) b l b"
  by (auto simp: ring_def)

text \<open>What a write to two link cells of nodes does to the functions that follow the links.\<close>

lemma chain_two_writes:
  assumes "chain (nx(p := q)) (pv(q' := p')) x l y"
    and "nx = (\<lambda>a. m (a + 16))" "pv = (\<lambda>a. m (a + 24))"
    and "\<And>a. a = x \<or> a \<in> set l \<Longrightarrow> a + 16 \<noteq> q' + 24"
    and "\<And>a. a = y \<or> a \<in> set l \<Longrightarrow> a + 24 \<noteq> p + 16"
  shows "chain (\<lambda>a. (m(p + 16 := q, q' + 24 := p')) (a + 16))
               (\<lambda>a. (m(p + 16 := q, q' + 24 := p')) (a + 24)) x l y"
proof -
  have "chain (nx(p := q)) (pv(q' := p')) x l y =
        chain (\<lambda>a. (m(p + 16 := q, q' + 24 := p')) (a + 16))
               (\<lambda>a. (m(p + 16 := q, q' + 24 := p')) (a + 24)) x l y"
    by (rule chain_cong) (use assms(2-) in auto)
  with assms(1) show ?thesis by simp
qed

lemma mem_unlink: "prev_of s c \<noteq> c \<Longrightarrow> prev_of s c + 16 \<noteq> c + 24 \<Longrightarrow>
   mem (unlink c i s) = (mem s)(prev_of s c + 16 := next_of s c, next_of s c + 24 := prev_of s c)"
  by (simp add: unlink_def store_def Let_def)

lemma unlink_sel [simp]:
  "mal_base (unlink c i s) = mal_base s" "heap_end (unlink c i s) = heap_end s"
  "s_program_break (unlink c i s) = s_program_break s" "s_brk_max (unlink c i s) = s_brk_max s"
  "s_brk_min (unlink c i s) = s_brk_min s"
  "binmap (unlink c i s) = (if prev_of s c = next_of s c then binmap s AND NOT (push_bit i 1) else binmap s)"
  by (simp_all add: unlink_def store_def Let_def)

lemma heap_ok_mem_eq:
  "heap_ok (s\<lparr>mem := mem s'\<rparr>) S bs \<Longrightarrow> mal_base s' = mal_base s \<Longrightarrow> heap_end s' = heap_end s \<Longrightarrow>
   s_program_break s' = s_program_break s \<Longrightarrow> s_brk_max s' = s_brk_max s \<Longrightarrow> heap_ok s' S bs"
  by (simp add: heap_ok_def)

text \<open>The nodes of one bin: its sentinel and its members.\<close>

definition bin_nodes :: "malloc_state \<Rightarrow> (nat \<Rightarrow> nat list) \<Rightarrow> nat \<Rightarrow> nat set" where
  "bin_nodes s L i = insert (mal_base s + 24 * i) (set (L i))"

lemma bin_nodes_facts:
  assumes inv: "minv s S bs L h" and i: "i < 64"
  shows "a \<in> bin_nodes s L i \<Longrightarrow> node (mal_base s) S a"
    and "a \<in> bin_nodes s L i \<Longrightarrow> a + 16 \<in> link_cells s S bs \<and> a + 24 \<in> link_cells s S bs"
    and "distinct ((mal_base s + 24 * i) # L i)"
    and "j < 64 \<Longrightarrow> j \<noteq> i \<Longrightarrow> a \<in> bin_nodes s L i \<Longrightarrow> a \<notin> bin_nodes s L j"
proof -
  from inv have ok: "heap_ok s S bs" and wf: "wf_blocks bs" and base: "mal_base s + 1544 \<le> S"
    by (auto simp: minv_def heap_ok_def)
  have Sj: "set (L j) = free_in S bs j h" if "j < 64" for j
    using inv that by (simp add: minv_def bins_ok_def)
  have low: "mal_base s + 24 * j < S" if "j < 64" for j using that base by simp
  have high: "S \<le> a" if "a \<in> set (L j)" "j < 64" for a j
    using that Sj blks_range [OF _ wf] by (auto simp: free_in_def)
  show "a \<in> bin_nodes s L i \<Longrightarrow> node (mal_base s) S a"
    using free_in_node [OF ok] Sj [OF i] bin_node [OF i] by (auto simp: bin_nodes_def)
  show "a \<in> bin_nodes s L i \<Longrightarrow> a + 16 \<in> link_cells s S bs \<and> a + 24 \<in> link_cells s S bs"
    using i Sj [OF i] unfolding link_cells_def bin_nodes_def by (fastforce simp: free_in_def)
  have "mal_base s + 24 * i \<notin> set (L i)" using high [OF _ i] low [OF i] by fastforce
  then show "distinct ((mal_base s + 24 * i) # L i)"
    using inv i by (simp add: minv_def bins_ok_def)
  show "j < 64 \<Longrightarrow> j \<noteq> i \<Longrightarrow> a \<in> bin_nodes s L i \<Longrightarrow> a \<notin> bin_nodes s L j"
    using low [OF i] low [of j] high [of _ i] high [of _ j] i Sj [OF i] Sj [of j]
      free_in_disjoint [OF wf, of a S i h j h]
    by (fastforce simp: bin_nodes_def)
qed

text \<open>A change of link cells of one bin only leaves the rings of the others.\<close>

lemma other_ring_frame:
  assumes inv: "minv s S bs L h" and i: "i < 64" and j: "j < 64" "j \<noteq> i"
    and same: "\<And>x. (\<And>a. a \<in> bin_nodes s L i \<Longrightarrow> x \<noteq> a + 16 \<and> x \<noteq> a + 24) \<Longrightarrow> m' x = mem s x"
  shows "ring m' (mal_base s + 24 * j) (L j) = ring (mem s) (mal_base s + 24 * j) (L j)"
proof (rule ring_frame)
  fix a assume "a = mal_base s + 24 * j \<or> a \<in> set (L j)"
  then have a: "a \<in> bin_nodes s L j" by (simp add: bin_nodes_def)
  have base: "mal_base s + 1544 \<le> S" using inv by (simp add: minv_def heap_ok_def)
  have "a + 16 \<noteq> a' + 16 \<and> a + 16 \<noteq> a' + 24 \<and> a + 24 \<noteq> a' + 16 \<and> a + 24 \<noteq> a' + 24"
    if "a' \<in> bin_nodes s L i" for a'
  proof -
    have "a \<noteq> a'" using bin_nodes_facts(4) [OF inv i j that] a by auto
    moreover have "node (mal_base s) S a" "node (mal_base s) S a'"
      using bin_nodes_facts(1) [OF inv j(1) a] bin_nodes_facts(1) [OF inv i that] .
    ultimately show ?thesis using node_cells [OF _ _ base] by auto
  qed
  then show "m' (a + 16) = mem s (a + 16) \<and> m' (a + 24) = mem s (a + 24)"
    using same [of "a + 16"] same [of "a + 24"] by blast
qed

lemma unlink_inv:
  assumes inv: "minv s S bs L h" and c: "(c, sz, False) \<in> set (blks S bs)" "c \<notin> h"
    and i: "i = bin_index sz" "i < 64"
  shows "minv (unlink c i s) S bs (L(i := remove1 c (L i))) (insert c h)"
    and "\<And>x. x \<notin> link_cells s S bs \<Longrightarrow> mem (unlink c i s) x = mem s x"
proof -
  let ?b = "mal_base s + 24 * i" and ?nx = "\<lambda>a. mem s (a + 16)" and ?pv = "\<lambda>a. mem s (a + 24)"
  from inv have ok: "heap_ok s S bs" and bins: "bins_ok s S bs L h" by (auto simp: minv_def)
  from ok have wf: "wf_blocks bs" and base: "mal_base s + 1544 \<le> S" and S: "S mod 32 = 16"
    by (auto simp: heap_ok_def)
  have ci: "c \<in> free_in S bs i h" using c i by (auto simp: free_in_def)
  from bins i have R: "ring (mem s) ?b (L i)" and D: "distinct (L i)" and Si: "set (L i) = free_in S bs i h"
    and bm: "bit (binmap s) i \<longleftrightarrow> L i \<noteq> []" by (auto simp: bins_ok_def)
  obtain l l' where Li: "L i = l @ c # l'" using ci Si by (metis split_list)
  with D have rem: "remove1 c (L i) = l @ l'" by (simp add: remove1_append)
  note nodes = bin_nodes_facts(1) [OF inv i(2)] and cellsi = bin_nodes_facts(2) [OF inv i(2)]
    and dist = bin_nodes_facts(3) [OF inv i(2)]
  have bn: "bin_nodes s L i = {?b, c} \<union> set (l @ l')" by (auto simp: bin_nodes_def Li)
  have ch: "chain ?nx ?pv ?b (l @ c # l') ?b" using ring_member_chain [OF R] Li by simp
  define p q where "p = prev_of s c" and "q = next_of s c"
  have ch2: "chain ?nx ?pv ?b l c" "chain ?nx ?pv c l' ?b" using ch by (simp_all add: chain_append)
  have p: "p = last (?b # l)" using chain_prev [OF ch2(1)] by (simp add: p_def)
  have q: "q = hd (l' @ [?b])" using chain_next [OF ch2(2)] by (simp add: q_def)
  have pin: "p = ?b \<or> p \<in> set l" unfolding p by (cases l) auto
  have qin: "q = ?b \<or> q \<in> set l'" unfolding q by (cases l') auto
  have pn: "node (mal_base s) S p" and qn: "node (mal_base s) S q" and cn: "node (mal_base s) S c"
    using nodes pin qin bn by auto
  have pc: "p \<noteq> c" using pin dist Li by auto
  have memu: "mem (unlink c i s) = (mem s)(p + 16 := q, q + 24 := p)"
    unfolding p_def q_def
    by (rule mem_unlink) (use pc node_cells [OF pn cn base] in \<open>auto simp: p_def\<close>)
  have cells: "p + 16 \<in> link_cells s S bs" "q + 24 \<in> link_cells s S bs"
    using cellsi [of p] cellsi [of q] pin qin bn by auto
  show frame: "\<And>x. x \<notin> link_cells s S bs \<Longrightarrow> mem (unlink c i s) x = mem s x"
    using cells by (auto simp: memu)
  have ok': "heap_ok (unlink c i s) S bs"
    by (rule heap_ok_mem_eq [OF link_cells_frame [OF ok frame]]) auto
  have chi: "chain (\<lambda>a. mem (unlink c i s) (a + 16)) (\<lambda>a. mem (unlink c i s) (a + 24)) ?b (l @ l') ?b"
    unfolding memu
  proof (rule chain_two_writes)
    show "chain (?nx(p := q)) (?pv(q := p)) ?b (l @ l') ?b"
      unfolding p_def q_def by (rule chain_unlink [OF ch]) (use dist Li in auto)
    show "a + 16 \<noteq> q + 24" if "a = ?b \<or> a \<in> set (l @ l')" for a
      using node_cells [OF nodes qn base, of a] that bn by auto
    show "a + 24 \<noteq> p + 16" if "a = ?b \<or> a \<in> set (l @ l')" for a
      using node_cells [OF pn nodes base, of a] that bn by auto
  qed simp_all
  have fin: "free_in S bs j (insert c h) = (if j = i then free_in S bs i h - {c} else free_in S bs j h)" for j
  proof -
    have "bin_index sz' = i" if "(c, sz', False) \<in> set (blks S bs)" for sz'
      using free_in_disjoint [OF wf ci, of "bin_index sz'" "{}"] that by (auto simp: free_in_def)
    then show ?thesis by (auto simp: free_in_def)
  qed
  have "mem (unlink c i s) x = mem s x" if "\<And>a. a \<in> bin_nodes s L i \<Longrightarrow> x \<noteq> a + 16 \<and> x \<noteq> a + 24" for x
    using that [of p] that [of q] pin qin bn by (auto simp: memu)
  then have "ring (mem (unlink c i s)) (mal_base s + 24 * j) (L j) = ring (mem s) (mal_base s + 24 * j) (L j)"
    if j: "j < 64" "j \<noteq> i" for j
    using other_ring_frame [OF inv i(2) j] by blast
  moreover have "ring (mem (unlink c i s)) ?b (l @ l')" using chi by (simp add: ring_def)
  moreover have "prev_of s c = next_of s c \<longleftrightarrow> l @ l' = []"
    using ring_singleton_iff [OF ch] dist Li by simp
  ultimately have "bins_ok (unlink c i s) S bs (L(i := l @ l')) (insert c h)"
    using bins D Li Si i(2) bm unfolding bins_ok_def fin
    by (auto simp: bit_clear_u64)
  with ok' show "minv (unlink c i s) S bs (L(i := remove1 c (L i))) (insert c h)"
    by (simp add: minv_def rem)
qed

lemma store_sel [simp]:
  "mal_base (store a v s) = mal_base s" "heap_end (store a v s) = heap_end s"
  "s_program_break (store a v s) = s_program_break s" "s_brk_max (store a v s) = s_brk_max s"
  "s_brk_min (store a v s) = s_brk_min s" "binmap (store a v s) = binmap s"
  "mem (store a v s) = (mem s)(a := v)"
  by (simp_all add: store_def)

text \<open>lock_bin initialises the ring of a bin that was never used.\<close>

lemma lock_bin_sel [simp]:
  "mal_base (lock_bin i s) = mal_base s" "heap_end (lock_bin i s) = heap_end s"
  "s_program_break (lock_bin i s) = s_program_break s" "s_brk_max (lock_bin i s) = s_brk_max s"
  "s_brk_min (lock_bin i s) = s_brk_min s" "binmap (lock_bin i s) = binmap s"
  by (simp_all add: lock_bin_def Let_def)

lemma lock_bin_inv:
  assumes inv: "minv s S bs L h" and i: "i < 64"
  shows "minv (lock_bin i s) S bs L h"
    and "\<And>x. x \<notin> link_cells s S bs \<Longrightarrow> mem (lock_bin i s) x = mem s x"
    and "chain (\<lambda>a. mem (lock_bin i s) (a + 16)) (\<lambda>a. mem (lock_bin i s) (a + 24))
           (mal_base s + 24 * i) (L i) (mal_base s + 24 * i)"
proof -
  let ?b = "mal_base s + 24 * i"
  from inv have ok: "heap_ok s S bs" and bins: "bins_ok s S bs L h" by (auto simp: minv_def)
  have bn: "?b \<in> bin_nodes s L i" by (simp add: bin_nodes_def)
  have memu: "mem (lock_bin i s) =
      (if mem s (?b + 16) = 0 then (mem s)(?b + 24 := ?b, ?b + 16 := ?b) else mem s)"
    by (simp add: lock_bin_def CKB_BIN_TO_CHUNK_def Let_def)
  show frame: "\<And>x. x \<notin> link_cells s S bs \<Longrightarrow> mem (lock_bin i s) x = mem s x"
    using bin_nodes_facts(2) [OF inv i bn] by (auto simp: memu)
  have ok': "heap_ok (lock_bin i s) S bs"
    by (rule heap_ok_mem_eq [OF link_cells_frame [OF ok frame]]) auto
  have R: "ring (mem s) ?b (L i)" using bins i by (simp add: bins_ok_def)
  have b0: "?b \<noteq> 0" using ok by (simp add: heap_ok_def)
  show ch: "chain (\<lambda>a. mem (lock_bin i s) (a + 16)) (\<lambda>a. mem (lock_bin i s) (a + 24)) ?b (L i) ?b"
  proof (cases "mem s (?b + 16) = 0")
    case True
    have "L i = []"
    proof (rule ccontr)
      assume ne: "L i \<noteq> []"
      from chain_next [OF ring_member_chain [OF R ne]] ne True have "hd (L i) = 0" by simp
      with ne have "0 \<in> bin_nodes s L i" by (auto simp: bin_nodes_def dest: hd_in_set)
      from bin_nodes_facts(1) [OF inv i this] ok b0 show False
        by (auto simp: node_def heap_ok_def)
    qed
    with True show ?thesis by (simp add: memu)
  next
    case False
    with R show ?thesis by (auto simp: ring_def memu)
  qed
  have "mem (lock_bin i s) x = mem s x" if "\<And>a. a \<in> bin_nodes s L i \<Longrightarrow> x \<noteq> a + 16 \<and> x \<noteq> a + 24" for x
    using that [OF bn] by (auto simp: memu)
  then have "ring (mem (lock_bin i s)) (mal_base s + 24 * j) (L j) = ring (mem s) (mal_base s + 24 * j) (L j)"
    if j: "j < 64" "j \<noteq> i" for j
    using other_ring_frame [OF inv i j] by blast
  moreover have "ring (mem (lock_bin i s)) ?b (L i)" using ch by (simp add: ring_def)
  ultimately have "bins_ok (lock_bin i s) S bs L h"
    using bins unfolding bins_ok_def by simp metis
  with ok' show "minv (lock_bin i s) S bs L h" by (simp add: minv_def)
qed

text \<open>Putting a chunk into a bin whose ring is initialised.\<close>

lemma bin_chunk_sel [simp]:
  "mal_base (bin_chunk c i s) = mal_base s" "heap_end (bin_chunk c i s) = heap_end s"
  "s_program_break (bin_chunk c i s) = s_program_break s" "s_brk_max (bin_chunk c i s) = s_brk_max s"
  "s_brk_min (bin_chunk c i s) = s_brk_min s"
  by (simp_all add: bin_chunk_def Let_def)

lemma bin_chunk_mem:
  assumes "b = mal_base s + 24 * i" "t = mem s (b + 24)" "c \<noteq> b" "c \<noteq> t"
    and "c + 16 \<noteq> b + 24" "t + 16 \<noteq> c + 24" "b + 16 \<noteq> b + 24" "c + 16 \<noteq> c + 24" "t + 16 \<noteq> b + 24"
  shows "mem (bin_chunk c i s) = (mem s)(c + 16 := b, c + 24 := t, b + 24 := c, t + 16 := c)"
    and "binmap (bin_chunk c i s) = (if t = b then binmap s OR 2 ^ i else binmap s)"
  using assms by (simp_all add: bin_chunk_def CKB_BIN_TO_CHUNK_def Let_def)

lemma bin_chunk_inv:
  assumes inv: "minv s S bs L h" and c: "(c, sz, False) \<in> set (blks S bs)" "c \<in> h"
    and i: "i = bin_index sz" "i < 64"
    and ch: "chain (\<lambda>a. mem s (a + 16)) (\<lambda>a. mem s (a + 24)) (mal_base s + 24 * i) (L i) (mal_base s + 24 * i)"
  shows "minv (bin_chunk c i s) S bs (L(i := L i @ [c])) (h - {c})"
    and "\<And>x. x \<notin> link_cells s S bs \<Longrightarrow> mem (bin_chunk c i s) x = mem s x"
proof -
  let ?b = "mal_base s + 24 * i" and ?nx = "\<lambda>a. mem s (a + 16)" and ?pv = "\<lambda>a. mem s (a + 24)"
  from inv have ok: "heap_ok s S bs" and bins: "bins_ok s S bs L h" by (auto simp: minv_def)
  from ok have wf: "wf_blocks bs" and base: "mal_base s + 1544 \<le> S" by (auto simp: heap_ok_def)
  from bins i(2) have Si: "set (L i) = free_in S bs i h" and D: "distinct (L i)"
    and bm: "bit (binmap s) i \<longleftrightarrow> L i \<noteq> []" by (auto simp: bins_ok_def)
  define t where "t = mem s (?b + 24)"
  have t: "t = last (?b # L i)" using chain_prev [OF ch] by (simp add: t_def)
  have "last (?b # L i) \<in> set (?b # L i)" by (rule last_in_set) simp
  then have tin: "t \<in> bin_nodes s L i" by (simp only: t bin_nodes_def list.set)
  have bin: "?b \<in> bin_nodes s L i" by (simp add: bin_nodes_def)
  note nodes = bin_nodes_facts(1) [OF inv i(2)] and cellsi = bin_nodes_facts(2) [OF inv i(2)]
    and dist = bin_nodes_facts(3) [OF inv i(2)]
  have cn: "node (mal_base s) S c" by (rule free_node [OF ok c(1)])
  have "S \<le> c" using blks_range [OF c(1) wf] by simp
  then have cb: "c \<noteq> ?b" using i(2) base by simp
  moreover have "c \<notin> set (L i)" using Si c(2) by (auto simp: free_in_def)
  ultimately have cnot: "c \<notin> bin_nodes s L i" by (simp add: bin_nodes_def)
  have ct: "c \<noteq> t" using cnot tin by auto
  note nc = node_cells [OF _ _ base]
  note neq = cb ct nc [OF cn nodes [OF bin]] nc [OF nodes [OF tin] cn] nc [OF nodes [OF bin] nodes [OF bin]]
    nc [OF cn cn] nc [OF nodes [OF tin] nodes [OF bin]]
  note memu = bin_chunk_mem(1) [OF refl t_def neq] and bmu = bin_chunk_mem(2) [OF refl t_def neq]
  have cl: "c + 16 \<in> link_cells s S bs" "c + 24 \<in> link_cells s S bs"
    using c(1) unfolding link_cells_def by blast+
  show frame: "\<And>x. x \<notin> link_cells s S bs \<Longrightarrow> mem (bin_chunk c i s) x = mem s x"
    using cl cellsi [OF tin] cellsi [OF bin] by (auto simp: memu)
  have ok': "heap_ok (bin_chunk c i s) S bs"
    by (rule heap_ok_mem_eq [OF link_cells_frame [OF ok frame]]) auto
  have "chain (\<lambda>a. mem (bin_chunk c i s) (a + 16)) (\<lambda>a. mem (bin_chunk c i s) (a + 24)) ?b (L i @ [c]) ?b =
        chain (?nx(c := ?b, t := c)) (?pv(c := t, ?b := c)) ?b (L i @ [c]) ?b"
  proof (rule chain_cong)
    fix a assume "a = ?b \<or> a \<in> set (L i @ [c])"
    then have a: "node (mal_base s) S a" using nodes [of a] cn by (auto simp: bin_nodes_def)
    show "mem (bin_chunk c i s) (a + 16) = (?nx(c := ?b, t := c)) a"
      using nc [OF a cn] nc [OF a nodes [OF bin]] by (auto simp: memu)
    show "mem (bin_chunk c i s) (a + 24) = (?pv(c := t, ?b := c)) a"
      using nc [OF cn a] nc [OF nodes [OF tin] a] cb by (auto simp: memu)
  qed
  also have "\<dots>"
    using chain_link [OF ch dist, of c] cb cnot dist by (simp add: t_def bin_nodes_def)
  finally have R: "ring (mem (bin_chunk c i s)) ?b (L i @ [c])" by (simp add: ring_def)
  have fin: "free_in S bs j (h - {c}) = (if j = i then insert c (free_in S bs i h) else free_in S bs j h)" for j
  proof -
    have "bin_index sz' = i" if "(c, sz', False) \<in> set (blks S bs)" for sz'
    proof -
      have "c \<in> free_in S bs (bin_index sz') {}" "c \<in> free_in S bs (bin_index sz) {}"
        using that c(1) unfolding free_in_def by blast+
      then show ?thesis using free_in_disjoint [OF wf] i(1) by blast
    qed
    then have cj: "c \<in> free_in S bs j (h - {c}) \<longleftrightarrow> j = i"
      using c(1) i(1) unfolding free_in_def by blast
    have "x \<in> free_in S bs j (h - {c}) \<longleftrightarrow> x \<in> free_in S bs j h" if "x \<noteq> c" for x
      using that unfolding free_in_def by simp
    moreover have "c \<notin> free_in S bs j h" using c(2) by (simp add: free_in_def)
    ultimately have "x \<in> free_in S bs j (h - {c}) \<longleftrightarrow>
        x \<in> (if j = i then insert c (free_in S bs i h) else free_in S bs j h)" for x
      using cj by (cases "x = c"; cases "j = i") simp_all
    then show ?thesis by blast
  qed
  have "t = ?b \<longleftrightarrow> L i = []"
  proof (cases "L i = []")
    case False
    from last_in_set [OF False] dist(1) have "last (L i) \<noteq> ?b" by (metis distinct.simps(2))
    with False show ?thesis by (simp add: t)
  qed (simp add: t)
  moreover have "ring (mem (bin_chunk c i s)) (mal_base s + 24 * j) (L j)"
    if j: "j < 64" "j \<noteq> i" for j
  proof -
    have "ring (mem (bin_chunk c i s)) (mal_base s + 24 * j) (L j) = ring (mem s) (mal_base s + 24 * j) (L j)"
    proof (rule ring_frame)
      fix a assume "a = mal_base s + 24 * j \<or> a \<in> set (L j)"
      then have a: "a \<in> bin_nodes s L j" by (simp add: bin_nodes_def)
      have an: "node (mal_base s) S a" by (rule bin_nodes_facts(1) [OF inv j(1) a])
      have "set (L j) = free_in S bs j h" using bins j(1) by (simp add: bins_ok_def)
      then have "c \<notin> set (L j)" using c(2) by (simp add: free_in_def)
      moreover have "c \<noteq> mal_base s + 24 * j" using \<open>S \<le> c\<close> base j(1) by simp
      ultimately have "a \<noteq> c" using a by (auto simp: bin_nodes_def)
      moreover have "a \<noteq> t" "a \<noteq> ?b" using bin_nodes_facts(4) [OF inv i(2) j] a tin bin by auto
      ultimately show "mem (bin_chunk c i s) (a + 16) = mem s (a + 16) \<and> mem (bin_chunk c i s) (a + 24) = mem s (a + 24)"
        using nc [OF an cn] nc [OF cn an] nc [OF an nodes [OF bin]] nc [OF nodes [OF tin] an]
        by (auto simp: memu)
    qed
    with bins j(1) show ?thesis by (simp add: bins_ok_def)
  qed
  ultimately have "bins_ok (bin_chunk c i s) S bs (L(i := L i @ [c])) (h - {c})"
    using bins D Si i(2) bm R cnot unfolding bins_ok_def fin bmu
    by (auto simp: bit_set_u64 bin_nodes_def)
  with ok' show "minv (bin_chunk c i s) S bs (L(i := L i @ [c])) (h - {c})"
    by (simp add: minv_def)
qed

end
