(* ===== verification/Malloc_Correct.thy ===== *)
theory Malloc_Correct
  imports Malloc_Inv
begin

text \<open>
  The allocator's operations preserve its invariant and do what malloc, free and realloc
  promise. First unbin, trim and the release of a run of blocks, each as a change of the block
  list; then the operations themselves.
\<close>

section \<open>Reading the header of a block\<close>

lemma dvd32_bits:
  assumes "32 dvd (sz :: nat)"
  shows "sz OR 1 = sz + 1" "(sz + 1) OR 1 = sz + 1" "sz AND 1 = 0" "(sz + 1) AND 1 = 1"
    "Suc sz OR 1 = Suc sz" "Suc sz AND 1 = 1"
  using assms by (auto simp: or_Suc_0_eq and_Suc_0_eq mod_2_eq_odd elim!: dvdE)

lemma dvd32_size:
  assumes "32 dvd sz" "sz < 2 ^ 63"
  shows "and_minus (sz + of_bool u) 2 = sz"
proof -
  have "sz + of_bool u < 2 ^ 64" using assms(2) by (cases u) auto
  moreover have "2 * ((sz + of_bool u) div 2) = sz" using assms(1) by (cases u) (auto elim!: dvdE)
  ultimately show ?thesis by (simp only: and_minus_2)
qed

lemma block_header:
  assumes ok: "heap_ok s S (xs @ (sz, u) # ys)" and c: "c = S + btotal xs"
  shows "csize s c = sz + of_bool u" "psize s (c + sz) = sz + of_bool u"
    "CKB_CHUNK_SIZE s c = sz" "CKB_NEXT_CHUNK s c = c + sz"
    "CKB_CHUNK_PSIZE s (c + sz) = sz" "CKB_PREV_CHUNK s (c + sz) = c"
    "32 \<le> sz" "32 dvd sz" "sz < 2 ^ 63" "c mod 32 = 16" "c + sz < 2 ^ 63"
    "(c, sz, u) \<in> set (blks S (xs @ (sz, u) # ys))"
proof -
  from ok show sz: "32 \<le> sz" "32 dvd sz" and h: "csize s c = sz + of_bool u" "psize s (c + sz) = sz + of_bool u"
    by (auto simp: heap_ok_def c)
  from ok have e: "S + btotal (xs @ (sz, u) # ys) + 16 < 2 ^ 63" by (auto simp: heap_ok_def)
  then show l: "sz < 2 ^ 63" "c + sz < 2 ^ 63" by (auto simp: c)
  from ok show "c mod 32 = 16"
    using mod32(4) [of S "btotal xs"] btotal_dvd [of xs] by (auto simp: heap_ok_def c)
  show "CKB_CHUNK_SIZE s c = sz" "CKB_NEXT_CHUNK s c = c + sz"
    "CKB_CHUNK_PSIZE s (c + sz) = sz" "CKB_PREV_CHUNK s (c + sz) = c"
    by (simp_all only: CKB_CHUNK_SIZE_def CKB_NEXT_CHUNK_def CKB_CHUNK_PSIZE_def CKB_PREV_CHUNK_def
        h dvd32_size [OF sz(2) l(1)] diff_add_inverse2)
  show "(c, sz, u) \<in> set (blks S (xs @ (sz, u) # ys))" by (simp add: c)
qed

lemma heap_start: "heap_ok s S bs \<Longrightarrow> psize s S = 1"
  by (simp add: heap_ok_def)

lemma heap_sentinel: "heap_ok s S bs \<Longrightarrow> csize s (S + btotal bs) = 1"
  by (simp add: heap_ok_def)

text \<open>Header cells are not user cells.\<close>

lemma header_not_ucell:
  assumes "wf_blocks (xs @ ys)" "x = S + btotal xs \<or> x = S + btotal xs + 8"
  shows "x \<notin> ucells S (xs @ ys)"
proof
  assume "x \<in> ucells S (xs @ ys)"
  then obtain a sz where a: "(a, sz, True) \<in> set (blks S (xs @ ys))" "a + 16 \<le> x" "x < a + sz"
    by (auto simp: ucells_def)
  then have "(a, sz, True) \<in> set (blks S xs) \<or> (a, sz, True) \<in> set (blks (S + btotal xs) ys)" by simp
  then show False
    using blks_range [of a sz True S xs] blks_range [of a sz True "S + btotal xs" ys] assms a(2,3) by auto
qed

section \<open>unbin\<close>

lemma unbin_inv:
  assumes inv: "minv s S (xs @ (sz, False) # ys) L {}" and c: "c = S + btotal xs" and i: "i = bin_index sz"
  shows "minv (unbin c i s) S (xs @ (sz, True) # ys) (L(i := remove1 c (L i))) {}"
    and "\<And>x. x \<in> ucells S (xs @ (sz, False) # ys) \<Longrightarrow> mem (unbin c i s) x = mem s x"
    and "mal_base (unbin c i s) = mal_base s"
proof -
  let ?bs = "xs @ (sz, False) # ys"
  from inv have ok: "heap_ok s S ?bs" by (simp add: minv_def)
  note hd = block_header [OF ok c]
  have i64: "i < 64" unfolding i by (rule bin_index_lt) (use hd in auto)
  note ul = unlink_inv [OF inv hd(12) _ i i64]
  let ?s3 = "unlink c i s"
  have inv3: "minv ?s3 S ?bs (L(i := remove1 c (L i))) {c}" using ul(1) by simp
  then have ok3: "heap_ok ?s3 S ?bs" by (simp add: minv_def)
  note hd3 = block_header [OF ok3 c]
  define s4 where "s4 = store (c + 8) (sz + 1) ?s3"
  have "csize s4 c = sz + of_bool True" by (simp add: s4_def)
  then have n4: "CKB_NEXT_CHUNK s4 c = c + sz"
    using dvd32_size [OF hd(8,9), of True] by (simp add: CKB_NEXT_CHUNK_def CKB_CHUNK_SIZE_def)
  have "psize s4 (c + sz) = sz" using hd(7) hd3(2) by (simp add: s4_def)
  then have ub: "unbin c i s = store (c + sz) (sz + 1) s4"
    unfolding unbin_unlink Let_def using hd3(1) dvd32_bits [OF hd(8)] n4 by (simp add: s4_def)
  have memu: "mem (unbin c i s) = (mem ?s3)(c + 8 := sz + 1, c + sz := sz + 1)"
    by (simp add: ub s4_def)
  have st: "unbin c i s = ?s3\<lparr>mem := mem (unbin c i s)\<rparr>"
    by (simp add: ub s4_def store_def)
  have df: "S + btotal xs < x \<and> x \<le> S + btotal xs + btotal [(sz, False)] \<and> (x mod 32 = 16 \<or> x mod 32 = 24)"
    if "mem (unbin c i s) x \<noteq> mem ?s3 x" for x
  proof -
    have "x = c + 8 \<or> x = c + sz" using that by (auto simp: memu split: if_splits)
    then show ?thesis
      using hd(7) mod32(3) [OF hd(10)] mod32(4) [OF hd(10) hd(8)] by (elim disjE) (simp_all flip: c)
  qed
  have pr: "pre (mem (unbin c i s)) (S + btotal xs) [(sz, True)]"
    using hd(7) by (simp add: memu flip: c)
  have "minv (unbin c i s) S (xs @ [(sz, True)] @ ys) (L(i := remove1 c (L i))) {}"
    by (rule set_headers [OF _ st _ _ pr df, where h = "{c}"]) (use inv3 hd(7,8) in \<open>auto simp: c\<close>)
  then show "minv (unbin c i s) S (xs @ (sz, True) # ys) (L(i := remove1 c (L i))) {}" by simp
  show "mem (unbin c i s) x = mem s x" if x: "x \<in> ucells S ?bs" for x
  proof -
    have wf: "wf_blocks ?bs" "wf_blocks ((xs @ [(sz, False)]) @ ys)" using ok by (auto simp: heap_ok_def)
    have "x \<noteq> c + 8" using header_not_ucell [OF wf(1), of x S] x by (auto simp: c)
    moreover have "x \<noteq> c + sz" using header_not_ucell [OF wf(2), of x S] x by (auto simp: c add.assoc)
    moreover have "x \<notin> link_cells s S ?bs" using link_cells_not_ucell [OF ok] x by blast
    ultimately show ?thesis using ul(2) [of x] by (simp add: memu)
  qed
  show "mal_base (unbin c i s) = mal_base s" by (simp add: ub s4_def)
qed

section \<open>trim and release\<close>

lemma minv_chain:
  assumes "minv s S bs L h" "i < 64" "mem s (mal_base s + 24 * i + 16) \<noteq> 0"
  shows "chain (\<lambda>a. mem s (a + 16)) (\<lambda>a. mem s (a + 24)) (mal_base s + 24 * i) (L i) (mal_base s + 24 * i)"
  using assms by (auto simp: minv_def bins_ok_def ring_def)

lemma trim_same:
  assumes "heap_ok s S (xs @ (n, u) # ys)" "c = S + btotal xs"
  shows "trim c n s = s"
  using block_header [OF assms] by (simp add: trim_def CKB_DONTCARE_def)

lemma trim_split:
  assumes inv: "minv s S (xs @ (n1, True) # ys) L {}" and c: "c = S + btotal xs"
    and n: "32 dvd n" "32 \<le> n" "n < n1"
  shows "minv (trim c n s) S (xs @ (n, True) # (n1 - n, False) # ys)
           (L(bin_index (n1 - n) := L (bin_index (n1 - n)) @ [c + n])) {}"
    and "\<And>x. x \<in> ucells S (xs @ (n, True) # (n1 - n, False) # ys) \<Longrightarrow> mem (trim c n s) x = mem s x"
    and "mal_base (trim c n s) = mal_base s"
proof -
  let ?bs = "xs @ (n1, True) # ys" and ?bs' = "xs @ (n, True) # (n1 - n, False) # ys"
  from inv have ok: "heap_ok s S ?bs" by (simp add: minv_def)
  note hd = block_header [OF ok c]
  have rest: "32 dvd n1 - n" "32 \<le> n1 - n" "n1 - n < 2 ^ 63" and gap: "n + 32 \<le> n1"
    using n hd(8,9) by (auto elim!: dvdE)
  define i where "i = bin_index (n1 - n)"
  have i64: "i < 64" unfolding i_def by (rule bin_index_lt [OF rest])
  define s4 where "s4 = s\<lparr>mem := (mem s)(c + n := n + 1, c + n + 8 := n1 - n, c + n1 := n1 - n, c + 8 := n + 1)\<rparr>"
  have tr: "trim c n s = bin_chunk (c + n) i (lock_bin i s4)"
    using gap hd(9) dvd32_bits [OF n(1)] hd(3,4)
    by (simp add: trim_def Let_def CKB_DONTCARE_def s4_def i_def store_def)
  note m16 = hd(10) mod32(4) [OF hd(10) n(1)] mod32(4) [OF hd(10) hd(8)]
  have df: "S + btotal xs < x \<and> x \<le> S + btotal xs + btotal [(n1, True)] \<and> (x mod 32 = 16 \<or> x mod 32 = 24)"
    if "mem s4 x \<noteq> mem s x" for x
  proof -
    have "x = c + n \<or> x = c + n + 8 \<or> x = c + n1 \<or> x = c + 8"
      using that by (auto simp: s4_def split: if_splits)
    then show ?thesis
      using gap n(2) m16 mod32(3) [OF m16(1)] mod32(3) [OF m16(2)] by (elim disjE) (simp_all flip: c)
  qed
  have pr: "pre (mem s4) (S + btotal xs) [(n, True), (n1 - n, False)]"
    using gap n(2) by (simp add: s4_def flip: c)
  have st: "s4 = s\<lparr>mem := mem s4\<rparr>" by (simp add: s4_def)
  have "minv s4 S (xs @ [(n, True), (n1 - n, False)] @ ys) L {c + n}"
    by (rule set_headers [OF _ st _ _ pr df, where h = "{}"]) (use inv gap n rest in \<open>auto simp: c\<close>)
  then have inv4: "minv s4 S ?bs' L {c + n}" by simp
  note lk = lock_bin_inv [OF inv4 i64]
  have b4: "mal_base s4 = mal_base s" by (simp add: s4_def)
  have free: "(c + n, n1 - n, False) \<in> set (blks S ?bs')" by (simp add: c)
  note bc = bin_chunk_inv [OF lk(1) free _ i_def i64]
  have ch: "chain (\<lambda>a. mem (lock_bin i s4) (a + 16)) (\<lambda>a. mem (lock_bin i s4) (a + 24))
      (mal_base (lock_bin i s4) + 24 * i) (L i) (mal_base (lock_bin i s4) + 24 * i)"
    using lk(3) by simp
  show "minv (trim c n s) S ?bs' (L(bin_index (n1 - n) := L (bin_index (n1 - n)) @ [c + n])) {}"
    using bc(1) [OF _ ch] by (simp add: tr i_def)
  show "mem (trim c n s) x = mem s x" if x: "x \<in> ucells S ?bs'" for x
  proof -
    have wf: "wf_blocks ?bs'" "wf_blocks ((xs @ [(n, True)]) @ (n1 - n, False) # ys)"
      "wf_blocks ((xs @ [(n, True), (n1 - n, False)]) @ ys)"
      using inv4 by (auto simp: minv_def heap_ok_def)
    have "x \<noteq> c + 8" using header_not_ucell [OF wf(1), of x S] x by (auto simp: c)
    moreover have "x \<noteq> c + n \<and> x \<noteq> c + n + 8"
      using header_not_ucell [OF wf(2), of x S] x by (auto simp: c add.assoc)
    moreover have "x \<noteq> c + n1" using header_not_ucell [OF wf(3), of x S] x gap by (auto simp: c add.assoc)
    ultimately have "mem s4 x = mem s x" by (simp add: s4_def)
    moreover have "x \<notin> link_cells (lock_bin i s4) S ?bs'" "x \<notin> link_cells s4 S ?bs'"
      using link_cells_not_ucell [of _ S ?bs' x] x lk(1) inv4 by (auto simp: minv_def)
    ultimately show ?thesis using bc(2) [OF _ ch, of x] lk(2) [of x] by (simp add: tr)
  qed
  show "mal_base (trim c n s) = mal_base s" by (simp add: tr b4)
qed

text \<open>The end of __bin_chunk: a run of blocks in use becomes one free block of its bin.\<close>

lemma release_inv:
  assumes inv: "minv s S (xs @ mid @ ys) L {}" and c: "c = S + btotal xs"
    and mid: "mid \<noteq> []" "\<forall>b \<in> set mid. snd b" "btotal mid = sz"
    and i: "i = bin_index sz"
    and s': "s' = bin_chunk c i (store (c + sz) sz (store (c + 8) sz (lock_bin i s)))"
  shows "minv s' S (xs @ (sz, False) # ys) (L(i := L i @ [c])) {}"
    and "\<And>x. x \<in> ucells S (xs @ (sz, False) # ys) \<Longrightarrow> mem s' x = mem s x"
    and "mal_base s' = mal_base s"
proof -
  let ?bs = "xs @ mid @ ys" and ?bs' = "xs @ (sz, False) # ys"
  from inv have ok: "heap_ok s S ?bs" by (simp add: minv_def)
  then have wfm: "wf_blocks mid" "wf_blocks xs" "wf_blocks ys" and S: "S mod 32 = 16"
    and lim: "sz < 2 ^ 63" by (auto simp: heap_ok_def mid(3))
  obtain b mid' where b: "mid = b # mid'" using mid(1) by (cases mid) auto
  have sz: "32 dvd sz" "32 \<le> sz"
    using btotal_dvd [OF wfm(1)] wfm(1) mid(3) by (auto simp: b wf_blocks_def)
  have i64: "i < 64" unfolding i by (rule bin_index_lt [OF sz lim])
  note lk = lock_bin_inv [OF inv i64]
  let ?s3 = "lock_bin i s"
  define s5 where "s5 = store (c + sz) sz (store (c + 8) sz ?s3)"
  have c16: "c mod 32 = 16" "(c + sz) mod 32 = 16"
    using mod32(4) [OF S btotal_dvd [OF wfm(2)]] mod32(4) [OF _ sz(1), of c] by (auto simp: c)
  have df: "S + btotal xs < x \<and> x \<le> S + btotal xs + btotal mid \<and> (x mod 32 = 16 \<or> x mod 32 = 24)"
    if "mem s5 x \<noteq> mem ?s3 x" for x
  proof -
    have "x = c + 8 \<or> x = c + sz" using that by (auto simp: s5_def split: if_splits)
    then show ?thesis
      using sz(2) c16 mod32(3) [OF c16(1)] mid(3) by (elim disjE) (simp_all flip: c)
  qed
  have pr: "pre (mem s5) (S + btotal xs) [(sz, False)]" using sz(2) by (simp add: s5_def flip: c)
  have st: "s5 = ?s3\<lparr>mem := mem s5\<rparr>" by (simp add: s5_def store_def)
  have nofree: "(a, z, False) \<notin> set (blks e mid)" for a z e
    using mid(2) by (fastforce simp: blks_split)
  have "minv s5 S (xs @ [(sz, False)] @ ys) L {c}"
    by (rule set_headers [OF _ st _ _ pr df, where h = "{}"])
      (use lk(1) sz mid(3) nofree in \<open>auto simp: c\<close>)
  then have inv5: "minv s5 S ?bs' L {c}" by simp
  have base: "mal_base s + 1544 \<le> S" and b0: "0 < mal_base s" using ok by (auto simp: heap_ok_def)
  have "mem s5 (mal_base s + 24 * i + 16) = mem ?s3 (mal_base s + 24 * i + 16)"
    using base i64 by (auto simp: s5_def c)
  moreover have "mem ?s3 (mal_base s + 24 * i + 16) \<noteq> 0"
  proof -
    have n0: "0 \<notin> set (L i @ [mal_base s + 24 * i])"
    proof
      assume "0 \<in> set (L i @ [mal_base s + 24 * i])"
      then have "0 \<in> bin_nodes s L i" using b0 by (auto simp: bin_nodes_def)
      from bin_nodes_facts(1) [OF inv i64 this] base b0 show False by (auto simp: node_def)
    qed
    moreover have "hd (L i @ [mal_base s + 24 * i]) \<in> set (L i @ [mal_base s + 24 * i])"
      by (rule hd_in_set) simp
    ultimately show ?thesis using chain_next [OF lk(3)] by (metis)
  qed
  ultimately have ch: "chain (\<lambda>a. mem s5 (a + 16)) (\<lambda>a. mem s5 (a + 24))
      (mal_base s5 + 24 * i) (L i) (mal_base s5 + 24 * i)"
    by (intro minv_chain [OF inv5 i64]) (simp add: s5_def)
  have free: "(c, sz, False) \<in> set (blks S ?bs')" by (simp add: c)
  note bc = bin_chunk_inv [OF inv5 free _ i i64 ch]
  have s5': "s' = bin_chunk c i s5" by (simp add: s' s5_def)
  show "minv s' S ?bs' (L(i := L i @ [c])) {}" using bc(1) by (simp add: s5')
  show "mem s' x = mem s x" if x: "x \<in> ucells S ?bs'" for x
  proof -
    have wf: "wf_blocks ?bs'" "wf_blocks ((xs @ [(sz, False)]) @ ys)"
      using inv5 by (auto simp: minv_def heap_ok_def)
    have "x \<noteq> c + 8" using header_not_ucell [OF wf(1), of x S] x by (auto simp: c)
    moreover have "x \<noteq> c + sz" using header_not_ucell [OF wf(2), of x S] x by (auto simp: c add.assoc)
    ultimately have "mem s5 x = mem ?s3 x" by (simp add: s5_def)
    moreover have "x \<notin> link_cells s5 S ?bs'"
      using link_cells_not_ucell [of _ S ?bs' x] x inv5 by (auto simp: minv_def)
    moreover have "x \<notin> link_cells s S ?bs"
    proof -
      have "x \<in> ucells S ?bs"
        using x nofree unfolding ucells_def by (auto simp: mid(3))
      then show ?thesis using link_cells_not_ucell [OF ok] by blast
    qed
    ultimately show ?thesis using bc(2) [of x] lk(2) [of x] by (simp add: s5')
  qed
  show "mal_base s' = mal_base s" by (simp add: s5' s5_def)
qed

section \<open>Choosing a bin\<close>

lemma first_set:
  assumes "x \<noteq> (0 :: u64)"
  shows "bit x (first_set x)" "first_set x < 64"
proof -
  have "\<exists>j < 64. bit x j"
  proof (rule ccontr)
    assume "\<not> (\<exists>j < 64. bit x j)"
    then have "x = 0" by (intro bit_word_eqI) simp
    with assms show False by simp
  qed
  then obtain j where j: "bit x j" "j < 64" by blast
  let ?P = "\<lambda>i. \<not> bit x i"
  have lt: "first_set x < length [0..<64]"
  proof (rule ccontr)
    assume "\<not> first_set x < length [0..<64]"
    then have "length (takeWhile ?P [0..<64]) = length [0..<64]"
      using length_takeWhile_le [of ?P "[0..<64]"] unfolding first_set_def by linarith
    then have "takeWhile ?P [0..<64] = [0..<64]"
      by (metis takeWhile_eq_take take_all_iff order_refl)
    then have "\<forall>i \<in> set [0..<64]. ?P i" by (simp only: takeWhile_eq_all_conv)
    with j show False by auto
  qed
  then show "first_set x < 64" by simp
  have "\<not> ?P ([0..<64] ! first_set x)"
    using nth_length_takeWhile [of ?P "[0..<64]"] lt unfolding first_set_def by blast
  with lt show "bit x (first_set x)" by simp
qed

lemma bit_minus_mask: "j < 64 \<Longrightarrow> bit (w AND - push_bit i 1 :: u64) j \<longleftrightarrow> bit w j \<and> i \<le> j"
  by (simp add: bit_and_iff push_bit_of_1 bit_minus_exp_iff)

lemma hd_bin:
  assumes inv: "minv s S bs L {}" and j: "j < 64" "L j \<noteq> []"
  obtains xs sz ys where "bs = xs @ (sz, False) # ys" "hd (L j) = S + btotal xs" "j = bin_index sz"
proof -
  have "hd (L j) \<in> free_in S bs j {}"
    using inv j hd_in_set [OF j(2)] by (simp add: minv_def bins_ok_def)
  then obtain sz where "(hd (L j), sz, False) \<in> set (blks S bs)" "j = bin_index sz"
    by (auto simp: free_in_def)
  then show ?thesis using that by (auto simp: blks_split)
qed

lemma lock_bin_head:
  assumes inv: "minv s S bs L {}" and j: "j < 64"
  shows "next_of (lock_bin j s) (CKB_BIN_TO_CHUNK (lock_bin j s) j) = hd (L j @ [CKB_BIN_TO_CHUNK s j])"
  using chain_next [OF lock_bin_inv(3) [OF inv j]] by (simp add: CKB_BIN_TO_CHUNK_def)

lemma pick_bin_some:
  assumes inv: "minv s S bs L {}" and msk: "msk \<noteq> 0" and m: "msk = binmap s AND - push_bit i 1"
  obtains xs sz ys where "bs = xs @ (sz, False) # ys" "i \<le> bin_index sz" "bin_index sz < 64"
    "pick_bin msk s =
       (Some (S + btotal xs), unbin (S + btotal xs) (bin_index sz) (lock_bin (bin_index sz) s))"
proof -
  define j where "j = first_set msk"
  have j: "j < 64" "bit (binmap s) j" "i \<le> j"
    using first_set [OF msk] bit_minus_mask [of j "binmap s" i] unfolding j_def m by blast+
  have ne: "L j \<noteq> []" using inv j by (simp add: minv_def bins_ok_def)
  obtain xs sz ys where b: "bs = xs @ (sz, False) # ys" "hd (L j) = S + btotal xs" "j = bin_index sz"
    by (rule hd_bin [OF inv j(1) ne])
  have nx: "next_of (lock_bin j s) (CKB_BIN_TO_CHUNK (lock_bin j s) j) = S + btotal xs"
    using lock_bin_head [OF inv j(1)] ne b(2) by simp
  have "S + btotal xs \<noteq> CKB_BIN_TO_CHUNK (lock_bin j s) j"
    using inv j(1) by (auto simp: minv_def heap_ok_def CKB_BIN_TO_CHUNK_def)
  with msk nx have "pick_bin msk s = (Some (S + btotal xs), unbin (S + btotal xs) j (lock_bin j s))"
    by (subst pick_bin.simps) (simp add: Let_def flip: j_def)
  then show ?thesis using that b j by blast
qed

section \<open>expand_heap\<close>

lemma page_32: "4096 dvd (x :: nat) \<Longrightarrow> 32 dvd x"
  by (auto elim!: dvdE)

lemma expand_heap_inv:
  assumes inv: "minv s S bs L {}" and n: "32 dvd n" "n < 7168 * 32"
  shows "expand_heap n s = (None, s) \<and> heap_end s + round_page (n + 32) > s_brk_max s \<or>
    (\<exists>m s'. expand_heap n s = (Some (S + btotal bs), s') \<and> n \<le> m \<and> 32 dvd m \<and>
       minv s' S (bs @ [(m, True)]) L {} \<and> (\<forall>x \<in> ucells S bs. mem s' x = mem s x) \<and>
       s_brk_min s' = s_brk_min s)"
proof -
  from inv have ok: "heap_ok s S bs" and bins: "bins_ok s S bs L {}" by (auto simp: minv_def)
  define E where "E = S + btotal bs"
  from ok have S: "S mod 32 = 16" and base: "mal_base s + 1544 \<le> S" "0 < mal_base s" and wf: "wf_blocks bs"
    and he: "heap_end s = E + 16" "s_program_break s = E + 16" and lim: "E + 16 \<le> s_brk_max s" "s_brk_max s < 2 ^ 63"
    by (auto simp: heap_ok_def E_def)
  have E16: "E mod 32 = 16" using mod32(4) [OF S btotal_dvd [OF wf]] by (simp add: E_def)
  define m where "m = round_page (n + 32)"
  have m: "4096 dvd m" "n + 32 \<le> m" "m < n + 4128"
    using round_page [of "n + 32"] n(2) by (auto simp: m_def)
  have m32: "32 dvd m" "32 \<le> m" using page_32 [OF m(1)] m(2) by auto
  have e0: "expand_heap0 (add64 n CKB_SIZE_ALIGN) s =
      (if E + 16 + m > s_brk_max s then (None, s)
       else (Some (E + 16, m), s\<lparr>s_program_break := E + 16 + m\<rparr>))"
    using n(2) m(3) lim by (simp add: expand_heap0_def sbrk_def he m_def [symmetric] CKB_SIZE_ALIGN_def Let_def)
  show ?thesis
  proof (cases "E + 16 + m > s_brk_max s")
    case True
    then show ?thesis using e0 by (simp add: expand_heap_def he(1) m_def)
  next
    case False
    define s' where "s' = s\<lparr>s_program_break := E + 16 + m, heap_end := E + 16 + m,
       mem := (mem s)(E + m := m + 1, E + m + 8 := 1, E + 8 := m + 1)\<rparr>"
    have ex: "expand_heap n s = (Some E, s')"
      using False e0 dvd32_bits [OF m32(1)]
      by (simp add: expand_heap_def he(1) Let_def CKB_MEM_TO_CHUNK_def CKB_OVERHEAD_def store_def s'_def ac_simps)
    have hdr: "mem s' x = mem s x" if "x \<noteq> E + m" "x \<noteq> E + m + 8" "x \<noteq> E + 8" for x
      using that by (simp add: s'_def)
    have "pre (mem s') S bs = pre (mem s) S bs"
      by (rule pre_cong [OF wf S]) (use m32(2) in \<open>auto simp: s'_def E_def\<close>)
    then have ok': "heap_ok s' S (bs @ [(m, True)])"
      using ok m32 False lim by (auto simp: heap_ok_def s'_def E_def)
    have ring': "ring (mem s') (mal_base s + 24 * i) (L i) = ring (mem s) (mal_base s + 24 * i) (L i)" if i: "i < 64" for i
    proof (rule ring_frame)
      fix a assume "a = mal_base s + 24 * i \<or> a \<in> set (L i)"
      then have a: "node (mal_base s) S a" using bin_nodes_facts(1) [OF inv i] by (simp add: bin_nodes_def)
      have Em: "(E + m) mod 32 = 16" by (rule mod32(4) [OF E16 m32(1)])
      have "S \<le> E" by (simp add: E_def)
      then have "a + 16 \<noteq> y \<and> a + 24 \<noteq> y" if "y = E + m \<or> y = E + m + 8 \<or> y = E + 8" for y
        using node_not_header [OF a base(1), of y] that Em mod32(3) [OF Em] mod32(3) [OF E16] by auto
      then show "mem s' (a + 16) = mem s (a + 16) \<and> mem s' (a + 24) = mem s (a + 24)"
        by (intro conjI hdr) blast+
    qed
    have "free_in S (bs @ [(m, True)]) i {} = free_in S bs i {}" for i by (simp add: free_in_def)
    with bins ring' have "bins_ok s' S (bs @ [(m, True)]) L {}"
      by (simp add: bins_ok_def s'_def)
    with ok' have "minv s' S (bs @ [(m, True)]) L {}" by (simp add: minv_def)
    moreover have "mem s' x = mem s x" if x: "x \<in> ucells S bs" for x
    proof -
      have "x < E" using x blks_range [OF _ wf] by (fastforce simp: ucells_def E_def)
      then show ?thesis by (intro hdr) auto
    qed
    moreover have "s_brk_min s' = s_brk_min s" by (simp add: s'_def)
    moreover have "n \<le> m" using m(2) by simp
    ultimately show ?thesis using ex m32(1) unfolding E_def by blast
  qed
qed

text \<open>The state before the first allocation (the static objects are zero).\<close>

definition fresh_state :: "malloc_state \<Rightarrow> bool" where
  "fresh_state s \<longleftrightarrow>
     heap_end s = 0 \<and> (s_program_break s = 0 \<or> s_program_break s = round_page (s_brk_min s)) \<and>
     binmap s = 0 \<and> (\<forall>i < 64. mem s (mal_base s + 24 * i + 16) = 0) \<and>
     0 < mal_base s \<and> mal_base s + 1544 \<le> s_brk_min s \<and> s_brk_min s \<le> s_brk_max s \<and> s_brk_max s < 2 ^ 62"

lemma expand_heap_fresh:
  assumes fr: "fresh_state s" and n: "32 dvd n" "32 \<le> n" "n < 7168 * 32"
  defines "B \<equiv> round_page (s_brk_min s)"
  shows "(\<exists>s'. expand_heap n s = (None, s') \<and> fresh_state s' \<and> s_brk_min s' = s_brk_min s) \<and>
           B + round_page (n + 32) > s_brk_max s \<or>
    (\<exists>m s'. expand_heap n s = (Some (B + 16), s') \<and> n \<le> m \<and> 32 dvd m \<and>
       minv s' (B + 16) [(m, True)] (\<lambda>_. []) {} \<and> s_brk_min s' = s_brk_min s)"
proof -
  have B: "4096 dvd B" "s_brk_min s \<le> B" "B < s_brk_min s + 4096"
    using round_page [of "s_brk_min s"] fr by (auto simp: B_def fresh_state_def)
  have Bp: "0 < B" using B(2) fr by (simp add: fresh_state_def)
  have lim: "B < 2 ^ 62 + 4096" "s_brk_max s < 2 ^ 62" using B fr by (auto simp: fresh_state_def)
  define m0 where "m0 = round_page (n + 32)"
  have m0: "4096 dvd m0" "n + 32 \<le> m0" "m0 < n + 4128"
    using round_page [of "n + 32"] n(3) by (auto simp: m0_def)
  define s1 where "s1 = s\<lparr>s_program_break := B\<rparr>"
  have e0: "expand_heap0 (add64 n CKB_SIZE_ALIGN) s =
      (if B + m0 > s_brk_max s then (None, s1)
       else (Some (B, m0), s1\<lparr>s_program_break := B + m0\<rparr>))"
    using n(3) m0(3) lim Bp fr
    by (auto simp: expand_heap0_def sbrk_def m0_def [symmetric] B_def [symmetric] s1_def fresh_state_def
        CKB_SIZE_ALIGN_def Let_def)
  show ?thesis
  proof (cases "B + m0 > s_brk_max s")
    case True
    have "fresh_state s1" using fr by (simp add: fresh_state_def s1_def B_def)
    with True e0 show ?thesis by (auto simp: expand_heap_def m0_def s1_def)
  next
    case False
    define m where "m = m0 - 32"
    have m: "n \<le> m" "32 dvd m" "32 \<le> m" "m0 = m + 32"
      using m0 n(2) page_32 [OF m0(1)] by (auto simp: m_def)
    define s' where "s' = s\<lparr>s_program_break := B + m0, heap_end := B + m0,
       mem := (mem s)(B + 16 := 1, B + 16 + m := m + 1, B + 16 + m + 8 := 1, B + 24 := m + 1)\<rparr>"
    have h0: "heap_end s = 0" using fr by (simp add: fresh_state_def)
    have "m0 < 2 ^ 64" using m0(3) n(3) by simp
    then have "sub64 m0 32 = m" using m by simp
    then have ex: "expand_heap n s = (Some (B + 16), s')"
      using False e0 dvd32_bits [OF m(2)] Bp m(4)
      by (simp add: expand_heap_def h0 s1_def Let_def CKB_MEM_TO_CHUNK_def CKB_OVERHEAD_def CKB_SIZE_ALIGN_def
          store_def s'_def ac_simps)
    have B16: "(B + 16) mod 32 = 16" using page_32 [OF B(1)] by (auto elim!: dvdE)
    have ok': "heap_ok s' (B + 16) [(m, True)]"
      using fr B B16 m False lim by (auto simp: heap_ok_def s'_def fresh_state_def)
    have "mem s' (mal_base s + 24 * i + 16) = 0" if "i < 64" for i
      using fr that B(2) by (auto simp: s'_def fresh_state_def)
    then have "bins_ok s' (B + 16) [(m, True)] (\<lambda>_. []) {}"
      using fr by (simp add: bins_ok_def s'_def ring_def free_in_def fresh_state_def)
    with ok' have "minv s' (B + 16) [(m, True)] (\<lambda>_. []) {}" by (simp add: minv_def)
    moreover have "s_brk_min s' = s_brk_min s" by (simp add: s'_def)
    ultimately show ?thesis using ex m(1,2) by blast
  qed
qed

section \<open>malloc\<close>

lemma unbin_sel [simp]:
  "s_brk_min (unbin c i s) = s_brk_min s"
  by (simp add: unbin_def Let_def)

lemma trim_sel [simp]:
  "s_brk_min (trim c n s) = s_brk_min s"
  by (simp add: trim_def Let_def)

lemma successively_insert:
  "coalesced (xs @ mid @ ys) \<longleftrightarrow>
     coalesced xs \<and> coalesced mid \<and> coalesced ys \<and>
     (if mid = [] then xs = [] \<or> ys = [] \<or> snd (last xs) \<or> snd (hd ys)
      else (xs = [] \<or> snd (last xs) \<or> snd (hd mid)) \<and> (ys = [] \<or> snd (last mid) \<or> snd (hd ys)))"
  unfolding coalesced_def by (auto simp: successively_append_iff)

definition carve :: "nat \<Rightarrow> nat \<Rightarrow> blocks" where
  \<comment> \<open>a block of size sz of which the first n bytes are in use\<close>
  "carve n sz = (if sz = n then [(n, True)] else [(n, True), (sz - n, False)])"

lemma btotal_carve [simp]: "n \<le> sz \<Longrightarrow> btotal (carve n sz) = sz"
  by (simp add: carve_def)

lemma coalesced_carve:
  "coalesced (xs @ (sz, u) # ys) \<Longrightarrow> u = False \<or> ys = [] \<Longrightarrow> coalesced (xs @ carve n sz @ ys)"
  using successively_insert [of xs "[(sz, u)]" ys] successively_insert [of xs "carve n sz" ys]
  by (auto simp: carve_def coalesced_def)

lemma adjust_size_some:
  assumes "adjust_size n0 = Some n" "n0 < 2 ^ 64"
  shows "32 dvd n \<and> 32 \<le> n \<and> n0 + 16 \<le> n \<and> n < n0 + 48 \<and> n < 2 ^ 63"
proof (cases "n0 = 0")
  case True
  then have "n = 32" using assms(1) by (simp add: adjust_size_def sub64_wrap ckb_consts and_minus_32)
  with True show ?thesis by simp
next
  case False
  then have "n0 \<le> 2 ^ 63 - 4128" "n = and_minus (add64 n0 47) 32"
    using assms by (auto simp: adjust_size_def ckb_consts split: if_splits)
  then have "n = 32 * ((n0 + 47) div 32)" "n0 \<le> 2 ^ 63 - 4128" by (simp_all add: and_minus_32)
  moreover have "(n0 + 47) = 32 * ((n0 + 47) div 32) + (n0 + 47) mod 32" by simp
  moreover have "(n0 + 47) mod 32 < 32" by simp
  ultimately show ?thesis using False by auto
qed

lemma trim_carve:
  assumes inv: "minv s S (xs @ (sz, True) # ys) L {}" and c: "c = S + btotal xs"
    and n: "32 dvd n" "32 \<le> n" "n \<le> sz"
  shows "\<exists>L'. minv (trim c n s) S (xs @ carve n sz @ ys) L' {} \<and>
     (\<forall>x \<in> ucells S (xs @ carve n sz @ ys). mem (trim c n s) x = mem s x)"
proof (cases "sz = n")
  case True
  then have "trim c n s = s" using trim_same [of s S xs n True ys c] inv c by (simp add: minv_def)
  with True inv show ?thesis by (auto simp: carve_def)
next
  case False
  then have "n < sz" using n(3) by simp
  from trim_split [OF inv c n(1,2) this] False show ?thesis by (auto simp: carve_def)
qed

text \<open>The user's words of the blocks around the one that is taken stay user's words.\<close>

lemma ucells_append:
  "ucells S (xs @ ys) = ucells S xs \<union> ucells (S + btotal xs) ys"
  by (auto simp: ucells_def)

lemma ucells_free [simp]: "ucells S ((sz, False) # ys) = ucells (S + sz) ys"
  by (auto simp: ucells_def)

lemma ucells_used: "ucells S ((sz, True) # ys) = {S + 16..<S + sz} \<union> ucells (S + sz) ys"
  using ucells_append [of S "[(sz, True)]" ys] by (auto simp: ucells_def)

lemma ucells_nil [simp]: "ucells S [] = {}"
  by (simp add: ucells_def)

lemma ucells_carve: "n \<le> sz \<Longrightarrow> ucells S (xs @ (sz, False) # ys) \<subseteq> ucells S (xs @ carve n sz @ ys)"
  by (auto simp: ucells_append carve_def ucells_used)

text \<open>A block is carved out of a free one or out of new space behind the last.\<close>

definition carved :: "nat \<Rightarrow> nat \<Rightarrow> blocks \<Rightarrow> blocks \<Rightarrow> nat \<Rightarrow> bool" where
  "carved S n bs bs' p \<longleftrightarrow>
     (\<exists>xs sz ys. (bs = xs @ (sz, False) # ys \<or> bs = xs \<and> ys = []) \<and> n \<le> sz \<and>
        bs' = xs @ carve n sz @ ys \<and> p = S + btotal xs + 16)"

lemma carved_coalesced: "carved S n bs bs' p \<Longrightarrow> coalesced bs \<Longrightarrow> coalesced bs'"
proof -
  assume "carved S n bs bs' p" and co: "coalesced bs"
  then obtain xs sz ys where c: "bs = xs @ (sz, False) # ys \<or> bs = xs \<and> ys = []"
    "bs' = xs @ carve n sz @ ys" unfolding carved_def by blast
  from c(1) show "coalesced bs'"
  proof
    assume "bs = xs @ (sz, False) # ys"
    with co coalesced_carve [of xs sz False ys n] c(2) show ?thesis by simp
  next
    assume e: "bs = xs \<and> ys = []"
    then have "coalesced (xs @ (sz, True) # ys)"
      using co successively_insert [of xs "[(sz, True)]" "[]"] by (simp add: coalesced_def)
    with e coalesced_carve [of xs sz True ys n] c(2) show ?thesis by simp
  qed
qed

lemma carved_not_0: "\<not> carved S n bs bs' 0"
  by (auto simp: carved_def)

lemma carved_ucells: "carved S n bs bs' p \<Longrightarrow> ucells S bs \<subseteq> ucells S bs'"
  unfolding carved_def using ucells_carve by (fastforce simp: ucells_append)

text \<open>No free block lies in the bins from i on, and the break cannot move far enough.\<close>

definition exhausted :: "malloc_state \<Rightarrow> blocks \<Rightarrow> nat \<Rightarrow> bool" where
  "exhausted s bs n \<longleftrightarrow>
     (\<forall>(sz, u) \<in> set bs. \<not> u \<longrightarrow> bin_index sz < bin_index_up n) \<and>
     s_brk_max s < heap_end s + round_page (n + 32)"

lemma empty_bins:
  assumes inv: "minv s S bs L {}" and m: "binmap s AND - push_bit i 1 = 0"
    and b: "(sz, False) \<in> set bs"
  shows "bin_index sz < i"
proof (rule ccontr)
  assume le: "\<not> bin_index sz < i"
  from b obtain xs ys where bs: "bs = xs @ (sz, False) # ys" by (meson split_list)
  from inv bs have ok: "heap_ok s S (xs @ (sz, False) # ys)" by (simp add: minv_def)
  note hd = block_header [OF ok refl]
  let ?j = "bin_index sz"
  have j: "?j < 64" by (rule bin_index_lt [OF hd(8,7,9)])
  have "S + btotal xs \<in> free_in S bs ?j {}" using hd(12) by (auto simp: free_in_def bs)
  then have "L ?j \<noteq> []" using inv j by (auto simp: minv_def bins_ok_def)
  then have "bit (binmap s) ?j" using inv j by (simp add: minv_def bins_ok_def)
  then have "bit (binmap s AND - push_bit i 1) ?j"
    using bit_minus_mask [OF j, of "binmap s" i] le by linarith
  with m show False by simp
qed

lemma pick_or_expand:
  assumes inv: "minv s S bs L {}" and i: "i = bin_index_up n"
    and n: "32 dvd n" "32 \<le> n" "n < 7168 * 32"
  shows "(\<exists>s'. malloc_large i n s = (0, s') \<and> minv s' S bs L {} \<and> s_brk_min s' = s_brk_min s \<and> mem s' = mem s \<and>
      exhausted s bs n) \<or>
    (\<exists>p s' bs' L'. malloc_large i n s = (p, s') \<and> carved S n bs bs' p \<and> minv s' S bs' L' {} \<and>
       s_brk_min s' = s_brk_min s \<and> (\<forall>x \<in> ucells S bs. mem s' x = mem s x))"
proof -
  define msk where "msk = binmap s AND - push_bit i 1"
  show ?thesis
  proof (cases "msk = 0")
    case True
    then have pk: "pick_bin msk s = (None, s)" by (simp add: pick_bin.simps)
    show ?thesis
      using expand_heap_inv [OF inv n(1,3)]
    proof
      assume ex0: "expand_heap n s = (None, s) \<and> s_brk_max s < heap_end s + round_page (n + 32)"
      moreover have "bin_index sz < i" if "(sz, False) \<in> set bs" for sz
        by (rule empty_bins [OF inv _ that]) (use True msk_def in simp)
      ultimately have "exhausted s bs n" by (auto simp: exhausted_def i)
      moreover have "malloc_large i n s = (0, s)"
        using pk ex0 unfolding malloc_large_def msk_def by simp
      ultimately show ?thesis using inv by blast
    next
      assume "\<exists>m s'. expand_heap n s = (Some (S + btotal bs), s') \<and> n \<le> m \<and> 32 dvd m \<and>
         minv s' S (bs @ [(m, True)]) L {} \<and> (\<forall>x \<in> ucells S bs. mem s' x = mem s x) \<and>
         s_brk_min s' = s_brk_min s"
      then obtain m s1 where ex: "expand_heap n s = (Some (S + btotal bs), s1)" and m: "n \<le> m"
        and inv1: "minv s1 S (bs @ (m, True) # []) L {}" and fr: "\<forall>x \<in> ucells S bs. mem s1 x = mem s x"
        and mn: "s_brk_min s1 = s_brk_min s" by auto
      let ?c = "S + btotal bs"
      obtain L' where t: "minv (trim ?c n s1) S (bs @ carve n m @ []) L' {}"
        "\<forall>x \<in> ucells S (bs @ carve n m @ []). mem (trim ?c n s1) x = mem s1 x"
        using trim_carve [OF inv1 refl n(1,2) m] by blast
      have ml: "malloc_large i n s = (?c + 16, trim ?c n s1)"
        using pk ex unfolding malloc_large_def msk_def by (simp add: CKB_CHUNK_TO_MEM_def CKB_OVERHEAD_def)
      have "carved S n bs (bs @ carve n m @ []) (?c + 16)"
        unfolding carved_def using m by blast
      moreover have "\<forall>x \<in> ucells S bs. mem (trim ?c n s1) x = mem s x"
        using t(2) fr by (auto simp: ucells_append)
      moreover have "s_brk_min (trim ?c n s1) = s_brk_min s" using mn by simp
      ultimately show ?thesis using ml t(1) by blast
    qed
  next
    case False
    obtain xs sz ys where b: "bs = xs @ (sz, False) # ys" "i \<le> bin_index sz" "bin_index sz < 64"
      "pick_bin msk s = (Some (S + btotal xs), unbin (S + btotal xs) (bin_index sz) (lock_bin (bin_index sz) s))"
      by (rule pick_bin_some [OF inv False msk_def])
    let ?c = "S + btotal xs" and ?j = "bin_index sz"
    from inv b(1) have ok: "heap_ok s S (xs @ (sz, False) # ys)" by (simp add: minv_def)
    note hd = block_header [OF ok refl]
    have le: "n \<le> sz" by (rule bin_index_up_sound [OF n hd(8,7,9)]) (use b(2) i in simp)
    note lk = lock_bin_inv [OF inv b(3)]
    have invl: "minv (lock_bin ?j s) S (xs @ (sz, False) # ys) L {}" using lk(1) b(1) by simp
    note ub = unbin_inv [OF invl refl refl]
    let ?s2 = "unbin ?c ?j (lock_bin ?j s)"
    obtain L' where t: "minv (trim ?c n ?s2) S (xs @ carve n sz @ ys) L' {}"
      "\<forall>x \<in> ucells S (xs @ carve n sz @ ys). mem (trim ?c n ?s2) x = mem ?s2 x"
      using trim_carve [OF ub(1) refl n(1,2) le] by blast
    have ml: "malloc_large i n s = (?c + 16, trim ?c n ?s2)"
      using b(4) unfolding malloc_large_def msk_def by (simp add: CKB_CHUNK_TO_MEM_def CKB_OVERHEAD_def)
    have ca: "carved S n bs (xs @ carve n sz @ ys) (?c + 16)"
      unfolding carved_def using le b(1) by blast
    moreover have "mem (trim ?c n ?s2) x = mem s x" if x: "x \<in> ucells S bs" for x
    proof -
      have "mem (trim ?c n ?s2) x = mem ?s2 x" using t(2) carved_ucells [OF ca] x by blast
      also have "\<dots> = mem (lock_bin ?j s) x" by (rule ub(2)) (use x b(1) in simp)
      also have "\<dots> = mem s x" 
        by (rule lk(2)) (use x link_cells_not_ucell [of s S bs] ok b(1) in blast)
      finally show ?thesis .
    qed
    moreover have "s_brk_min (trim ?c n ?s2) = s_brk_min s" by simp
    ultimately show ?thesis using ml t(1) by blast
  qed
qed

lemma malloc_minv:
  assumes inv: "minv s S bs L {}" and n0: "n0 < 2 ^ 64" and m: "malloc n0 s = (p, s')"
  shows "(p = 0 \<and> (\<exists>L'. minv s' S bs L' {}) \<or>
      (\<exists>n bs' L'. adjust_size n0 = Some n \<and> carved S n bs bs' p \<and> minv s' S bs' L' {})) \<and>
    s_brk_min s' = s_brk_min s \<and> (\<forall>x \<in> ucells S bs. mem s' x = mem s x) \<and>
    (p = 0 \<longrightarrow> (case adjust_size n0 of None \<Rightarrow> True | Some n \<Rightarrow> n < CKB_MMAP_THRESHOLD \<longrightarrow> exhausted s bs n))"
proof (cases "adjust_size n0")
  case None
  with m inv show ?thesis by (auto simp: malloc_def)
next
  case (Some n)
  show ?thesis
  proof (cases "n < CKB_MMAP_THRESHOLD")
    case False
    with Some m inv show ?thesis by (auto simp: malloc_def)
  next
    case True
    then have n: "32 dvd n" "32 \<le> n" "n < 7168 * 32"
      using adjust_size_some [OF Some n0] by (auto simp: ckb_consts)
    define i where "i = bin_index_up n"
    have i64: "i < 64" unfolding i_def by (rule bin_index_up_lt [OF n])
    have large: ?thesis if iv: "minv s1 S bs L {}" and ml: "malloc_large i n s1 = (p, s')"
      and eq: "s_brk_min s1 = s_brk_min s" "\<forall>x \<in> ucells S bs. mem s1 x = mem s x"
        "exhausted s1 bs n = exhausted s bs n" for s1
      using pick_or_expand [OF iv i_def n] ml eq Some carved_not_0 by (elim disjE exE conjE) auto
    show ?thesis
    proof (cases "i < 63 \<and> bit (binmap s) i")
      case False
      then have "malloc_large i n s = (p, s')"
        using m Some True i64 by (auto simp: malloc_def i_def bit_test_u64 split: if_splits)
      then show ?thesis using large [OF inv] by blast
    next
      case bit: True
      define s1 where "s1 = lock_bin i s"
      note lk = lock_bin_inv [OF inv i64, folded s1_def]
      have frame: "mem s1 x = mem s x" if "x \<in> ucells S bs" for x
        using lk(2) that link_cells_not_ucell [of s S bs] inv unfolding minv_def by blast
      have "L i \<noteq> []" using inv bit i64 by (simp add: minv_def bins_ok_def)
      then obtain xs sz ys where b: "bs = xs @ (sz, False) # ys" "hd (L i) = S + btotal xs" "i = bin_index sz"
        by (rule hd_bin [OF inv i64])
      let ?c = "S + btotal xs"
      have nx: "next_of s1 (CKB_BIN_TO_CHUNK s1 i) = ?c"
        using lock_bin_head [OF inv i64] b(2) \<open>L i \<noteq> []\<close> by (simp add: s1_def)
      have nb: "?c \<noteq> CKB_BIN_TO_CHUNK s1 i"
        using inv i64 by (auto simp: minv_def heap_ok_def CKB_BIN_TO_CHUNK_def s1_def)
      from lk(1) b(1) have inv1: "minv s1 S (xs @ (sz, False) # ys) L {}" by simp
      then have ok: "heap_ok s1 S (xs @ (sz, False) # ys)" by (simp add: minv_def)
      note hd = block_header [OF ok refl]
      have ma: "malloc n0 s =
          (if sub64 sz n \<le> 16 then (?c + 16, unbin ?c i s1) else malloc_large i n s1)"
        using Some True bit i64 nx nb hd(3) unfolding malloc_def
        by (simp add: Let_def bit_test_u64 CKB_DONTCARE_def CKB_CHUNK_TO_MEM_def CKB_OVERHEAD_def
            flip: i_def s1_def)
      show ?thesis
      proof (cases "sub64 sz n \<le> 16")
        case False
        with ma m have "malloc_large i n s1 = (p, s')" by simp
        then show ?thesis
          using large [OF lk(1)] frame by (simp add: s1_def exhausted_def)
      next
        case diff: True
        have "sz = n"
        proof -
          have "n \<le> sz"
            by (rule bin_index_up_sound [OF n hd(8,7,9)]) (use b(3) i_def in simp)
          with diff hd(9) have "sz - n \<le> 16" by simp
          with \<open>n \<le> sz\<close> n(1) hd(8) show ?thesis by (auto elim!: dvdE)
        qed
        note ub = unbin_inv [OF inv1 refl b(3)]
        have p: "p = ?c + 16" "s' = unbin ?c i s1" using ma m diff by auto
        have "carved S n bs (xs @ carve n sz @ ys) p"
          unfolding carved_def using b(1) p(1) \<open>sz = n\<close> by blast
        moreover have "minv s' S (xs @ carve n sz @ ys) (L(i := remove1 ?c (L i))) {}"
          using ub(1) p(2) \<open>sz = n\<close> by (simp add: carve_def)
        moreover have "\<forall>x \<in> ucells S bs. mem s' x = mem s x"
          using ub(2) frame b(1) p(2) by simp
        moreover have "s_brk_min s' = s_brk_min s" by (simp add: p(2) s1_def)
        ultimately show ?thesis using Some p(1) by auto
      qed
    qed
  qed
qed

section \<open>__bin_chunk and free\<close>

text \<open>The two merging steps of __bin_chunk by themselves.\<close>

definition merge_prev :: "nat \<Rightarrow> nat \<Rightarrow> malloc_state \<Rightarrow> nat \<times> nat \<times> malloc_state" where
  "merge_prev self0 osize s =
     (let psz = (if psize s self0 AND 1 \<noteq> 0 then 0 else CKB_CHUNK_PSIZE s self0) in
      if psz \<noteq> 0 then
        (let i = bin_index psz; s' = lock_bin i s in
         if psize s' self0 AND 1 = 0 then
           (let pv = CKB_PREV_CHUNK s' self0 in (pv, add64 osize psz, unbin pv i s'))
         else (self0, osize, s'))
      else (self0, osize, s))"

definition merge_next :: "nat \<Rightarrow> nat \<Rightarrow> nat \<Rightarrow> malloc_state \<Rightarrow> nat \<times> nat \<times> malloc_state" where
  "merge_next nsz next0 size1 s1 =
     (if nsz \<noteq> 0 then
        (let i = bin_index nsz; s' = lock_bin i s1 in
         if csize s' next0 AND 1 = 0 then
           (let s'' = unbin next0 i s' in (CKB_NEXT_CHUNK s'' next0, add64 size1 nsz, s''))
         else (next0, size1, s'))
      else (next0, size1, s1))"

lemma bin_chunk0_stages:
  "bin_chunk0 self0 s =
     (let next0 = CKB_NEXT_CHUNK s self0;
          nsz = (if csize s next0 AND 1 \<noteq> 0 then 0 else CKB_CHUNK_SIZE s next0);
          (self, size1, s1) = merge_prev self0 (CKB_CHUNK_SIZE s self0) s;
          (next1, size2, s2) = merge_next nsz next0 size1 s1
      in if psize s next0 \<noteq> csize s self0 then None
         else Some (bin_chunk self (bin_index size2)
                (store next1 size2 (store (self + 8) size2 (lock_bin (bin_index size2) s2)))))"
  by (simp add: bin_chunk0_def merge_prev_def merge_next_def Let_def split: prod.split)

lemma unbin_locked:
  assumes inv: "minv s S (xs @ (sz, False) # ys) L {}" and c: "c = S + btotal xs" and i: "i = bin_index sz"
  obtains L' where "minv (unbin c i (lock_bin i s)) S (xs @ (sz, True) # ys) L' {}"
    "\<And>x. x \<in> ucells S (xs @ (sz, False) # ys) \<Longrightarrow> mem (unbin c i (lock_bin i s)) x = mem s x"
proof -
  from inv have ok: "heap_ok s S (xs @ (sz, False) # ys)" by (simp add: minv_def)
  note hd = block_header [OF ok c]
  have i64: "i < 64" unfolding i by (rule bin_index_lt [OF hd(8,7,9)])
  note lk = lock_bin_inv [OF inv i64]
  note ub = unbin_inv [OF lk(1) c i]
  have "mem (unbin c i (lock_bin i s)) x = mem s x" if "x \<in> ucells S (xs @ (sz, False) # ys)" for x
    using ub(2) [OF that] lk(2) [of x] link_cells_not_ucell [OF ok] that by fastforce
  with ub(1) that show ?thesis by blast
qed

lemma of_bool_and_1: "32 dvd sz \<Longrightarrow> (sz + of_bool u) AND 1 = (of_bool u :: nat)"
  by (cases u) (auto simp: dvd32_bits simp del: One_nat_def)

lemma merge_prev_inv:
  assumes inv: "minv s S (xs @ (sz, True) # ys) L {}" and c: "c = S + btotal xs"
  shows "\<exists>xs' pm L' s1. xs = xs' @ pm \<and> (pm = [] \<and> (xs = [] \<or> snd (last xs)) \<or> (\<exists>z. pm = [(z, False)])) \<and>
     merge_prev c sz s = (S + btotal xs', sz + btotal pm, s1) \<and>
     minv s1 S (xs' @ map (\<lambda>(z, u). (z, True)) pm @ (sz, True) # ys) L' {} \<and>
     s_brk_min s1 = s_brk_min s \<and> (\<forall>x \<in> ucells S (xs @ (sz, True) # ys). mem s1 x = mem s x)"
proof (cases xs rule: rev_cases)
  case Nil
  from inv Nil have "psize s c = 1" using heap_start [of s S "xs @ (sz, True) # ys"] by (simp add: minv_def c)
  then have "merge_prev c sz s = (c, sz, s)" by (simp add: merge_prev_def)
  with Nil inv c show ?thesis by (intro exI [of _ "[]"] exI [of _ L] exI [of _ s]) auto
next
  case (snoc xs' b)
  obtain z u where b: "b = (z, u)" by (cases b)
  let ?bs = "xs' @ (z, u) # (sz, True) # ys"
  have inv': "minv s S ?bs L {}" using inv snoc b by simp
  then have ok: "heap_ok s S ?bs" by (simp add: minv_def)
  note hd = block_header [OF ok refl]
  have cz: "c = S + btotal xs' + z" by (simp add: c snoc b)
  have ps: "psize s c AND 1 = of_bool u" using hd(2) of_bool_and_1 [OF hd(8), of u] by (simp only: cz)
  show ?thesis
  proof (cases u)
    case True
    then have "psize s c AND 1 = 1" using ps by simp
    then have "merge_prev c sz s = (c, sz, s)" by (simp add: merge_prev_def del: One_nat_def)
    with snoc b True inv c show ?thesis
      by (intro exI [of _ xs] exI [of _ "[]"] exI [of _ L] exI [of _ s]) auto
  next
    case False
    have inv2: "minv s S (xs' @ (z, False) # (sz, True) # ys) L {}" using inv' False by simp
    let ?p = "S + btotal xs'" and ?i = "bin_index z"
    obtain L' where ub: "minv (unbin ?p ?i (lock_bin ?i s)) S (xs' @ (z, True) # (sz, True) # ys) L' {}"
      "\<And>x. x \<in> ucells S (xs' @ (z, False) # (sz, True) # ys) \<Longrightarrow> mem (unbin ?p ?i (lock_bin ?i s)) x = mem s x"
      by (rule unbin_locked [OF inv2 refl refl]) blast
    have i64: "?i < 64" by (rule bin_index_lt [OF hd(8,7,9)])
    have okl: "heap_ok (lock_bin ?i s) S (xs' @ (z, False) # (sz, True) # ys)"
      using lock_bin_inv(1) [OF inv2 i64] by (simp add: minv_def)
    note hl = block_header [OF okl refl]
    have l: "psize (lock_bin ?i s) c AND 1 = 0" "CKB_PREV_CHUNK (lock_bin ?i s) c = ?p"
      using hl(2) of_bool_and_1 [OF hd(8), of False] hl(6) by (simp_all add: cz)
    have "sz < 2 ^ 63 - z"
      using ok by (auto simp: heap_ok_def)
    then have ad: "add64 sz z = sz + z" by (intro add64_small) simp
    have "z \<noteq> 0" using hd(7) by simp
    then have "merge_prev c sz s = (?p, sz + z, unbin ?p ?i (lock_bin ?i s))"
      using ps False hd(5) l ad unfolding merge_prev_def by (simp add: cz Let_def)
    then show ?thesis using snoc b False ub
      by (intro exI [of _ xs'] exI [of _ "[(z, False)]"] exI [of _ L'] exI [of _ "unbin ?p ?i (lock_bin ?i s)"]) simp
  qed
qed

text \<open>The size word of the chunk behind a run of blocks tells whether it is free.\<close>

lemma next_block:
  assumes ok: "heap_ok s S (xs @ ys)" and e: "e = S + btotal xs"
  shows "ys = [] \<and> csize s e AND 1 \<noteq> 0 \<or>
    (\<exists>z u ys'. ys = (z, u) # ys' \<and> csize s e = z + of_bool u \<and> (csize s e AND 1 \<noteq> 0 \<longleftrightarrow> u) \<and> CKB_CHUNK_SIZE s e = z)"
proof (cases ys)
  case Nil
  then show ?thesis using heap_sentinel [OF ok] by (simp add: e)
next
  case (Cons b ys')
  obtain z u where b: "b = (z, u)" by (cases b)
  have ok': "heap_ok s S (xs @ (z, u) # ys')" using ok Cons b by simp
  note hd = block_header [OF ok' e]
  have "csize s e AND 1 = of_bool u" using hd(1) of_bool_and_1 [OF hd(8)] by (simp only:)
  with Cons b hd(1,3) show ?thesis by (cases u) auto
qed

lemma merge_next_inv:
  assumes inv: "minv s S (xs @ ys) L {}" and e: "e = S + btotal xs"
    and nsz: "nsz = (case ys of (z, False) # _ \<Rightarrow> z | _ \<Rightarrow> 0)" and sz: "sz + S \<le> e"
  shows "\<exists>nm ys' L' s1. ys = nm @ ys' \<and> (nm = [] \<and> (ys = [] \<or> snd (hd ys)) \<or> (\<exists>z. nm = [(z, False)])) \<and>
     merge_next nsz e sz s = (e + btotal nm, sz + btotal nm, s1) \<and>
     minv s1 S (xs @ map (\<lambda>(z, u). (z, True)) nm @ ys') L' {} \<and>
     s_brk_min s1 = s_brk_min s \<and> (\<forall>x \<in> ucells S (xs @ ys). mem s1 x = mem s x)"
proof -
  from inv have ok: "heap_ok s S (xs @ ys)" by (simp add: minv_def)
  show ?thesis
  proof (cases "ys = [] \<or> snd (hd ys)")
    case True
    then have "nsz = 0" using nsz by (auto split: list.split bool.split)
    then have "merge_next nsz e sz s = (e, sz, s)" by (simp add: merge_next_def)
    with True inv show ?thesis
      by (intro exI [of _ "[]"] exI [of _ ys] exI [of _ L] exI [of _ s]) auto
  next
    case False
    then obtain z ys' where ys: "ys = (z, False) # ys'" by (cases ys) auto
    have inv2: "minv s S (xs @ (z, False) # ys') L {}" and ok2: "heap_ok s S (xs @ (z, False) # ys')"
      using inv ok ys by auto
    note hd = block_header [OF ok2 e]
    have nz: "nsz = z" "z \<noteq> 0" using nsz ys hd(7) by auto
    let ?i = "bin_index z"
    obtain L' where ub: "minv (unbin e ?i (lock_bin ?i s)) S (xs @ (z, True) # ys') L' {}"
      "\<And>x. x \<in> ucells S (xs @ (z, False) # ys') \<Longrightarrow> mem (unbin e ?i (lock_bin ?i s)) x = mem s x"
      by (rule unbin_locked [OF inv2 e refl]) blast
    have i64: "?i < 64" by (rule bin_index_lt [OF hd(8,7,9)])
    have okl: "heap_ok (lock_bin ?i s) S (xs @ (z, False) # ys')"
      using lock_bin_inv(1) [OF inv2 i64] by (simp add: minv_def)
    note hl = block_header [OF okl e]
    have l: "csize (lock_bin ?i s) e AND 1 = 0" using hl(1) of_bool_and_1 [OF hd(8), of False] by simp
    have oku: "heap_ok (unbin e ?i (lock_bin ?i s)) S (xs @ (z, True) # ys')" using ub(1) by (simp add: minv_def)
    note hu = block_header [OF oku e]
    have ad: "add64 sz z = sz + z" by (intro add64_small) (use sz hd(11) in simp)
    have "merge_next nsz e sz s = (e + z, sz + z, unbin e ?i (lock_bin ?i s))"
      using nz l hu(4) ad unfolding merge_next_def by (simp add: Let_def)
    then show ?thesis using ys ub
      by (intro exI [of _ "[(z, False)]"] exI [of _ ys'] exI [of _ L'] exI [of _ "unbin e ?i (lock_bin ?i s)"]) simp
  qed
qed

text \<open>
  \<open>released xs sz ys bs'\<close>: the block of size sz between xs and ys is free in bs', as one with
  its free neighbours.
\<close>

definition released :: "blocks \<Rightarrow> nat \<Rightarrow> blocks \<Rightarrow> blocks \<Rightarrow> bool" where
  "released xs sz ys bs' \<longleftrightarrow>
     (\<exists>xs' pm nm ys'. xs = xs' @ pm \<and> ys = nm @ ys' \<and>
        (pm = [] \<and> (xs = [] \<or> snd (last xs)) \<or> (\<exists>z. pm = [(z, False)])) \<and>
        (nm = [] \<and> (ys = [] \<or> snd (hd ys)) \<or> (\<exists>z. nm = [(z, False)])) \<and>
        bs' = xs' @ (btotal pm + sz + btotal nm, False) # ys')"

lemma released_coalesced:
  assumes "released xs sz ys bs'" "coalesced (xs @ (sz, True) # ys)"
  shows "coalesced bs'"
proof -
  from assms(1) obtain xs' pm nm ys' where r: "xs = xs' @ pm" "ys = nm @ ys'"
    "pm = [] \<and> (xs = [] \<or> snd (last xs)) \<or> (\<exists>z. pm = [(z, False)])"
    "nm = [] \<and> (ys = [] \<or> snd (hd ys)) \<or> (\<exists>z. nm = [(z, False)])"
    "bs' = xs' @ (btotal pm + sz + btotal nm, False) # ys'"
    unfolding released_def by blast
  have co: "coalesced xs" "coalesced ys"
    using assms(2) successively_insert [of xs "[(sz, True)]" ys] by auto
  have "coalesced xs' \<and> (xs' = [] \<or> snd (last xs'))"
    using r(3) co(1) unfolding r(1) coalesced_def by (auto simp: successively_append_iff)
  moreover have "coalesced ys' \<and> (ys' = [] \<or> snd (hd ys'))"
    using r(4) co(2) unfolding r(2) coalesced_def by (auto simp: successively_append_iff)
  ultimately show ?thesis
    using successively_insert [of xs' "[(btotal pm + sz + btotal nm, False)]" ys'] unfolding r(5)
    by (auto simp: coalesced_def)
qed

lemma ucells_all_free: "\<forall>b \<in> set bs. \<not> snd b \<Longrightarrow> ucells S bs = {}"
proof (induction bs arbitrary: S)
  case (Cons b bs)
  then show ?case by (cases b) auto
qed simp

lemma released_ucells:
  assumes "released xs sz ys bs'"
  shows "ucells S bs' \<subseteq> ucells S (xs @ (sz, True) # ys)"
proof -
  from assms obtain xs' pm nm ys' where r: "xs = xs' @ pm" "ys = nm @ ys'"
    "bs' = xs' @ (btotal pm + sz + btotal nm, False) # ys'"
    unfolding released_def by blast
  show ?thesis unfolding r by (auto simp: ucells_append ucells_used add.assoc)
qed

lemma bin_chunk0_inv:
  assumes inv: "minv s S (xs @ (sz, True) # ys) L {}" and c: "c = S + btotal xs"
  shows "\<exists>s' bs' L'. bin_chunk0 c s = Some s' \<and> released xs sz ys bs' \<and> minv s' S bs' L' {} \<and>
     s_brk_min s' = s_brk_min s \<and> (\<forall>x \<in> ucells S bs'. mem s' x = mem s x)"
proof -
  let ?bs = "xs @ (sz, True) # ys"
  from inv have ok: "heap_ok s S ?bs" by (simp add: minv_def)
  note hd = block_header [OF ok c]
  obtain xs' pm L1 s1 where p: "xs = xs' @ pm" "pm = [] \<and> (xs = [] \<or> snd (last xs)) \<or> (\<exists>z. pm = [(z, False)])"
    "merge_prev c sz s = (S + btotal xs', sz + btotal pm, s1)"
    "minv s1 S (xs' @ map (\<lambda>(z, u). (z, True)) pm @ (sz, True) # ys) L1 {}"
    "s_brk_min s1 = s_brk_min s" "\<forall>x \<in> ucells S ?bs. mem s1 x = mem s x"
    using merge_prev_inv [OF inv c] by (elim exE conjE)
  define um where "um = map (\<lambda>(z, u). (z, True)) pm"
  have um: "btotal um = btotal pm" "\<forall>b \<in> set um. snd b" by (auto simp: um_def btotal_def comp_def case_prod_unfold)
  let ?e = "c + sz"
  define nsz where "nsz = (if csize s ?e AND 1 \<noteq> 0 then 0 else CKB_CHUNK_SIZE s ?e)"
  have nsz: "nsz = (case ys of (z, False) # _ \<Rightarrow> z | _ \<Rightarrow> 0)"
    using next_block [of s S "xs @ [(sz, True)]" ys ?e] ok
    by (auto simp: nsz_def c split: bool.split)
  have inv1: "minv s1 S ((xs' @ um @ [(sz, True)]) @ ys) L1 {}" using p(4) by (simp add: um_def)
  have e: "?e = S + btotal (xs' @ um @ [(sz, True)])" by (simp add: c p(1) um(1))
  have sz': "sz + btotal pm + S \<le> ?e" by (simp add: c p(1))
  obtain nm ys' L2 s2 where q: "ys = nm @ ys'" "nm = [] \<and> (ys = [] \<or> snd (hd ys)) \<or> (\<exists>z. nm = [(z, False)])"
    "merge_next nsz ?e (sz + btotal pm) s1 = (?e + btotal nm, sz + btotal pm + btotal nm, s2)"
    "minv s2 S ((xs' @ um @ [(sz, True)]) @ map (\<lambda>(z, u). (z, True)) nm @ ys') L2 {}"
    "s_brk_min s2 = s_brk_min s1" "\<forall>x \<in> ucells S ((xs' @ um @ [(sz, True)]) @ ys). mem s2 x = mem s1 x"
    using merge_next_inv [OF inv1 e nsz sz'] by (elim exE conjE)
  define vm where "vm = map (\<lambda>(z, u). (z, True)) nm"
  have vm: "btotal vm = btotal nm" "\<forall>b \<in> set vm. snd b" by (auto simp: vm_def btotal_def comp_def case_prod_unfold)
  define tot where "tot = btotal pm + sz + btotal nm"
  let ?c = "S + btotal xs'" and ?bs' = "xs' @ (tot, False) # ys'"
  define s3 where "s3 = bin_chunk ?c (bin_index tot) (store (?c + tot) tot (store (?c + 8) tot (lock_bin (bin_index tot) s2)))"
  have inv2: "minv s2 S (xs' @ (um @ (sz, True) # vm) @ ys') L2 {}" using q(4) by (simp add: vm_def)
  note rl = release_inv [OF inv2 refl _ _ _ refl s3_def]
  have rel: "released xs sz ys ?bs'" unfolding released_def tot_def using p(1,2) q(1,2) by blast
  have "psize s ?e = csize s c" using hd(1,2) by simp
  moreover have "sz + btotal pm + btotal nm = tot" "c + (sz + btotal nm) = ?c + tot"
    by (simp_all add: tot_def c p(1))
  ultimately have "bin_chunk0 c s = Some s3"
    using p(3) q(3) unfolding bin_chunk0_stages Let_def hd(3,4) nsz_def [symmetric] by (simp add: s3_def add.assoc)
  moreover have "minv s3 S ?bs' (L2(bin_index tot := L2 (bin_index tot) @ [?c])) {}"
    by (rule rl(1)) (use um vm in \<open>auto simp: tot_def\<close>)
  moreover have "mem s3 x = mem s x" if x: "x \<in> ucells S ?bs'" for x
  proof -
    have a: "x \<in> ucells S ?bs" using released_ucells [OF rel] x by blast
    then have "x \<in> ucells S ((xs' @ um @ [(sz, True)]) @ ys)"
      using p(1,2) um(1) by (auto simp: ucells_append ucells_used um_def)
    then have "mem s2 x = mem s x" using q(6) p(6) a by simp
    moreover have "mem s3 x = mem s2 x" by (rule rl(2)) (use um vm x in \<open>auto simp: tot_def\<close>)
    ultimately show ?thesis by simp
  qed
  moreover have "s_brk_min s3 = s_brk_min s" by (simp add: s3_def q(5) p(5))
  ultimately show ?thesis using rel by blast
qed

lemma free_minv:
  assumes inv: "minv s S (xs @ (sz, True) # ys) L {}" and p: "p = S + btotal xs + 16"
  shows "\<exists>s' bs' L'. free p s = Some s' \<and> released xs sz ys bs' \<and> minv s' S bs' L' {} \<and>
     s_brk_min s' = s_brk_min s \<and> (\<forall>x \<in> ucells S bs'. mem s' x = mem s x)"
  using bin_chunk0_inv [OF inv refl] by (simp add: free_def p CKB_MEM_TO_CHUNK_def CKB_OVERHEAD_def)

section \<open>The first allocation\<close>

lemma malloc_fresh_state:
  assumes fr: "fresh_state s" and n0: "n0 < 2 ^ 64" and m: "malloc n0 s = (p, s')"
  defines "S \<equiv> round_page (s_brk_min s) + 16"
  shows "(p = 0 \<and> fresh_state s' \<or>
      (\<exists>n bs' L'. adjust_size n0 = Some n \<and> carved S n [] bs' p \<and> minv s' S bs' L' {})) \<and>
    s_brk_min s' = s_brk_min s"
proof (cases "adjust_size n0")
  case None
  with m fr show ?thesis by (auto simp: malloc_def)
next
  case (Some n)
  show ?thesis
  proof (cases "n < CKB_MMAP_THRESHOLD")
    case False
    with Some m fr show ?thesis by (auto simp: malloc_def)
  next
    case True
    then have n: "32 dvd n" "32 \<le> n" "n < 7168 * 32"
      using adjust_size_some [OF Some n0] by (auto simp: ckb_consts)
    let ?i = "bin_index_up n"
    have b0: "binmap s = 0" using fr by (simp add: fresh_state_def)
    then have ml: "malloc_large ?i n s = (p, s')"
      using m Some True by (simp add: malloc_def)
    have pk: "pick_bin (binmap s AND - push_bit ?i 1) s = (None, s)" by (simp add: b0 pick_bin.simps)
    show ?thesis
      using expand_heap_fresh [OF fr n]
    proof (elim disjE conjE exE)
      fix s1 assume "expand_heap n s = (None, s1)" "fresh_state s1" "s_brk_min s1 = s_brk_min s"
      with ml pk show ?thesis by (auto simp: malloc_large_def)
    next
      fix mm s1
      assume ex: "expand_heap n s = (Some (round_page (s_brk_min s) + 16), s1)" and le: "n \<le> mm"
        and inv1: "minv s1 (round_page (s_brk_min s) + 16) [(mm, True)] (\<lambda>_. []) {}"
        and mn: "s_brk_min s1 = s_brk_min s"
      have inv2: "minv s1 S ([] @ (mm, True) # []) (\<lambda>_. []) {}" using inv1 by (simp add: S_def)
      obtain L' where t: "minv (trim S n s1) S ([] @ carve n mm @ []) L' {}"
        using trim_carve [OF inv2 _ n(1,2) le, of S] by auto
      have "p = S + 16" "s' = trim S n s1"
        using ml pk ex by (simp_all add: malloc_large_def S_def CKB_CHUNK_TO_MEM_def CKB_OVERHEAD_def)
      moreover have "carved S n [] (carve n mm) (S + 16)" using le by (force simp: carved_def)
      ultimately show ?thesis using t mn Some by auto
    qed
  qed
qed

section \<open>The blocks in use, as a map from pointers to usable sizes\<close>

definition used :: "nat \<Rightarrow> blocks \<Rightarrow> nat \<rightharpoonup> nat" where
  "used S bs = map_of (map (\<lambda>(a, sz, u). (a + 16, sz - 16)) (filter (\<lambda>(a, sz, u). u) (blks S bs)))"

lemma used_simps [simp]:
  "used S [] = Map.empty"
  "used S ((sz, True) # bs) = (used (S + sz) bs)(S + 16 \<mapsto> sz - 16)"
  "used S ((sz, False) # bs) = used (S + sz) bs"
  "used S (xs @ ys) = used (S + btotal xs) ys ++ used S xs"
  by (simp_all add: used_def)

lemma used_range:
  assumes "used S bs p = Some k" "wf_blocks bs"
  shows "S + 16 \<le> p" "p + k \<le> S + btotal bs" "16 \<le> k"
proof -
  from assms(1) obtain a sz where a: "(a, sz, True) \<in> set (blks S bs)" "p = a + 16" "k = sz - 16"
    unfolding used_def by (auto dest!: map_of_SomeD)
  with blks_range [OF a(1) assms(2)] show "S + 16 \<le> p" "p + k \<le> S + btotal bs" "16 \<le> k" by auto
qed

lemma used_out: "wf_blocks bs \<Longrightarrow> p < S + 16 \<or> S + btotal bs < p + 16 \<Longrightarrow> used S bs p = None"
  using used_range [of S bs p] by (cases "used S bs p") fastforce+

lemma used_mid:
  assumes "wf_blocks xs" "wf_blocks mid" "wf_blocks ys"
  shows "used S (xs @ mid @ ys) q =
     (if q < S + btotal xs + 16 then used S xs q
      else if q < S + btotal xs + btotal mid + 16 then used (S + btotal xs) mid q
      else used (S + btotal xs + btotal mid) ys q)"
  using used_out [OF assms(1), of q S] used_out [OF assms(2), of q "S + btotal xs"]
    used_out [OF assms(3), of q "S + btotal xs + btotal mid"]
  by (auto simp: map_add_def add.assoc split: option.split)

lemma used_at:
  assumes "wf_blocks (xs @ (sz, True) # ys)"
  shows "used S (xs @ (sz, True) # ys) (S + btotal xs + 16) = Some (sz - 16)"
  using assms used_mid [of xs "[(sz, True)]" ys S "S + btotal xs + 16"] by simp

lemma used_iff:
  assumes wf: "wf_blocks bs"
  shows "used S bs p = Some k \<longleftrightarrow>
     (\<exists>xs sz ys. bs = xs @ (sz, True) # ys \<and> p = S + btotal xs + 16 \<and> k = sz - 16)"
proof
  assume "used S bs p = Some k"
  then obtain a sz where a: "(a, sz, True) \<in> set (blks S bs)" "p = a + 16" "k = sz - 16"
    unfolding used_def by (auto dest!: map_of_SomeD)
  then show "\<exists>xs sz ys. bs = xs @ (sz, True) # ys \<and> p = S + btotal xs + 16 \<and> k = sz - 16"
    unfolding blks_split by auto
qed (use wf used_at in auto)

lemma ucells_used_iff:
  assumes wf: "wf_blocks bs"
  shows "x \<in> ucells S bs \<longleftrightarrow> (\<exists>p k. used S bs p = Some k \<and> p \<le> x \<and> x < p + k)"
proof -
  have "x \<in> ucells S bs \<longleftrightarrow> (\<exists>a sz. (a, sz, True) \<in> set (blks S bs) \<and> a + 16 \<le> x \<and> x < a + 16 + (sz - 16))"
    using blks_range [OF _ wf] by (force simp: ucells_def)
  then show ?thesis unfolding used_iff [OF wf] blks_split by blast
qed

lemma used_disjoint:
  assumes "used S bs p = Some k" "used S bs q = Some l" "wf_blocks bs"
  shows "p = q \<or> p + k + 16 \<le> q \<or> q + l + 16 \<le> p"
proof -
  from assms(1,2) obtain a sz b sz' where
    "(a, sz, True) \<in> set (blks S bs)" "p = a + 16" "k = sz - 16"
    "(b, sz', True) \<in> set (blks S bs)" "q = b + 16" "l = sz' - 16"
    unfolding used_def by (auto dest!: map_of_SomeD)
  with blks_disjoint [of a sz True S bs b sz' True] blks_range [of a sz True S bs]
    blks_range [of b sz' True S bs] assms(3) show ?thesis by auto
qed

lemma used_carved:
  assumes ca: "carved S n bs bs' p" and wf: "wf_blocks bs" "wf_blocks bs'"
  shows "used S bs' = (used S bs)(p \<mapsto> n - 16)" "used S bs p = None"
proof -
  from ca obtain xs sz ys where c: "bs = xs @ (sz, False) # ys \<or> bs = xs \<and> ys = []" "n \<le> sz"
    "bs' = xs @ carve n sz @ ys" "p = S + btotal xs + 16" unfolding carved_def by blast
  have w: "wf_blocks xs" "wf_blocks (carve n sz)" "wf_blocks ys" and "32 \<le> n" using wf c(3) by (auto simp: carve_def split: if_splits)
  then have sz: "32 \<le> sz" "btotal (carve n sz) = sz" using c(2) by auto
  have mid: "used a (carve n sz) = [a + 16 \<mapsto> n - 16]" for a by (simp add: carve_def)
  have u: "used S bs q = (if q < p then used S xs q else if q < p + sz then None else used (S + btotal xs + sz) ys q)" for q
    using c(1)
  proof
    assume b: "bs = xs @ (sz, False) # ys"
    then have "wf_blocks [(sz, False)]" using wf by simp
    from used_mid [OF w(1) this w(3), of S q] show ?thesis unfolding b c(4) by simp
  next
    assume "bs = xs \<and> ys = []"
    then show ?thesis using used_out [OF w(1), of q S] by (auto simp: c(4))
  qed
  show "used S bs p = None" using u [of p] sz by simp
  show "used S bs' = (used S bs)(p \<mapsto> n - 16)"
    using used_mid [OF w, of S] sz by (auto simp: fun_eq_iff u c(3,4) mid)
qed

lemma used_released:
  assumes re: "released xs sz ys bs'" and wf: "wf_blocks (xs @ (sz, True) # ys)"
  shows "used S bs' = (used S (xs @ (sz, True) # ys))(S + btotal xs + 16 := None)"
proof -
  from re obtain xs' pm nm ys' where r: "xs = xs' @ pm" "ys = nm @ ys'"
    "pm = [] \<or> (\<exists>z. pm = [(z, False)])" "nm = [] \<or> (\<exists>z. nm = [(z, False)])"
    "bs' = xs' @ (btotal pm + sz + btotal nm, False) # ys'"
    unfolding released_def by blast
  have w: "wf_blocks xs'" "wf_blocks (pm @ (sz, True) # nm)" "wf_blocks [(btotal pm + sz + btotal nm, False)]" "wf_blocks ys'"
    using wf btotal_dvd [of pm] btotal_dvd [of nm] unfolding r by auto
  have mid: "used a (pm @ (sz, True) # nm) = [a + btotal pm + 16 \<mapsto> sz - 16]" for a using r(3,4) by auto
  have b: "xs @ (sz, True) # ys = xs' @ (pm @ (sz, True) # nm) @ ys'" by (simp add: r)
  have sz: "32 \<le> sz" using wf by simp
  have "used S (xs @ (sz, True) # ys) q =
      (if q < S + btotal xs' + 16 then used S xs' q
       else if q < S + btotal xs' + (btotal pm + sz + btotal nm) + 16
       then (if q = S + btotal xs + 16 then Some (sz - 16) else None)
       else used (S + btotal xs' + (btotal pm + sz + btotal nm)) ys' q)" for q
    unfolding b used_mid [OF w(1,2,4)] mid by (simp add: r(1) add.assoc)
  moreover have "used S bs' q =
      (if q < S + btotal xs' + 16 then used S xs' q
       else if q < S + btotal xs' + (btotal pm + sz + btotal nm) + 16 then None
       else used (S + btotal xs' + (btotal pm + sz + btotal nm)) ys' q)" for q
    using used_mid [OF w(1,3,4), of S q] unfolding r(5) by simp
  ultimately show ?thesis using sz by (auto simp: fun_eq_iff r(1))
qed

section \<open>realloc\<close>

text \<open>The user may write to his blocks.\<close>

lemma user_write_inv:
  assumes inv: "minv s S bs L {}" and fr: "\<And>x. x \<notin> ucells S bs \<Longrightarrow> m' x = mem s x"
  shows "minv (s\<lparr>mem := m'\<rparr>) S bs L {}"
proof -
  from inv have ok: "heap_ok s S bs" and bins: "bins_ok s S bs L {}" by (auto simp: minv_def)
  have wf: "wf_blocks bs" "S mod 32 = 16" using ok by (auto simp: heap_ok_def)
  have hdr: "x \<notin> ucells S bs" if "x = a + 8 \<or> x = a + sz" "(a, sz, u) \<in> set (blks S bs)" for x a sz u
  proof
    assume "x \<in> ucells S bs"
    then obtain b z where b: "(b, z, True) \<in> set (blks S bs)" "b + 16 \<le> x" "x < b + z"
      by (auto simp: ucells_def)
    from blks_disjoint [OF b(1) that(2) wf(1)] blks_range [OF b(1) wf(1)] blks_range [OF that(2) wf(1)] b(2,3) that(1)
    show False by auto
  qed
  have "pre m' a cs = pre (mem s) a cs" if "set (blks a cs) \<subseteq> set (blks S bs)" for a cs
    using that
  proof (induction a cs rule: blks.induct)
    case (2 a sz u cs)
    have "(a, sz, u) \<in> set (blks S bs)" using "2.prems" by simp
    then have "m' (a + 8) = mem s (a + 8)" "m' (a + sz) = mem s (a + sz)"
      using fr hdr by blast+
    with 2 show ?case by simp
  qed simp
  then have "pre m' S bs = pre (mem s) S bs" by blast
  moreover have "m' S = mem s S" "m' (S + btotal bs + 8) = mem s (S + btotal bs + 8)"
    using blks_range [OF _ wf(1)] by (intro fr; fastforce simp: ucells_def)+
  ultimately have ok': "heap_ok (s\<lparr>mem := m'\<rparr>) S bs" using ok by (simp add: heap_ok_def)
  have "ring m' (mal_base s + 24 * i) (L i) = ring (mem s) (mal_base s + 24 * i) (L i)" if i: "i < 64" for i
  proof (rule ring_frame)
    fix a assume "a = mal_base s + 24 * i \<or> a \<in> set (L i)"
    then have "a \<in> bin_nodes s L i" by (simp add: bin_nodes_def)
    from bin_nodes_facts(2) [OF inv i this] show "m' (a + 16) = mem s (a + 16) \<and> m' (a + 24) = mem s (a + 24)"
      using link_cells_not_ucell [OF ok] fr by blast
  qed
  with bins have "bins_ok (s\<lparr>mem := m'\<rparr>) S bs L {}" by (simp add: bins_ok_def)
  with ok' show ?thesis by (simp add: minv_def)
qed

definition moved :: "malloc_state \<Rightarrow> malloc_state \<Rightarrow> (nat \<rightharpoonup> nat) \<Rightarrow> (nat \<rightharpoonup> nat) \<Rightarrow> nat \<Rightarrow> nat \<Rightarrow> nat \<Rightarrow> nat \<Rightarrow> bool" where
  \<comment> \<open>block p of size k0 became block q of at least n bytes\<close>
  "moved s s' U U' p k0 n q \<longleftrightarrow>
     (\<exists>k \<ge> n. U' = (U(p := None))(q \<mapsto> k)) \<and> (q = p \<or> U q = None) \<and>
     (\<forall>d < min n k0. mem s' (q + d) = mem s (p + d)) \<and>
     (\<forall>p' k' x. p' \<noteq> p \<longrightarrow> U p' = Some k' \<longrightarrow> p' \<le> x \<longrightarrow> x < p' + k' \<longrightarrow> mem s' x = mem s x)"

definition resized :: "malloc_state \<Rightarrow> malloc_state \<Rightarrow> nat \<Rightarrow> blocks \<Rightarrow> blocks \<Rightarrow> nat \<Rightarrow> nat \<Rightarrow> nat \<Rightarrow> nat \<Rightarrow> bool" where
  "resized s s' S bs bs' p k0 n q \<longleftrightarrow>
     (q = 0 \<and> bs' = bs \<and> (\<forall>x \<in> ucells S bs. mem s' x = mem s x)) \<or>
     (q \<noteq> 0 \<and> moved s s' (used S bs) (used S bs') p k0 n q)"

lemma minv_wf: "minv s S bs L h \<Longrightarrow> wf_blocks bs"
  by (simp add: minv_def heap_ok_def)

lemma ucellI: "used S bs p = Some k \<Longrightarrow> p \<le> x \<Longrightarrow> x < p + k \<Longrightarrow> wf_blocks bs \<Longrightarrow> x \<in> ucells S bs"
  using ucells_used_iff by blast

lemma moved_in_place:
  assumes wf: "wf_blocks bs" and u: "used S bs p = Some k0"
    and u': "used S bs' = (used S bs)(p \<mapsto> k)" "n \<le> k"
    and fr: "\<And>x. x \<in> ucells S bs \<Longrightarrow> x < p \<or> p + min n k0 \<le> x \<and> p + k0 \<le> x \<or> x < p + min n k0 \<Longrightarrow> mem s' x = mem s x"
  shows "moved s s' (used S bs) (used S bs') p k0 n p"
proof -
  have "mem s' (p + d) = mem s (p + d)" if "d < min n k0" for d
    by (rule fr) (use that ucellI [OF u _ _ wf] in auto)
  moreover have "mem s' x = mem s x"
    if "p' \<noteq> p" "used S bs p' = Some k'" "p' \<le> x" "x < p' + k'" for p' k' x
  proof (rule fr)
    show "x \<in> ucells S bs" by (rule ucellI [OF that(2-4) wf])
    show "x < p \<or> p + min n k0 \<le> x \<and> p + k0 \<le> x \<or> x < p + min n k0"
      using used_disjoint [OF that(2) u wf] that by auto
  qed
  ultimately show ?thesis using u'(2) unfolding moved_def u'(1) by auto
qed

lemma copy_realloc_inv:
  assumes inv: "minv s S (xs @ (n0, True) # ys) L {}" and co: "coalesced (xs @ (n0, True) # ys)"
    and p: "p = S + btotal xs + 16" and n: "32 \<le> n" "n < 2 ^ 63" "n1 + 16 \<le> n"
  shows "\<exists>q s' bs' L'. copy_realloc p (S + btotal xs) n n0 s = Some (q, s') \<and> minv s' S bs' L' {} \<and>
     coalesced bs' \<and> s_brk_min s' = s_brk_min s \<and>
     resized s s' S (xs @ (n0, True) # ys) bs' p (n0 - 16) n1 q"
proof -
  let ?bs = "xs @ (n0, True) # ys"
  note wf = minv_wf [OF inv]
  obtain q s1 where ma: "malloc (n - 16) s = (q, s1)" by fastforce
  have n16: "sub64 n 16 = n - 16" using n by simp
  have "n - 16 < 2 ^ 64" using n(2) by simp
  note mv = malloc_minv [OF inv this ma]
  show ?thesis
  proof (cases "q = 0")
    case True
    then have "\<exists>L'. minv s1 S ?bs L' {}" using mv carved_not_0 by blast
    moreover have "copy_realloc p (S + btotal xs) n n0 s = Some (0, s1)"
      using ma True by (simp add: copy_realloc_def CKB_OVERHEAD_def n16)
    ultimately show ?thesis using co mv unfolding resized_def by blast
  next
    case False
    then obtain n' bs1 L1 where a: "adjust_size (n - 16) = Some n'" "carved S n' ?bs bs1 q" "minv s1 S bs1 L1 {}"
      and fr1: "s_brk_min s1 = s_brk_min s" "\<And>x. x \<in> ucells S ?bs \<Longrightarrow> mem s1 x = mem s x"
      using mv by blast
    have n': "n \<le> n'" using adjust_size_some [OF a(1)] n by simp
    note wf1 = minv_wf [OF a(3)]
    note u1 = used_carved [OF a(2) wf wf1]
    have up: "used S ?bs p = Some (n0 - 16)" using used_at [OF wf] by (simp add: p)
    then have pq: "p \<noteq> q" using u1(2) by auto
    define len where "len = (if n < n0 then n else n0) - 16"
    have n0: "32 \<le> n0" "n0 < 2 ^ 63" using inv block_header [of s S xs n0 True ys] by (auto simp: minv_def)
    have len: "sub64 (if n < n0 then n else n0) 16 = len" "len \<le> n' - 16" "len \<le> n0 - 16" "min n1 (n0 - 16) \<le> len"
      using n n0 n' by (auto simp: len_def)
    define s2 where "s2 = memcpy_mem q p len s1"
    have m2: "mem s2 x = (if q \<le> x \<and> x < q + len then mem s1 (p + (x - q)) else mem s1 x)" for x
      by (simp add: s2_def memcpy_mem_def)
    have uq: "used S bs1 q = Some (n' - 16)" using u1(1) by simp
    have "minv (s1\<lparr>mem := mem s2\<rparr>) S bs1 L1 {}"
    proof (rule user_write_inv [OF a(3)])
      fix x assume "x \<notin> ucells S bs1"
      moreover have "x < q + (n' - 16)" if "x < q + len" using that len(2) by linarith
      ultimately have "\<not> (q \<le> x \<and> x < q + len)" using ucellI [OF uq _ _ wf1, of x] by blast
      then show "mem s2 x = mem s1 x" by (simp only: m2 if_False)
    qed
    then have inv2: "minv s2 S bs1 L1 {}" by (simp add: s2_def memcpy_mem_def)
    have up1: "used S bs1 p = Some (n0 - 16)" using up u1(1) pq by simp
    then obtain xs1 m1 ys1 where b1: "bs1 = xs1 @ (m1, True) # ys1" "p = S + btotal xs1 + 16" "n0 - 16 = m1 - 16"
      unfolding used_iff [OF wf1] by blast
    obtain s3 bs3 L3 where f: "free p s2 = Some s3" "released xs1 m1 ys1 bs3" "minv s3 S bs3 L3 {}"
      "s_brk_min s3 = s_brk_min s2" "\<And>x. x \<in> ucells S bs3 \<Longrightarrow> mem s3 x = mem s2 x"
      using free_minv [OF _ b1(2), of s2 m1 ys1 L1] inv2 b1(1) by blast
    note wf3 = minv_wf [OF f(3)]
    have co3: "coalesced bs3"
      by (rule released_coalesced [OF f(2)]) (use carved_coalesced [OF a(2) co] b1(1) in simp)
    have u3: "used S bs3 = (used S bs1)(p := None)"
      using used_released [OF f(2), of S] wf1 b1(1,2) by simp
    have cr: "copy_realloc p (S + btotal xs) n n0 s = Some (q, s3)"
      using ma False f(1) len(1) by (simp add: copy_realloc_def n16 CKB_OVERHEAD_def CKB_CHUNK_TO_MEM_def s2_def p)
    have uq3: "used S bs3 q = Some (n' - 16)" using uq pq by (simp add: u3)
    have "mem s3 (q + d) = mem s (p + d)" if d: "d < min n1 (n0 - 16)" for d
    proof -
      have "d < len" using d len(4) by (rule less_le_trans)
      then have "q + d < q + (n' - 16)" using len(2) by linarith
      then have "q + d \<in> ucells S bs3" using ucellI [OF uq3 _ _ wf3] by simp
      then have "mem s3 (q + d) = mem s2 (q + d)" by (rule f(5))
      also have "\<dots> = mem s1 (p + d)" 
      proof -
        have "d < len" using d len(4) by (rule less_le_trans)
        then show ?thesis by (simp add: m2)
      qed
      also have "\<dots> = mem s (p + d)"
        by (rule fr1, rule ucellI [OF up _ _ wf]) (use d in auto)
      finally show ?thesis .
    qed
    moreover have "mem s3 x = mem s x"
      if x: "p' \<noteq> p" "used S ?bs p' = Some k'" "p' \<le> x" "x < p' + k'" for p' k' x
    proof -
      have pq': "p' \<noteq> q" using x(2) u1(2) by auto
      then have a1: "used S bs1 p' = Some k'" using x(2) u1(1) by simp
      then have "used S bs3 p' = Some k'" using x(1) u3 by simp
      then have "x \<in> ucells S bs3" by (rule ucellI [OF _ x(3,4) wf3])
      then have "mem s3 x = mem s2 x" by (rule f(5))
      also have "\<dots> = mem s1 x"
        using used_disjoint [OF a1 uq wf1] pq' x len(2) by (auto simp: m2)
      also have "\<dots> = mem s x" by (rule fr1, rule ucellI [OF x(2-4) wf])
      finally show ?thesis .
    qed
    moreover have "used S bs3 = ((used S ?bs)(p := None))(q \<mapsto> n' - 16)"
      using pq by (simp add: u3 u1(1) fun_upd_twist)
    moreover have "n1 \<le> n' - 16" using n' n(3) by simp
    ultimately have "moved s s3 (used S ?bs) (used S bs3) p (n0 - 16) n1 q"
      using u1(2) unfolding moved_def by blast
    then have "resized s s3 S ?bs bs3 p (n0 - 16) n1 q" using False by (simp add: resized_def)
    moreover have "s_brk_min s3 = s_brk_min s" using f(4) fr1(1) by (simp add: s2_def memcpy_mem_def)
    ultimately show ?thesis using cr f(3) co3 by blast
  qed
qed

text \<open>Shrinking in place: the block is split and the rest released.\<close>

lemma shrink_inv:
  assumes inv: "minv s S (xs @ (n0, True) # ys) L {}" and co: "coalesced (xs @ (n0, True) # ys)"
    and c: "c = S + btotal xs" and n: "32 dvd n" "32 \<le> n" "n < n0" "n1 + 16 \<le> n"
    and s2: "s2 = store (c + n + 8) (n0 - n + 1) (store (c + n0) (n0 - n + 1) (store (c + 8) (n + 1) (store (c + n) (n + 1) s)))"
  shows "\<exists>s' bs' L'. bin_chunk0 (c + n) s2 = Some s' \<and> minv s' S bs' L' {} \<and> coalesced bs' \<and>
     s_brk_min s' = s_brk_min s \<and> resized s s' S (xs @ (n0, True) # ys) bs' (c + 16) (n0 - 16) n1 (c + 16)"
proof -
  let ?bs = "xs @ (n0, True) # ys" and ?mid = "[(n, True), (n0 - n, True)]"
  from inv have ok: "heap_ok s S ?bs" by (simp add: minv_def)
  note hd = block_header [OF ok c] and wf = minv_wf [OF inv]
  have rest: "32 dvd n0 - n" "32 \<le> n0 - n" and gap: "n + 32 \<le> n0"
    using n hd(8) by (auto elim!: dvdE)
  note m16 = hd(10) mod32(4) [OF hd(10) n(1)] mod32(4) [OF hd(10) hd(8)]
  have mem2: "mem s2 = (mem s)(c + n := n + 1, c + 8 := n + 1, c + n0 := n0 - n + 1, c + n + 8 := n0 - n + 1)"
    by (simp add: s2)
  have at2: "x = c + n \<or> x = c + n + 8 \<or> x = c + n0 \<or> x = c + 8" if "mem s2 x \<noteq> mem s x" for x
    using that by (auto simp: mem2 split: if_splits)
  have df: "S + btotal xs < x \<and> x \<le> S + btotal xs + btotal [(n0, True)] \<and> (x mod 32 = 16 \<or> x mod 32 = 24)"
    if "mem s2 x \<noteq> mem s x" for x
    using at2 [OF that] gap n(2) m16 mod32(3) [OF m16(1)] mod32(3) [OF m16(2)]
    by (elim disjE) (simp_all flip: c)
  have pr: "pre (mem s2) (S + btotal xs) ?mid" using gap n(2) by (simp add: mem2 flip: c)
  have st: "s2 = s\<lparr>mem := mem s2\<rparr>" by (simp add: s2 store_def)
  have "minv s2 S (xs @ ?mid @ ys) L {}"
    by (rule set_headers [OF _ st _ _ pr df, where h = "{}"]) (use inv gap n rest in auto)
  then have inv2: "minv s2 S ((xs @ [(n, True)]) @ (n0 - n, True) # ys) L {}" by simp
  have "c + n = S + btotal (xs @ [(n, True)])" by (simp add: c)
  from bin_chunk0_inv [OF inv2 this] obtain s' bs' L' where
    b: "bin_chunk0 (c + n) s2 = Some s'" "released (xs @ [(n, True)]) (n0 - n) ys bs'" "minv s' S bs' L' {}"
      "s_brk_min s' = s_brk_min s2" "\<And>x. x \<in> ucells S bs' \<Longrightarrow> mem s' x = mem s2 x"
    by blast
  have "coalesced (xs @ [(n, True), (n0 - n, True)] @ ys)"
    using co successively_insert [of xs "[(n0, True)]" ys] successively_insert [of xs ?mid ys]
    by (simp add: coalesced_def)
  then have co': "coalesced bs'" by (intro released_coalesced [OF b(2)]) simp
  note wf2 = minv_wf [OF inv2]
  have u': "used S bs' = (used S ?bs)(c + 16 \<mapsto> n - 16)"
  proof
    fix q
    have wfs: "wf_blocks xs" "wf_blocks ?mid" "wf_blocks [(n0, True)]" "wf_blocks ys" using wf wf2 by auto
    have e: "(xs @ [(n, True)]) @ (n0 - n, True) # ys = xs @ ?mid @ ys" "?bs = xs @ [(n0, True)] @ ys" by auto
    have c': "S + (btotal xs + n) + 16 = c + n + 16" "S + btotal xs = c" by (simp_all add: c)
    show "used S bs' q = ((used S ?bs)(c + 16 \<mapsto> n - 16)) q"
      unfolding used_released [OF b(2) wf2] unfolding e
      using used_mid [OF wfs(1,2,4), of S q] used_mid [OF wfs(1,3,4), of S q] gap n(2) c' used_out [OF wfs(4), of q "S + btotal xs + n0"]
      by (auto simp del: used_simps(4))
  qed
  have u: "used S ?bs (c + 16) = Some (n0 - 16)" using used_at [OF wf] by (simp add: c)
  have wf': "wf_blocks bs'" by (rule minv_wf [OF b(3)])
  have fr: "mem s' x = mem s x" if x: "x \<in> ucells S ?bs" "x < c + 16 \<or> c + 16 + (n0 - 16) \<le> x \<or> x < c + 16 + (n - 16)" for x
  proof -
    obtain p k where pk: "used S ?bs p = Some k" "p \<le> x" "x < p + k"
      using x(1) ucells_used_iff [OF wf] by blast
    have "x \<in> ucells S bs'"
    proof (cases "p = c + 16")
      case True
      then have "k = n0 - 16" using pk(1) u by simp
      then have "x < c + 16 + (n - 16)" using x(2) pk(2,3) True by linarith
      then show ?thesis using ucellI [of S bs' "c + 16" "n - 16" x] u' pk(2) True wf' by simp
    next
      case False
      then have "used S bs' p = Some k" using u' pk(1) by simp
      then show ?thesis using ucellI [OF _ pk(2,3) wf'] by blast
    qed
    moreover have "x \<noteq> c + 8 \<and> x \<noteq> c + n0"
      using header_not_ucell [of xs "(n0, True) # ys" x S] header_not_ucell [of "xs @ [(n0, True)]" ys x S] wf x(1)
      by (auto simp: c add.assoc)
    moreover have "x \<noteq> c + n \<and> x \<noteq> c + n + 8" using x(2) gap n(2) by auto
    ultimately show ?thesis using b(5) [of x] at2 [of x] by auto
  qed
  have "moved s s' (used S ?bs) (used S bs') (c + 16) (n0 - 16) n1 (c + 16)"
    by (rule moved_in_place [OF wf u u']) (use n in \<open>auto intro!: fr\<close>)
  moreover have "s_brk_min s' = s_brk_min s" using b(4) by (simp add: s2)
  ultimately show ?thesis using b(1,3) co' by (auto simp: resized_def)
qed

text \<open>Growing into the free block behind.\<close>

lemma grow_inv:
  assumes inv: "minv s S (xs @ (n0, True) # (z, False) # ys) L {}"
    and co: "coalesced (xs @ (n0, True) # (z, False) # ys)"
    and c: "c = S + btotal xs" and n: "32 dvd n" "32 \<le> n" "n0 < n" "n \<le> n0 + z" "n1 + 16 \<le> n"
    and s2: "s2 = unbin (c + n0) (bin_index z) (lock_bin (bin_index z) s)"
    and s4: "s4 = trim c n (store (c + 8) (n0 + z + 1) (store (c + n0 + z) (n0 + z + 1) s2))"
  shows "\<exists>bs' L'. minv s4 S bs' L' {} \<and> coalesced bs' \<and> s_brk_min s4 = s_brk_min s \<and>
     resized s s4 S (xs @ (n0, True) # (z, False) # ys) bs' (c + 16) (n0 - 16) n1 (c + 16)"
proof -
  let ?bs = "xs @ (n0, True) # (z, False) # ys" and ?mid = "[(n0, True), (z, True)]"
  let ?bs' = "xs @ carve n (n0 + z) @ ys"
  have b2: "?bs = (xs @ [(n0, True)]) @ (z, False) # ys" by simp
  from inv have ok: "heap_ok s S ?bs" by (simp add: minv_def)
  note hd = block_header [OF ok c] and wf = minv_wf [OF inv]
  have cz: "c + n0 = S + btotal (xs @ [(n0, True)])" by (simp add: c)
  note hz = block_header [OF ok [unfolded b2] cz]
  obtain L2 where ub: "minv s2 S (xs @ ?mid @ ys) L2 {}" "\<And>x. x \<in> ucells S ?bs \<Longrightarrow> mem s2 x = mem s x"
    using unbin_locked [OF inv [unfolded b2] cz refl] unfolding s2 by auto
  define s3 where "s3 = store (c + 8) (n0 + z + 1) (store (c + n0 + z) (n0 + z + 1) s2)"
  have at3: "x = c + 8 \<or> x = c + n0 + z" if "mem s3 x \<noteq> mem s2 x" for x
    using that by (auto simp: s3_def split: if_splits)
  have d: "32 dvd n0 + z" using hd(8) hz(8) by simp
  have df: "S + btotal xs < x \<and> x \<le> S + btotal xs + btotal ?mid \<and> (x mod 32 = 16 \<or> x mod 32 = 24)"
    if "mem s3 x \<noteq> mem s2 x" for x
    using at3 [OF that] hd(7) mod32(3) [OF hd(10)] mod32(4) [OF hd(10) d]
    by (elim disjE) (simp_all add: add.assoc flip: c)
  have pr: "pre (mem s3) (S + btotal xs) [(n0 + z, True)]" using hd(7) by (simp add: s3_def add.assoc flip: c)
  have st: "s3 = s2\<lparr>mem := mem s3\<rparr>" by (simp add: s3_def store_def)
  have "minv s3 S (xs @ [(n0 + z, True)] @ ys) L2 {}"
    by (rule set_headers [OF ub(1) st _ _ pr df]) (use hd(7) hz(7) d in auto)
  then have inv3: "minv s3 S (xs @ (n0 + z, True) # ys) L2 {}" by simp
  obtain L4 where t: "minv (trim c n s3) S ?bs' L4 {}"
    "\<And>x. x \<in> ucells S ?bs' \<Longrightarrow> mem (trim c n s3) x = mem s3 x"
    using trim_carve [OF inv3 c n(1,2,4)] by blast
  have s4': "s4 = trim c n s3" by (simp add: s4 s3_def)
  note wf' = minv_wf [OF t(1)]
  have co': "coalesced ?bs'"
  proof -
    have "coalesced xs" "coalesced ys" "ys = [] \<or> snd (hd ys)"
      using co successively_insert [of xs ?mid ys] successively_insert [of xs "[(n0, True), (z, False)]" ys]
      by (auto simp: coalesced_def)
    then show ?thesis using successively_insert [of xs "carve n (n0 + z)" ys]
      by (auto simp: carve_def coalesced_def)
  qed
  have wfs: "wf_blocks xs" "wf_blocks [(n0, True), (z, False)]" "wf_blocks (carve n (n0 + z))" "wf_blocks ys"
    using wf wf' by auto
  have mid: "used a (carve n (n0 + z)) = [a + 16 \<mapsto> n - 16]" for a by (simp add: carve_def)
  have bt: "btotal (carve n (n0 + z)) = n0 + z" using n(4) by simp
  have u': "used S ?bs' = (used S ?bs)(c + 16 \<mapsto> n - 16)"
  proof
    fix q
    have e: "?bs = xs @ [(n0, True), (z, False)] @ ys" by simp
    have u2: "used S ?bs q = (if q < c + 16 then used S xs q
        else if q < c + (n0 + z) + 16 then (if q = c + 16 then Some (n0 - 16) else None)
        else used (c + (n0 + z)) ys q)"
      unfolding e used_mid [OF wfs(1,2,4)] by (simp add: c add.assoc del: used_simps(4))
    have u3: "used S ?bs' q = (if q < c + 16 then used S xs q
        else if q < c + (n0 + z) + 16 then (if q = c + 16 then Some (n - 16) else None)
        else used (c + (n0 + z)) ys q)"
      unfolding used_mid [OF wfs(1,3,4)] mid bt by (simp add: c add.assoc)
    show "used S ?bs' q = ((used S ?bs)(c + 16 \<mapsto> n - 16)) q"
      unfolding u3 fun_upd_apply u2 using hd(7) by simp
  qed
  have u: "used S ?bs (c + 16) = Some (n0 - 16)" using used_at [OF wf] by (simp add: c)
  have fr: "mem s4 x = mem s x" if x: "x \<in> ucells S ?bs" for x
  proof -
    obtain p k where pk: "used S ?bs p = Some k" "p \<le> x" "x < p + k"
      using x ucells_used_iff [OF wf] by blast
    have "x \<in> ucells S ?bs'"
    proof (cases "p = c + 16")
      case True
      then have "k = n0 - 16" using pk(1) u by simp
      then have "x < c + 16 + (n - 16)" using pk(3) True n(3) by linarith
      then show ?thesis using ucellI [of S ?bs' "c + 16" "n - 16" x] u' pk(2) True wf' by simp
    next
      case False
      then have "used S ?bs' p = Some k" using u' pk(1) by simp
      then show ?thesis using ucellI [OF _ pk(2,3) wf'] by blast
    qed
    moreover have "x \<noteq> c + 8 \<and> x \<noteq> c + n0 + z"
      using header_not_ucell [of xs "(n0, True) # (z, False) # ys" x S]
        header_not_ucell [of "xs @ [(n0, True), (z, False)]" ys x S] wf x
      by (auto simp: c add.assoc)
    ultimately show ?thesis using t(2) [of x] at3 [of x] ub(2) [OF x] s4' by auto
  qed
  have "moved s s4 (used S ?bs) (used S ?bs') (c + 16) (n0 - 16) n1 (c + 16)"
    by (rule moved_in_place [OF wf u u']) (use n in \<open>auto intro!: fr\<close>)
  moreover have "s_brk_min s4 = s_brk_min s" by (simp add: s4 s2)
  ultimately show ?thesis using t(1) co' s4' by (auto simp: resized_def)
qed

lemma resized_same:
  assumes wf: "wf_blocks bs" and u: "used S bs p = Some k0" "n1 \<le> k0" "p \<noteq> 0"
  shows "resized s s S bs bs p k0 n1 p"
  using moved_in_place [of bs S p k0 bs k0 n1 s s] assms by (simp add: resized_def fun_upd_idem)

lemma realloc_minv:
  assumes inv: "minv s S (xs @ (n0, True) # ys) L {}" and co: "coalesced (xs @ (n0, True) # ys)"
    and p: "p = S + btotal xs + 16" and n1: "n1 < 2 ^ 64"
  shows "\<exists>q s' bs' L'. realloc p n1 s = Some (q, s') \<and> minv s' S bs' L' {} \<and> coalesced bs' \<and>
     s_brk_min s' = s_brk_min s \<and> resized s s' S (xs @ (n0, True) # ys) bs' p (n0 - 16) n1 q"
proof -
  let ?bs = "xs @ (n0, True) # ys"
  from inv have ok: "heap_ok s S ?bs" by (simp add: minv_def)
  define c where "c = S + btotal xs"
  note hd = block_header [OF ok c_def] and wf = minv_wf [OF inv]
  have pc: "p = c + 16" "p \<noteq> 0" "CKB_MEM_TO_CHUNK p = c" "CKB_CHUNK_TO_MEM c = p"
    by (simp_all add: p c_def CKB_MEM_TO_CHUNK_def CKB_CHUNK_TO_MEM_def CKB_OVERHEAD_def)
  have up: "used S ?bs p = Some (n0 - 16)" using used_at [OF wf] by (simp add: p)
  show ?thesis
  proof (cases "adjust_size n1")
    case None
    then have "realloc p n1 s = Some (0, s)" using pc by (simp add: realloc_def)
    then show ?thesis using inv co by (auto simp: resized_def)
  next
    case (Some n)
    from adjust_size_some [OF Some n1] have n: "32 dvd n" "32 \<le> n" "n1 + 16 \<le> n" "n < 2 ^ 63" by auto
    have copy: "\<exists>q s' bs' L'. copy_realloc p c n n0 s = Some (q, s') \<and> minv s' S bs' L' {} \<and> coalesced bs' \<and>
       s_brk_min s' = s_brk_min s \<and> resized s s' S ?bs bs' p (n0 - 16) n1 q"
      using copy_realloc_inv [OF inv co p n(2,4,3)] unfolding c_def by blast
    have foot: "psize s (c + n0) = csize s c" using hd(1,2) by simp
    consider (same) "n = n0" | (shrink) "n < n0" | (more) "n0 < n" by linarith
    then show ?thesis
    proof cases
      case same
      then have "realloc p n1 s = Some (p, s)" using pc Some hd by (simp add: realloc_def Let_def CKB_DONTCARE_def)
      then show ?thesis using inv co resized_same [OF wf up _ pc(2), of n1 s] n same by auto
    next
      case shrink
      then have gap: "n + 32 \<le> n0" using n(1) hd(8) by (auto elim!: dvdE)
      then have sb: "sub64 n0 n = n0 - n" "\<not> n0 - n \<le> 16" using hd(9) by auto
      have dr: "32 dvd n0 - n" using n(1) hd(8) by (simp add: dvd_diff_nat)
      show ?thesis
      proof (cases "bin_index_up n < bin_index n0 \<and> binmap s AND push_bit (bin_index_up n) 1 \<noteq> 0")
        case True
        then have "realloc p n1 s = copy_realloc p c n n0 s"
          using pc Some hd(3,4) foot sb shrink by (simp add: realloc_def Let_def CKB_DONTCARE_def)
        then show ?thesis using copy by simp
      next
        case False
        define s2 where "s2 = store (c + n + 8) (n0 - n + 1) (store (c + n0) (n0 - n + 1) (store (c + 8) (n + 1) (store (c + n) (n + 1) s)))"
        have "realloc p n1 s = map_option (Pair p) (bin_chunk0 (c + n) s2)"
          using pc Some hd(3,4) foot sb shrink False dvd32_bits(1) [OF n(1)] dvd32_bits(1) [OF dr]
          unfolding realloc_def by (auto simp: Let_def CKB_DONTCARE_def s2_def)
        then show ?thesis
          using shrink_inv [OF inv co c_def n(1,2) shrink n(3) s2_def] by (fastforce simp: pc(1))
      qed
    next
      case more
      define nsz where "nsz = (if csize s (c + n0) AND 1 \<noteq> 0 then 0 else CKB_CHUNK_SIZE s (c + n0))"
      have e: "c + n0 = S + btotal (xs @ [(n0, True)])" by (simp add: c_def)
      have ok2: "heap_ok s S ((xs @ [(n0, True)]) @ ys)" using ok by simp
      have re: "realloc p n1 s =
          (if add64 n0 nsz \<ge> n then
             (let i = bin_index nsz; s1 = lock_bin i s in
              if csize s1 (c + n0) AND 1 = 0 then
                (let s2 = unbin (c + n0) i s1; nxt2 = CKB_NEXT_CHUNK s2 (c + n0); v = add64 n0 nsz OR 1;
                     s3 = store (c + 8) v (store nxt2 v s2) in Some (p, trim c n s3))
              else copy_realloc p c n n0 s1)
           else copy_realloc p c n n0 s)"
        unfolding realloc_def Let_def pc(3) hd(3,4) nsz_def [symmetric]
        using pc Some foot more by simp
      show ?thesis
      proof (cases "\<exists>z ys'. ys = (z, False) # ys'")
        case False
        then have "csize s (c + n0) AND 1 \<noteq> 0" using next_block [OF ok2 e] by auto
        then have "nsz = 0" by (simp add: nsz_def)
        then have "realloc p n1 s = copy_realloc p c n n0 s" using re more hd(9) by simp
        then show ?thesis using copy by simp
      next
        case True
        then obtain z ys' where ys: "ys = (z, False) # ys'" by blast
        have b2: "?bs = (xs @ [(n0, True)]) @ (z, False) # ys'" by (simp add: ys)
        note hz = block_header [OF ok [unfolded b2] e]
        have nz: "nsz = z" using hz(1,3) of_bool_and_1 [OF hz(8), of False] by (simp add: nsz_def)
        have ad: "add64 n0 z = n0 + z" by (rule add64_small) (use hd(9) hz(9) in simp)
        have d: "32 dvd n0 + z" using hd(8) hz(8) by simp
        show ?thesis
        proof (cases "n \<le> n0 + z")
          case False
          then have "realloc p n1 s = copy_realloc p c n n0 s" using re by (simp add: nz ad)
          then show ?thesis using copy by simp
        next
          case True
          let ?i = "bin_index z"
          have i64: "?i < 64" by (rule bin_index_lt [OF hz(8,7,9)])
          have invb: "minv s S ((xs @ [(n0, True)]) @ (z, False) # ys') L {}" using inv by (simp add: ys)
          have okl: "heap_ok (lock_bin ?i s) S ((xs @ [(n0, True)]) @ (z, False) # ys')"
            using lock_bin_inv(1) [OF invb i64] by (simp add: minv_def)
          note hl = block_header [OF okl e]
          have l: "csize (lock_bin ?i s) (c + n0) AND 1 = 0"
            using hl(1) of_bool_and_1 [OF hz(8), of False] by simp
          define s2 where "s2 = unbin (c + n0) ?i (lock_bin ?i s)"
          define s4 where "s4 = trim c n (store (c + 8) (n0 + z + 1) (store (c + n0 + z) (n0 + z + 1) s2))"
          obtain L2 where "minv s2 S ((xs @ [(n0, True)]) @ (z, True) # ys') L2 {}"
            using unbin_locked [OF invb e refl] unfolding s2_def by blast
          then have oku: "heap_ok s2 S ((xs @ [(n0, True)]) @ (z, True) # ys')" by (simp add: minv_def)
          note hu = block_header [OF oku e]
          have "realloc p n1 s = Some (p, s4)"
            using re True l hu(4) dvd32_bits(1) [OF d] unfolding nz ad s4_def
            by (simp add: Let_def flip: s2_def)
          then show ?thesis
            using grow_inv [OF inv [unfolded ys] co [unfolded ys] c_def n(1,2) more True n(3) s2_def s4_def]
            by (auto simp: pc(1) ys)
        qed
      qed
    qed
  qed
qed

end
