(* ===== verification/Malloc_Api.thy ===== *)
theory Malloc_Api
  imports Malloc_Correct
begin

text \<open>
  The allocator as a whole: its invariant on states (alloc_inv), the map of live blocks that is
  read off the heap (live), what malloc, free and realloc do to them, and the interpretation
  of the contract of theory Heap_Ops.
\<close>

section \<open>The blocks of a heap, read off its boundary tags\<close>

definition heap_base :: "malloc_state \<Rightarrow> nat" where
  "heap_base s = round_page (s_brk_min s) + CKB_OVERHEAD"

fun walk :: "nat \<Rightarrow> malloc_state \<Rightarrow> nat \<Rightarrow> blocks" where
  "walk 0 s a = []"
| "walk (Suc k) s a =
     (let sz = CKB_CHUNK_SIZE s a in
      if sz = 0 then [] else (sz, csize s a AND 1 \<noteq> 0) # walk k s (a + sz))"

definition heap_blocks :: "malloc_state \<Rightarrow> blocks" where
  "heap_blocks s = (if heap_end s = 0 then [] else walk (heap_end s) s (heap_base s))"

definition live :: "malloc_state \<Rightarrow> nat \<rightharpoonup> nat" where
  "live s = used (heap_base s) (heap_blocks s)"

text \<open>
  The invariant: the heap was never used, or it is a sequence of blocks with consistent
  boundary tags, the bins are rings that hold exactly the free blocks of their sizes, the map
  of bins says which are non-empty, and no two free blocks are neighbours.
\<close>

definition alloc_inv :: "malloc_state \<Rightarrow> bool" where
  "alloc_inv s \<longleftrightarrow> fresh_state s \<or> (\<exists>bs L. minv s (heap_base s) bs L {} \<and> coalesced bs)"

lemma walk_blocks:
  assumes "heap_ok s S (xs @ ys)" "length ys < k"
  shows "walk k s (S + btotal xs) = ys"
  using assms
proof (induction ys arbitrary: xs k)
  case Nil
  then obtain k' where k: "k = Suc k'" by (cases k) auto
  have "csize s (S + btotal xs) = 1" using heap_sentinel [OF Nil.prems(1)] by simp
  then have "CKB_CHUNK_SIZE s (S + btotal xs) = 0" by (simp add: CKB_CHUNK_SIZE_def and_minus_2)
  then show ?case by (simp add: k)
next
  case (Cons b ys)
  then obtain k' where k: "k = Suc k'" "length ys < k'" by (cases k) auto
  obtain z u where b: "b = (z, u)" by (cases b)
  note hd = block_header [OF Cons.prems(1) [unfolded b] refl]
  have "csize s (S + btotal xs) AND 1 = of_bool u"
    using hd(1) of_bool_and_1 [OF hd(8)] by (simp only:)
  moreover have "walk k' s (S + btotal (xs @ [b])) = ys"
    by (rule Cons.IH) (use Cons.prems(1) k(2) in auto)
  ultimately show ?case using hd(3,7) by (simp add: k(1) b Let_def add.assoc)
qed

lemma blocks_length: "wf_blocks bs \<Longrightarrow> length bs \<le> btotal bs"
  by (induction bs) auto

lemma heap_blocks_minv: "minv s (heap_base s) bs L h \<Longrightarrow> heap_blocks s = bs \<and> heap_end s \<noteq> 0"
proof -
  assume "minv s (heap_base s) bs L h"
  then have ok: "heap_ok s (heap_base s) ([] @ bs)" by (simp add: minv_def)
  then have "heap_end s = heap_base s + btotal bs + 16" "wf_blocks bs" by (auto simp: heap_ok_def)
  with blocks_length have l: "length bs < heap_end s" "heap_end s \<noteq> 0" by fastforce+
  with walk_blocks [OF ok l(1)] show ?thesis by (simp add: heap_blocks_def)
qed

lemma heap_blocks_fresh: "fresh_state s \<Longrightarrow> heap_blocks s = []"
  by (simp add: heap_blocks_def fresh_state_def)

lemma live_fresh: "fresh_state s \<Longrightarrow> live s = Map.empty"
  by (simp add: live_def heap_blocks_fresh)

lemma live_minv: "minv s (heap_base s) bs L h \<Longrightarrow> live s = used (heap_base s) bs"
  by (simp add: live_def heap_blocks_minv)

lemma alloc_inv_cases:
  assumes "alloc_inv s"
  obtains (fresh) "fresh_state s"
  | (heap) L where "minv s (heap_base s) (heap_blocks s) L {}" "coalesced (heap_blocks s)"
      "heap_end s \<noteq> 0" "wf_blocks (heap_blocks s)"
  using assms heap_blocks_minv minv_wf unfolding alloc_inv_def by metis

lemma alloc_inv_heap:
  "minv s (heap_base s) bs L {} \<Longrightarrow> coalesced bs \<Longrightarrow> alloc_inv s"
  by (auto simp: alloc_inv_def)

lemma live_block:
  assumes "alloc_inv s" "live s p = Some k"
  obtains xs n0 ys L where "heap_blocks s = xs @ (n0, True) # ys" "p = heap_base s + btotal xs + 16" "k = n0 - 16"
    "minv s (heap_base s) (xs @ (n0, True) # ys) L {}" "coalesced (xs @ (n0, True) # ys)"
  using assms(1)
proof (cases rule: alloc_inv_cases)
  case fresh
  with assms(2) live_fresh show ?thesis by simp
next
  case (heap L)
  have "used (heap_base s) (heap_blocks s) p = Some k" using assms(2) by (simp add: live_def)
  then show ?thesis using that heap unfolding used_iff [OF heap(4)] by metis
qed

section \<open>malloc\<close>

lemma brk_min_base: "s_brk_min s' = s_brk_min s \<Longrightarrow> heap_base s' = heap_base s"
  by (simp add: heap_base_def)

definition out_of_space :: "malloc_state \<Rightarrow> nat \<Rightarrow> bool" where
  "out_of_space s n \<longleftrightarrow>
     (\<forall>(sz, u) \<in> set (heap_blocks s). \<not> u \<longrightarrow> bin_index sz < bin_index_up n) \<and>
     s_brk_max s < (if heap_end s = 0 then round_page (s_brk_min s) else heap_end s) + round_page (n + 32)"

lemma malloc_cases:
  assumes inv: "alloc_inv s" and n0: "n0 < 2 ^ 64" and m: "malloc n0 s = (p, s')"
  shows "alloc_inv s' \<and>
    (p = 0 \<and> live s' = live s \<and>
       (case adjust_size n0 of None \<Rightarrow> True | Some n \<Rightarrow> n < CKB_MMAP_THRESHOLD \<longrightarrow> out_of_space s n) \<or>
     p \<noteq> 0 \<and> live s p = None \<and> (\<exists>k \<ge> n0. live s' = (live s)(p \<mapsto> k)) \<and> p mod 32 = 0) \<and>
    (\<forall>q k x. live s q = Some k \<longrightarrow> q \<le> x \<longrightarrow> x < q + k \<longrightarrow> mem s' x = mem s x)"
  using inv
proof (cases rule: alloc_inv_cases)
  case fresh
  from malloc_fresh_state [OF fresh n0 m] have base: "heap_base s' = heap_base s" by (simp add: heap_base_def)
  from malloc_fresh_state [OF fresh n0 m] show ?thesis
  proof (elim conjE disjE exE)
    assume p: "p = 0" "fresh_state s'"
    have "case adjust_size n0 of None \<Rightarrow> True | Some n \<Rightarrow> n < CKB_MMAP_THRESHOLD \<longrightarrow> out_of_space s n"
    proof (cases "adjust_size n0")
      case (Some n)
      have "out_of_space s n" if t: "n < CKB_MMAP_THRESHOLD"
      proof -
        have n: "32 dvd n" "32 \<le> n" "n < 7168 * 32"
          using adjust_size_some [OF Some n0] t by (auto simp: ckb_consts)
        have b0: "binmap s = 0" using fresh by (simp add: fresh_state_def)
        then have ml: "malloc_large (bin_index_up n) n s = (0, s')"
          using m Some t p by (simp add: malloc_def)
        have "pick_bin (binmap s AND - push_bit (bin_index_up n) 1) s = (None, s)"
          by (simp add: b0 pick_bin.simps)
        with ml have "fst (expand_heap n s) = None"
          by (auto simp: malloc_large_def CKB_CHUNK_TO_MEM_def CKB_OVERHEAD_def split: prod.splits option.splits)
        then show ?thesis
          using expand_heap_fresh [OF fresh n] fresh heap_blocks_fresh [OF fresh]
          by (auto simp: out_of_space_def fresh_state_def)
      qed
      with Some show ?thesis by simp
    qed simp
    with p fresh live_fresh show ?thesis by (simp add: alloc_inv_def)
  next
    fix n bs' L'
    assume a: "adjust_size n0 = Some n" "carved (round_page (s_brk_min s) + 16) n [] bs' p"
      "minv s' (round_page (s_brk_min s) + 16) bs' L' {}"
    have B: "round_page (s_brk_min s) + 16 = heap_base s'"
      unfolding base by (simp add: heap_base_def CKB_OVERHEAD_def)
    have inv': "minv s' (heap_base s') bs' L' {}" and ca: "carved (heap_base s') n [] bs' p"
      using a B by simp_all
    have wf: "wf_blocks bs'" by (rule minv_wf [OF inv'])
    have co: "coalesced bs'" by (rule carved_coalesced [OF ca]) (simp add: coalesced_def)
    note u = used_carved [OF ca _ wf]
    have "live s' = (live s)(p \<mapsto> n - 16)"
      using u(1) live_minv [OF inv'] live_fresh [OF fresh] by simp
    moreover have "n0 \<le> n - 16" using adjust_size_some [OF a(1) n0] by (elim conjE) linarith
    moreover have "p mod 32 = 0" "p \<noteq> 0"
      using ca inv' mod32(1) [of "heap_base s'"] by (auto simp: carved_def minv_def heap_ok_def)
    ultimately show ?thesis using alloc_inv_heap [OF inv' co] live_fresh [OF fresh] by auto
  qed
next
  case (heap L)
  note mv = malloc_minv [OF heap(1) n0 m]
  have base: "heap_base s' = heap_base s" using mv by (simp add: heap_base_def)
  have frame: "mem s' x = mem s x" if "live s q = Some k" "q \<le> x" "x < q + k" for q k x
    using mv ucellI [OF _ that(2,3) heap(4)] that(1) by (simp add: live_def)
  from mv have "p = 0 \<and> (\<exists>L'. minv s' (heap_base s) (heap_blocks s) L' {}) \<or>
      (\<exists>n bs' L'. adjust_size n0 = Some n \<and> carved (heap_base s) n (heap_blocks s) bs' p \<and> minv s' (heap_base s) bs' L' {})"
    by blast
  then show ?thesis
  proof (elim disjE conjE exE)
    fix L' assume p: "p = 0" "minv s' (heap_base s) (heap_blocks s) L' {}"
    have inv': "minv s' (heap_base s') (heap_blocks s) L' {}" using p(2) base by simp
    have "live s' = live s" using live_minv [OF inv'] base by (simp add: live_def)
    moreover have "case adjust_size n0 of None \<Rightarrow> True | Some n \<Rightarrow> n < CKB_MMAP_THRESHOLD \<longrightarrow> out_of_space s n"
      using mv p(1) heap(3) by (auto simp: out_of_space_def exhausted_def split: option.splits)
    ultimately show ?thesis using alloc_inv_heap [OF inv' heap(2)] p(1) frame by blast
  next
    fix n bs' L'
    assume a: "adjust_size n0 = Some n" "carved (heap_base s) n (heap_blocks s) bs' p" "minv s' (heap_base s) bs' L' {}"
    have inv': "minv s' (heap_base s') bs' L' {}" using a(3) base by simp
    have wf: "wf_blocks bs'" by (rule minv_wf [OF inv'])
    note u = used_carved [OF a(2) heap(4) wf]
    have "live s' = (live s)(p \<mapsto> n - 16)" using u(1) live_minv [OF inv'] base by (simp add: live_def)
    moreover have "live s p = None" using u(2) by (simp add: live_def)
    moreover have "n0 \<le> n - 16" using adjust_size_some [OF a(1) n0] by (elim conjE) linarith
    moreover have "p mod 32 = 0" "p \<noteq> 0"
    proof -
      from a(2) obtain xs ys where x: "p = heap_base s + btotal xs + 16" "wf_blocks xs"
        using wf unfolding carved_def by auto
      have "heap_base s mod 32 = 16" using heap(1) by (simp add: minv_def heap_ok_def)
      then have "(heap_base s + btotal xs) mod 32 = 16" using mod32(4) btotal_dvd [OF x(2)] by blast
      then show "p mod 32 = 0" "p \<noteq> 0" using mod32(1) x(1) by auto
    qed
    ultimately show ?thesis
      using alloc_inv_heap [OF inv' carved_coalesced [OF a(2) heap(2)]] frame by blast
  qed
qed

section \<open>free and realloc\<close>

lemma free_live_block:
  assumes inv: "alloc_inv s" and p: "live s p = Some k"
  shows "\<exists>s'. free p s = Some s' \<and> alloc_inv s' \<and> live s' = (live s)(p := None) \<and>
    (\<forall>q l x. q \<noteq> p \<longrightarrow> live s q = Some l \<longrightarrow> q \<le> x \<longrightarrow> x < q + l \<longrightarrow> mem s' x = mem s x)"
proof -
  obtain xs n0 ys L where b: "heap_blocks s = xs @ (n0, True) # ys" "p = heap_base s + btotal xs + 16"
    "minv s (heap_base s) (xs @ (n0, True) # ys) L {}" "coalesced (xs @ (n0, True) # ys)"
    by (rule live_block [OF assms]) blast
  from free_minv [OF b(3,2)] obtain s' bs' L' where f: "free p s = Some s'" "released xs n0 ys bs'"
    "minv s' (heap_base s) bs' L' {}" "s_brk_min s' = s_brk_min s"
    "\<And>x. x \<in> ucells (heap_base s) bs' \<Longrightarrow> mem s' x = mem s x" by blast
  have inv': "minv s' (heap_base s') bs' L' {}" using f(3) brk_min_base [OF f(4)] by simp
  have wf: "wf_blocks (xs @ (n0, True) # ys)" by (rule minv_wf [OF b(3)])
  have l: "live s' = (live s)(p := None)"
    using used_released [OF f(2) wf, of "heap_base s"] live_minv [OF inv'] live_minv [OF b(3)] b(2)
      brk_min_base [OF f(4)] by simp
  have "mem s' x = mem s x" if q: "q \<noteq> p" "live s q = Some m" "q \<le> x" "x < q + m" for q m x
  proof (rule f(5), rule ucellI [OF _ q(3,4) minv_wf [OF f(3)]])
    have "live s' q = Some m" using q l by simp
    then show "used (heap_base s) bs' q = Some m"
      using live_minv [OF inv'] brk_min_base [OF f(4)] by simp
  qed
  with f(1) l alloc_inv_heap [OF inv' released_coalesced [OF f(2) b(4)]] show ?thesis by blast
qed

lemma realloc_live_block:
  assumes inv: "alloc_inv s" and p: "live s p = Some k0" and n: "n < 2 ^ 64"
  shows "\<exists>q s'. realloc p n s = Some (q, s') \<and> alloc_inv s' \<and>
    (if q = 0 then live s' = live s \<and> (\<forall>r l x. live s r = Some l \<longrightarrow> r \<le> x \<longrightarrow> x < r + l \<longrightarrow> mem s' x = mem s x)
     else moved s s' (live s) (live s') p k0 n q)"
proof -
  obtain xs n0 ys L where b: "heap_blocks s = xs @ (n0, True) # ys" "p = heap_base s + btotal xs + 16" "k0 = n0 - 16"
    "minv s (heap_base s) (xs @ (n0, True) # ys) L {}" "coalesced (xs @ (n0, True) # ys)"
    by (rule live_block [OF inv p]) blast
  from realloc_minv [OF b(4,5,2) n] obtain q s' bs' L' where r: "realloc p n s = Some (q, s')"
    "minv s' (heap_base s) bs' L' {}" "coalesced bs'" "s_brk_min s' = s_brk_min s"
    "resized s s' (heap_base s) (xs @ (n0, True) # ys) bs' p (n0 - 16) n q" by blast
  have inv': "minv s' (heap_base s') bs' L' {}" using r(2) brk_min_base [OF r(4)] by simp
  note lv = live_minv [OF inv'] live_minv [OF b(4)] brk_min_base [OF r(4)]
  have "if q = 0 then live s' = live s \<and> (\<forall>r l x. live s r = Some l \<longrightarrow> r \<le> x \<longrightarrow> x < r + l \<longrightarrow> mem s' x = mem s x)
     else moved s s' (live s) (live s') p k0 n q"
  proof (cases "q = 0")
    case True
    then have e: "bs' = xs @ (n0, True) # ys" and fr: "\<And>x. x \<in> ucells (heap_base s) (xs @ (n0, True) # ys) \<Longrightarrow> mem s' x = mem s x"
      using r(5) by (auto simp: resized_def simp del: used_simps)
    have "mem s' x = mem s x" if "live s q = Some l" "q \<le> x" "x < q + l" for q l x
      by (rule fr, rule ucellI [OF _ that(2,3) minv_wf [OF b(4)]]) (use that(1) lv in \<open>simp del: used_simps\<close>)
    with True e lv show ?thesis by (simp del: used_simps)
  next
    case False
    with r(5) lv b(3) show ?thesis by (simp add: resized_def del: used_simps)
  qed
  with r(1) alloc_inv_heap [OF inv' r(3)] show ?thesis by blast
qed

lemma live_disjoint:
  assumes "alloc_inv s" "live s p = Some k" "live s q = Some l"
  shows "p = q \<or> p + k \<le> q \<or> q + l \<le> p"
  using assms(1)
proof (cases rule: alloc_inv_cases)
  case fresh
  with assms(2) live_fresh show ?thesis by simp
next
  case (heap L)
  from used_disjoint [OF _ _ heap(4), of "heap_base s" p k q l] assms(2,3) show ?thesis
    by (auto simp: live_def)
qed

section \<open>The contract\<close>

interpretation ckb: c_heap ckb_heap alloc_inv live
proof unfold_locales
  fix h n p h'
  assume i: "alloc_inv h" and n: "n < 2 ^ 64" and m: "h_malloc ckb_heap h n = (p, h')"
  then have m': "malloc n h = (p, h')" by (simp add: ckb_heap_def)
  note c = malloc_cases [OF i n m']
  show "alloc_inv h'" using c by blast
  show "p \<noteq> 0 \<Longrightarrow> live h p = None \<and> (\<exists>k \<ge> n. live h' = (live h)(p \<mapsto> k))" using c by blast
next
  fix h n h'
  assume i: "alloc_inv h" and n: "n < 2 ^ 64" and m: "h_malloc ckb_heap h n = (0, h')"
  then have m': "malloc n h = (0, h')" by (simp add: ckb_heap_def)
  show "live h' = live h" using malloc_cases [OF i n m'] by blast
next
  fix h p k
  assume "alloc_inv h" "live h p = Some k"
  from free_live_block [OF this] show "\<exists>h'. h_free ckb_heap h p = Some h' \<and> alloc_inv h' \<and> live h' = (live h)(p := None)"
    by (auto simp: ckb_heap_def)
qed

section \<open>A concrete heap\<close>

text \<open>The heap of the witnesses, before its first use: 1 MB from address 8192 on.\<close>

definition demo_heap :: malloc_state where
  "demo_heap = malloc_config 8192 1056768
     \<lparr>mem = (\<lambda>_. 0), binmap = 0, mal_base = 4096, s_program_break = 0, s_brk_min = 0, s_brk_max = 0, heap_end = 0\<rparr>"

lemma demo_heap_fresh: "fresh_state demo_heap"
  by (simp add: demo_heap_def malloc_config_def fresh_state_def)

lemma demo_heap_inv: "alloc_inv demo_heap"
  by (simp add: alloc_inv_def demo_heap_fresh)

lemma demo_heap_space: "adjust_size 100 = Some n \<Longrightarrow> n < CKB_MMAP_THRESHOLD \<and> \<not> out_of_space demo_heap n"
proof -
  assume "adjust_size 100 = Some n"
  from adjust_size_some [OF this] have n: "n < 148" by simp
  have "round_page 8192 < 8192 + 4096" "round_page (n + 32) < n + 32 + 4096"
    using round_page [of 8192] round_page [of "n + 32"] n by auto
  with n show ?thesis
    by (auto simp: out_of_space_def demo_heap_def malloc_config_def ckb_consts)
qed

abbreviation demo_block :: nat where "demo_block \<equiv> fst (malloc 100 demo_heap)"
abbreviation demo_heap1 :: malloc_state where "demo_heap1 \<equiv> snd (malloc 100 demo_heap)"

lemma demo_block_not_null: "demo_block \<noteq> 0"
proof
  assume z: "demo_block = 0"
  then have m: "malloc 100 demo_heap = (0, demo_heap1)" by (metis prod.collapse)
  have "(100 :: nat) \<noteq> 0" "adjust_size 100 \<noteq> None" by (simp_all add: adjust_size_def ckb_consts)
  with malloc_cases [OF demo_heap_inv _ m] demo_heap_space show False by auto
qed

lemma demo_heap1_live: "alloc_inv demo_heap1 \<and> (\<exists>k \<ge> 100. live demo_heap1 demo_block = Some k)"
proof -
  have m: "malloc 100 demo_heap = (demo_block, demo_heap1)" by simp
  from malloc_cases [OF demo_heap_inv _ m] demo_block_not_null show ?thesis by auto
qed

section \<open>Properties\<close>



text \<open>
  malloc fails for two reasons only: the request, header included, reaches 224 KiB (the
  allocator refuses those), or no free block lies in a bin that is sure to serve the request
  and the program break cannot move by the rounded size. A failing call loses nothing.
\<close>

theorem malloc_null_reasons:
  assumes "alloc_inv s" "n < 2 ^ 64" "malloc n s = (0, s')"
  shows "alloc_inv s' \<and> live s' = live s \<and>
    (case adjust_size n of
       None \<Rightarrow> 2 ^ 63 - 4128 < n
     | Some m \<Rightarrow> CKB_MMAP_THRESHOLD \<le> m \<or> out_of_space s m)"
proof -
  have "2 ^ 63 - 4128 < n" if "adjust_size n = None"
  proof (cases "n = 0")
    case False
    then have "sub64 n 1 = n - 1" using assms(2) by simp
    with that show ?thesis by (auto simp: adjust_size_def ckb_consts split: if_splits)
  qed (use that in \<open>simp add: adjust_size_def sub64_wrap split: if_splits\<close>)
  with malloc_cases [OF assms] show ?thesis by (auto split: option.splits)
qed

lemma malloc_null_reasons_witness: "live (snd (malloc 300000 demo_heap)) = live demo_heap"
proof -
  have "malloc 300000 demo_heap = (0, demo_heap)"
    by (simp add: malloc_def adjust_size_def ckb_consts and_minus_32)
  with malloc_null_reasons [OF demo_heap_inv, of 300000 demo_heap] show ?thesis by simp
qed

text \<open>
  C4. free of a block in use never ends the program (the check of the footer that would is
  passed), takes exactly this block out of use and leaves the contents of the others; the
  invariant is kept, so the freed space is merged with its free neighbours.
\<close>

theorem free_releases_block:
  assumes "alloc_inv s" "live s p = Some k"
  shows "\<exists>s'. free p s = Some s' \<and> alloc_inv s' \<and> live s' = (live s)(p := None) \<and>
    (\<forall>q l x. q \<noteq> p \<longrightarrow> live s q = Some l \<longrightarrow> q \<le> x \<longrightarrow> x < q + l \<longrightarrow> mem s' x = mem s x)"
  by (rule free_live_block [OF assms])

lemma free_releases_block_witness:
  "\<exists>s'. free demo_block demo_heap1 = Some s' \<and> alloc_inv s' \<and> live s' demo_block = None"
proof -
  obtain k where "live demo_heap1 demo_block = Some k" using demo_heap1_live by blast
  from free_releases_block [OF conjunct1 [OF demo_heap1_live] this] show ?thesis by auto
qed

text \<open>
  C5. realloc of a block in use never ends the program. If it returns NULL nothing has
  changed; otherwise the old block is replaced by one of at least n bytes at q (the old address
  or one that was not in use), whose contents agree with the old block's up to the smaller of
  the sizes, and the contents of all other blocks are unchanged.
\<close>

theorem realloc_preserves_contents:
  assumes "alloc_inv s" "live s p = Some k0" "n < 2 ^ 64"
  shows "\<exists>q s'. realloc p n s = Some (q, s') \<and> alloc_inv s' \<and>
    (if q = 0 then live s' = live s \<and>
       (\<forall>r l x. live s r = Some l \<longrightarrow> r \<le> x \<longrightarrow> x < r + l \<longrightarrow> mem s' x = mem s x)
     else (\<exists>k \<ge> n. live s' = (live s)(p := None, q \<mapsto> k)) \<and> (q = p \<or> live s q = None) \<and>
       (\<forall>d < min n k0. mem s' (q + d) = mem s (p + d)) \<and>
       (\<forall>r l x. r \<noteq> p \<longrightarrow> live s r = Some l \<longrightarrow> r \<le> x \<longrightarrow> x < r + l \<longrightarrow> mem s' x = mem s x))"
  using realloc_live_block [OF assms] unfolding moved_def .

lemma realloc_preserves_contents_witness:
  "\<exists>q s'. realloc demo_block 5000 demo_heap1 = Some (q, s') \<and> alloc_inv s'"
proof -
  obtain k where "live demo_heap1 demo_block = Some k" using demo_heap1_live by blast
  from realloc_preserves_contents [OF conjunct1 [OF demo_heap1_live] this, of 5000] show ?thesis by auto
qed

lemma coalesced_all_free: "coalesced bs \<Longrightarrow> \<forall>b \<in> set bs. \<not> snd b \<Longrightarrow> length bs \<le> 1"
  by (cases bs; cases "tl bs") (auto simp: coalesced_def)

text \<open>
  Freeing everything restores one piece: when no block is in use, a heap that was ever
  used is a single free block that spans it, so fragmentation is not permanent.
\<close>

theorem free_heap_is_one_block:
  assumes "alloc_inv s" "live s = Map.empty" "heap_end s \<noteq> 0"
  shows "heap_blocks s = (if heap_end s = heap_base s + 16 then []
                          else [(heap_end s - heap_base s - 16, False)])"
  using assms(1)
proof (cases rule: alloc_inv_cases)
  case fresh
  with assms(3) show ?thesis by (simp add: fresh_state_def)
next
  case (heap L)
  have all: "\<forall>b \<in> set (heap_blocks s). \<not> snd b"
  proof (rule ballI, rule notI)
    fix b assume "b \<in> set (heap_blocks s)" "snd b"
    then obtain xs sz ys where "heap_blocks s = xs @ (sz, True) # ys" by (metis split_list prod.collapse)
    then have "live s (heap_base s + btotal xs + 16) = Some (sz - 16)"
      unfolding live_def used_iff [OF heap(4)] by blast
    with assms(2) show False by simp
  qed
  have e: "heap_end s = heap_base s + btotal (heap_blocks s) + 16" using heap(1) by (simp add: minv_def heap_ok_def)
  from coalesced_all_free [OF heap(2) all] consider "heap_blocks s = []" | b where "heap_blocks s = [b]"
    by (cases "heap_blocks s") auto
  then show ?thesis
  proof cases
    case 2
    with all heap(4) e show ?thesis by (cases b) auto
  qed (use e in simp)
qed

lemma free_heap_is_one_block_witness:
  "\<exists>s'. free demo_block demo_heap1 = Some s' \<and> live s' = Map.empty \<and> length (heap_blocks s') \<le> 1"
proof -
  have m: "malloc 100 demo_heap = (demo_block, demo_heap1)" by simp
  from malloc_cases [OF demo_heap_inv _ m] demo_block_not_null live_fresh [OF demo_heap_fresh]
  obtain k where k: "live demo_heap1 = [demo_block \<mapsto> k]" by auto
  then have "live demo_heap1 demo_block = Some k" by simp
  from free_live_block [OF conjunct1 [OF demo_heap1_live] this] obtain s' where
    f: "free demo_block demo_heap1 = Some s'" "alloc_inv s'" "live s' = Map.empty" by (auto simp: k)
  have "heap_end s' = 0 \<Longrightarrow> heap_blocks s' = []" by (simp add: heap_blocks_def)
  with free_heap_is_one_block [OF f(2,3)] f show ?thesis by fastforce
qed

text \<open>
  The size classes are sound: a free block whose bin is bin_index_up(n) or later is large
  enough for the request n, so malloc need not look at its size.
\<close>

theorem bin_index_up_serves:
  assumes "adjust_size n0 = Some n" "n0 < 2 ^ 64" "n < CKB_MMAP_THRESHOLD"
    and "32 dvd sz" "32 \<le> sz" "sz < 2 ^ 63" "bin_index_up n \<le> bin_index sz"
  shows "n0 + CKB_OVERHEAD \<le> sz"
  using bin_index_up_sound [of n sz] adjust_size_some [OF assms(1,2)] assms(3-) by (auto simp: ckb_consts)

lemma bin_index_up_serves_witness: "1000 + CKB_OVERHEAD \<le> 1184"
proof -
  have a: "adjust_size 1000 = Some 1024" by (simp add: adjust_size_def ckb_consts and_minus_32)
  have "bin_index_up 1024 \<le> bin_index 1184" by (simp add: bin_index_up_def bin_index_def bin_tab_def ckb_consts)
  with bin_index_up_serves [OF a, of 1184] show ?thesis by (simp add: ckb_consts)
qed

end
