(* ===== verification/Ckb_Load.thy ===== *)
theory Ckb_Load
  imports Ckb_Module Malloc_Api
begin

text \<open>
  The loading bindings of quickjs/ckb_module.c over the allocator: what they return for an item
  of the transaction that is there or missing, which arguments they read, and the search for
  the code cell.
\<close>

section \<open>What the kernel is assumed to do\<close>

text \<open>
  Partial loading, as the documentation of the syscalls has it: an item that is there (its
  bytes from the offset on are d) is stored up to the capacity of the buffer and its full
  length is reported; one that is not there gives an error and nothing is stored.
\<close>

definition kernel_item :: "ckb_kernel \<Rightarrow> load_call \<Rightarrow> bytes option \<Rightarrow> bool" where
  "kernel_item K c it \<longleftrightarrow>
     (case it of
        Some d \<Rightarrow> length d < 2 ^ 31 \<and> (\<forall>cap. ck_load K c cap = (0, of_nat (length d), take (unat cap) d))
      | None \<Rightarrow> (\<forall>cap. fst (ck_load K c cap) \<noteq> 0 \<and> snd (snd (ck_load K c cap)) = []))"

definition requested :: "LoadData \<Rightarrow> bytes \<Rightarrow> nat" where
  \<comment> \<open>the number of bytes the binding makes room for\<close>
  "requested data d = (if ld_length data = NO_VALUE then length d else unat (ld_length data))"

definition gives_buffer ::
    "('b, 'o) js_engine \<Rightarrow> 'h heap_ops \<Rightarrow> ('h \<Rightarrow> nat \<rightharpoonup> nat) \<Rightarrow> 'h \<Rightarrow> nat \<Rightarrow> bytes \<Rightarrow>
     ('b, 'o) outcome \<Rightarrow> 'h \<Rightarrow> bool" where
  \<comment> \<open>an exception and no block when there is no memory; otherwise one new block of at least n
      bytes, handed to an array buffer over the first n bytes of d\<close>
  "gives_buffer E H blocks h n d out h' \<longleftrightarrow>
     (if fst (h_malloc H h n) = 0 then out = Return JException \<and> blocks h' = blocks h
      else \<exists>p k. blocks h p = None \<and> n \<le> k \<and> blocks h' = (blocks h)(p \<mapsto> k) \<and>
             out = Return (js_new_array_buffer E p (take n d) (int (min n (length d)))))"

lemma real_len_eq:
  assumes "l < 2 ^ 31"
  shows "sint (ucast (if of_nat l < n then of_nat l else n :: u64) :: u32) = int (min l (unat n))"
proof -
  have u: "unat (of_nat l :: u64) = l" using assms by (intro unat_of_nat_u64) simp
  define m where "m = (if of_nat l < n then of_nat l else n :: u64)"
  have m: "unat m = min l (unat n)" by (simp add: m_def word_less_nat_alt u min_def)
  then have lt: "unat m < 2 ^ 31" using assms by simp
  have "take_bit 32 (unat m) = unat m" using lt by (intro take_bit_nat_eq_self) simp
  then have u32: "unat (ucast m :: u32) = unat m" by (simp add: unsigned_ucast_eq)
  have "sint (ucast m :: u32) = signed_take_bit 31 (uint (ucast m :: u32))" by (simp add: sint_uint)
  also have "uint (ucast m :: u32) = int (unat m)" unfolding u32 [symmetric] by (rule uint_nat)
  also have "signed_take_bit 31 (int (unat m)) = int (unat m)"
    using iffD2 [OF of_nat_less_iff [where 'a = int] lt] order_trans [OF _ uint_ge_0 [of m], of "- 2147483648"]
    by (intro signed_take_bit_int_eq_self) simp_all
  finally show ?thesis unfolding m_def [symmetric] by (simp only: m)
qed

lemma normal_offset_length [simp]: "ld_length (normal_offset data) = ld_length data"
  by (simp add: normal_offset_def)

section \<open>Loading over any allocator\<close>

locale load_heap = c_heap
begin

lemma load_into_item:
  assumes h: "hinv h" and it: "kernel_item K (func data) (Some d)"
    and r: "load_into E H K h func data evs = (out, h', evs')"
  shows "hinv h' \<and> gives_buffer E H live h (unat (ld_length data)) d out h'"
proof -
  let ?n = "unat (ld_length data)"
  have l: "length d < 2 ^ 31" and ld: "\<And>cap. ck_load K (func data) cap = (0, of_nat (length d), take (unat cap) d)"
    using it by (simp_all add: kernel_item_def)
  have lt: "?n < 2 ^ 64" using unat_u64_bound [of "ld_length data"] by simp
  obtain p h1 where m: "h_malloc H h ?n = (p, h1)" by fastforce
  note i1 = malloc_inv [OF h lt m]
  show ?thesis
  proof (cases "p = 0")
    case True
    with r m i1 malloc_null [OF h lt] show ?thesis by (auto simp: load_into_def gives_buffer_def)
  next
    case np: False
    then have "out = Return (js_new_array_buffer E p (take ?n d) (int (min ?n (length d)))) \<and> h' = h1"
      using r ld m real_len_eq [OF l, of "ld_length data"] by (auto simp: load_into_def Let_def min.commute)
    with np m i1 malloc_fresh [OF h lt m np] show ?thesis by (auto simp: gives_buffer_def)
  qed
qed

lemma syscall_load_item:
  assumes h: "hinv h" and it: "kernel_item K (func (normal_offset data)) (Some d)"
    and K: "\<And>l. func ((normal_offset data)\<lparr>ld_length := l\<rparr>) = func (normal_offset data)"
    and r: "syscall_load E H K h func data = (out, h', evs)"
  shows "if ld_length data = 0 then out = Return (JS_NewUint32 (of_nat (length d))) \<and> h' = h
     else hinv h' \<and> gives_buffer E H live h (requested data d) d out h'"
proof -
  have l: "length d < 2 ^ 31" and ld: "\<And>cap. ck_load K (func (normal_offset data)) cap = (0, of_nat (length d), take (unat cap) d)"
    using it by (simp_all add: kernel_item_def)
  have u: "unat (of_nat (length d) :: u64) = length d" using l by (intro unat_of_nat_u64) simp
  have uc: "(ucast (of_nat (length d) :: u64) :: u32) = of_nat (length d)"
    using l by (simp add: unsigned_of_nat take_bit_nat_eq_self)
  have nv: "NO_VALUE \<noteq> 0" by (simp add: NO_VALUE_def)
  consider (zero) "ld_length data = 0" | (all) "ld_length data = NO_VALUE"
    | (some) "ld_length data \<noteq> NO_VALUE" "ld_length data \<noteq> 0" by blast
  then show ?thesis
  proof cases
    case zero
    with r ld uc show ?thesis by (auto simp: syscall_load_def Let_def)
  next
    case all
    let ?data = "(normal_offset data)\<lparr>ld_length := of_nat (length d)\<rparr>"
    have "load_into E H K h func ?data [Ev_store 0 (take (unat NO_VALUE) d)] = (out, h', evs)"
      using r ld all nv by (simp add: syscall_load_def Let_def)
    moreover have "kernel_item K (func ?data) (Some d)" using it K by simp
    ultimately have "hinv h' \<and> gives_buffer E H live h (unat (ld_length ?data)) d out h'"
      by (intro load_into_item [OF h])
    then show ?thesis using all nv by (simp add: requested_def u)
  next
    case some
    have "load_into E H K h func (normal_offset data) [] = (out, h', evs)"
      using r some by (simp add: syscall_load_def Let_def)
    from load_into_item [OF h it this] some show ?thesis by (simp add: requested_def)
  qed
qed

text \<open>A missing item: with an explicit length, the buffer that was allocated for it is lost.\<close>

lemma syscall_load_missing:
  assumes h: "hinv h" and it: "kernel_item K (func (normal_offset data)) None"
    and r: "syscall_load E H K h func data = (out, h', evs)"
  shows "out = Return JException \<and>
    (if ld_length data = 0 \<or> ld_length data = NO_VALUE then h' = h
     else hinv h' \<and>
       (if fst (h_malloc H h (unat (ld_length data))) = 0 then live h' = live h
        else \<exists>p k. live h p = None \<and> unat (ld_length data) \<le> k \<and> live h' = (live h)(p \<mapsto> k)))"
proof -
  obtain err len stored where ld: "ck_load K (func (normal_offset data)) (ld_length data) = (err, len, stored)" "err \<noteq> 0"
    using it by (cases "ck_load K (func (normal_offset data)) (ld_length data)") (auto simp: kernel_item_def dest: spec [of _ "ld_length data"])
  show ?thesis
  proof (cases "ld_length data = 0 \<or> ld_length data = NO_VALUE")
    case True
    moreover have "NO_VALUE \<noteq> 0" by (simp add: NO_VALUE_def)
    ultimately show ?thesis using r ld by (auto simp: syscall_load_def Let_def)
  next
    case False
    have lt: "unat (ld_length data) < 2 ^ 64" using unat_u64_bound [of "ld_length data"] by simp
    obtain p h1 where m: "h_malloc H h (unat (ld_length data)) = (p, h1)" by fastforce
    note i1 = malloc_inv [OF h lt m]
    have "out = Return JException \<and> h' = h1"
      using r ld m False by (auto simp: syscall_load_def load_into_def Let_def split: if_splits)
    with False m i1 malloc_null [OF h lt] malloc_fresh [OF h lt m] show ?thesis by auto
  qed
qed

end

section \<open>The bindings that take arguments\<close>

definition load_bindings :: "(string \<times> bool \<times> (LoadData \<Rightarrow> load_call)) list" where
  \<comment> \<open>name, whether it has a field argument, the syscall behind it\<close>
  "load_bindings =
     [(''load_transaction'', False, load_func_transaction),
      (''load_script'', False, load_func_script),
      (''load_cell'', False, load_func_cell),
      (''load_input'', False, load_func_input),
      (''load_header'', False, load_func_header),
      (''load_witness'', False, load_func_witness),
      (''load_cell_data'', False, load_func_cell_data),
      (''load_cell_by_field'', True, load_func_cell_by_field),
      (''load_header_by_field'', True, load_func_header_by_field),
      (''load_input_by_field'', True, load_func_input_by_field)]"

lemmas load_func_defs =
  load_func_transaction_def load_func_script_def load_func_cell_def load_func_input_def load_func_header_def
  load_func_witness_def load_func_cell_data_def load_func_cell_by_field_def load_func_header_by_field_def
  load_func_input_by_field_def

lemmas load_binding_defs =
  syscall_load_transaction_def syscall_load_script_def syscall_load_cell_def syscall_load_input_def
  syscall_load_header_def syscall_load_witness_def syscall_load_cell_data_def syscall_load_cell_by_field_def
  syscall_load_header_by_field_def syscall_load_input_by_field_def

lemma load_func_length:
  assumes "(name, fld, func) \<in> set load_bindings"
  shows "func (data\<lparr>ld_length := l\<rparr>) = func data"
  using assms unfolding load_bindings_def by (auto simp: load_func_defs)

lemma map_of_ckb_functions:
  "map_of (ckb_functions E H K) ''load_transaction'' = Some (syscall_load_transaction E H K, 1)"
  "map_of (ckb_functions E H K) ''load_script'' = Some (syscall_load_script E H K, 1)"
  "map_of (ckb_functions E H K) ''load_cell'' = Some (syscall_load_cell E H K, 3)"
  "map_of (ckb_functions E H K) ''load_input'' = Some (syscall_load_input E H K, 3)"
  "map_of (ckb_functions E H K) ''load_header'' = Some (syscall_load_header E H K, 3)"
  "map_of (ckb_functions E H K) ''load_witness'' = Some (syscall_load_witness E H K, 3)"
  "map_of (ckb_functions E H K) ''load_cell_data'' = Some (syscall_load_cell_data E H K, 3)"
  "map_of (ckb_functions E H K) ''load_cell_by_field'' = Some (syscall_load_cell_by_field E H K, 4)"
  "map_of (ckb_functions E H K) ''load_header_by_field'' = Some (syscall_load_header_by_field E H K, 4)"
  "map_of (ckb_functions E H K) ''load_input_by_field'' = Some (syscall_load_input_by_field E H K, 4)"
  by (simp_all add: ckb_functions_def)

lemma ckb_call_load:
  assumes "(name, fld, func) \<in> set load_bindings"
  obtains len where "ckb_call E H K name h args = load_with_args E H K h fld func (length args) (pad_args len args)"
    "name \<noteq> ''load_transaction'' \<Longrightarrow> name \<noteq> ''load_script'' \<Longrightarrow> 2 \<le> len"
    "1 \<le> len"
  using assms unfolding load_bindings_def
  by (auto simp: ckb_call_def map_of_ckb_functions load_binding_defs)


text \<open>Arguments in the vector stay where they are when the vector is padded.\<close>

lemma with_int64_mono:
  assumes "with_int64 E args i k = Some r" "\<And>x s. k x = Some s \<Longrightarrow> k' x = Some s"
  shows "with_int64 E (pad_args n args) i k' = Some r"
  using assms
  by (auto simp: with_int64_def arg_def pad_args_def nth_append bind_eq_Some_conv split: if_splits)

lemma with_opt_int64_mono:
  assumes "with_opt_int64 E g args i k = Some r" "\<And>x s. k x = Some s \<Longrightarrow> k' x = Some s"
  shows "with_opt_int64 E g (pad_args n args) i k' = Some r"
  using assms(1) with_int64_mono [OF _ assms(2)] by (cases g) (auto simp: with_opt_int64_def assms(2))

lemma parse_args_pad:
  assumes "parse_args E fld argc args = Some r"
  shows "parse_args E fld argc (pad_args n args) = Some r"
  using assms unfolding parse_args_def Let_def
  by (elim with_int64_mono with_opt_int64_mono)

lemma JS_ToInt64_some:
  assumes "js_conv_ok E"
  obtains r x where "JS_ToInt64 E v = Some (r, x)"
proof -
  have "\<exists>r. JS_ToInt64 E v = Some r"
    unfolding JS_ToInt64_def by (rule js_to_int_total [OF assms]) (simp only: float_to_int64_mod option.distinct not_False_eq_True)
  with that show thesis by force
qed

lemma JS_ToUint32_some:
  assumes "js_conv_ok E"
  obtains r x where "JS_ToUint32 E v = Some (r, x)"
proof -
  have "\<exists>r. JS_ToUint32 E v = Some r"
    unfolding JS_ToUint32_def JS_ToInt32_def
    by (rule js_to_int_total [OF assms]) (simp only: float_to_int32_mod option.distinct not_False_eq_True)
  with that show thesis by force
qed

definition engine_ok :: "('b, 'o) js_engine \<Rightarrow> bool" where
  "engine_ok E \<longleftrightarrow> js_conv_ok (js_conv.truncate E)"

lemma with_int64_in_bounds:
  assumes "engine_ok E" "i < length argv" "\<And>x. k x \<noteq> None"
  shows "with_int64 E argv i k \<noteq> None"
proof -
  obtain r x where "JS_ToInt64 (js_conv.truncate E) (argv ! i) = Some (r, x)"
    using JS_ToInt64_some assms(1) unfolding engine_ok_def by metis
  with assms(2,3) show ?thesis by (simp add: with_int64_def arg_def)
qed

lemma with_opt_int64_in_bounds:
  assumes "engine_ok E" "g \<Longrightarrow> i < length argv" "\<And>x. k x \<noteq> None"
  shows "with_opt_int64 E g argv i k \<noteq> None"
  using with_int64_in_bounds [OF assms(1) _ assms(3)] assms(2,3) by (cases g) (auto simp: with_opt_int64_def)

lemma parse_args_in_bounds:
  assumes "engine_ok E" "2 \<le> length argv" "argc \<le> length argv"
  shows "parse_args E fld argc argv \<noteq> None"
  unfolding parse_args_def Let_def
  by (intro with_int64_in_bounds with_opt_int64_in_bounds assms(1))
    (use assms(2,3) in \<open>auto split: if_splits\<close>)

lemma load_with_args_in_bounds:
  assumes "engine_ok E" "2 \<le> length argv" "argc \<le> length argv"
  shows "load_with_args E H K h fld func argc argv \<noteq> None"
  using parse_args_in_bounds [OF assms] by (auto simp: load_with_args_def)

lemma cell_args_in_bounds:
  assumes "engine_ok E" "2 \<le> length argv"
  shows "cell_args E argv \<noteq> None"
proof -
  obtain r x where "JS_ToUint32 (js_conv.truncate E) (argv ! 1) = Some (r, x)"
    using JS_ToUint32_some assms(1) unfolding engine_ok_def by metis
  with assms(2) show ?thesis by (auto simp: cell_args_def arg_def Let_def split: option.splits)
qed

lemma get_property_some:
  assumes "engine_ok E"
  obtains r x where "get_property E v p d = Some (r, x)"
proof -
  obtain r x where "JS_ToInt64 (js_conv.truncate E) (js_get_property_str E v p) = Some (r, x)"
    using JS_ToInt64_some assms unfolding engine_ok_def by metis
  then have "\<exists>r x. get_property E v p d = Some (r, x)" by (simp add: get_property_def Let_def)
  with that show thesis by blast
qed

lemma exec_cell_in_bounds:
  assumes E: "engine_ok E" and l: "4 \<le> length argv" "argc \<le> 259"
  shows "syscall_exec_cell E H K h argc argv \<noteq> None"
proof -
  obtain ca where ca: "cell_args E argv = Some ca" using cell_args_in_bounds [OF E, of argv] l by auto
  obtain r2 x2 where 2: "JS_ToUint32 (js_conv.truncate E) (argv ! 2) = Some (r2, x2)"
    using JS_ToUint32_some E unfolding engine_ok_def by metis
  obtain r3 x3 where 3: "JS_ToUint32 (js_conv.truncate E) (argv ! 3) = Some (r3, x3)"
    using JS_ToUint32_some E unfolding engine_ok_def by metis
  have "arg argv 2 = Some (argv ! 2)" "arg argv 3 = Some (argv ! 3)" using l by (auto simp: arg_def)
  moreover have "passed_args E 4 argc argv = Some (map (js_to_cstring E) (take (argc - 4) (drop 4 argv)))"
    using l(2) by (simp add: passed_args_def)
  ultimately show ?thesis using ca 2 3 by (cases ca) (auto simp: syscall_exec_cell_def Let_def split: option.splits)
qed

lemma spawn_cell_in_bounds:
  assumes E: "engine_ok E" and l: "3 \<le> length argv" "argc \<le> 259"
  shows "syscall_spawn_cell E H K h argc argv \<noteq> None"
proof -
  obtain ca where ca: "cell_args E argv = Some ca" using cell_args_in_bounds [OF E, of argv] l by auto
  obtain r1 x1 where 1: "get_property E (argv ! 2) ''content_length'' 0 = Some (r1, x1)" by (rule get_property_some [OF E])
  obtain r2 x2 where 2: "get_property E (argv ! 2) ''memory_limit'' 8 = Some (r2, x2)" by (rule get_property_some [OF E])
  obtain r3 x3 where 3: "get_property E (argv ! 2) ''offset'' 0 = Some (r3, x3)" by (rule get_property_some [OF E])
  obtain r4 x4 where 4: "get_property E (argv ! 2) ''length'' 0 = Some (r4, x4)" by (rule get_property_some [OF E])
  have "arg argv 2 = Some (argv ! 2)" using l by (auto simp: arg_def)
  moreover have "passed_args E 3 argc argv = Some (map (js_to_cstring E) (take (argc - 3) (drop 3 argv)))"
    using l(2) by (simp add: passed_args_def)
  ultimately show ?thesis using ca 1 2 3 4
    by (cases ca) (auto simp: syscall_spawn_cell_def Let_def split: prod.splits)
qed

section \<open>Loading with the allocator of the program\<close>

interpretation ckb_load: load_heap ckb_heap alloc_inv live
  by unfold_locales

lemma ckb_call_load_data:
  assumes b: "(name, fld, func) \<in> set load_bindings"
    and p: "parse_args E fld (length args) args = Some (Some data)"
  shows "ckb_call E H K name h args = Some (syscall_load E H K h func data)"
proof -
  obtain len where "ckb_call E H K name h args = load_with_args E H K h fld func (length args) (pad_args len args)"
    by (rule ckb_call_load [OF b])
  with parse_args_pad [OF p] show ?thesis by (simp add: load_with_args_def)
qed


text \<open>
  C13. A load_* binding called for an item that is missing throws; when a length was given, the
  buffer that was allocated for it is still a block of the heap that nothing refers to.
\<close>

theorem ckb_load_missing:
  assumes "alloc_inv h" "(name, fld, func) \<in> set load_bindings"
    "parse_args E fld (length args) args = Some (Some data)"
    "kernel_item K (func (normal_offset data)) None"
  shows "\<exists>h' evs. ckb_call E ckb_heap K name h args = Some (Return JException, h', evs) \<and>
    (if ld_length data = 0 \<or> ld_length data = NO_VALUE then h' = h
     else alloc_inv h' \<and>
       (if fst (h_malloc ckb_heap h (unat (ld_length data))) = 0 then live h' = live h
        else \<exists>p k. live h p = None \<and> unat (ld_length data) \<le> k \<and> live h' = (live h)(p \<mapsto> k)))"
proof -
  obtain out h' evs where r: "syscall_load E ckb_heap K h func data = (out, h', evs)" by (rule prod_cases3)
  note m = ckb_load.syscall_load_missing [OF assms(1,4) r]
  have "ckb_call E ckb_heap K name h args = Some (Return JException, h', evs)"
    unfolding ckb_call_load_data [OF assms(2,3)] r using m by simp
  with m show ?thesis by blast
qed


lemma map_of_ckb_functions_others:
  "map_of (ckb_functions E H K) ''exit'' = Some (syscall_exit E H K, 1)"
  "map_of (ckb_functions E H K) ''load_tx_hash'' = Some (syscall_load_tx_hash E H K, 1)"
  "map_of (ckb_functions E H K) ''load_script_hash'' = Some (syscall_load_script_hash E H K, 1)"
  "map_of (ckb_functions E H K) ''debug'' = Some (syscall_debug E H K, 1)"
  "map_of (ckb_functions E H K) ''vm_version'' = Some (syscall_vm_version E H K, 0)"
  "map_of (ckb_functions E H K) ''current_cycles'' = Some (syscall_current_cycles E H K, 0)"
  "map_of (ckb_functions E H K) ''exec_cell'' = Some (syscall_exec_cell E H K, 4)"
  "map_of (ckb_functions E H K) ''spawn_cell'' = Some (syscall_spawn_cell E H K, 3)"
  "map_of (ckb_functions E H K) ''set_content'' = Some (syscall_set_content E H K, 1)"
  "map_of (ckb_functions E H K) ''get_memory_limit'' = Some (syscall_get_memory_limit E H K, 0)"
  "map_of (ckb_functions E H K) ''current_memory'' = Some (syscall_current_memory E H K, 0)"
  by (simp_all add: ckb_functions_def)

lemma ckb_function_names:
  "fst ` set (ckb_functions E H K) =
     {''exit'', ''load_tx_hash'', ''load_script_hash'', ''debug'', ''vm_version'', ''current_cycles'', 
      ''exec_cell'', ''spawn_cell'', ''set_content'', ''get_memory_limit'', ''current_memory''} \<union>
     fst ` set load_bindings"
proof -
  have "fst ` set (ckb_functions E H K) =
      {''exit'', ''load_tx_hash'', ''load_transaction'', ''load_script_hash'', ''load_script'', 
      ''debug'', ''load_cell'', ''load_input'', ''load_header'', ''load_witness'', ''load_cell_data'', 
      ''load_cell_by_field'', ''load_header_by_field'', ''load_input_by_field'', ''vm_version'', 
      ''current_cycles'', ''exec_cell'', ''spawn_cell'', ''set_content'', ''get_memory_limit'', 
      ''current_memory''}"
    by (simp only: ckb_functions_def list.set image_insert image_empty fst_conv)
  moreover have "fst ` set load_bindings =
      {''load_transaction'', ''load_script'', ''load_cell'', ''load_input'', ''load_header'', 
      ''load_witness'', ''load_cell_data'', ''load_cell_by_field'', ''load_header_by_field'', 
      ''load_input_by_field''}"
    by (simp only: load_bindings_def list.set image_insert image_empty fst_conv)
  ultimately show ?thesis by (simp only: Un_insert_left Un_empty_left insert_commute)
qed

lemmas other_binding_defs =
  syscall_exit_def syscall_load_tx_hash_def syscall_load_script_hash_def syscall_debug_def syscall_vm_version_def
  syscall_current_cycles_def syscall_set_content_def syscall_get_memory_limit_def syscall_current_memory_def



lemma load_script_without_source:
  "ckb_call E H K ''load_script'' h [JInt i] = None"
  by (simp add: ckb_call_def map_of_ckb_functions syscall_load_script_def load_with_args_def parse_args_def
      with_int64_def pad_args_def arg_def JS_ToInt64_def js_to_int_simps)

section \<open>Numbers\<close>

text \<open>
  The numbers that the bindings return come back unchanged when JavaScript passes them to a
  binding: a length (JS_NewUint32) read as an int64, and a 64-bit value (JS_NewInt64) below
  2^53.
\<close>

theorem ckb_numbers_round_trip:
  assumes "\<bar>sint v\<bar> < 2 ^ 53"
  shows "JS_ToUint32 E (JS_NewUint32 w) = Some (0, w) \<and> JS_ToInt64 E (JS_NewInt64 v) = Some (0, v)"
  using JS_ToUint32_NewUint32 JS_ToInt64_NewInt64 [OF assms] by blast

section \<open>The code cell\<close>

lemma load_cell_code_info_short:
  assumes "ck_load K (L_script 0) (of_nat SCRIPT_SIZE) = (0, of_nat (length s), s)" "length s \<le> SCRIPT_SIZE"
    "mol_verify s" "length (mol_args s) < 35"
  shows "load_cell_code_info mol_verify mol_args K src out = (- 1, out)"
proof -
  have "unat (of_nat (length s) :: u64) = length s"
    using assms(2) by (intro unat_of_nat_u64) (simp add: SCRIPT_SIZE_def)
  with assms show ?thesis
    by (cases out) (simp add: load_cell_code_info_def Let_def JS_LOADER_ARGS_SIZE_def BLAKE2B_BLOCK_SIZE_def)
qed

lemma load_cell_code_found:
  assumes script: "kernel_item K (L_script 0) (Some s)" "length s \<le> SCRIPT_SIZE" "mol_verify s"
    and args: "mol_args s = r0 # r1 # code_hash @ hash_type # rest" "length code_hash = 32"
    and dep: "ck_look_for_dep K code_hash hash_type = (0, index)"
    and code: "kernel_item K (L_cell_data 0 index src) (Some code)" "code \<noteq> []"
  shows "\<exists>buf_size. load_cell_code_info mol_verify mol_args K src out = (0, buf_size, index) \<and>
    unat buf_size = length code \<and> load_cell_code K src buf_size index = (0, code)"
proof -
  have us: "unat (of_nat (length s) :: u64) = length s" "unat (of_nat SCRIPT_SIZE :: u64) = SCRIPT_SIZE"
    using script(2) by (auto intro!: unat_of_nat_u64 simp: SCRIPT_SIZE_def)
  have uc: "unat (of_nat (length code) :: u64) = length code"
    using code(1) by (intro unat_of_nat_u64) (simp add: kernel_item_def)
  then have nz: "of_nat (length code) \<noteq> (0 :: u64)" using code(2) by (metis unat_0 length_0_conv)
  have ld: "ck_load K (L_script 0) (of_nat SCRIPT_SIZE) = (0, of_nat (length s), s)"
    "\<And>cap. ck_load K (L_cell_data 0 index src) cap = (0, of_nat (length code), take (unat cap) code)"
    using script(1,2) code(1) us by (simp_all add: kernel_item_def)
  have h: "take BLAKE2B_BLOCK_SIZE (drop JS_LOADER_ARGS_SIZE (mol_args s)) = code_hash"
    "mol_args s ! (JS_LOADER_ARGS_SIZE + BLAKE2B_BLOCK_SIZE) = hash_type" "35 \<le> length (mol_args s)"
    using args by (simp_all add: JS_LOADER_ARGS_SIZE_def BLAKE2B_BLOCK_SIZE_def nth_append)
  have "load_cell_code_info mol_verify mol_args K src out = (0, of_nat (length code), index)"
    using ld us script h dep nz
    by (cases out) (simp add: load_cell_code_info_def Let_def JS_LOADER_ARGS_SIZE_def BLAKE2B_BLOCK_SIZE_def)
  moreover have "load_cell_code K src (of_nat (length code)) index = (0, code)"
    using ld uc by (simp add: load_cell_code_def)
  ultimately show ?thesis using uc by blast
qed

text \<open>
  C11. When the script's arguments are two reserved bytes, the 32 bytes of a code hash, a hash
  type and anything behind, and a dependency with that hash exists whose cell data is code (not
  empty), load_cell_code_info reports the size and the index of that cell, and load_cell_code
  with them fills the buffer with exactly the code. With arguments shorter than that it fails
  without looking for a cell.
\<close>

theorem load_cell_code_finds_code:
  assumes script: "kernel_item K (L_script 0) (Some s)" "length s \<le> SCRIPT_SIZE" "mol_verify s"
    and args: "mol_args s = r0 # r1 # code_hash @ hash_type # rest" "length code_hash = 32"
    and dep: "ck_look_for_dep K code_hash hash_type = (0, index)"
    and code: "kernel_item K (L_cell_data 0 index src) (Some code)" "code \<noteq> []"
  shows "\<exists>buf_size. load_cell_code_info mol_verify mol_args K src out = (0, buf_size, index) \<and>
    unat buf_size = length code \<and> load_cell_code K src buf_size index = (0, code)"
  using assms by (rule load_cell_code_found)

section \<open>A concrete engine and kernel\<close>

definition demo_engine :: "(unit, unit) js_engine" where
  "demo_engine = js_conv.extend demo_conv
     (js_engine.fields (\<lambda>p bs n. JObject ()) (\<lambda>v. v) (\<lambda>v. None) (\<lambda>v. None) (\<lambda>v p. JUndefined) (\<lambda>fs. JObject ()))"

definition demo_kernel :: ckb_kernel where
  \<comment> \<open>a script, and cell data in the cells with index 0 and 1\<close>
  "demo_kernel =
     \<lparr>ck_load = (\<lambda>c cap.
        case c of
          L_script off \<Rightarrow> (0, 35, take (unat cap) (replicate 35 7))
        | L_cell_data off index src \<Rightarrow>
            if unat index < 2 then (0, 3, take (unat cap) [1, 2, 3]) else (1, cap, [])
        | _ \<Rightarrow> (1, cap, [])),
      ck_look_for_dep = (\<lambda>hash t. (0, 1)),
      ck_exec_cell = (\<lambda>hash t off len n args. None),
      ck_spawn_cell = (\<lambda>hash t off len n args lim clen. (1, 0, 0, [])),
      ck_set_content = (\<lambda>c. 0), ck_vm_version = 1, ck_current_cycles = 0, ck_memory_limit = 8,
      ck_current_memory = 1\<rparr>"

lemma demo_engine_ok: "engine_ok demo_engine"
  using demo_conv_ok by (simp add: engine_ok_def demo_engine_def js_conv.defs demo_conv_def)

lemma demo_kernel_item:
  "unat index < 2 \<Longrightarrow> kernel_item demo_kernel (L_cell_data off index src) (Some [1, 2, 3])"
  "\<not> unat index < 2 \<Longrightarrow> kernel_item demo_kernel (L_cell_data off index src) None"
  "kernel_item demo_kernel (L_script off) (Some (replicate 35 7))"
  by (simp_all add: kernel_item_def demo_kernel_def)

lemma demo_args:
  "parse_args demo_engine False 3 [JInt i, JInt src, JInt n] =
     Some (Some \<lparr>ld_length = scast n, ld_index = scast i, ld_source = scast src, ld_offset = NO_VALUE, ld_field = NO_VALUE\<rparr>)"
  by (simp add: parse_args_def with_int64_def with_opt_int64_def arg_def JS_ToInt64_def js_to_int_simps)

lemma demo_binding: "(''load_cell_data'', False, load_func_cell_data) \<in> set load_bindings"
  by (simp add: load_bindings_def)

abbreviation demo_load :: "u64 \<Rightarrow> LoadData" where
  "demo_load i \<equiv> \<lparr>ld_length = 2, ld_index = i, ld_source = 1, ld_offset = NO_VALUE, ld_field = NO_VALUE\<rparr>"

lemma demo_data:
  "parse_args demo_engine False (length [JInt i, JInt 1, JInt 2]) [JInt i, JInt 1, JInt 2] = Some (Some (demo_load (scast i)))"
  using demo_args [of i 1 2] by (simp add: numeral_3_eq_3)

lemma demo_data_kernel_item:
  "kernel_item demo_kernel (load_func_cell_data (normal_offset (demo_load (scast (0 :: u32))))) (Some [1, 2, 3])"
  "kernel_item demo_kernel (load_func_cell_data (normal_offset (demo_load (scast (5 :: u32))))) None"
  by (simp_all add: load_func_cell_data_def normal_offset_def demo_kernel_item)


lemma ckb_load_missing_witness:
  "\<exists>h' evs. ckb_call demo_engine ckb_heap demo_kernel ''load_cell_data'' demo_heap [JInt 5, JInt 1, JInt 2] = Some (Return JException, h', evs) \<and>
     (fst (h_malloc ckb_heap demo_heap 2) \<noteq> 0 \<longrightarrow> live h' \<noteq> live demo_heap)"
proof -
  have nv: "NO_VALUE \<noteq> 2" by (simp add: NO_VALUE_def)
  obtain h' evs where r: "ckb_call demo_engine ckb_heap demo_kernel ''load_cell_data'' demo_heap [JInt 5, JInt 1, JInt 2] =
      Some (Return JException, h', evs)"
    and c: "if ld_length (demo_load (scast (5 :: u32))) = 0 \<or> ld_length (demo_load (scast (5 :: u32))) = NO_VALUE then h' = demo_heap
      else alloc_inv h' \<and>
        (if fst (h_malloc ckb_heap demo_heap (unat (ld_length (demo_load (scast (5 :: u32)))))) = 0 then live h' = live demo_heap
         else \<exists>p k. live demo_heap p = None \<and> unat (ld_length (demo_load (scast (5 :: u32)))) \<le> k \<and> live h' = (live demo_heap)(p \<mapsto> k))"
    using ckb_load_missing [OF demo_heap_inv demo_binding demo_data [of 5] demo_data_kernel_item(2)] by blast
  have "live h' \<noteq> live demo_heap" if ne: "fst (h_malloc ckb_heap demo_heap 2) \<noteq> 0"
  proof -
    from c ne nv obtain p k where "live demo_heap p = None" "live h' = (live demo_heap)(p \<mapsto> k)"
      by (auto split: if_splits)
    then show ?thesis by (metis fun_upd_same option.distinct(1))
  qed
  with r show ?thesis by blast
qed



lemma ckb_numbers_round_trip_witness:
  "JS_ToUint32 demo_conv (JS_NewUint32 0xffffffff) = Some (0, 0xffffffff) \<and>
   JS_ToInt64 demo_conv (JS_NewInt64 0x1fffffffffffff) = Some (0, 0x1fffffffffffff)"
  by (rule ckb_numbers_round_trip) simp

lemma load_cell_code_finds_code_witness:
  "\<exists>n. load_cell_code_info (\<lambda>s. True) (\<lambda>s. s) demo_kernel 3 (0, 0) = (0, n, 1) \<and>
     unat n = 3 \<and> load_cell_code demo_kernel 3 n 1 = (0, [1, 2, 3])"
proof -
  have "ck_look_for_dep demo_kernel (replicate 32 7) 7 = (0, 1)" by (simp add: demo_kernel_def)
  moreover have "(replicate 35 7 :: bytes) = 7 # 7 # replicate 32 7 @ 7 # []" by (simp add: numeral_eq_Suc)
  ultimately show ?thesis
    using load_cell_code_finds_code [of demo_kernel "replicate 35 7" "\<lambda>s. True" "\<lambda>s. s" 7 7 "replicate 32 7" 7 "[]" 1 3 "[1, 2, 3]" "(0, 0)"]
      demo_kernel_item(3) [of 0] demo_kernel_item(1) [of 1 0 3]
    by (simp add: SCRIPT_SIZE_def numeral_3_eq_3)
qed

end
