(* ===== verification/Qjs_Main.thy ===== *)
theory Qjs_Main
  imports Std_Module Ckb_Load
begin

text \<open>
  quickjs/qjs.c: the program. The kernel and the molecule reader are those of theory
  Ckb_Module; \<open>ho_read_local\<close> is the debugging syscall behind read_local_file (the count and
  the bytes it stores), and \<open>ho_junk\<close> is what the local buffers hold before they are written.
\<close>

record host =
  ho_kernel :: ckb_kernel
  ho_mol_verify :: "bytes \<Rightarrow> bool"
  ho_mol_args :: "bytes \<Rightarrow> bytes"
  ho_consts :: "string \<Rightarrow> u64"
  ho_read_local :: "nat \<Rightarrow> int \<times> bytes"
  ho_junk :: bytes

datatype RunJSType = RunJsError | RunJsWithCode | RunJsWithFile | RunJsWithFileSystem
  | RunJsWithDbgFile | RunJsWithDbgFileSystem | CompileWithFile

section \<open>Arguments\<close>

record run_flags =
  has_r :: bool
  has_f :: bool
  has_e :: bool
  has_c :: bool

text \<open>The loop over argv, every argument a C string.\<close>

fun scan_args :: "bytes list \<Rightarrow> run_flags \<Rightarrow> run_flags option" where
  "scan_args [] fl = Some fl"
| "scan_args (a # argv) fl =
     do { r \<leftarrow> strcmp a (strz [45, 114]);
          if r = 0 then scan_args argv (fl\<lparr>has_r := True\<rparr>)
          else do {
            f \<leftarrow> strcmp a (strz [45, 102]);
            if f = 0 then scan_args argv (fl\<lparr>has_f := True\<rparr>)
            else do {
              e \<leftarrow> strcmp a (strz [45, 101]);
              if e = 0 then scan_args argv (fl\<lparr>has_e := True\<rparr>)
              else do {
                c \<leftarrow> strcmp a (strz [45, 99]);
                if c = 0 then scan_args argv (fl\<lparr>has_c := True\<rparr>) else scan_args argv fl } } } }"

definition parse_run_args :: "bytes list \<Rightarrow> RunJSType option" where
  "parse_run_args argv =
     do { fl \<leftarrow> scan_args argv \<lparr>has_r = False, has_f = False, has_e = False, has_c = False\<rparr>;
          Some (if has_c fl then CompileWithFile
                else if has_e fl then
                  (if length argv < 2 then RunJsError
                   else if has_r fl \<or> has_f fl then RunJsError else RunJsWithCode)
                else if has_r fl then (if has_f fl then RunJsWithDbgFileSystem else RunJsWithDbgFile)
                else if has_f fl then RunJsWithFileSystem
                else RunJsWithFile) }"

section \<open>Printing errors\<close>

definition js_dump_obj :: "('w, 'v) js_vm \<Rightarrow> ('w, 'h) process \<Rightarrow> 'v \<Rightarrow> ('w, 'h) process" where
  "js_dump_obj V s val =
     (let (str, w) = vm_to_cstring V (pr_vm s) val; s = set_vm w s in
      case str of
        Some t \<Rightarrow> print_out (O_printf ''%s'' [A_str t]) s
      | None \<Rightarrow> print_out (O_printf ''[exception]'' []) s)"

definition js_std_dump_error1 :: "('w, 'v) js_vm \<Rightarrow> ('w, 'h) process \<Rightarrow> 'v \<Rightarrow> ('w, 'h) process" where
  "js_std_dump_error1 V s exception_val =
     (let is_error = vm_is_error V (pr_vm s) exception_val;
          s = js_dump_obj V s exception_val
      in if is_error then
           (let (val, w) = vm_get_property V (pr_vm s) exception_val ''stack''; s = set_vm w s in
            if \<not> vm_is_undefined V val then js_dump_obj V s val else s)
         else s)"

definition js_std_dump_error :: "('w, 'v) js_vm \<Rightarrow> ('w, 'h) process \<Rightarrow> ('w, 'h) process" where
  "js_std_dump_error V s =
     (let (exception_val, w) = vm_get_exception V (pr_vm s) in js_std_dump_error1 V (set_vm w s) exception_val)"

section \<open>Evaluation\<close>

definition finish_eval :: "('w, 'v) js_vm \<Rightarrow> ('w, 'h) process \<Rightarrow> 'v option \<Rightarrow> int \<times> ('w, 'h) process" where
  "finish_eval V s val =
     (case val of None \<Rightarrow> (- 1, js_std_dump_error V s) | Some v \<Rightarrow> (0, s))"

text \<open>Buffers are the bytes from the pointer to the end of the object it points into.\<close>

definition eval_buf ::
  "('w, 'v) js_vm \<Rightarrow> host \<Rightarrow> ('w, 'h) process \<Rightarrow> bytes \<Rightarrow> nat \<Rightarrow> bytes \<Rightarrow> nat \<Rightarrow> (int \<times> ('w, 'h) process) option" where
  "eval_buf V G s buf buf_len filename eval_flags =
     do { b0 \<leftarrow> rd buf 0;
          if b0 = BC_VERSION then
            do { (val, w) \<leftarrow> js_read_object V (pr_vm s) buf buf_len JS_READ_OBJ_BYTECODE;
                 let s = set_vm w s;
                 case val of
                   None \<Rightarrow> Some (- 1, js_std_dump_error V s)
                 | Some v \<Rightarrow>
                     (if vm_is_module V v then
                        (let (r, w) = vm_resolve_module V (pr_vm s) v; s = set_vm w s in
                         if r < 0 then Some (- 1, js_std_dump_error V s)
                         else do { (meta, w) \<leftarrow> js_module_set_import_meta V (pr_vm s) v True (ho_junk G);
                                   let (val, w) = vm_eval_function V w v;
                                   Some (finish_eval V (set_vm w s) val) })
                      else (let (val, w) = vm_eval_function V (pr_vm s) v in Some (finish_eval V (set_vm w s) val))) }
          else if eval_flags AND JS_EVAL_TYPE_MASK = JS_EVAL_TYPE_MODULE then
            do { (val, w) \<leftarrow> js_eval V (pr_vm s) buf buf_len filename (eval_flags OR JS_EVAL_FLAG_COMPILE_ONLY);
                 case val of
                   None \<Rightarrow> Some (finish_eval V (set_vm w s) None)
                 | Some v \<Rightarrow> (let (val, w) = vm_eval_function V w v in Some (finish_eval V (set_vm w s) val)) }
          else
            do { (val, w) \<leftarrow> js_eval V (pr_vm s) buf buf_len filename eval_flags;
                 Some (finish_eval V (set_vm w s) val) } }"

definition MAIN_FILE_NAME :: bytes where "MAIN_FILE_NAME = [109, 97, 105, 110, 46, 106, 115]"
definition MAIN_FILE_NAME_BC :: bytes where "MAIN_FILE_NAME_BC = [109, 97, 105, 110, 46, 98, 99]"
definition run_from_file_name :: bytes where
  "run_from_file_name = [60, 114, 117, 110, 95, 102, 114, 111, 109, 95, 102, 105, 108, 101, 62]"
definition cmdline_name :: bytes where "cmdline_name = [60, 99, 109, 100, 108, 105, 110, 101, 62]"

text \<open>The macros CHECK and CHECK2: a failed check is printed and the code is returned.\<close>

definition check_failed :: "int \<Rightarrow> ('w, 'h) process \<Rightarrow> int \<times> ('w, 'h) process" where
  "check_failed code s = (code, print_out (O_check code) s)"

definition check_result :: "int \<times> ('w, 'h) process \<Rightarrow> int \<times> ('w, 'h) process" where
  "check_result = (\<lambda>(err, s). if err \<noteq> 0 then check_failed err s else (err, s))"

definition run_from_file_system_buf ::
  "'h heap_ops \<Rightarrow> ('w, 'v) js_vm \<Rightarrow> host \<Rightarrow> ('w, 'h) process \<Rightarrow> bytes \<Rightarrow> u64 \<Rightarrow> (int \<times> ('w, 'h) process) option" where
  "run_from_file_system_buf H V G s buf buf_size =
     do { (err, fs, h) \<leftarrow> ckb_load_fs H (pr_heap s) (pr_fs s) (Some buf) buf_size;
          let s = s\<lparr>pr_heap := h, pr_fs := fs\<rparr>;
          if err \<noteq> 0 then Some (check_failed err s)
          else do {
            (err, main_file, h) \<leftarrow> ckb_get_file H (pr_heap s) (pr_fs s) (strz MAIN_FILE_NAME);
            let s = s\<lparr>pr_heap := h\<rparr>;
            (err, main_file, s) \<leftarrow>
              (if err \<noteq> 0
               then do { (err, f, h) \<leftarrow> ckb_get_file H (pr_heap s) (pr_fs s) (strz MAIN_FILE_NAME_BC);
                         Some (err, f, s\<lparr>pr_heap := h\<rparr>) }
               else Some (err, main_file, s));
            if err \<noteq> 0 then Some (check_failed err s)
            else do {
              f \<leftarrow> main_file;
              if ff_size f = 0 then Some (check_failed (- 1) s)
              else if p_off (ff_content f) \<le> length (p_obj (ff_content f))
              then do { r \<leftarrow> eval_buf V G s (drop (p_off (ff_content f)) (p_obj (ff_content f)))
                               (unat (ff_size f)) MAIN_FILE_NAME JS_EVAL_TYPE_MODULE;
                        Some (check_result r) }
              else None } } }"

definition LOCAL_BUF_SIZE :: nat where "LOCAL_BUF_SIZE = 1024 * 512"

definition local_read_failed :: "int \<Rightarrow> ('w, 'h) process \<Rightarrow> ('w, 'h) process" where
  "local_read_failed count s =
     print_out (if count = int LOCAL_BUF_SIZE
                then O_printf ''Error while reading from file: file too large'' []
                else O_printf ''Error while reading from file: %d'' [A_int count]) s"

text \<open>A local buffer of \<open>n\<close> bytes after the given bytes were stored at its start.\<close>

definition local_buffer :: "host \<Rightarrow> nat \<Rightarrow> bytes \<Rightarrow> bytes" where
  "local_buffer G n stored = take n (stored @ drop (length stored) (ho_junk G))"

definition run_from_local_file ::
  "'h heap_ops \<Rightarrow> ('w, 'v) js_vm \<Rightarrow> host \<Rightarrow> ('w, 'h) process \<Rightarrow> bool \<Rightarrow> (int \<times> ('w, 'h) process) option" where
  "run_from_local_file H V G s enable_fs =
     (let s = print_out (O_printf ''Run from file, local access enabled. For Testing only.'' []) s;
          (count, stored) = ho_read_local G LOCAL_BUF_SIZE;
          buf = local_buffer G LOCAL_BUF_SIZE stored
      in if count < 0 \<or> count = int LOCAL_BUF_SIZE then Some (- 1, local_read_failed count s)
         else if enable_fs then run_from_file_system_buf H V G s buf (word_of_int count)
         else do { buf \<leftarrow> wr buf (nat count) 0; eval_buf V G s buf (nat count) run_from_file_name 0 })"

definition run_from_cell_data ::
  "'h heap_ops \<Rightarrow> ('w, 'v) js_vm \<Rightarrow> host \<Rightarrow> ('w, 'h) process \<Rightarrow> bool \<Rightarrow> (int \<times> ('w, 'h) process) option" where
  "run_from_cell_data H V G s enable_fs =
     (let src = ho_consts G ''CKB_SOURCE_CELL_DEP'';
          (err, buf_size, index) = load_cell_code_info (ho_mol_verify G) (ho_mol_args G) (ho_kernel G) src (0, 0)
      in if err \<noteq> 0 then Some (err, s)
         else
           (let (err, stored) = load_cell_code (ho_kernel G) src buf_size index;
                buf = local_buffer G (unat buf_size + 1) stored
            in if err \<noteq> 0 then Some (err, s)
               else if enable_fs then run_from_file_system_buf H V G s buf buf_size
               else do { buf \<leftarrow> wr buf (unat buf_size) 0;
                         eval_buf V G s buf (unat buf_size) run_from_file_name 0 }))"

text \<open>\<open>bin2hex\<close> is _exec_bin2hex of the standard library of the chain (a submodule): the text it writes.\<close>

fun print_hex :: "(bytes \<Rightarrow> bytes) \<Rightarrow> ('w, 'h) process \<Rightarrow> bytes list \<Rightarrow> ('w, 'h) process" where
  "print_hex bin2hex s [] = s"
| "print_hex bin2hex s (l # ls) = print_hex bin2hex (print_out (O_printf ''%s'' [A_str (bin2hex l)]) s) ls"

fun lines_of_32 :: "bytes \<Rightarrow> bytes list" where
  "lines_of_32 [] = []"
| "lines_of_32 bs = take 32 bs # lines_of_32 (drop 32 bs)"

definition compile_from_file ::
  "(bytes \<Rightarrow> bytes) \<Rightarrow> ('w, 'v) js_vm \<Rightarrow> host \<Rightarrow> ('w, 'h) process \<Rightarrow> (int \<times> ('w, 'h) process) option" where
  "compile_from_file bin2hex V G s =
     (let (buf_len, stored) = ho_read_local G LOCAL_BUF_SIZE;
          buf = local_buffer G LOCAL_BUF_SIZE stored
      in if buf_len < 0 \<or> buf_len = int LOCAL_BUF_SIZE then Some (- 1, local_read_failed buf_len s)
         else do {
           (val, w) \<leftarrow> js_eval V (pr_vm s) buf (nat buf_len) [] (JS_EVAL_TYPE_MODULE OR JS_EVAL_FLAG_COMPILE_ONLY);
           let s = set_vm w s;
           case val of
             None \<Rightarrow> Some (- 1, js_std_dump_error V s)
           | Some v \<Rightarrow>
               (let (out, w) = vm_write_object V (pr_vm s) v 1; s = set_vm w s in
                case out of
                  None \<Rightarrow> Some (- 1, s)
                | Some out_buf \<Rightarrow> Some (0, print_hex bin2hex s (lines_of_32 out_buf))) })"

section \<open>main\<close>

text \<open>
  \<open>new_context\<close> is the engine state that JS_NewRuntime and JS_NewCustomContext make, and its
  failures: the runtime, then the context. The module loader that main installs is a function
  pointer the engine calls; that part of the engine's state is the argument of
  \<open>set_loader\<close>.
\<close>

datatype loader = Js_module_loader | Js_module_dummy_loader

datatype 'w new_engine = No_runtime | No_context | Engine 'w

definition main ::
  "'h heap_ops \<Rightarrow> ('w, 'v) js_vm \<Rightarrow> host \<Rightarrow> (bytes \<Rightarrow> bytes) \<Rightarrow> (loader \<Rightarrow> 'w \<Rightarrow> 'w) \<Rightarrow> 'w new_engine \<Rightarrow>
   ('w, 'h) process \<Rightarrow> bytes list \<Rightarrow> (int \<times> ('w, 'h) process) option" where
  "main H V G bin2hex set_loader engine s argv =
     do { type \<leftarrow> parse_run_args argv;
          if type = RunJsError then Some (- 1, print_out (O_printf ''ckb-js: args failed'' []) s)
          else
            (case engine of
               No_runtime \<Rightarrow> Some (- 2, print_out (O_printf ''qjs: cannot allocate JS runtime'' []) s)
             | No_context \<Rightarrow> Some (check_failed (- 1) s)
             | Engine w \<Rightarrow>
                 do { let w = set_loader Js_module_loader w;
                      w \<leftarrow> js_std_add_helpers V w (drop 1 argv);
                      let (err, w) = js_init_module_ckb V (ho_consts G) w;
                      let s = set_vm w s;
                      r \<leftarrow> (case type of
                               RunJsWithCode \<Rightarrow>
                                 (if length argv < 2 then None
                                  else do { n \<leftarrow> strlen (argv ! 1); eval_buf V G s (argv ! 1) n cmdline_name 0 })
                             | RunJsWithFile \<Rightarrow> run_from_cell_data H V G s False
                             | RunJsWithFileSystem \<Rightarrow> run_from_cell_data H V G s True
                             | RunJsWithDbgFile \<Rightarrow> run_from_local_file H V G s False
                             | RunJsWithDbgFileSystem \<Rightarrow> run_from_local_file H V G s True
                             | CompileWithFile \<Rightarrow>
                                 compile_from_file bin2hex V G (set_vm (set_loader Js_module_dummy_loader w) s)
                             | RunJsError \<Rightarrow> None);
                      Some (check_result r) }) }"

section \<open>The arguments decide the mode\<close>

lemma scan_args_eq:
  assumes "map cstr argv = map Some ss"
  shows "scan_args argv fl = Some
    \<lparr>has_r = has_r fl \<or> [45, 114] \<in> set ss, has_f = has_f fl \<or> [45, 102] \<in> set ss,
     has_e = has_e fl \<or> [45, 101] \<in> set ss, has_c = has_c fl \<or> [45, 99] \<in> set ss\<rparr>"
  using assms
proof (induction argv arbitrary: ss fl)
  case Nil then show ?case by simp
next
  case (Cons a argv)
  then obtain s ss' where ss: "ss = s # ss'" "cstr a = Some s" "map cstr argv = map Some ss'" by (cases ss) auto
  have c: "\<exists>d. strcmp a (strz [45, x]) = Some d \<and> (d = 0 \<longleftrightarrow> s = [45, x])" if "x \<noteq> 0" for x
    using that strcmp_cstr [OF ss(2) cstr_strz, of "[45, x]"] by auto
  obtain dr df de dc where d: "strcmp a (strz [45, 114]) = Some dr" "dr = 0 \<longleftrightarrow> s = [45, 114]"
    "strcmp a (strz [45, 102]) = Some df" "df = 0 \<longleftrightarrow> s = [45, 102]"
    "strcmp a (strz [45, 101]) = Some de" "de = 0 \<longleftrightarrow> s = [45, 101]"
    "strcmp a (strz [45, 99]) = Some dc" "dc = 0 \<longleftrightarrow> s = [45, 99]"
    using c [of 114] c [of 102] c [of 101] c [of 99] by auto
  consider "s = [45, 114]" | "s = [45, 102]" | "s = [45, 101]" | "s = [45, 99]"
    | "s \<noteq> [45, 114]" "s \<noteq> [45, 102]" "s \<noteq> [45, 101]" "s \<noteq> [45, 99]" by blast
  then show ?case
    by cases (use d Cons.IH [OF ss(3)] in \<open>auto simp: ss(1)\<close>)
qed

text \<open>
  The mode depends only on which of the options -c, -e, -r and -f occur among the arguments,
  not on where: -c compiles, -e evaluates the second argument and excludes -r and -f, -r reads
  the local file and -f a file system.
\<close>

theorem parse_run_args_modes:
  assumes "map cstr argv = map Some ss"
  shows "parse_run_args argv = Some
    (let r = [45, 114] \<in> set ss; f = [45, 102] \<in> set ss; e = [45, 101] \<in> set ss; c = [45, 99] \<in> set ss in
     if c then CompileWithFile
     else if e then (if length ss < 2 \<or> r \<or> f then RunJsError else RunJsWithCode)
     else if r \<and> f then RunJsWithDbgFileSystem
     else if r then RunJsWithDbgFile
     else if f then RunJsWithFileSystem
     else RunJsWithFile)"
proof -
  have "length argv = length ss" using arg_cong [OF assms, of length] by simp
  then show ?thesis using scan_args_eq [OF assms] by (simp add: parse_run_args_def Let_def)
qed

theorem parse_run_args_modes_witness:
  "parse_run_args [[45, 102, 0], [45, 114, 0]] = Some RunJsWithDbgFileSystem"
  using parse_run_args_modes [of "[[45, 102, 0], [45, 114, 0]]" "[[45, 102], [45, 114]]"] by simp

section \<open>Running code\<close>

text \<open>What eval_buf makes of a script and of a module in source form.\<close>

definition eval_script :: "('w, 'v) js_vm \<Rightarrow> ('w, 'h) process \<Rightarrow> bytes \<Rightarrow> bytes \<Rightarrow> int \<times> ('w, 'h) process" where
  "eval_script V s code name =
     (let (val, w) = vm_eval V (pr_vm s) code name 0 in finish_eval V (set_vm w s) val)"

definition eval_module :: "('w, 'v) js_vm \<Rightarrow> ('w, 'h) process \<Rightarrow> bytes \<Rightarrow> bytes \<Rightarrow> int \<times> ('w, 'h) process" where
  "eval_module V s code name =
     (let (val, w) = vm_eval V (pr_vm s) code name (JS_EVAL_TYPE_MODULE OR JS_EVAL_FLAG_COMPILE_ONLY) in
      case val of
        None \<Rightarrow> finish_eval V (set_vm w s) None
      | Some v \<Rightarrow> (let (val, w) = vm_eval_function V w v in finish_eval V (set_vm w s) val))"

lemma rd_terminated: "rd (code @ 0 # rest) 0 = Some (case code of [] \<Rightarrow> 0 | b # _ \<Rightarrow> b)"
  by (cases code) (simp_all add: rd_def)

lemma eval_buf_script:
  assumes "code = [] \<or> hd code \<noteq> BC_VERSION"
  shows "eval_buf V G s (code @ 0 # rest) (length code) name 0 = Some (eval_script V s code name)"
  using assms by (cases code) (auto simp: eval_buf_def rd_terminated js_eval_terminated eval_script_def BC_VERSION_def
    JS_EVAL_TYPE_MODULE_def js_eval_def nth_append rd_def split: prod.split)

lemma eval_buf_module:
  assumes "code = [] \<or> hd code \<noteq> BC_VERSION"
  shows "eval_buf V G s (code @ 0 # rest) (length code) name JS_EVAL_TYPE_MODULE = Some (eval_module V s code name)"
proof -
  have "JS_EVAL_TYPE_MODULE AND JS_EVAL_TYPE_MASK = JS_EVAL_TYPE_MODULE"
    by (simp add: JS_EVAL_TYPE_MODULE_def JS_EVAL_TYPE_MASK_def)
  moreover have "rd (code @ 0 # rest) 0 = Some b \<Longrightarrow> b \<noteq> BC_VERSION" for b
    using assms by (cases code) (auto simp: rd_def BC_VERSION_def)
  ultimately show ?thesis
    by (cases "rd (code @ 0 # rest) 0")
      (auto simp: eval_buf_def js_eval_terminated eval_module_def rd_terminated split: prod.split option.split)
qed

section \<open>From main to the engine\<close>

text \<open>The engine state that main has prepared when it starts to run code.\<close>

definition prepared :: "('w, 'v) js_vm \<Rightarrow> host \<Rightarrow> (loader \<Rightarrow> 'w \<Rightarrow> 'w) \<Rightarrow> 'w \<Rightarrow> bytes list \<Rightarrow> 'w option" where
  "prepared V G set_loader w argv =
     do { w \<leftarrow> js_std_add_helpers V (set_loader Js_module_loader w) (drop 1 argv);
          Some (snd (js_init_module_ckb V (ho_consts G) w)) }"

lemma set_args_total: "\<forall>a \<in> set argv. cstr a \<noteq> None \<Longrightarrow> \<exists>w'. set_args V w args i argv = Some w'"
  by (induction argv arbitrary: w i) (auto split: prod.split)

lemma prepared_total:
  assumes "map cstr argv = map Some ss"
  shows "\<exists>w'. prepared V G set_loader w argv = Some w'"
proof -
  have "\<forall>a \<in> set argv. cstr a \<noteq> None"
    using assms by (metis (no_types, lifting) in_set_conv_nth length_map nth_map option.distinct(1))
  then have a: "\<forall>a \<in> set (drop 1 argv). cstr a \<noteq> None" by (meson in_set_dropD)
  have "\<exists>w'. js_std_add_helpers V w0 (drop 1 argv) = Some w'" for w0
  proof -
    obtain console w1 where 1: "vm_new_object V w0 = (console, w1)" by fastforce
    obtain args w2 where 2: "vm_new_array V (vm_set_property V (set_function V (set_function V w1 console F_print ''log'' 1)
        console F_assert ''assert'' 1) (vm_global V w0) ''console'' console) = (args, w2)" by fastforce
    obtain w3 where "set_args V w2 args 0 (drop 1 argv) = Some w3" using set_args_total [OF a, of V w2 args 0] by blast
    then show ?thesis using 1 2 by (simp add: js_std_add_helpers_def Let_def)
  qed
  from this [of "set_loader Js_module_loader w"] show ?thesis by (auto simp: prepared_def)
qed

lemma main_runs:
  assumes "prepared V G set_loader w argv = Some w'" "parse_run_args argv = Some t"
    "t \<in> {RunJsWithFile, RunJsWithFileSystem}"
  shows "main H V G bin2hex set_loader (Engine w) s argv =
    map_option check_result (run_from_cell_data H V G (set_vm w' s) (t = RunJsWithFileSystem))"
proof -
  obtain w1 where w1: "js_std_add_helpers V (set_loader Js_module_loader w) (drop 1 argv) = Some w1"
    "w' = snd (js_init_module_ckb V (ho_consts G) w1)"
    using assms(1) by (auto simp: prepared_def bind_eq_Some_iff)
  have "js_init_module_ckb V (ho_consts G) w1 = (0, w')" by (simp add: w1(2) js_init_module_ckb_def Let_def split: prod.split)
  then show ?thesis using assms(2,3) w1(1) by (auto simp: main_def map_conv_bind_option comp_def)
qed

text \<open>What the kernel and the script have to say for the code cell to be found.\<close>

definition code_cell :: "host \<Rightarrow> bytes \<Rightarrow> bool" where
  "code_cell G code =
     (\<exists>sc r0 r1 code_hash hash_type rest index.
        kernel_item (ho_kernel G) (L_script 0) (Some sc) \<and> length sc \<le> SCRIPT_SIZE \<and> ho_mol_verify G sc \<and>
        ho_mol_args G sc = r0 # r1 # code_hash @ hash_type # rest \<and> length code_hash = 32 \<and>
        ck_look_for_dep (ho_kernel G) code_hash hash_type = (0, index) \<and>
        kernel_item (ho_kernel G) (L_cell_data 0 index (ho_consts G ''CKB_SOURCE_CELL_DEP'')) (Some code) \<and> code \<noteq> [])"

lemma run_from_code_cell:
  assumes "code_cell G code" "length code < length (ho_junk G)"
  obtains last bs where "run_from_cell_data H V G s False = eval_buf V G s (code @ [0]) (length code) run_from_file_name 0"
    "run_from_cell_data H V G s True = run_from_file_system_buf H V G s (code @ [last]) bs"
proof -
  let ?src = "ho_consts G ''CKB_SOURCE_CELL_DEP''"
  obtain bs index where l: "load_cell_code_info (ho_mol_verify G) (ho_mol_args G) (ho_kernel G) ?src (0, 0) = (0, bs, index)"
    "unat bs = length code" "load_cell_code (ho_kernel G) ?src bs index = (0, code)"
    using assms(1) load_cell_code_found [of "ho_kernel G" _ "ho_mol_verify G" "ho_mol_args G" _ _ _ _ _ _ ?src code "(0, 0)"]
    unfolding code_cell_def by blast
  have buf: "local_buffer G (length code + 1) code = code @ [ho_junk G ! length code]"
    using assms(2) by (simp add: local_buffer_def) (metis Cons_nth_drop_Suc take_0 take_Suc_Cons)
  show ?thesis
    by (rule that [of "ho_junk G ! length code" bs])
      (use l buf in \<open>simp_all add: run_from_cell_data_def wr_def\<close>)
qed


lemma load_fs_packed_loads:
  assumes "pack_fs files = Some img" "\<And>h n. fst (h_malloc H h n) \<noteq> 0"
  shows "\<exists>h'. load_fs H h (Some old) (Some (img @ slack)) buflen =
    Some (0, Some (Some (CellFileSystem (Some (packed_node files (img @ slack))) old)), h')"
proof -
  obtain m b where mb: "pack_meta 0 files = Some m" "pack_blobs files = Some b"
    and n: "length files < 2 ^ 32" and img: "img = nat_le 4 (length files) @ m @ b"
    using assms(1) by (rule pack_fs_D)
  have cnt: "rd_u32 (img @ slack) 0 = Some (of_nat (length files))"
    by (rule rd_u32_nat_le_at [OF n, of _ "[]" "m @ b @ slack"]) (simp_all add: img)
  have "rd_entries (img @ slack) (length (nat_le 4 (length files))) (length files) = Some (packed_entries 0 files)"
    by (rule rd_entries_packed [OF mb(1), of _ _ "b @ slack"]) (simp add: img)
  then have es: "rd_entries (img @ slack) 4 (length files) = Some (packed_entries 0 files)" by simp
  obtain np h1 where 1: "h_malloc H h sizeof_node = (np, h1)" "np \<noteq> 0" using assms(2) by (metis prod.collapse)
  obtain cp h2 where 2: "h_malloc H h1 sizeof_cfs = (cp, h2)" "cp \<noteq> 0" using assms(2) by (metis prod.collapse)
  obtain fp h3 where 3: "h_malloc H h2 (sizeof_entry * length files) = (fp, h3)" "fp \<noteq> 0"
    using assms(2) by (metis prod.collapse)
  show ?thesis using 1 2 3 cnt es of_nat_u32_eq_0 [OF n] unat_of_nat_u32 [OF n]
    by (auto simp: load_fs_def packed_node_def sizeof_entry_def)
qed

lemma run_packed_main:
  assumes "pack_fs files = Some img" "pr_fs s = None" "\<And>h n. fst (h_malloc H h n) \<noteq> 0"
    and "map_of files MAIN_FILE_NAME = Some ct" "ct \<noteq> []" "hd ct \<noteq> BC_VERSION"
  shows "\<exists>s'. pr_vm s' = pr_vm s \<and> pr_out s' = pr_out s \<and> mounted files s' \<and>
    run_from_file_system_buf H V G s (img @ slack) n = Some (check_result (eval_module V s' ct MAIN_FILE_NAME))"
proof -
  let ?fs = "Some (CellFileSystem (Some (packed_node files (img @ slack))) None)"
  obtain h1 where "load_fs H (pr_heap s) (Some None) (Some (img @ slack)) n = Some (0, Some ?fs, h1)"
    using load_fs_packed_loads [of files img H "pr_heap s" None slack n] assms(1,3) by auto
  then have l: "ckb_load_fs H (pr_heap s) (pr_fs s) (Some (img @ slack)) n = Some (0, ?fs, h1)"
    using assms(2) by (simp add: ckb_load_fs_def)
  obtain p h2 where p: "h_malloc H h1 sizeof_FSFile = (p, h2)" "p \<noteq> 0" using assms(3) by (metis prod.collapse)
  have m: "mounted files (s\<lparr>pr_fs := ?fs, pr_heap := h\<rparr>)" for h using assms(1) by (auto simp: mounted_def)
  have c: "cstr (strz MAIN_FILE_NAME) = Some MAIN_FILE_NAME" by (rule cstr_strz) (simp add: MAIN_FILE_NAME_def)
  obtain f rest where f: "ckb_get_file H h1 ?fs (strz MAIN_FILE_NAME) = Some (0, Some f, h2)"
    "unat (ff_size f) = length ct" "drop (p_off (ff_content f)) (p_obj (ff_content f)) = ct @ 0 # rest"
    "p_off (ff_content f) \<le> length (p_obj (ff_content f))"
    using get_file_mounted [OF m c assms(4) p] by auto
  have "ff_size f \<noteq> 0" using f(2) assms(5) by auto
  then have "run_from_file_system_buf H V G s (img @ slack) n =
      Some (check_result (eval_module V (s\<lparr>pr_fs := ?fs, pr_heap := h2\<rparr>) ct MAIN_FILE_NAME))"
    using l f eval_buf_module [of ct V G "s\<lparr>pr_fs := ?fs, pr_heap := h2\<rparr>" rest MAIN_FILE_NAME] assms(6)
    by (simp add: run_from_file_system_buf_def)
  then show ?thesis using m [of h2] by (intro exI [of _ "s\<lparr>pr_fs := ?fs, pr_heap := h2\<rparr>"]) auto
qed


section \<open>A concrete run\<close>

definition demo_code_kernel :: "bytes \<Rightarrow> ckb_kernel" where
  "demo_code_kernel code = demo_kernel\<lparr>ck_load := (\<lambda>c cap.
     case c of
       L_script off \<Rightarrow> (0, 35, take (unat cap) (replicate 35 7))
     | L_cell_data off index src \<Rightarrow> (0, of_nat (length code), take (unat cap) code)
     | _ \<Rightarrow> (1, cap, []))\<rparr>"

definition demo_host :: "bytes \<Rightarrow> host" where
  "demo_host code = \<lparr>ho_kernel = demo_code_kernel code, ho_mol_verify = (\<lambda>b. True), ho_mol_args = (\<lambda>b. b),
     ho_consts = (\<lambda>c. 3), ho_read_local = (\<lambda>n. (- 1, [])), ho_junk = replicate 100 9\<rparr>"

lemma demo_code_cell:
  assumes "code \<noteq> []" "length code < 100"
  shows "code_cell (demo_host code) code"
proof -
  have "kernel_item (demo_code_kernel code) (L_script 0) (Some (replicate 35 7))"
    "kernel_item (demo_code_kernel code) (L_cell_data 0 1 3) (Some code)"
    using assms(2) by (simp_all add: kernel_item_def demo_code_kernel_def)
  moreover have "ck_look_for_dep (demo_code_kernel code) (replicate 32 7) 7 = (0, 1)"
    by (simp add: demo_code_kernel_def demo_kernel_def)
  moreover have "(replicate 35 7 :: bytes) = 7 # 7 # replicate 32 7 @ 7 # []" by (simp add: numeral_eq_Suc)
  ultimately show ?thesis
    unfolding code_cell_def demo_host_def using assms(1)
    by (intro exI [of _ "replicate 35 7"] exI [of _ 7] exI [of _ "replicate 32 7"] exI [of _ "[]"] exI [of _ 1])
      (simp add: SCRIPT_SIZE_def)
qed

lemma demo_junk: "length code < 100 \<Longrightarrow> length code < length (ho_junk (demo_host code))"
  by (simp add: demo_host_def)



end
