(* ===== verification/Heap_Mem.thy ===== *)
theory Heap_Mem
  imports Heap_Ops
begin

text \<open>
  The heap as code sees it that reallocates blocks and writes into them (the dynamic buffers of
  cutils.c, the character ranges of libunicode.c): realloc and the bytes of memory, with the
  contract they rely on.
\<close>

record 'h mem_ops =
  m_realloc :: "'h \<Rightarrow> nat \<Rightarrow> nat \<Rightarrow> (nat \<times> 'h) option"
  m_read :: "'h \<Rightarrow> nat \<Rightarrow> u8"
  m_write :: "'h \<Rightarrow> nat \<Rightarrow> u8 \<Rightarrow> 'h"

fun m_store :: "'h mem_ops \<Rightarrow> 'h \<Rightarrow> nat \<Rightarrow> bytes \<Rightarrow> 'h" where
  "m_store M h p [] = h"
| "m_store M h p (v # vs) = m_store M (m_write M h p v) (p + 1) vs"

definition m_load :: "'h mem_ops \<Rightarrow> 'h \<Rightarrow> nat \<Rightarrow> nat \<Rightarrow> bytes" where
  "m_load M h p n = map (m_read M h) [p ..< p + n]"

definition block_size :: "(nat \<Rightarrow> nat option) \<Rightarrow> nat \<Rightarrow> nat" where
  "block_size l p = (case l p of None \<Rightarrow> 0 | Some k \<Rightarrow> k)"

lemma length_m_load [simp]: "length (m_load M h p n) = n"
  by (simp add: m_load_def)

lemma m_load_add: "m_load M h p (m + n) = m_load M h p m @ m_load M h (p + m) n"
  using upt_add_eq_append [of p "p + m" n] by (simp add: m_load_def add.assoc)

lemma m_load_cong:
  "(\<And>x. p \<le> x \<Longrightarrow> x < p + n \<Longrightarrow> m_read M h' x = m_read M h x) \<Longrightarrow> m_load M h' p n = m_load M h p n"
  by (simp add: m_load_def)

lemma m_load_shift:
  "(\<And>d. d < n \<Longrightarrow> m_read M h' (q + d) = m_read M h (p + d)) \<Longrightarrow> m_load M h' q n = m_load M h p n"
  unfolding m_load_def by (intro nth_equalityI) simp_all

lemma nth_m_load: "i < n \<Longrightarrow> m_load M h p n ! i = m_read M h (p + i)"
  by (simp add: m_load_def)

lemma take_drop_m_load: "off + len \<le> n \<Longrightarrow> take len (drop off (m_load M h p n)) = m_load M h (p + off) len"
  by (simp add: m_load_def drop_map take_map)

locale c_mem =
  fixes M :: "'h mem_ops"
    and hinv :: "'h \<Rightarrow> bool"
    and live :: "'h \<Rightarrow> nat \<Rightarrow> nat option"
  assumes realloc_law: "hinv h \<Longrightarrow> n < 2 ^ 64 \<Longrightarrow> p = 0 \<or> live h p \<noteq> None \<Longrightarrow>
      \<exists>q h'. m_realloc M h p n = Some (q, h') \<and> hinv h' \<and>
        (if q = 0 then live h' = live h \<and>
           (\<forall>r x. r \<le> x \<longrightarrow> x < r + block_size (live h) r \<longrightarrow> m_read M h' x = m_read M h x)
         else (\<exists>k \<ge> n. live h' = (live h)(p := None, q \<mapsto> k)) \<and> (q = p \<or> live h q = None) \<and>
           (\<forall>d < min n (block_size (live h) p). m_read M h' (q + d) = m_read M h (p + d)) \<and>
           (\<forall>r x. r \<noteq> p \<longrightarrow> r \<le> x \<longrightarrow> x < r + block_size (live h) r \<longrightarrow> m_read M h' x = m_read M h x))"
    and write_law: "hinv h \<Longrightarrow> live h p = Some k \<Longrightarrow> p \<le> x \<Longrightarrow> x < p + k \<Longrightarrow>
      hinv (m_write M h x v) \<and> live (m_write M h x v) = live h \<and>
      m_read M (m_write M h x v) = (m_read M h)(x := v)"
    and null_law: "hinv h \<Longrightarrow> live h 0 = None"
    and disjoint_law: "hinv h \<Longrightarrow> live h p = Some k \<Longrightarrow> live h q = Some l \<Longrightarrow> p = q \<or> p + k \<le> q \<or> q + l \<le> p"
begin

text \<open>Storing bytes inside one block.\<close>

lemma m_store_block:
  assumes "hinv h" "live h p = Some k" "p \<le> x" "x + length vs \<le> p + k"
  shows "hinv (m_store M h x vs) \<and> live (m_store M h x vs) = live h \<and>
    (\<forall>y. m_read M (m_store M h x vs) y = (if x \<le> y \<and> y < x + length vs then vs ! (y - x) else m_read M h y))"
  using assms
proof (induction vs arbitrary: h x)
  case Nil
  then show ?case by auto
next
  case (Cons v vs)
  have w: "hinv (m_write M h x v)" "live (m_write M h x v) = live h" "m_read M (m_write M h x v) = (m_read M h)(x := v)"
    using write_law [OF Cons.prems(1-3), of v] Cons.prems(4) by auto
  have "hinv (m_store M (m_write M h x v) (x + 1) vs) \<and> live (m_store M (m_write M h x v) (x + 1) vs) = live h \<and>
    (\<forall>y. m_read M (m_store M (m_write M h x v) (x + 1) vs) y =
       (if x + 1 \<le> y \<and> y < x + 1 + length vs then vs ! (y - (x + 1)) else m_read M (m_write M h x v) y))"
    using Cons.IH [OF w(1), of "x + 1"] Cons.prems w(2) by auto
  then show ?case using w(3) by (auto simp: nth_Cons' Suc_le_eq)
qed

lemma m_load_store:
  assumes "hinv h" "live h p = Some k" "p \<le> x" "x + length vs \<le> p + k"
  shows "m_load M (m_store M h x vs) x (length vs) = vs"
  using m_store_block [OF assms] by (intro nth_equalityI) (simp_all add: nth_m_load)

lemma m_load_store_other:
  assumes "hinv h" "live h p = Some k" "p \<le> x" "x + length vs \<le> p + k" "y + n \<le> x \<or> x + length vs \<le> y"
  shows "m_load M (m_store M h x vs) y n = m_load M h y n"
  using m_store_block [OF assms(1-4)] assms(5) by (intro m_load_cong) auto

end

end
