(* ===== verification/Malloc_Mem.thy ===== *)
theory Malloc_Mem
  imports Malloc_Api Heap_Mem
begin

text \<open>
  The allocator of include/c-stdlib/src/malloc_impl.c meets the contract of reallocated memory:
  realloc moves contents, and a write inside a block in use disturbs neither the allocator nor
  other blocks.
\<close>

section \<open>The allocator's memory\<close>

definition ckb_mem :: "malloc_state mem_ops" where
  "ckb_mem =
     \<lparr>m_realloc = (\<lambda>s p n. realloc p n s), m_read = (\<lambda>s x. of_nat (mem s x)),
      m_write = (\<lambda>s x v. s\<lparr>mem := (mem s)(x := unat v)\<rparr>)\<rparr>"

lemma live_null: "alloc_inv s \<Longrightarrow> live s 0 = None"
proof (rule ccontr)
  assume i: "alloc_inv s" and "live s 0 \<noteq> None"
  then obtain k where "live s 0 = Some k" by blast
  from live_block [OF i this] show False by auto
qed

lemma user_write:
  assumes i: "alloc_inv s" and p: "live s p = Some k" and x: "p \<le> x" "x < p + k"
  shows "alloc_inv (s\<lparr>mem := (mem s)(x := v)\<rparr>) \<and> live (s\<lparr>mem := (mem s)(x := v)\<rparr>) = live s"
  using i
proof (cases rule: alloc_inv_cases)
  case fresh
  with p live_fresh show ?thesis by simp
next
  case (heap L)
  let ?s = "s\<lparr>mem := (mem s)(x := v)\<rparr>"
  have u: "used (heap_base s) (heap_blocks s) p = Some k" using p by (simp add: live_def)
  have hb: "heap_base ?s = heap_base s" by (simp add: heap_base_def)
  have "minv ?s (heap_base s) (heap_blocks s) L {}"
  proof (rule user_write_inv [OF heap(1)])
    fix y assume "y \<notin> ucells (heap_base s) (heap_blocks s)"
    with ucellI [OF u x heap(4)] show "((mem s)(x := v)) y = mem s y" by auto
  qed
  then have m: "minv ?s (heap_base ?s) (heap_blocks s) L {}" by (simp add: hb)
  from alloc_inv_heap [OF m heap(2)] live_minv [OF m] hb show ?thesis by (simp add: live_def)
qed

interpretation ckbm: c_mem ckb_mem alloc_inv live
proof unfold_locales
  fix h and n p :: nat
  assume i: "alloc_inv h" and n: "n < 2 ^ 64" and p: "p = 0 \<or> live h p \<noteq> None"
  show "\<exists>q h'. m_realloc ckb_mem h p n = Some (q, h') \<and> alloc_inv h' \<and>
        (if q = 0 then live h' = live h \<and>
           (\<forall>r x. r \<le> x \<longrightarrow> x < r + block_size (live h) r \<longrightarrow> m_read ckb_mem h' x = m_read ckb_mem h x)
         else (\<exists>k \<ge> n. live h' = (live h)(p := None, q \<mapsto> k)) \<and> (q = p \<or> live h q = None) \<and>
           (\<forall>d < min n (block_size (live h) p). m_read ckb_mem h' (q + d) = m_read ckb_mem h (p + d)) \<and>
           (\<forall>r x. r \<noteq> p \<longrightarrow> r \<le> x \<longrightarrow> x < r + block_size (live h) r \<longrightarrow> m_read ckb_mem h' x = m_read ckb_mem h x))"
  proof (cases "p = 0")
    case True
    obtain q h' where m: "malloc n h = (q, h')" by fastforce
    note c = malloc_cases [OF i n m]
    have fr: "mem h' x = mem h x" if "r \<le> x" "x < r + block_size (live h) r" for r x
      using c that by (auto simp: block_size_def split: option.splits)
    have nl: "live h 0 = None" by (rule live_null [OF i])
    then have up: "(live h)(0 := None) = live h" by (simp add: fun_upd_idem)
    have bs: "block_size (live h) 0 = 0" by (simp add: block_size_def nl)
    have r: "m_realloc ckb_mem h p n = Some (q, h')" using m True by (simp add: ckb_mem_def realloc_def)
    show ?thesis
      by (rule exI [of _ q], rule exI [of _ h'])
        (use r c fr in \<open>auto simp: True up bs ckb_mem_def block_size_def nl split: if_splits\<close>)
  next
    case False
    with p obtain k0 where k0: "live h p = Some k0" by blast
    have ck: "m_realloc ckb_mem h p n = realloc p n h" by (simp add: ckb_mem_def)
    from realloc_live_block [OF i k0 n] obtain q h' where r: "realloc p n h = Some (q, h')" "alloc_inv h'"
      and c: "if q = 0 then live h' = live h \<and> (\<forall>r l x. live h r = Some l \<longrightarrow> r \<le> x \<longrightarrow> x < r + l \<longrightarrow> mem h' x = mem h x)
        else moved h h' (live h) (live h') p k0 n q" by blast
    show ?thesis
    proof (cases "q = 0")
      case True
      then have c': "live h' = live h" "\<And>r l x. live h r = Some l \<Longrightarrow> r \<le> x \<Longrightarrow> x < r + l \<Longrightarrow> mem h' x = mem h x"
        using c by auto
      then show ?thesis using r True
        by (auto simp: ck ckb_mem_def block_size_def split: option.splits)
    next
      case nz: False
      then have "moved h h' (live h) (live h') p k0 n q" using c by simp
      note mv = this [unfolded moved_def]
      have c': "\<exists>k \<ge> n. live h' = (live h)(p := None, q \<mapsto> k)" "q = p \<or> live h q = None"
        "\<And>d. d < min n k0 \<Longrightarrow> mem h' (q + d) = mem h (p + d)"
        "\<And>r l x. r \<noteq> p \<Longrightarrow> live h r = Some l \<Longrightarrow> r \<le> x \<Longrightarrow> x < r + l \<Longrightarrow> mem h' x = mem h x"
        using mv by simp_all
      have "block_size (live h) p = k0" by (simp add: block_size_def k0)
      moreover have "m_read ckb_mem h' x = m_read ckb_mem h x" if "r \<noteq> p" "r \<le> x" "x < r + block_size (live h) r" for r x
        using c'(4) [OF that(1) _ that(2)] that(2,3) by (cases "live h r") (auto simp: block_size_def ckb_mem_def)
      moreover have "m_read ckb_mem h' (q + d) = m_read ckb_mem h (p + d)" if "d < min n k0" for d
        using c'(3) [OF that] by (simp add: ckb_mem_def)
      ultimately show ?thesis using r nz c'(1,2) by (auto simp: ck)
    qed
  qed
next
  fix h p k x v
  assume "alloc_inv h" "live h p = Some k" "p \<le> x" "x < p + k"
  from user_write [OF this] show "alloc_inv (m_write ckb_mem h x v) \<and> live (m_write ckb_mem h x v) = live h \<and>
      m_read ckb_mem (m_write ckb_mem h x v) = (m_read ckb_mem h)(x := v)"
    by (auto simp: ckb_mem_def)
next
  fix h p k q l
  assume "alloc_inv h" "live h p = Some k" "live h q = Some l"
  then show "p = q \<or> p + k \<le> q \<or> q + l \<le> p" by (rule live_disjoint)
next
  fix h assume "alloc_inv h" then show "live h 0 = None" by (rule live_null)
qed

end
