(* ===== verification/Dbuf.thy ===== *)
theory Dbuf
  imports Malloc_Mem
begin

text \<open>
  The dynamic buffers of quickjs/cutils.c over any realloc (the DynBufReallocFunc) with the
  contract \<open>c_mem\<close>. A buffer is its record and the bytes of the heap at its address; the
  result of an operation is the return value, the record and the heap, and \<^const>\<open>None\<close> is
  a realloc that ends the program. What memcpy reads from outside the buffer is a parameter.
\<close>

section \<open>The operations\<close>

record DynBuf =
  db_buf :: nat
  db_size :: u64
  db_allocated_size :: u64
  db_error :: bool

definition dbuf_init2 :: DynBuf where
  "dbuf_init2 = \<lparr>db_buf = 0, db_size = 0, db_allocated_size = 0, db_error = False\<rparr>"

definition dbuf_realloc :: "'h mem_ops \<Rightarrow> 'h \<Rightarrow> DynBuf \<Rightarrow> u64 \<Rightarrow> (int \<times> DynBuf \<times> 'h) option" where
  "dbuf_realloc M h s new_size =
     (if new_size > db_allocated_size s then
        (if db_error s then Some (- 1, s, h)
         else
           (let size = db_allocated_size s * 3 div 2;
                n = (if size > new_size then size else new_size)
            in do { (new_buf, h') \<leftarrow> m_realloc M h (db_buf s) (unat n);
                    if new_buf = 0 then Some (- 1, s\<lparr>db_error := True\<rparr>, h')
                    else Some (0, s\<lparr>db_buf := new_buf, db_allocated_size := n\<rparr>, h') }))
      else Some (0, s, h))"

definition dbuf_write :: "'h mem_ops \<Rightarrow> 'h \<Rightarrow> DynBuf \<Rightarrow> u64 \<Rightarrow> bytes \<Rightarrow> (int \<times> DynBuf \<times> 'h) option" where
  "dbuf_write M h s offset data =
     (let end = offset + of_nat (length data) in
      do { (r, s', h') \<leftarrow> dbuf_realloc M h s end;
           if r \<noteq> 0 then Some (- 1, s', h')
           else Some (0, (if end > db_size s' then s'\<lparr>db_size := end\<rparr> else s'),
                      m_store M h' (db_buf s' + unat offset) data) })"

definition dbuf_reserve :: "'h mem_ops \<Rightarrow> 'h \<Rightarrow> DynBuf \<Rightarrow> u64 \<Rightarrow> (int \<times> DynBuf \<times> 'h) option" where
  \<comment> \<open>the test in front of memcpy\<close>
  "dbuf_reserve M h s len =
     (if db_size s + len > db_allocated_size s then dbuf_realloc M h s (db_size s + len) else Some (0, s, h))"

definition dbuf_put :: "'h mem_ops \<Rightarrow> 'h \<Rightarrow> DynBuf \<Rightarrow> bytes \<Rightarrow> (int \<times> DynBuf \<times> 'h) option" where
  "dbuf_put M h s data =
     do { (r, s', h') \<leftarrow> dbuf_reserve M h s (of_nat (length data));
          if r \<noteq> 0 then Some (- 1, s', h')
          else Some (0, s'\<lparr>db_size := db_size s' + of_nat (length data)\<rparr>,
                     m_store M h' (db_buf s' + unat (db_size s')) data) }"

definition dbuf_put_self :: "'h mem_ops \<Rightarrow> 'h \<Rightarrow> DynBuf \<Rightarrow> u64 \<Rightarrow> u64 \<Rightarrow> (int \<times> DynBuf \<times> 'h) option" where
  "dbuf_put_self M h s offset len =
     do { (r, s', h') \<leftarrow> dbuf_reserve M h s len;
          if r \<noteq> 0 then Some (- 1, s', h')
          else Some (0, s'\<lparr>db_size := db_size s' + len\<rparr>,
                     m_store M h' (db_buf s' + unat (db_size s'))
                       (m_load M h' (db_buf s' + unat offset) (unat len))) }"

definition dbuf_putc where "dbuf_putc M h s c = dbuf_put M h s [c]"
definition dbuf_putstr where "dbuf_putstr M h s str = do { t \<leftarrow> cstr str; dbuf_put M h s t }"
definition dbuf_put_u16 where "dbuf_put_u16 M h s (v :: u16) = dbuf_put M h s (nat_le 2 (unat v))"
definition dbuf_put_u32 where "dbuf_put_u32 M h s (v :: u32) = dbuf_put M h s (nat_le 4 (unat v))"
definition dbuf_put_u64 where "dbuf_put_u64 M h s (v :: u64) = dbuf_put M h s (nat_le 8 (unat v))"

text \<open>
  dbuf_printf: text is what the format and its arguments give; vsnprintf writes it cut to the
  size of the buffer, with a NUL behind, and returns its full length.
\<close>

definition dbuf_printf :: "'h mem_ops \<Rightarrow> 'h \<Rightarrow> DynBuf \<Rightarrow> bytes \<Rightarrow> (int \<times> DynBuf \<times> 'h) option" where
  "dbuf_printf M h s txt =
     (let len = length txt in
      if len < 128 then dbuf_put M h s txt
      else
        do { (r, s', h') \<leftarrow> dbuf_realloc M h s (db_size s + of_nat len + 1);
             if r \<noteq> 0 then Some (- 1, s', h')
             else Some (0, s'\<lparr>db_size := db_size s' + of_nat len\<rparr>,
                        m_store M h' (db_buf s' + unat (db_size s'))
                          (take (unat (db_allocated_size s' - db_size s') - 1) txt @ [0])) })"

definition dbuf_free :: "'h mem_ops \<Rightarrow> 'h \<Rightarrow> DynBuf \<Rightarrow> (DynBuf \<times> 'h) option" where
  "dbuf_free M h s =
     (if db_buf s \<noteq> 0 then do { (p, h') \<leftarrow> m_realloc M h (db_buf s) 0; Some (dbuf_init2, h') }
      else Some (dbuf_init2, h))"

definition dbuf_error :: "DynBuf \<Rightarrow> bool" where "dbuf_error s = db_error s"
definition dbuf_set_error :: "DynBuf \<Rightarrow> DynBuf" where "dbuf_set_error s = s\<lparr>db_error := True\<rparr>"

section \<open>A byte sequence that grows\<close>

definition dbuf_bytes :: "'h mem_ops \<Rightarrow> 'h \<Rightarrow> DynBuf \<Rightarrow> bytes" where
  "dbuf_bytes M h s = m_load M h (db_buf s) (unat (db_size s))"

definition dbuf_ok :: "(nat \<Rightarrow> nat option) \<Rightarrow> DynBuf \<Rightarrow> bool" where
  "dbuf_ok l s \<longleftrightarrow>
     db_size s \<le> db_allocated_size s \<and>
     (if db_buf s = 0 then db_allocated_size s = 0
      else \<exists>k. l (db_buf s) = Some k \<and> unat (db_allocated_size s) \<le> k)"

lemma length_dbuf_bytes [simp]: "length (dbuf_bytes M h s) = unat (db_size s)"
  by (simp add: dbuf_bytes_def)

locale dbuf_mem = c_mem M hinv live
  for M :: "'h mem_ops" and hinv :: "'h \<Rightarrow> bool" and live :: "'h \<Rightarrow> nat \<Rightarrow> nat option"
begin

lemma dbuf_init_ok: "dbuf_ok l dbuf_init2" "dbuf_bytes M h dbuf_init2 = []"
  by (simp_all add: dbuf_ok_def dbuf_init2_def dbuf_bytes_def m_load_def)

text \<open>
  Growing keeps the contents: what dbuf_realloc does to the buffer, and to every other block.
\<close>

definition others_kept :: "'h \<Rightarrow> 'h \<Rightarrow> nat \<Rightarrow> bool" where
  \<comment> \<open>the blocks other than the one at p\<close>
  "others_kept h h' p \<longleftrightarrow>
     (\<forall>r k x. r \<noteq> p \<longrightarrow> live h r = Some k \<longrightarrow> live h' r = Some k \<and>
        (r \<le> x \<longrightarrow> x < r + k \<longrightarrow> m_read M h' x = m_read M h x))"

lemma dbuf_realloc_ok:
  assumes h: "hinv h" and s: "dbuf_ok (live h) s"
  shows "\<exists>r s' h'. dbuf_realloc M h s n = Some (r, s', h') \<and> hinv h' \<and> dbuf_ok (live h') s' \<and>
    db_size s' = db_size s \<and> dbuf_bytes M h' s' = dbuf_bytes M h s \<and> others_kept h h' (db_buf s) \<and>
    (r = 0 \<and> n \<le> db_allocated_size s' \<and> db_error s' = db_error s \<or> r = - 1 \<and> db_error s')"
proof (cases "n > db_allocated_size s \<and> \<not> db_error s")
  case False
  then show ?thesis using h s by (auto simp: dbuf_realloc_def others_kept_def)
next
  case True
  define m where "m = (if db_allocated_size s * 3 div 2 > n then db_allocated_size s * 3 div 2 else n)"
  have mn: "n \<le> m" by (auto simp: m_def)
  then have am: "db_allocated_size s < m" using True by (auto intro: less_le_trans)
  have lt: "unat m < 2 ^ 64" using unat_u64_bound [of m] by simp
  have nl: "live h 0 = None" by (rule null_law [OF h])
  have pl: "db_buf s = 0 \<or> live h (db_buf s) \<noteq> None" using s by (auto simp: dbuf_ok_def split: if_splits)
  obtain q h' where r: "m_realloc M h (db_buf s) (unat m) = Some (q, h')" "hinv h'"
    and c: "if q = 0 then live h' = live h \<and>
           (\<forall>r x. r \<le> x \<longrightarrow> x < r + block_size (live h) r \<longrightarrow> m_read M h' x = m_read M h x)
         else (\<exists>k \<ge> unat m. live h' = (live h)(db_buf s := None, q \<mapsto> k)) \<and> (q = db_buf s \<or> live h q = None) \<and>
           (\<forall>d < min (unat m) (block_size (live h) (db_buf s)). m_read M h' (q + d) = m_read M h (db_buf s + d)) \<and>
           (\<forall>r x. r \<noteq> db_buf s \<longrightarrow> r \<le> x \<longrightarrow> x < r + block_size (live h) r \<longrightarrow> m_read M h' x = m_read M h x)"
    using realloc_law [OF h lt pl] by blast
  have sz: "unat (db_size s) \<le> block_size (live h) (db_buf s)" "unat (db_size s) \<le> unat m"
    using s am nl by (auto simp: dbuf_ok_def block_size_def word_le_nat_alt word_less_nat_alt split: if_splits)
  show ?thesis
  proof (cases "q = 0")
    case q0: True
    then have eq: "dbuf_realloc M h s n = Some (- 1, s\<lparr>db_error := True\<rparr>, h')"
      using True r by (simp add: dbuf_realloc_def Let_def m_def)
    have lv: "live h' = live h" and fr: "\<And>r x. r \<le> x \<Longrightarrow> x < r + block_size (live h) r \<Longrightarrow> m_read M h' x = m_read M h x"
      using c q0 by auto
    have "dbuf_bytes M h' s = dbuf_bytes M h s"
      unfolding dbuf_bytes_def using sz(1) by (intro m_load_cong fr [of "db_buf s"]) auto
    moreover have "others_kept h h' (db_buf s)"
      unfolding others_kept_def using lv fr by (auto simp: block_size_def)
    ultimately show ?thesis using eq r(2) lv s by (auto simp: dbuf_bytes_def dbuf_ok_def)
  next
    case nz: False
    then have eq: "dbuf_realloc M h s n = Some (0, s\<lparr>db_buf := q, db_allocated_size := m\<rparr>, h')"
      using True r by (simp add: dbuf_realloc_def Let_def m_def)
    obtain k where k: "unat m \<le> k" "live h' = (live h)(db_buf s := None, q \<mapsto> k)" using c nz by auto
    have q: "q = db_buf s \<or> live h q = None"
      and cp: "\<And>d. d < min (unat m) (block_size (live h) (db_buf s)) \<Longrightarrow> m_read M h' (q + d) = m_read M h (db_buf s + d)"
      and fr: "\<And>r x. r \<noteq> db_buf s \<Longrightarrow> r \<le> x \<Longrightarrow> x < r + block_size (live h) r \<Longrightarrow> m_read M h' x = m_read M h x"
      using c nz by auto
    have "m_load M h' q (unat (db_size s)) = m_load M h (db_buf s) (unat (db_size s))"
      using sz by (intro m_load_shift cp) simp
    moreover have "dbuf_ok (live h') (s\<lparr>db_buf := q, db_allocated_size := m\<rparr>)"
      using nz k s am by (auto simp: dbuf_ok_def)
    moreover have "others_kept h h' (db_buf s)"
      unfolding others_kept_def using k(2) q fr by (auto simp: block_size_def)
    ultimately show ?thesis using eq r(2) mn by (simp add: dbuf_bytes_def)
  qed
qed

lemma others_kept_refl: "others_kept h h p"
  by (simp add: others_kept_def)

lemma dbuf_reserve_ok:
  assumes h: "hinv h" and s: "dbuf_ok (live h) s" and n: "unat (db_size s) + n < 2 ^ 64"
  shows "\<exists>r s' h'. dbuf_reserve M h s (of_nat n) = Some (r, s', h') \<and> hinv h' \<and> dbuf_ok (live h') s' \<and>
    db_size s' = db_size s \<and> dbuf_bytes M h' s' = dbuf_bytes M h s \<and> others_kept h h' (db_buf s) \<and>
    (r = 0 \<and> unat (db_size s) + n \<le> unat (db_allocated_size s') \<and> db_error s' = db_error s \<or> r = - 1 \<and> db_error s')"
proof -
  have "unat (of_nat n :: u64) = n" using n by (intro unat_of_nat_u64) simp
  then have u: "unat (db_size s + of_nat n) = unat (db_size s) + n" using n by (simp add: unat_word_ariths)
  show ?thesis
  proof (cases "db_size s + of_nat n > db_allocated_size s")
    case True
    with dbuf_realloc_ok [OF h s, of "db_size s + of_nat n"] u show ?thesis
      by (simp add: dbuf_reserve_def word_le_nat_alt)
  next
    case False
    then have "unat (db_size s) + n \<le> unat (db_allocated_size s)" using u by (simp add: word_less_nat_alt)
    with h s False show ?thesis by (simp add: dbuf_reserve_def others_kept_refl)
  qed
qed

text \<open>Storing behind the contents, in room that is there.\<close>

lemma dbuf_store_ok:
  assumes h: "hinv h" and s: "dbuf_ok (live h) s" and off: "off \<le> unat (db_size s)"
    and n: "off + length data \<le> unat (db_allocated_size s)"
    and sz: "unat sz = max (unat (db_size s)) (off + length data)"
  shows "hinv (m_store M h (db_buf s + off) data) \<and> dbuf_ok (live (m_store M h (db_buf s + off) data)) (s\<lparr>db_size := sz\<rparr>) \<and>
    dbuf_bytes M (m_store M h (db_buf s + off) data) (s\<lparr>db_size := sz\<rparr>) =
      take off (dbuf_bytes M h s) @ data @ drop (off + length data) (dbuf_bytes M h s) \<and>
    others_kept h (m_store M h (db_buf s + off) data) (db_buf s)"
proof (cases "data = []")
  case True
  then have "sz = db_size s" using sz off by (simp add: word_unat_eq_iff)
  with True h s off show ?thesis by (simp add: others_kept_refl)
next
  case False
  let ?h = "m_store M h (db_buf s + off) data"
  have "db_allocated_size s \<noteq> 0" using n False by (cases data) auto
  then obtain k where k: "live h (db_buf s) = Some k" "unat (db_allocated_size s) \<le> k" "db_buf s \<noteq> 0"
    using s by (auto simp: dbuf_ok_def split: if_splits)
  have b: "db_buf s \<le> db_buf s + off" "db_buf s + off + length data \<le> db_buf s + k" using n k(2) by auto
  note st = m_store_block [OF h k(1) b]
  have szk: "unat sz \<le> k" "sz \<le> db_allocated_size s" using sz n s k(2) by (auto simp: dbuf_ok_def word_le_nat_alt)
  have "dbuf_bytes M ?h (s\<lparr>db_size := sz\<rparr>) = take off (dbuf_bytes M h s) @ data @ drop (off + length data) (dbuf_bytes M h s)"
    (is "?l = ?r")
  proof (rule nth_equalityI)
    show "length ?l = length ?r" using sz off by simp
    fix i assume i: "i < length ?l"
    then have "?l ! i = (if off \<le> i \<and> i < off + length data then data ! (i - off) else m_read M h (db_buf s + i))"
      using st by (simp add: dbuf_bytes_def nth_m_load)
    moreover have "i < unat (db_size s)" if "\<not> (off \<le> i \<and> i < off + length data)"
      using that i sz off by auto
    ultimately show "?l ! i = ?r ! i" using off i sz
      by (auto simp: nth_append dbuf_bytes_def nth_m_load)
  qed
  moreover have "others_kept h ?h (db_buf s)"
    unfolding others_kept_def
  proof (intro allI impI conjI)
    fix r l x assume r: "r \<noteq> db_buf s" "live h r = Some l"
    show "live ?h r = Some l" using st r by simp
    assume "r \<le> x" "x < r + l"
    with disjoint_law [OF h r(2) k(1)] r(1) b(2) st show "m_read M ?h x = m_read M h x" by auto
  qed
  ultimately show ?thesis using st k szk by (auto simp: dbuf_ok_def)
qed

lemma others_kept_trans:
  assumes "others_kept h h1 p" "others_kept h1 h2 q" "q = p \<or> live h q = None"
  shows "others_kept h h2 p"
  using assms unfolding others_kept_def by (metis option.distinct(1))

text \<open>What an operation that appends promises.\<close>

definition appends :: "'h \<Rightarrow> DynBuf \<Rightarrow> bytes \<Rightarrow> (int \<times> DynBuf \<times> 'h) option \<Rightarrow> bool" where
  "appends h s data res \<longleftrightarrow>
     (\<exists>r s' h'. res = Some (r, s', h') \<and> hinv h' \<and> dbuf_ok (live h') s' \<and>
        (r = 0 \<and> dbuf_bytes M h' s' = dbuf_bytes M h s @ data \<and> db_error s' = db_error s \<and>
           unat (db_size s') = unat (db_size s) + length data \<or>
         r = - 1 \<and> db_size s' = db_size s \<and> dbuf_bytes M h' s' = dbuf_bytes M h s \<and> db_error s'))"

lemma dbuf_put_ok:
  assumes h: "hinv h" and s: "dbuf_ok (live h) s" and n: "unat (db_size s) + length data < 2 ^ 64"
  shows "appends h s data (dbuf_put M h s data)"
proof -
  from dbuf_reserve_ok [OF assms] obtain r s' h' where r: "dbuf_reserve M h s (of_nat (length data)) = Some (r, s', h')"
    "hinv h'" "dbuf_ok (live h') s'" "db_size s' = db_size s" "dbuf_bytes M h' s' = dbuf_bytes M h s"
    and c: "r = 0 \<and> unat (db_size s) + length data \<le> unat (db_allocated_size s') \<and> db_error s' = db_error s \<or> r = - 1 \<and> db_error s'"
    by blast
  show ?thesis
  proof (cases "r = 0")
    case True
    have "unat (of_nat (length data) :: u64) = length data" using n by (intro unat_of_nat_u64) simp
    then have u: "unat (db_size s + of_nat (length data)) = unat (db_size s) + length data"
      using n by (simp add: unat_word_ariths)
    from dbuf_store_ok [OF r(2,3), of "unat (db_size s)" data "db_size s + of_nat (length data)"] r(4,5) c True u
    show ?thesis by (simp add: appends_def dbuf_put_def r(1))
  next
    case False
    with c r show ?thesis by (simp add: appends_def dbuf_put_def)
  qed
qed

lemma dbuf_put_self_ok:
  assumes h: "hinv h" and s: "dbuf_ok (live h) s" and n: "unat (db_size s) + unat len < 2 ^ 64"
    and off: "unat offset + unat len \<le> unat (db_size s)"
  shows "appends h s (take (unat len) (drop (unat offset) (dbuf_bytes M h s))) (dbuf_put_self M h s offset len)"
proof -
  from dbuf_reserve_ok [OF h s n] obtain r s' h' where r: "dbuf_reserve M h s len = Some (r, s', h')"
    "hinv h'" "dbuf_ok (live h') s'" "db_size s' = db_size s" "dbuf_bytes M h' s' = dbuf_bytes M h s"
    and c: "r = 0 \<and> unat (db_size s) + unat len \<le> unat (db_allocated_size s') \<and> db_error s' = db_error s \<or> r = - 1 \<and> db_error s'"
    by auto
  show ?thesis
  proof (cases "r = 0")
    case True
    have u: "unat (db_size s + len) = unat (db_size s) + unat len" using n by (simp add: unat_word_ariths)
    let ?d = "m_load M h' (db_buf s' + unat offset) (unat len)"
    have d: "?d = take (unat len) (drop (unat offset) (dbuf_bytes M h s))"
      unfolding r(5) [symmetric] unfolding dbuf_bytes_def using off r(4) by (simp add: take_drop_m_load)
    have mn: "min (unat (db_size s) - unat offset) (unat len) = unat len" using off by simp
    from dbuf_store_ok [OF r(2,3), of "unat (db_size s)" ?d "db_size s + len"] r(4,5) c True u
    show ?thesis by (simp add: appends_def dbuf_put_self_def r(1) d mn)
  next
    case False
    with c r show ?thesis by (simp add: appends_def dbuf_put_self_def)
  qed
qed

lemma dbuf_write_ok:
  assumes h: "hinv h" and s: "dbuf_ok (live h) s" and n: "unat offset + length data < 2 ^ 64"
    and off: "offset \<le> db_size s"
  shows "\<exists>r s' h'. dbuf_write M h s offset data = Some (r, s', h') \<and> hinv h' \<and> dbuf_ok (live h') s' \<and>
    (r = 0 \<and> dbuf_bytes M h' s' = take (unat offset) (dbuf_bytes M h s) @ data @
                                    drop (unat offset + length data) (dbuf_bytes M h s) \<or>
     r = - 1 \<and> dbuf_bytes M h' s' = dbuf_bytes M h s \<and> db_error s')"
proof -
  have "unat (of_nat (length data) :: u64) = length data" using n by (intro unat_of_nat_u64) simp
  then have u: "unat (offset + of_nat (length data)) = unat offset + length data" using n by (simp add: unat_word_ariths)
  from dbuf_realloc_ok [OF h s, of "offset + of_nat (length data)"] obtain r s' h' where
    r: "dbuf_realloc M h s (offset + of_nat (length data)) = Some (r, s', h')"
    "hinv h'" "dbuf_ok (live h') s'" "db_size s' = db_size s" "dbuf_bytes M h' s' = dbuf_bytes M h s"
    and c: "r = 0 \<and> offset + of_nat (length data) \<le> db_allocated_size s' \<or> r = - 1 \<and> db_error s'" by blast
  show ?thesis
  proof (cases "r = 0")
    case True
    define sz where "sz = (if offset + of_nat (length data) > db_size s then offset + of_nat (length data) else db_size s)"
    have "unat sz = max (unat (db_size s)) (unat offset + length data)"
      using u by (auto simp: sz_def word_less_nat_alt)
    moreover have "(if offset + of_nat (length data) > db_size s' then s'\<lparr>db_size := offset + of_nat (length data)\<rparr> else s') = s'\<lparr>db_size := sz\<rparr>"
      using r(4) by (simp add: sz_def)
    moreover have "unat offset + length data \<le> unat (db_allocated_size s')" using c True u by (simp add: word_le_nat_alt)
    ultimately show ?thesis
      using dbuf_store_ok [OF r(2,3), of "unat offset" data sz] off r(4,5) True
      by (simp add: dbuf_write_def Let_def r(1) word_le_nat_alt)
  next
    case False
    with c r show ?thesis by (simp add: dbuf_write_def Let_def)
  qed
qed

lemma dbuf_printf_ok:
  assumes h: "hinv h" and s: "dbuf_ok (live h) s" and n: "unat (db_size s) + length txt + 1 < 2 ^ 64"
  shows "appends h s txt (dbuf_printf M h s txt)"
proof (cases "length txt < 128")
  case True
  with dbuf_put_ok [OF h s] n show ?thesis by (simp add: dbuf_printf_def)
next
  case False
  let ?n = "db_size s + of_nat (length txt) + 1"
  have ul: "unat (of_nat (length txt) :: u64) = length txt" using n by (intro unat_of_nat_u64) simp
  then have u: "unat (db_size s + of_nat (length txt)) = unat (db_size s) + length txt" using n by (simp add: unat_word_ariths)
  then have u1: "unat ?n = unat (db_size s) + length txt + 1" using n by (simp add: unat_word_ariths)
  from dbuf_realloc_ok [OF h s, of ?n] obtain r s' h' where
    r: "dbuf_realloc M h s ?n = Some (r, s', h')"
    "hinv h'" "dbuf_ok (live h') s'" "db_size s' = db_size s" "dbuf_bytes M h' s' = dbuf_bytes M h s"
    and c: "r = 0 \<and> ?n \<le> db_allocated_size s' \<and> db_error s' = db_error s \<or> r = - 1 \<and> db_error s'" by blast
  show ?thesis
  proof (cases "r = 0")
    case True
    then have a: "unat (db_size s) + length txt + 1 \<le> unat (db_allocated_size s')" using c u1 by (simp add: word_le_nat_alt)
    then have "length txt \<le> unat (db_allocated_size s' - db_size s) - 1"
      by (subst unat_sub) (auto simp: word_le_nat_alt)
    then have t: "take (unat (db_allocated_size s' - db_size s) - 1) txt = txt" by simp
    have "unat (db_size s + of_nat (length txt) + 1) = max (unat (db_size s')) (unat (db_size s) + length (txt @ [0]))"
      using u1 r(4) by simp
    note st = dbuf_store_ok [OF r(2,3) _ _ this] r(4,5) a
    let ?h = "m_store M h' (db_buf s' + unat (db_size s)) (txt @ [0])"
    have st': "hinv ?h" "dbuf_ok (live ?h) (s'\<lparr>db_size := ?n\<rparr>)"
      "dbuf_bytes M ?h (s'\<lparr>db_size := ?n\<rparr>) = dbuf_bytes M h s @ txt @ [0]"
      using st by simp_all
    let ?sz = "db_size s + of_nat (length txt)"
    have "?sz < ?n" using u u1 by (simp add: word_less_nat_alt)
    then have "dbuf_ok (live ?h) (s'\<lparr>db_size := ?sz\<rparr>)" using st'(2) by (auto simp: dbuf_ok_def)
    moreover have "dbuf_bytes M ?h (s'\<lparr>db_size := ?sz\<rparr>) = dbuf_bytes M h s @ txt"
    proof -
      have "dbuf_bytes M ?h (s'\<lparr>db_size := ?sz\<rparr>) = take (unat ?sz) (dbuf_bytes M ?h (s'\<lparr>db_size := ?n\<rparr>))"
        using u u1 by (simp add: dbuf_bytes_def m_load_def take_map)
      then show ?thesis unfolding st'(3) using u by simp
    qed
    ultimately show ?thesis using st'(1) r c True False u t
      by (simp add: appends_def dbuf_printf_def)
  next
    case nr: False
    with c r False show ?thesis by (simp add: appends_def dbuf_printf_def)
  qed
qed

end

text \<open>The way the sources use it: put piece after piece, look at the error flag at the end.\<close>

fun dbuf_puts :: "'h mem_ops \<Rightarrow> 'h \<Rightarrow> DynBuf \<Rightarrow> bytes list \<Rightarrow> (DynBuf \<times> 'h) option" where
  "dbuf_puts M h s [] = Some (s, h)"
| "dbuf_puts M h s (d # ds) = do { (r, s', h') \<leftarrow> dbuf_put M h s d; dbuf_puts M h' s' ds }"

context dbuf_mem
begin

lemma dbuf_puts_ok:
  assumes "hinv h" "dbuf_ok (live h) s" "unat (db_size s) + length (concat ds) < 2 ^ 64"
  shows "\<exists>s' h'. dbuf_puts M h s ds = Some (s', h') \<and> hinv h' \<and> dbuf_ok (live h') s' \<and>
    (db_error s \<longrightarrow> db_error s') \<and> (\<not> db_error s' \<longrightarrow> dbuf_bytes M h' s' = dbuf_bytes M h s @ concat ds)"
  using assms
proof (induction ds arbitrary: h s)
  case Nil
  then show ?case by simp
next
  case (Cons d ds)
  have n: "unat (db_size s) + length d < 2 ^ 64" using Cons.prems(3) by simp
  from dbuf_put_ok [OF Cons.prems(1,2) n] obtain r s1 h1 where 1: "dbuf_put M h s d = Some (r, s1, h1)"
    "hinv h1" "dbuf_ok (live h1) s1"
    and c: "r = 0 \<and> dbuf_bytes M h1 s1 = dbuf_bytes M h s @ d \<and> db_error s1 = db_error s \<and>
           unat (db_size s1) = unat (db_size s) + length d \<or>
         r = - 1 \<and> db_size s1 = db_size s \<and> dbuf_bytes M h1 s1 = dbuf_bytes M h s \<and> db_error s1"
    unfolding appends_def by blast
  have "unat (db_size s1) + length (concat ds) < 2 ^ 64" using c Cons.prems(3) by auto
  from Cons.IH [OF 1(2,3) this] c 1(1) show ?case by auto
qed

end

section \<open>On the allocator of the program\<close>

interpretation ckb_dbuf: dbuf_mem ckb_mem alloc_inv live
  by unfold_locales





end
