(* ===== verification/Utf8.thy ===== *)
theory Utf8
  imports Ckb_Prelude
begin

text \<open>
  The UTF-8 encoder and decoder of quickjs/cutils.c (up to 31 bits, as the original UTF-8). The
  encoder gives the bytes it writes; the decoder reads the bytes at its pointer and gives the
  code point and what is behind it, the inner \<^const>\<open>None\<close> being its return value -1 and
  the outer one a read behind the object.
\<close>

section \<open>The code\<close>

definition cont_byte :: "u32 \<Rightarrow> u8" where
  "cont_byte v = ucast ((v AND 0x3f) OR 0x80)"

definition unicode_to_utf8 :: "u32 \<Rightarrow> bytes" where
  "unicode_to_utf8 c =
     (if c < 0x80 then [ucast c]
      else if c < 0x800 then [ucast (drop_bit 6 c OR 0xc0), cont_byte c]
      else if c < 0x10000 then [ucast (drop_bit 12 c OR 0xe0), cont_byte (drop_bit 6 c), cont_byte c]
      else if c < 0x00200000 then
        [ucast (drop_bit 18 c OR 0xf0), cont_byte (drop_bit 12 c), cont_byte (drop_bit 6 c), cont_byte c]
      else if c < 0x04000000 then
        [ucast (drop_bit 24 c OR 0xf8), cont_byte (drop_bit 18 c), cont_byte (drop_bit 12 c), cont_byte (drop_bit 6 c),
         cont_byte c]
      else if c < 0x80000000 then
        [ucast (drop_bit 30 c OR 0xfc), cont_byte (drop_bit 24 c), cont_byte (drop_bit 18 c), cont_byte (drop_bit 12 c),
         cont_byte (drop_bit 6 c), cont_byte c]
      else [])"

definition utf8_min_code :: "u32 list" where
  "utf8_min_code = [0x80, 0x800, 0x10000, 0x00200000, 0x04000000]"

definition utf8_first_code_mask :: "u32 list" where
  "utf8_first_code_mask = [0x1f, 0xf, 0x7, 0x3, 0x1]"

definition utf8_length :: "u8 \<Rightarrow> nat option" where
  \<comment> \<open>the switch over the first byte: the number of continuation bytes\<close>
  "utf8_length c =
     (if 0xc0 \<le> c \<and> c \<le> 0xdf then Some 1
      else if 0xe0 \<le> c \<and> c \<le> 0xef then Some 2
      else if 0xf0 \<le> c \<and> c \<le> 0xf7 then Some 3
      else if 0xf8 \<le> c \<and> c \<le> 0xfb then Some 4
      else if c = 0xfc \<or> c = 0xfd then Some 5
      else None)"

fun utf8_tail :: "nat \<Rightarrow> u32 \<Rightarrow> bytes \<Rightarrow> (u32 \<times> bytes) option option" where
  "utf8_tail 0 c p = Some (Some (c, p))"
| "utf8_tail (Suc l) c [] = None"
| "utf8_tail (Suc l) c (b # p) =
     (if b < 0x80 \<or> b \<ge> 0xc0 then Some None
      else utf8_tail l (push_bit 6 c OR (ucast b AND 0x3f)) p)"

definition unicode_from_utf8 :: "bytes \<Rightarrow> int \<Rightarrow> (u32 \<times> bytes) option option" where
  "unicode_from_utf8 p max_len =
     (case p of
        [] \<Rightarrow> None
      | c # p1 \<Rightarrow>
          if c < 0x80 then Some (Some (ucast c, p1))
          else
            (case utf8_length c of
               None \<Rightarrow> Some None
             | Some l \<Rightarrow>
                 if int l > max_len - 1 then Some None
                 else
                   do { r \<leftarrow> utf8_tail l (ucast c AND utf8_first_code_mask ! (l - 1)) p1;
                        case r of
                          None \<Rightarrow> Some None
                        | Some (v, p2) \<Rightarrow>
                            if v < utf8_min_code ! (l - 1) then Some None else Some (Some (v, p2)) }))"

section \<open>Decoding what was encoded\<close>

lemma mask_6: "(0x3f :: 'a :: len word) = mask 6"
  by (simp add: mask_eq_exp_minus_1)

lemma bit_7: "(0x80 :: 'a :: len word) = push_bit 7 1"
  by (simp add: push_bit_eq_mult)

lemmas bits_of = bit_or_iff bit_and_iff bit_push_bit_iff bit_drop_bit_eq bit_mask_iff bit_take_bit_iff bit_unsigned_iff
  bit_1_iff comp_apply possible_bit_word

lemma cont_byte_eq: "cont_byte v = take_bit 6 (ucast v) + 0x80"
proof -
  have "take_bit 6 (ucast v :: u8) + push_bit 7 1 = take_bit 6 (ucast v) OR push_bit 7 1"
    by (rule disjunctive_add) (simp only: bits_of; auto)
  also have "\<dots> = cont_byte v"
    unfolding cont_byte_def mask_6 bit_7 by (rule bit_word_eqI) (simp only: bits_of; auto)
  finally show ?thesis unfolding bit_7 ..
qed

lemma cont_byte_range: "\<not> cont_byte v < 0x80" "cont_byte v < 0xc0"
proof -
  have lt: "unat (take_bit 6 (ucast v :: u8)) < 64"
    unfolding unsigned_take_bit_eq by (simp only: take_bit_eq_mod) simp
  then have "unat (cont_byte v) = unat (take_bit 6 (ucast v :: u8)) + 128"
    unfolding cont_byte_eq by (subst unat_add_lem [THEN iffD1]) simp_all
  with lt show "\<not> cont_byte v < 0x80" "cont_byte v < 0xc0" by (simp_all add: word_less_nat_alt)
qed

lemma cont_byte_bits: "(ucast (cont_byte v) :: u32) AND 0x3f = v AND 0x3f"
  unfolding cont_byte_def mask_6 bit_7
  by (rule bit_word_eqI) (simp only: bits_of; auto)

lemma utf8_step:
  "push_bit 6 (drop_bit (k + 6) c) OR (drop_bit k c AND 0x3f) = (drop_bit k c :: u32)"
  unfolding mask_6
proof (rule bit_word_eqI)
  fix n assume "n < LENGTH(32)"
  then show "bit (push_bit 6 (drop_bit (k + 6) c) OR (drop_bit k c AND mask 6)) n = bit (drop_bit k c) n"
    by (cases "n < 6") (simp_all only: bits_of, simp_all add: ac_simps)
qed

lemma utf8_tail_cont:
  "utf8_tail (Suc l) (drop_bit (k + 6) c) (cont_byte (drop_bit k c) # p) = utf8_tail l (drop_bit k c) p"
proof -
  have "\<not> (cont_byte (drop_bit k c) < 0x80 \<or> 0xc0 \<le> cont_byte (drop_bit k c))"
    using cont_byte_range [of "drop_bit k c"] by (simp add: not_le)
  then show ?thesis by (simp only: utf8_tail.simps if_False cont_byte_bits utf8_step)
qed

lemma small_bits:
  assumes "unat d < 2 ^ m" "bit (d :: 'a :: len word) n"
  shows "n < m"
proof -
  have "bit (unat d) n" using assms(2) bit_imp_le_length [OF assms(2)] by (simp add: bit_unsigned_iff)
  then have "unat d div 2 ^ n \<noteq> 0" by (metis bit_iff_odd even_zero)
  then have "2 ^ n \<le> unat d" by (simp add: div_eq_0_iff not_less)
  then have "(2 :: nat) ^ n < 2 ^ m" using assms(1) by (rule le_less_trans)
  then show ?thesis by (rule power_less_imp_less_exp [rotated]) simp
qed

lemma lead_byte:
  fixes d :: u32
  assumes dl: "unat d < 2 ^ m" and m: "m \<le> 5"
  shows "unat (ucast (d OR push_bit (m + 1) (mask (7 - m))) :: u8) = unat d + (256 - 2 ^ (m + 1))"
    "(ucast (ucast (d OR push_bit (m + 1) (mask (7 - m))) :: u8) :: u32) AND mask m = d"
proof -
  have b: "bit d n \<Longrightarrow> n < m" for n by (rule small_bits [OF dl])
  let ?b = "ucast (d OR push_bit (m + 1) (mask (7 - m))) :: u8"
  show "(ucast ?b :: u32) AND mask m = d"
  proof (rule bit_word_eqI)
    fix n assume "n < LENGTH(32)"
    then show "bit ((ucast ?b :: u32) AND mask m) n = bit d n"
      using b [of n] m by (simp only: bits_of) auto
  qed
  have e: "?b = ucast d + push_bit (m + 1) (mask (7 - m))"
  proof -
    have "ucast d + push_bit (m + 1) (mask (7 - m)) = (ucast d OR push_bit (m + 1) (mask (7 - m)) :: u8)"
    proof (rule disjunctive_add)
      fix n
      show "\<not> bit (ucast d :: u8) n \<or> \<not> bit (push_bit (m + 1) (mask (7 - m)) :: u8) n"
        using b [of n] by (simp only: bits_of) auto
    qed
    also have "\<dots> = ?b"
    proof (rule bit_word_eqI)
      fix n assume "n < LENGTH(8)"
      then show "bit (ucast d OR push_bit (m + 1) (mask (7 - m)) :: u8) n = bit ?b n"
        using b [of n] m by (simp only: bits_of) auto
    qed
    finally show ?thesis ..
  qed
  have "(2 :: nat) ^ m \<le> 2 ^ 5" using m by (rule power_increasing) simp
  then have d32: "unat d < 32" using dl by simp
  then have ud: "unat (ucast d :: u8) = unat d"
    by (simp add: unsigned_ucast_eq take_bit_nat_eq_self)
  have L: "unat (push_bit (m + 1) (mask (7 - m)) :: u8) = 256 - 2 ^ (m + 1)"
  proof -
    from m consider "m = 0" | "m = 1" | "m = 2" | "m = 3" | "m = 4" | "m = 5" by linarith
    then show ?thesis by cases (simp_all add: mask_eq_exp_minus_1 push_bit_eq_mult)
  qed
  have "unat d + (256 - 2 ^ (m + 1)) < 256" using dl \<open>2 ^ m \<le> 2 ^ 5\<close> by simp
  then show "unat ?b = unat d + (256 - 2 ^ (m + 1))"
    unfolding e using L ud by (subst unat_add_lem [THEN iffD1]) (simp_all only: ud L, simp_all)
qed

text \<open>The continuation bytes of a code point, and the whole encoding with l of them.\<close>

fun conts :: "nat \<Rightarrow> u32 \<Rightarrow> bytes" where
  "conts 0 c = []"
| "conts (Suc l) c = cont_byte (drop_bit (6 * l) c) # conts l c"

definition lead :: "nat \<Rightarrow> u32 \<Rightarrow> u8" where
  "lead l c = ucast (drop_bit (6 * l) c OR push_bit (7 - l) (mask (l + 1)))"

definition utf8_bits :: "nat \<Rightarrow> nat" where
  \<comment> \<open>how many bits fit in the form with l continuation bytes\<close>
  "utf8_bits l = 5 * l + 6"

lemma length_conts [simp]: "length (conts l c) = l"
  by (induction l) auto

lemma utf8_tail_conts: "utf8_tail l (drop_bit (6 * l) c) (conts l c @ p) = Some (Some (c, p))"
proof (induction l)
  case (Suc l)
  have "6 * Suc l = 6 * l + 6" by simp
  then show ?case using Suc by (simp only: conts.simps append_Cons utf8_tail_cont)
qed simp

lemma lead_props:
  assumes l: "1 \<le> l" "l \<le> 5" and c: "unat c < 2 ^ utf8_bits l"
  shows "\<not> lead l c < 0x80" "utf8_length (lead l c) = Some l"
    "(ucast (lead l c) :: u32) AND utf8_first_code_mask ! (l - 1) = drop_bit (6 * l) c"
proof -
  define m where "m = 6 - l"
  have m: "m \<le> 5" "m + 1 = 7 - l" "7 - m = l + 1" using l by (auto simp: m_def)
  have dl: "unat (drop_bit (6 * l) c) < 2 ^ m"
  proof -
    have "unat c < 2 ^ m * 2 ^ (6 * l)" using c l by (simp add: m_def utf8_bits_def flip: power_add)
    then show ?thesis unfolding unat_drop_bit_eq by (simp add: drop_bit_eq_div less_mult_imp_div_less)
  qed
  note lb = lead_byte [OF dl m(1), unfolded m, folded lead_def]
  have l5: "l = 1 \<or> l = 2 \<or> l = 3 \<or> l = 4 \<or> l = 5" using l by linarith
  then have k: "utf8_first_code_mask ! (l - 1) = mask m"
    by (elim disjE) (simp_all add: utf8_first_code_mask_def m_def mask_eq_exp_minus_1)
  then show "(ucast (lead l c) :: u32) AND utf8_first_code_mask ! (l - 1) = drop_bit (6 * l) c" using lb(2) by simp
  have u: "unat (lead l c) = unat (drop_bit (6 * l) c) + (256 - 2 ^ (7 - l))" using lb(1) by simp
  show "\<not> lead l c < 0x80"
    using l5 u by (elim disjE) (simp_all add: word_less_nat_alt)
  show "utf8_length (lead l c) = Some l"
    using l5 u dl by (elim disjE) (auto simp: utf8_length_def word_le_nat_alt word_unat_eq_iff m_def)
qed

lemma unicode_to_utf8_conts:
  "unicode_to_utf8 c =
     (if c < 0x80 then [ucast c]
      else if c < 0x800 then lead 1 c # conts 1 c
      else if c < 0x10000 then lead 2 c # conts 2 c
      else if c < 0x00200000 then lead 3 c # conts 3 c
      else if c < 0x04000000 then lead 4 c # conts 4 c
      else if c < 0x80000000 then lead 5 c # conts 5 c
      else [])"
  by (simp add: unicode_to_utf8_def lead_def numeral_eq_Suc mask_eq_exp_minus_1 push_bit_eq_mult)

lemma from_utf8_lead:
  assumes l: "1 \<le> l" "l \<le> 5" and c: "unat c < 2 ^ utf8_bits l" and min: "utf8_min_code ! (l - 1) \<le> c"
    and n: "int l + 1 \<le> max_len"
  shows "unicode_from_utf8 (lead l c # conts l c @ p) max_len = Some (Some (c, p))"
  using lead_props [OF l c] n min by (simp add: unicode_from_utf8_def utf8_tail_conts del: not_less One_nat_def)

lemma from_to_utf8:
  assumes c: "c < 0x80000000" and n: "int (length (unicode_to_utf8 c)) \<le> max_len"
  shows "unicode_from_utf8 (unicode_to_utf8 c @ p) max_len = Some (Some (c, p))"
proof -
  have low: "unicode_from_utf8 ([ucast c] @ p) max_len = Some (Some (c, p))" if "c < 0x80"
  proof -
    have "unat c < 128" using that by (simp add: word_less_nat_alt)
    then have "unat (ucast c :: u8) = unat c" by (simp add: unsigned_ucast_eq take_bit_nat_eq_self)
    moreover from this have "(of_nat (unat (ucast c :: u8)) :: u32) = c" by simp
    then have "(ucast (ucast c :: u8) :: u32) = c" by (simp only: of_nat_unat)
    ultimately show ?thesis using \<open>unat c < 128\<close> by (simp add: unicode_from_utf8_def word_less_nat_alt)
  qed
  have form: "unicode_from_utf8 ((lead l c # conts l c) @ p) max_len = Some (Some (c, p))"
    if "1 \<le> l" "l \<le> 5" "unat c < 2 ^ utf8_bits l" "utf8_min_code ! (l - 1) \<le> c" "unicode_to_utf8 c = lead l c # conts l c" for l
    using from_utf8_lead [OF that(1-4)] n that(5) by simp
  note u = unicode_to_utf8_conts [of c]
  consider "c < 0x80" | "\<not> c < 0x80" "c < 0x800" | "\<not> c < 0x800" "c < 0x10000" | "\<not> c < 0x10000" "c < 0x00200000"
    | "\<not> c < 0x00200000" "c < 0x04000000" | "\<not> c < 0x04000000" by blast
  then show ?thesis
  proof cases
    case 1
    with low u show ?thesis by simp
  next
    case 2
    then have "unicode_to_utf8 c = lead 1 c # conts 1 c" using u by simp
    then show ?thesis using form [of 1] 2 by (simp add: utf8_bits_def utf8_min_code_def word_less_nat_alt word_le_nat_alt)
  next
    case 3
    then have "unicode_to_utf8 c = lead 2 c # conts 2 c" using u by (simp add: word_less_nat_alt)
    then show ?thesis using form [of 2] 3 by (simp add: utf8_bits_def utf8_min_code_def word_less_nat_alt word_le_nat_alt)
  next
    case 4
    then have "unicode_to_utf8 c = lead 3 c # conts 3 c" using u by (simp add: word_less_nat_alt)
    then show ?thesis using form [of 3] 4 by (simp add: utf8_bits_def utf8_min_code_def word_less_nat_alt word_le_nat_alt)
  next
    case 5
    then have "unicode_to_utf8 c = lead 4 c # conts 4 c" using u by (simp add: word_less_nat_alt)
    then show ?thesis using form [of 4] 5 by (simp add: utf8_bits_def utf8_min_code_def word_less_nat_alt word_le_nat_alt)
  next
    case 6
    then have "unicode_to_utf8 c = lead 5 c # conts 5 c" using u c by (simp add: word_less_nat_alt)
    then show ?thesis using form [of 5] 6 c by (simp add: utf8_bits_def utf8_min_code_def word_less_nat_alt word_le_nat_alt)
  qed
qed

section \<open>Encoding what was decoded\<close>

lemma mod_range: "d dvd b \<Longrightarrow> b \<le> x \<Longrightarrow> x < b + d \<Longrightarrow> x mod d + b = (x :: nat)"
  by (auto elim!: dvdE simp: le_iff_add)

lemma mod_ranges:
  "128 \<le> x \<Longrightarrow> x < 192 \<Longrightarrow> x mod 64 + 128 = (x :: nat)"
  "192 \<le> x \<Longrightarrow> x \<le> 223 \<Longrightarrow> x mod 32 + 192 = (x :: nat)"
  "224 \<le> x \<Longrightarrow> x \<le> 239 \<Longrightarrow> x mod 16 + 224 = (x :: nat)"
  "240 \<le> x \<Longrightarrow> x \<le> 247 \<Longrightarrow> x mod 8 + 240 = (x :: nat)"
  "248 \<le> x \<Longrightarrow> x \<le> 251 \<Longrightarrow> x mod 4 + 248 = (x :: nat)"
  using mod_range [of 64 128 x] mod_range [of 32 192 x] mod_range [of 16 224 x] mod_range [of 8 240 x] mod_range [of 4 248 x]
  by simp_all

lemma cont_byte_inv:
  assumes b: "\<not> b < 0x80" "\<not> b \<ge> 0xc0"
  shows "cont_byte (push_bit 6 c OR (ucast b AND 0x3f)) = b"
proof -
  have r: "128 \<le> unat b" "unat b < 192" using b by (simp_all add: word_less_nat_alt word_le_nat_alt)
  have "take_bit 6 (ucast (push_bit 6 c OR (ucast b AND mask 6)) :: u8) = take_bit 6 b"
    by (rule bit_word_eqI) (simp only: bits_of; auto)
  then have "cont_byte (push_bit 6 c OR (ucast b AND 0x3f)) = take_bit 6 b + 0x80"
    by (simp only: cont_byte_eq mask_6)
  moreover have t: "unat (take_bit 6 b) = unat b mod 64"
    unfolding unsigned_take_bit_eq by (simp only: take_bit_eq_mod) simp
  have "unat (take_bit 6 b + 0x80) = unat b"
    using t mod_ranges(1) [OF r] r by (subst unat_add_lem [THEN iffD1]) simp_all
  ultimately show ?thesis by (simp only: word_unat_eq_iff)
qed

lemma shift_in:
  assumes "unat (c :: u32) < 2 ^ k" "k + 6 \<le> 32"
  shows "drop_bit 6 (push_bit 6 c OR (d AND mask 6)) = c" "unat (push_bit 6 c OR (d AND mask 6)) < 2 ^ (k + 6)"
proof -
  have b: "bit c n \<Longrightarrow> n < k" for n by (rule small_bits [OF assms(1)])
  show "drop_bit 6 (push_bit 6 c OR (d AND mask 6)) = c"
  proof (rule bit_word_eqI)
    fix n assume "n < LENGTH(32)"
    then show "bit (drop_bit 6 (push_bit 6 c OR (d AND mask 6))) n = bit c n"
      using b [of n] assms(2) by (simp only: bits_of) auto
  qed
  have "push_bit 6 c OR (d AND mask 6) = take_bit (k + 6) (push_bit 6 c OR (d AND mask 6))"
  proof (rule bit_word_eqI)
    fix n assume "n < LENGTH(32)"
    then show "bit (push_bit 6 c OR (d AND mask 6)) n = bit (take_bit (k + 6) (push_bit 6 c OR (d AND mask 6))) n"
      using b [of "n - 6"] by (simp only: bits_of) auto
  qed
  then have "unat (push_bit 6 c OR (d AND mask 6)) = take_bit (k + 6) (unat (push_bit 6 c OR (d AND mask 6)))"
    by (metis unsigned_take_bit_eq)
  then show "unat (push_bit 6 c OR (d AND mask 6)) < 2 ^ (k + 6)"
    by (metis take_bit_nat_less_exp)
qed

lemma utf8_tail_inv:
  assumes "utf8_tail l c p = Some (Some (v, p2))" "unat c < 2 ^ k" "k + 6 * l \<le> 32"
  shows "p = conts l v @ p2 \<and> drop_bit (6 * l) v = c \<and> unat v < 2 ^ (k + 6 * l)"
  using assms
proof (induction l arbitrary: c p k)
  case 0
  then show ?case by simp
next
  case (Suc l)
  from Suc.prems(1) obtain b p' where p: "p = b # p'" by (cases p) auto
  with Suc.prems(1) have b: "\<not> b < 0x80" "\<not> b \<ge> 0xc0"
    and t: "utf8_tail l (push_bit 6 c OR (ucast b AND mask 6)) p' = Some (Some (v, p2))"
    by (simp_all add: mask_6 del: not_less not_le split: if_splits)
  have k: "k + 6 \<le> 32" "k + 6 + 6 * l \<le> 32" using Suc.prems(3) by auto
  note sh = shift_in [OF Suc.prems(2) k(1), of "ucast b"]
  from Suc.IH [OF t sh(2) k(2)] have ih: "p' = conts l v @ p2" "drop_bit (6 * l) v = push_bit 6 c OR (ucast b AND mask 6)"
    "unat v < 2 ^ (k + 6 + 6 * l)" by auto
  have "cont_byte (drop_bit (6 * l) v) = b" using cont_byte_inv [OF b] ih(2) by (simp only: mask_6)
  moreover have "drop_bit (6 * Suc l) v = drop_bit 6 (drop_bit (6 * l) v)" by (simp add: drop_bit_drop_bit)
  then have "drop_bit (6 * Suc l) v = c" by (simp only: ih(2) sh(1))
  ultimately show ?case using p ih(1,3) by (simp add: ac_simps del: drop_bit_drop_bit)
qed

lemma unat_ucast_u8: "unat (ucast (b :: u8) :: u32) = unat b"
proof -
  have "unat b < 2 ^ 32" using unat_u8_bound [of b] by simp
  then have "take_bit 32 (unat b) = unat b" by (rule take_bit_nat_eq_self)
  then show ?thesis by (simp add: unsigned_ucast_eq)
qed

lemma ucast_ucast_u8: "(ucast (ucast (b :: u8) :: u32) :: u8) = b"
  by (rule bit_word_eqI) (simp only: bits_of; auto)

lemma to_from_utf8:
  assumes r: "unicode_from_utf8 p max_len = Some (Some (v, p2))"
  shows "p = unicode_to_utf8 v @ p2 \<and> v < 0x80000000"
proof -
  obtain b p1 where p: "p = b # p1" using r by (cases p) (auto simp: unicode_from_utf8_def)
  show ?thesis
  proof (cases "b < 0x80")
    case True
    then have v: "v = ucast b" "p2 = p1" using r p by (auto simp: unicode_from_utf8_def)
    have "unat b < 128" using True by (simp add: word_less_nat_alt)
    moreover have "unat v = unat b" unfolding v by (rule unat_ucast_u8)
    ultimately show ?thesis using p v by (simp add: ucast_ucast_u8 unicode_to_utf8_def word_less_nat_alt)
  next
    case False
    with r p obtain l where l: "utf8_length b = Some l"
      and t: "utf8_tail l (ucast b AND utf8_first_code_mask ! (l - 1)) p1 = Some (Some (v, p2))"
      and mn: "\<not> v < utf8_min_code ! (l - 1)"
      by (auto simp: unicode_from_utf8_def bind_eq_Some_iff split: option.splits if_splits prod.splits)
    have l5: "l = 1 \<or> l = 2 \<or> l = 3 \<or> l = 4 \<or> l = 5" using l by (auto simp: utf8_length_def split: if_splits)
    define m where "m = 6 - l"
    have k: "utf8_first_code_mask ! (l - 1) = mask m"
      using l5 by (elim disjE) (simp_all add: utf8_first_code_mask_def m_def mask_eq_exp_minus_1)
    have ub: "unat (ucast b AND mask m :: u32) = unat b mod 2 ^ m"
      unfolding take_bit_eq_mask [symmetric] unsigned_take_bit_eq unat_ucast_u8 by (rule take_bit_eq_mod)
    then have "unat (ucast b AND mask m :: u32) < 2 ^ m" by simp
    moreover have "m + 6 * l \<le> 32" "m + 6 * l = utf8_bits l" using l5 by (auto simp: m_def utf8_bits_def)
    ultimately have c: "p1 = conts l v @ p2" "drop_bit (6 * l) v = ucast b AND mask m" "unat v < 2 ^ utf8_bits l"
      using utf8_tail_inv [OF t [unfolded k], of m] by auto
    have "unat (lead l v) = unat b mod 2 ^ m + (256 - 2 ^ (7 - l))"
    proof -
      have m: "m \<le> 5" "m + 1 = 7 - l" "7 - m = l + 1" using l5 by (auto simp: m_def)
      have "unat (drop_bit (6 * l) v) < 2 ^ m" using c(2) ub by simp
      from lead_byte(1) [OF this m(1), unfolded m, folded lead_def] show ?thesis by (simp only: c(2) ub)
    qed
    also have "\<dots> = unat b"
      using l5 l
      by (elim disjE; auto simp: utf8_length_def m_def word_le_nat_alt word_unat_eq_iff mod_ranges split: if_splits)
    finally have lb: "lead l v = b" by (simp add: word_unat_eq_iff)
    have "unicode_to_utf8 v = lead l v # conts l v"
      using l5 mn c(3)
      by (elim disjE) (simp_all add: unicode_to_utf8_conts utf8_min_code_def utf8_bits_def word_less_nat_alt)
    moreover have "v < 0x80000000"
      using l5 c(3) by (elim disjE) (simp_all add: utf8_bits_def word_less_nat_alt)
    ultimately show ?thesis using p c(1) lb by simp
  qed
qed

section \<open>Properties\<close>

text \<open>
  C24. Decoding gives back every code point below 2^31 that was encoded, and stops right behind
  it, when max_len admits the length of the encoding.
\<close>

theorem unicode_from_to_utf8:
  assumes "c < 0x80000000" "int (length (unicode_to_utf8 c)) \<le> max_len"
  shows "unicode_from_utf8 (unicode_to_utf8 c @ p) max_len = Some (Some (c, p))"
  using assms by (rule from_to_utf8)

lemma unicode_from_to_utf8_witness:
  "unicode_from_utf8 ([0xe2, 0x82, 0xac] @ [65]) 6 = Some (Some (0x20ac, [65]))"
proof -
  have "unicode_to_utf8 0x20ac = [0xe2, 0x82, 0xac]" by (simp add: unicode_to_utf8_def cont_byte_def)
  with unicode_from_to_utf8 [of "0x20ac" 6 "[65]"] show ?thesis by simp
qed

text \<open>
  C25. The decoder accepts nothing else: whatever it decodes to v is the encoding of v, so that
  over-long forms are refused and decoding is injective.
\<close>

theorem unicode_to_from_utf8:
  assumes "unicode_from_utf8 p max_len = Some (Some (v, p2))"
  shows "p = unicode_to_utf8 v @ p2 \<and> v < 0x80000000"
  using assms by (rule to_from_utf8)

lemma unicode_to_from_utf8_witness: "[0xc3, 0xa9, 7] = unicode_to_utf8 0xe9 @ [7] \<and> (0xe9 :: u32) < 0x80000000"
  by (rule unicode_to_from_utf8 [of _ 2])
    (simp add: unicode_from_utf8_def utf8_length_def utf8_first_code_mask_def utf8_min_code_def)

lemma utf8_tail_bounds: "l \<le> length p \<Longrightarrow> utf8_tail l c p \<noteq> None"
  by (induction l c p rule: utf8_tail.induct) auto

text \<open>
  The decoder reads at most max_len bytes: with max_len at least 1 and no more than the
  bytes that are there it never reads behind them, for any bytes whatever.
\<close>

theorem unicode_from_utf8_in_bounds:
  assumes "1 \<le> max_len" "max_len \<le> int (length p)"
  shows "unicode_from_utf8 p max_len \<noteq> None"
proof -
  obtain b p1 where p: "p = b # p1" using assms by (cases p) auto
  have tail: "utf8_tail l c p1 \<noteq> None" if "\<not> int l > max_len - 1" for l c
    using utf8_tail_bounds [of l p1 c] that assms(2) p by simp
  show ?thesis
  proof (cases "b < 0x80 \<or> utf8_length b = None \<or> int (the (utf8_length b)) > max_len - 1")
    case True
    then show ?thesis by (auto simp: unicode_from_utf8_def p split: option.splits)
  next
    case False
    then obtain l where l: "utf8_length b = Some l" "\<not> int l > max_len - 1" by auto
    obtain r where "utf8_tail l (ucast b AND utf8_first_code_mask ! (l - 1)) p1 = Some r" using tail [OF l(2)] by blast
    with l False show ?thesis by (auto simp: unicode_from_utf8_def p split: option.splits)
  qed
qed

lemma unicode_from_utf8_in_bounds_witness: "unicode_from_utf8 [0xfd, 0x80] 2 \<noteq> None"
  by (rule unicode_from_utf8_in_bounds) simp_all

end
