(* ===== verification/Rqsort.thy ===== *)
theory Rqsort
  imports Ckb_Prelude "HOL-Library.Multiset"
begin

text \<open>
  rqsort of quickjs/cutils.c: the exchange functions, heapsortx, med3 and the sort itself. An
  array of \<open>nmemb\<close> elements of \<open>size\<close> bytes is a list of elements and a pointer into it is an
  element index, \<open>base + k * size\<close> being index \<open>k\<close>; the exchange functions, which work on
  the bytes, are related to the exchange of two elements after the definitions. An access
  outside the array, a comparison included, and a push on the full stack are \<^const>\<open>None\<close>.
\<close>

declare Option.bind_cong [fundef_cong]

section \<open>The sort\<close>

definition cmp_at :: "('a \<Rightarrow> 'a \<Rightarrow> int) \<Rightarrow> 'a list \<Rightarrow> nat \<Rightarrow> nat \<Rightarrow> int option" where
  "cmp_at cmp xs a b = (if a < length xs \<and> b < length xs then Some (cmp (xs ! a) (xs ! b)) else None)"

definition swap_at :: "'a list \<Rightarrow> nat \<Rightarrow> nat \<Rightarrow> 'a list option" where
  "swap_at xs a b =
     (if a < length xs \<and> b < length xs then Some (xs[a := xs ! b, b := xs ! a]) else None)"

text \<open>The exchange of two blocks of \<open>n\<close> elements.\<close>

primrec swap_block :: "'a list \<Rightarrow> nat \<Rightarrow> nat \<Rightarrow> nat \<Rightarrow> 'a list option" where
  "swap_block xs a b 0 = Some xs"
| "swap_block xs a b (Suc n) = do { ys \<leftarrow> swap_at xs a b; swap_block ys (a + 1) (b + 1) n }"

definition sift_child :: "('a \<Rightarrow> 'a \<Rightarrow> int) \<Rightarrow> 'a list \<Rightarrow> nat \<Rightarrow> nat \<Rightarrow> nat \<Rightarrow> nat option" where
  "sift_child cmp xs b c n =
     (if c < n - 1 then do { d \<leftarrow> cmp_at cmp xs (b + c) (b + c + 1); Some (if d \<le> 0 then c + 1 else c) }
      else Some c)"

function sift :: "('a \<Rightarrow> 'a \<Rightarrow> int) \<Rightarrow> 'a list \<Rightarrow> nat \<Rightarrow> nat \<Rightarrow> nat \<Rightarrow> 'a list option" where
  "sift cmp xs b r n =
     (if r * 2 + 1 < n
      then do {
        c \<leftarrow> sift_child cmp xs b (r * 2 + 1) n;
        d \<leftarrow> cmp_at cmp xs (b + r) (b + c);
        if 0 < d then Some xs
        else do { ys \<leftarrow> swap_at xs (b + r) (b + c); sift cmp ys b c n } }
      else Some xs)"
  by pat_completeness auto
termination
  by (relation "measure (\<lambda>(cmp, xs, b, r, n). n - r)")
     (auto simp: sift_child_def split: if_splits bind_splits)

primrec heapify :: "('a \<Rightarrow> 'a \<Rightarrow> int) \<Rightarrow> 'a list \<Rightarrow> nat \<Rightarrow> nat \<Rightarrow> nat \<Rightarrow> 'a list option" where
  "heapify cmp xs b n 0 = Some xs"
| "heapify cmp xs b n (Suc i) = do { ys \<leftarrow> sift cmp xs b i n; heapify cmp ys b n i }"

primrec heap_extract :: "('a \<Rightarrow> 'a \<Rightarrow> int) \<Rightarrow> 'a list \<Rightarrow> nat \<Rightarrow> nat \<Rightarrow> 'a list option" where
  "heap_extract cmp xs b 0 = Some xs"
| "heap_extract cmp xs b (Suc i) =
     do { ys \<leftarrow> swap_at xs b (b + Suc i); zs \<leftarrow> sift cmp ys b 0 (Suc i); heap_extract cmp zs b i }"

definition heapsortx :: "('a \<Rightarrow> 'a \<Rightarrow> int) \<Rightarrow> 'a list \<Rightarrow> nat \<Rightarrow> nat \<Rightarrow> 'a list option" where
  "heapsortx cmp xs b n =
     (if 1 < n then do { ys \<leftarrow> heapify cmp xs b n (n div 2); heap_extract cmp ys b (n - 1) }
      else Some xs)"

definition med3 :: "('a \<Rightarrow> 'a \<Rightarrow> int) \<Rightarrow> 'a list \<Rightarrow> nat \<Rightarrow> nat \<Rightarrow> nat \<Rightarrow> nat option" where
  "med3 cmp xs a b c =
     do { ab \<leftarrow> cmp_at cmp xs a b;
          bc \<leftarrow> cmp_at cmp xs b c;
          if ab < 0
          then (if bc < 0 then Some b
                else do { ac \<leftarrow> cmp_at cmp xs a c; Some (if ac < 0 then c else a) })
          else (if bc > 0 then Some b
                else do { ac \<leftarrow> cmp_at cmp xs a c; Some (if ac < 0 then a else c) }) }"

text \<open>
  The partition of the elements from \<open>p\<close> by the pivot at \<open>p\<close>: \<open>i\<close>, \<open>lt\<close>, \<open>j\<close> and
  \<open>gt\<close> are the indices of the pointers \<open>pi\<close>, \<open>plt\<close>, \<open>pj\<close> and \<open>pgt\<close>.
\<close>

function part_up :: "('a \<Rightarrow> 'a \<Rightarrow> int) \<Rightarrow> 'a list \<Rightarrow> nat \<Rightarrow> nat \<Rightarrow> nat \<Rightarrow> nat \<Rightarrow> ('a list \<times> nat \<times> nat) option" where
  "part_up cmp xs p i lt j =
     (if i < j then do {
        c \<leftarrow> cmp_at cmp xs p i;
        if c \<ge> 0 then
          (if c = 0 then do { ys \<leftarrow> swap_at xs lt i; part_up cmp ys p (i + 1) (lt + 1) j }
           else part_up cmp xs p (i + 1) lt j)
        else Some (xs, i, lt) }
      else Some (xs, i, lt))"
  by pat_completeness auto
termination
  by (relation "measure (\<lambda>(cmp, xs, p, i, lt, j). j - i)") auto

function part_down :: "('a \<Rightarrow> 'a \<Rightarrow> int) \<Rightarrow> 'a list \<Rightarrow> nat \<Rightarrow> nat \<Rightarrow> nat \<Rightarrow> nat \<Rightarrow> ('a list \<times> nat \<times> nat) option" where
  "part_down cmp xs p i j gt =
     (if i < j - 1 then do {
        c \<leftarrow> cmp_at cmp xs p (j - 1);
        if c \<le> 0 then
          (if c = 0 then do { ys \<leftarrow> swap_at xs (gt - 1) (j - 1); part_down cmp ys p i (j - 1) (gt - 1) }
           else part_down cmp xs p i (j - 1) gt)
        else Some (xs, j - 1, gt) }
      else Some (xs, j - 1, gt))"
  by pat_completeness auto
termination
  by (relation "measure (\<lambda>(cmp, xs, p, i, j, gt). j)") auto

declare sift.simps [simp del] part_up.simps [simp del] part_down.simps [simp del]

lemma part_up_mono: "part_up cmp xs p i lt j = Some (ys, i', lt') \<Longrightarrow> i \<le> i'"
  by (induction cmp xs p i lt j arbitrary: ys i' lt' rule: part_up.induct)
     (subst (asm) part_up.simps, auto split: if_splits bind_splits, (fastforce dest: Suc_leD)+)

lemma part_down_mono: "part_down cmp xs p i j gt = Some (ys, j', gt') \<Longrightarrow> j' \<le> j"
  by (induction cmp xs p i j gt arbitrary: ys j' gt' rule: part_down.induct)
     (subst (asm) part_down.simps, auto split: if_splits bind_splits, (fastforce simp: le_diff_conv)+)

function part_loop :: "('a \<Rightarrow> 'a \<Rightarrow> int) \<Rightarrow> 'a list \<Rightarrow> nat \<Rightarrow> nat \<Rightarrow> nat \<Rightarrow> nat \<Rightarrow> nat
    \<Rightarrow> ('a list \<times> nat \<times> nat \<times> nat) option" where
  "part_loop cmp xs p i lt j gt =
     do { (ys, i', lt') \<leftarrow> part_up cmp xs p i lt j;
          (zs, j', gt') \<leftarrow> part_down cmp ys p i' j gt;
          if i' \<ge> j' then Some (zs, i', lt', gt')
          else do { ws \<leftarrow> swap_at zs i' j'; part_loop cmp ws p (i' + 1) lt' j' gt' } }"
  by pat_completeness auto
termination
  by (relation "measure (\<lambda>(cmp, xs, p, i, lt, j, gt). j - i)")
     (auto dest!: part_up_mono part_down_mono)

declare part_loop.simps [simp del]

text \<open>
  One round of the inner loop: the pivot goes to \<open>p\<close>, the array is partitioned, and the
  elements equal to the pivot are moved from the two ends to the middle. The result is the
  array, the number of elements below the pivot and the number above it.
\<close>

definition rq_partition :: "('a \<Rightarrow> 'a \<Rightarrow> int) \<Rightarrow> 'a list \<Rightarrow> nat \<Rightarrow> nat \<Rightarrow> ('a list \<times> nat \<times> nat) option" where
  "rq_partition cmp xs ptr nmemb =
     do { let m4 = nmemb div 4;
          m \<leftarrow> med3 cmp xs (ptr + m4) (ptr + 2 * m4) (ptr + 3 * m4);
          xs1 \<leftarrow> swap_at xs ptr m;
          let lim = ptr + nmemb;
          (xs2, i, lt, gt) \<leftarrow> part_loop cmp xs1 ptr (ptr + 1) (ptr + 1) lim lim;
          let span = min (lt - ptr) (i - lt);
          xs3 \<leftarrow> swap_block xs2 ptr (i - span) span;
          let span' = min (lim - gt) (gt - i);
          xs4 \<leftarrow> swap_block xs3 i (lim - span') span';
          Some (xs4, i - lt, gt - i) }"

definition rq_push :: "(nat \<times> nat \<times> nat) \<Rightarrow> (nat \<times> nat \<times> nat) list \<Rightarrow> (nat \<times> nat \<times> nat) list option" where
  "rq_push e sp = (if length sp < 50 then Some (e # sp) else None)"

function rq_inner :: "('a \<Rightarrow> 'a \<Rightarrow> int) \<Rightarrow> 'a list \<Rightarrow> nat \<Rightarrow> nat \<Rightarrow> nat \<Rightarrow> (nat \<times> nat \<times> nat) list
    \<Rightarrow> ('a list \<times> nat \<times> nat \<times> (nat \<times> nat \<times> nat) list) option" where
  "rq_inner cmp xs ptr nmemb depth sp =
     (if nmemb > 6 then
        (if depth + 1 > 50 then do { ys \<leftarrow> heapsortx cmp xs ptr nmemb; Some (ys, ptr, 0, sp) }
         else do {
           (ys, nl, ng) \<leftarrow> rq_partition cmp xs ptr nmemb;
           if nl > ng
           then do { sp' \<leftarrow> rq_push (ptr, nl, depth + 1) sp;
                     rq_inner cmp ys (ptr + nmemb - ng) ng (depth + 1) sp' }
           else do { sp' \<leftarrow> rq_push (ptr + nmemb - ng, ng, depth + 1) sp;
                     rq_inner cmp ys ptr nl (depth + 1) sp' } })
      else Some (xs, ptr, nmemb, sp))"
  by pat_completeness auto
termination
  by (relation "measure (\<lambda>(cmp, xs, ptr, nmemb, depth, sp). 50 - depth)") auto

declare rq_inner.simps [simp del]

function ins_sink :: "('a \<Rightarrow> 'a \<Rightarrow> int) \<Rightarrow> 'a list \<Rightarrow> nat \<Rightarrow> nat \<Rightarrow> 'a list option" where
  "ins_sink cmp xs ptr j =
     (if j > ptr then do {
        c \<leftarrow> cmp_at cmp xs (j - 1) j;
        if c > 0 then do { ys \<leftarrow> swap_at xs j (j - 1); ins_sink cmp ys ptr (j - 1) } else Some xs }
      else Some xs)"
  by pat_completeness auto
termination
  by (relation "measure (\<lambda>(cmp, xs, ptr, j). j)") auto

function ins_loop :: "('a \<Rightarrow> 'a \<Rightarrow> int) \<Rightarrow> 'a list \<Rightarrow> nat \<Rightarrow> nat \<Rightarrow> nat \<Rightarrow> 'a list option" where
  "ins_loop cmp xs ptr i lim =
     (if i < lim then do { ys \<leftarrow> ins_sink cmp xs ptr i; ins_loop cmp ys ptr (i + 1) lim } else Some xs)"
  by pat_completeness auto
termination
  by (relation "measure (\<lambda>(cmp, xs, ptr, i, lim). lim - i)") auto

declare ins_sink.simps [simp del] ins_loop.simps [simp del]

partial_function (option) rq_outer :: "('a \<Rightarrow> 'a \<Rightarrow> int) \<Rightarrow> 'a list \<Rightarrow> (nat \<times> nat \<times> nat) list \<Rightarrow> 'a list option" where
  "rq_outer cmp xs stack =
     (case stack of
        [] \<Rightarrow> Some xs
      | (ptr, nmemb, depth) # sp \<Rightarrow>
          do { (ys, ptr', nmemb', sp') \<leftarrow> rq_inner cmp xs ptr nmemb depth sp;
               zs \<leftarrow> ins_loop cmp ys ptr' (ptr' + 1) (ptr' + nmemb');
               rq_outer cmp zs sp' })"

definition rqsort :: "('a \<Rightarrow> 'a \<Rightarrow> int) \<Rightarrow> 'a list \<Rightarrow> nat \<Rightarrow> 'a list option" where
  "rqsort cmp xs nmemb = (if nmemb < 2 then Some xs else rq_outer cmp xs [(0, nmemb, 0)])"

section \<open>What one access does\<close>

lemma cmp_at_eq [simp]: "a < length xs \<Longrightarrow> b < length xs \<Longrightarrow> cmp_at cmp xs a b = Some (cmp (xs ! a) (xs ! b))"
  by (simp add: cmp_at_def)

lemma swap_at_eq [simp]:
  "a < length xs \<Longrightarrow> b < length xs \<Longrightarrow> swap_at xs a b = Some (xs[a := xs ! b, b := xs ! a])"
  by (simp add: swap_at_def)

section \<open>The exchange functions\<close>

text \<open>
  They work on the bytes of the array: an element is exchanged by bytes, or by integers of 2, 4
  or 8 bytes, or by pairs of 64-bit integers when the alignment of the array and the element
  sz allow it. \<open>a\<close> and \<open>b\<close> are offsets into the bytes \<open>m\<close> of the array.
\<close>

definition exch_int :: "nat \<Rightarrow> bytes \<Rightarrow> nat \<Rightarrow> nat \<Rightarrow> bytes option" where
  "exch_int w m a b =
     do { t \<leftarrow> rd_bytes m a w; x \<leftarrow> rd_bytes m b w; m1 \<leftarrow> wr_bytes m a x; wr_bytes m1 b t }"

primrec exch_ints :: "nat \<Rightarrow> bytes \<Rightarrow> nat \<Rightarrow> nat \<Rightarrow> nat \<Rightarrow> bytes option" where
  "exch_ints w m a b 0 = Some m"
| "exch_ints w m a b (Suc n) = do { m1 \<leftarrow> exch_int w m a b; exch_ints w m1 (a + w) (b + w) n }"

definition exchange_bytes :: "bytes \<Rightarrow> nat \<Rightarrow> nat \<Rightarrow> nat \<Rightarrow> bytes option" where
  "exchange_bytes m a b sz = exch_ints 1 m a b sz"
definition exchange_one_byte :: "bytes \<Rightarrow> nat \<Rightarrow> nat \<Rightarrow> nat \<Rightarrow> bytes option" where
  "exchange_one_byte m a b sz = exch_int 1 m a b"
definition exchange_int16s :: "bytes \<Rightarrow> nat \<Rightarrow> nat \<Rightarrow> nat \<Rightarrow> bytes option" where
  "exchange_int16s m a b sz = exch_ints 2 m a b (sz div 2)"
definition exchange_one_int16 :: "bytes \<Rightarrow> nat \<Rightarrow> nat \<Rightarrow> nat \<Rightarrow> bytes option" where
  "exchange_one_int16 m a b sz = exch_int 2 m a b"
definition exchange_int32s :: "bytes \<Rightarrow> nat \<Rightarrow> nat \<Rightarrow> nat \<Rightarrow> bytes option" where
  "exchange_int32s m a b sz = exch_ints 4 m a b (sz div 4)"
definition exchange_one_int32 :: "bytes \<Rightarrow> nat \<Rightarrow> nat \<Rightarrow> nat \<Rightarrow> bytes option" where
  "exchange_one_int32 m a b sz = exch_int 4 m a b"
definition exchange_int64s :: "bytes \<Rightarrow> nat \<Rightarrow> nat \<Rightarrow> nat \<Rightarrow> bytes option" where
  "exchange_int64s m a b sz = exch_ints 8 m a b (sz div 8)"
definition exchange_one_int64 :: "bytes \<Rightarrow> nat \<Rightarrow> nat \<Rightarrow> nat \<Rightarrow> bytes option" where
  "exchange_one_int64 m a b sz = exch_int 8 m a b"

definition exchange_one_int128 :: "bytes \<Rightarrow> nat \<Rightarrow> nat \<Rightarrow> nat \<Rightarrow> bytes option" where
  "exchange_one_int128 m a b sz =
     do { t \<leftarrow> rd_bytes m a 8;
          u \<leftarrow> rd_bytes m (a + 8) 8;
          x \<leftarrow> rd_bytes m b 8;
          m1 \<leftarrow> wr_bytes m a x;
          y \<leftarrow> rd_bytes m1 (b + 8) 8;
          m2 \<leftarrow> wr_bytes m1 (a + 8) y;
          m3 \<leftarrow> wr_bytes m2 b t;
          wr_bytes m3 (b + 8) u }"

primrec exch_int128s :: "bytes \<Rightarrow> nat \<Rightarrow> nat \<Rightarrow> nat \<Rightarrow> bytes option" where
  "exch_int128s m a b 0 = Some m"
| "exch_int128s m a b (Suc n) =
     do { m1 \<leftarrow> exchange_one_int128 m a b 16; exch_int128s m1 (a + 16) (b + 16) n }"

definition exchange_int128s :: "bytes \<Rightarrow> nat \<Rightarrow> nat \<Rightarrow> nat \<Rightarrow> bytes option" where
  "exchange_int128s m a b sz = exch_int128s m a b (sz div 16)"

definition exchange_func :: "u64 \<Rightarrow> u64 \<Rightarrow> bytes \<Rightarrow> nat \<Rightarrow> nat \<Rightarrow> nat \<Rightarrow> bytes option" where
  "exchange_func base sz =
     (let k = unat ((base OR sz) AND 15) in
      if k = 0 then (if sz = 16 then exchange_one_int128 else exchange_int128s)
      else if k = 8 then (if sz = 8 then exchange_one_int64 else exchange_int64s)
      else if k = 4 \<or> k = 12 then (if sz = 4 then exchange_one_int32 else exchange_int32s)
      else if k = 2 \<or> k = 6 \<or> k = 10 \<or> k = 14
      then (if sz = 2 then exchange_one_int16 else exchange_int16s)
      else (if sz = 1 then exchange_one_byte else exchange_bytes))"

text \<open>What they all do: the \<open>n\<close> bytes at \<open>a\<close> and at \<open>b\<close> change places.\<close>

definition exchanged :: "bytes \<Rightarrow> nat \<Rightarrow> nat \<Rightarrow> nat \<Rightarrow> bytes \<Rightarrow> bool" where
  "exchanged m a b n m' =
     (length m' = length m \<and>
      (\<forall>d<n. m' ! (a + d) = m ! (b + d) \<and> m' ! (b + d) = m ! (a + d)) \<and>
      (\<forall>k. (k < a \<or> a + n \<le> k) \<and> (k < b \<or> b + n \<le> k) \<longrightarrow> m' ! k = m ! k))"

definition may_exchange :: "nat \<Rightarrow> nat \<Rightarrow> nat \<Rightarrow> nat \<Rightarrow> bool" where
  "may_exchange N a b n = (a + n \<le> N \<and> b + n \<le> N \<and> (a = b \<or> a + n \<le> b \<or> b + n \<le> a))"

lemma wr_bytes_nth:
  "wr_bytes m i vs = Some m' \<Longrightarrow> m' ! k = (if i \<le> k \<and> k < i + length vs then vs ! (k - i) else m ! k)"
  by (auto simp: wr_bytes_def nth_append split: if_splits)

lemma rd_bytes_nth: "rd_bytes m i n = Some vs \<Longrightarrow> d < n \<Longrightarrow> vs ! d = m ! (i + d)"
  by (auto simp: rd_bytes_def split: if_splits)

lemma rd_bytes_Some: "i + n \<le> length m \<Longrightarrow> \<exists>vs. rd_bytes m i n = Some vs \<and> length vs = n"
  by (simp add: rd_bytes_def)

lemma wr_bytes_Some: "i + length vs \<le> length m \<Longrightarrow> \<exists>m'. wr_bytes m i vs = Some m' \<and> length m' = length m"
  by (simp add: wr_bytes_def)

lemma exch_int_exchanged:
  assumes "may_exchange (length m) a b w"
  shows "\<exists>m'. exch_int w m a b = Some m' \<and> exchanged m a b w m'"
proof -
  obtain t where t: "rd_bytes m a w = Some t" "length t = w" using rd_bytes_Some [of a w m] assms by (auto simp: may_exchange_def)
  obtain x where x: "rd_bytes m b w = Some x" "length x = w" using rd_bytes_Some [of b w m] assms by (auto simp: may_exchange_def)
  obtain m1 where m1: "wr_bytes m a x = Some m1" "length m1 = length m"
    using wr_bytes_Some [of a x m] x assms by (auto simp: may_exchange_def)
  obtain m2 where m2: "wr_bytes m1 b t = Some m2" "length m2 = length m"
    using wr_bytes_Some [of b t m1] t m1 assms by (auto simp: may_exchange_def)
  have n: "m2 ! k = (if b \<le> k \<and> k < b + w then t ! (k - b) else if a \<le> k \<and> k < a + w then x ! (k - a) else m ! k)" for k
    using wr_bytes_nth [OF m2(1)] wr_bytes_nth [OF m1(1)] t x by simp
  have "exchanged m a b w m2" using assms m2(2) unfolding exchanged_def may_exchange_def
    by (auto simp: n rd_bytes_nth [OF t(1)] rd_bytes_nth [OF x(1)])
  then show ?thesis using t x m1 m2 by (simp add: exch_int_def)
qed

lemma exchanged_append:
  assumes "exchanged m a b w m1" "exchanged m1 (a + w) (b + w) n m2" "may_exchange (length m) a b (w + n)"
  shows "exchanged m a b (w + n) m2"
proof -
  have "m2 ! (a + d) = m ! (b + d) \<and> m2 ! (b + d) = m ! (a + d)" if d: "d < w + n" for d
  proof (cases "d < w")
    case True
    then show ?thesis using assms unfolding exchanged_def may_exchange_def by auto
  next
    case False
    then obtain e where e: "d = w + e" "e < n" using d by (metis add_less_cancel_left le_Suc_ex not_less)
    have "m1 ! (a + w + e) = m ! (a + w + e)" if "a \<noteq> b"
      using assms(1,3) that e unfolding exchanged_def may_exchange_def by auto
    moreover have "m1 ! (b + w + e) = m ! (b + w + e)"
      using assms(1,3) e unfolding exchanged_def may_exchange_def by auto
    ultimately show ?thesis using assms(2) e unfolding exchanged_def by (cases "a = b") (auto simp: add.assoc)
  qed
  then show ?thesis using assms unfolding exchanged_def by auto
qed

lemma exch_ints_exchanged:
  "may_exchange (length m) a b (w * n) \<Longrightarrow> \<exists>m'. exch_ints w m a b n = Some m' \<and> exchanged m a b (w * n) m'"
proof (induction n arbitrary: m a b)
  case 0 then show ?case by (simp add: exchanged_def)
next
  case (Suc n)
  obtain m1 where m1: "exch_int w m a b = Some m1" "exchanged m a b w m1"
    using exch_int_exchanged [of m a b w] Suc.prems by (auto simp: may_exchange_def)
  have "length m1 = length m" using m1(2) by (simp add: exchanged_def)
  then obtain m2 where m2: "exch_ints w m1 (a + w) (b + w) n = Some m2" "exchanged m1 (a + w) (b + w) (w * n) m2"
    using Suc.IH [of m1 "a + w" "b + w"] Suc.prems by (auto simp: may_exchange_def)
  then show ?case using m1 exchanged_append [OF m1(2) m2(2)] Suc.prems by simp
qed

lemma exchange_one_int128_exchanged:
  assumes "may_exchange (length m) a b 16"
  shows "\<exists>m'. exchange_one_int128 m a b s = Some m' \<and> exchanged m a b 16 m'"
proof -
  have b: "a + 16 \<le> length m" "b + 16 \<le> length m" "a = b \<or> a + 16 \<le> b \<or> b + 16 \<le> a"
    using assms by (auto simp: may_exchange_def)
  obtain t where t: "rd_bytes m a 8 = Some t" "length t = 8" using rd_bytes_Some [of a 8 m] b by auto
  obtain u where u: "rd_bytes m (a + 8) 8 = Some u" "length u = 8" using rd_bytes_Some [of "a + 8" 8 m] b by auto
  obtain x where x: "rd_bytes m b 8 = Some x" "length x = 8" using rd_bytes_Some [of b 8 m] b by auto
  obtain m1 where m1: "wr_bytes m a x = Some m1" "length m1 = length m" using wr_bytes_Some [of a x m] x b by auto
  obtain y where y: "rd_bytes m1 (b + 8) 8 = Some y" "length y = 8" using rd_bytes_Some [of "b + 8" 8 m1] b m1 by auto
  obtain m2 where m2: "wr_bytes m1 (a + 8) y = Some m2" "length m2 = length m"
    using wr_bytes_Some [of "a + 8" y m1] y m1 b by auto
  obtain m3 where m3: "wr_bytes m2 b t = Some m3" "length m3 = length m" using wr_bytes_Some [of b t m2] t m2 b by auto
  obtain m4 where m4: "wr_bytes m3 (b + 8) u = Some m4" "length m4 = length m"
    using wr_bytes_Some [of "b + 8" u m3] u m3 b by auto
  have y_at: "y ! d = m ! (b + 8 + d)" if "d < 8" for d
    using rd_bytes_nth [OF y(1) that] wr_bytes_nth [OF m1(1)] x b(3) that by auto
  have n: "m4 ! k = (if b + 8 \<le> k \<and> k < b + 16 then u ! (k - (b + 8)) else if b \<le> k \<and> k < b + 8 then t ! (k - b)
      else if a + 8 \<le> k \<and> k < a + 16 then y ! (k - (a + 8)) else if a \<le> k \<and> k < a + 8 then x ! (k - a) else m ! k)" for k
    using wr_bytes_nth [OF m4(1)] wr_bytes_nth [OF m3(1)] wr_bytes_nth [OF m2(1)] wr_bytes_nth [OF m1(1)] t u x y by simp
  have "m4 ! (a + d) = m ! (b + d) \<and> m4 ! (b + d) = m ! (a + d)" if d: "d < 16" for d
  proof (cases "d < 8")
    case True
    then show ?thesis using b(3) by (auto simp: n rd_bytes_nth [OF t(1)] rd_bytes_nth [OF x(1)])
  next
    case False
    then show ?thesis using b(3) d by (auto simp: n y_at rd_bytes_nth [OF u(1)])
  qed
  then have "exchanged m a b 16 m4" using m4(2) unfolding exchanged_def by (auto simp: n)
  then show ?thesis using t u x m1 y m2 m3 m4 by (simp add: exchange_one_int128_def)
qed

lemma exch_int128s_exchanged:
  "may_exchange (length m) a b (16 * n) \<Longrightarrow> \<exists>m'. exch_int128s m a b n = Some m' \<and> exchanged m a b (16 * n) m'"
proof (induction n arbitrary: m a b)
  case 0 then show ?case by (simp add: exchanged_def)
next
  case (Suc n)
  obtain m1 where m1: "exchange_one_int128 m a b 16 = Some m1" "exchanged m a b 16 m1"
    using exchange_one_int128_exchanged [of m a b 16] Suc.prems by (auto simp: may_exchange_def)
  have "length m1 = length m" using m1(2) by (simp add: exchanged_def)
  then obtain m2 where m2: "exch_int128s m1 (a + 16) (b + 16) n = Some m2" "exchanged m1 (a + 16) (b + 16) (16 * n) m2"
    using Suc.IH [of m1 "a + 16" "b + 16"] Suc.prems by (auto simp: may_exchange_def)
  then show ?case using m1 exchanged_append [OF m1(2) m2(2)] Suc.prems by simp
qed

lemma low_bits_dvd:
  assumes "(2 :: nat) ^ j dvd unat ((base OR s :: u64) AND 15)" "j \<le> 4"
  shows "2 ^ j dvd unat s"
proof -
  let ?v = "(base OR s) AND (15 :: u64)"
  have 15: "(15 :: u64) = mask 4" by (simp add: mask_eq_exp_minus_1)
  have "unat (take_bit j ?v) = 0" using assms(1) by (simp only: unsigned_take_bit_eq take_bit_eq_0_iff)
  then have "take_bit j ?v = 0" by (simp only: word_unat_eq_iff unsigned_0)
  have "\<not> bit s i" if "i < j" for i
  proof
    assume b: "bit s i"
    then have "bit (take_bit j ?v) i" using that assms(2) bit_imp_le_length [OF b]
      unfolding 15 by (simp add: bit_simps)
    then show False using \<open>take_bit j ?v = 0\<close> by simp
  qed
  then have "take_bit j s = 0" by (auto simp: bit_eq_iff bit_simps)
  then have "unat (take_bit j s) = 0" by simp
  then show ?thesis by (simp add: unsigned_take_bit_eq take_bit_eq_0_iff)
qed

lemma exchange_func_exchanges:
  assumes may: "may_exchange (length m) a b n"
    and al: "\<And>j. j \<le> 4 \<Longrightarrow> 2 ^ j dvd unat s \<Longrightarrow> 2 ^ j dvd n"
    and one: "unat s \<in> {1, 2, 4, 8, 16} \<Longrightarrow> n = unat s"
  shows "\<exists>m'. exchange_func base s m a b n = Some m' \<and> exchanged m a b n m'"
proof -
  define k where "k = unat ((base OR s) AND 15)"
  have al': "2 ^ j dvd k \<Longrightarrow> j \<le> 4 \<Longrightarrow> 2 ^ j dvd n" for j
    unfolding k_def by (rule al [OF _ low_bits_dvd])
  have ones: "(s = 1) = (unat s = 1)" "(s = 2) = (unat s = 2)" "(s = 4) = (unat s = 4)" "(s = 8) = (unat s = 8)"
    "(s = 16) = (unat s = 16)" by (simp_all add: word_unat_eq_iff)
  have loop: "\<exists>m'. exch_ints w m a b (n div w) = Some m' \<and> exchanged m a b n m'" if "w dvd n" for w
    using exch_ints_exchanged [of m a b w "n div w"] may that by simp
  have loop16: "\<exists>m'. exch_int128s m a b (n div 16) = Some m' \<and> exchanged m a b n m'" if "16 dvd n"
    using exch_int128s_exchanged [of m a b "n div 16"] may that by simp
  have unit: "\<exists>m'. exch_int n m a b = Some m' \<and> exchanged m a b n m'" by (rule exch_int_exchanged [OF may])
  have unit16: "\<exists>m'. exchange_one_int128 m a b n = Some m' \<and> exchanged m a b n m'" if "n = 16"
    using exchange_one_int128_exchanged [of m a b n] may that by simp
  note defs = exchange_func_def k_def [symmetric] Let_def ones exchange_bytes_def exchange_one_byte_def
    exchange_int16s_def exchange_one_int16_def exchange_int32s_def exchange_one_int32_def
    exchange_int64s_def exchange_one_int64_def exchange_int128s_def
  consider "k = 0" | "k = 8" | "k = 4 \<or> k = 12" | "k = 2 \<or> k = 6 \<or> k = 10 \<or> k = 14"
    | "k \<notin> {0, 2, 4, 6, 8, 10, 12, 14}" by auto
  then show ?thesis
  proof cases
    case 1
    then show ?thesis using al' [of 4] one loop16 unit16 by (cases "unat s = 16") (simp_all add: defs)
  next
    case 2
    then show ?thesis using al' [of 3] one loop [of 8] unit by (cases "unat s = 8") (simp_all add: defs)
  next
    case 3
    then have "4 dvd n" using al' [of 2] by auto
    then show ?thesis using 3 one loop [of 4] unit by (cases "unat s = 4") (auto simp: defs)
  next
    case 4
    then have "2 dvd n" using al' [of 1] by auto
    then show ?thesis using 4 one loop [of 2] unit by (cases "unat s = 2") (auto simp: defs)
  next
    case 5
    then show ?thesis using one loop [of 1] unit by (cases "unat s = 1") (auto simp: defs)
  qed
qed

text \<open>The elements of an array of \<open>n\<close> elements of \<open>sz\<close> bytes.\<close>

definition elements :: "nat \<Rightarrow> nat \<Rightarrow> bytes \<Rightarrow> bytes list" where
  "elements sz n m = map (\<lambda>k. take sz (drop (k * sz) m)) [0..<n]"

lemma index_apart:
  assumes "(i :: nat) < j"
  shows "i * sz + sz \<le> j * sz"
  using mult_le_mono1 [of "Suc i" j sz] assms by simp

lemma exchanged_elements:
  assumes ex: "exchanged m (i * sz) (j * sz) sz m'" and len: "length m = n * sz" and ij: "i < n" "j < n"
  shows "swap_at (elements sz n m) i j = Some (elements sz n m')"
proof -
  have fit: "k < n \<Longrightarrow> k * sz + sz \<le> n * sz" for k by (rule index_apart)
  have el: "elements sz n m' ! k = (elements sz n m)[i := elements sz n m ! j, j := elements sz n m ! i] ! k"
    if k: "k < n" for k
  proof -
    have at: "take sz (drop (l * sz) x) ! d = x ! (l * sz + d)" if "d < sz" "l < n" "length x = n * sz" for l d x
      using that fit [of l] by simp
    have tl: "length (take sz (drop (l * sz) x)) = sz" if "l < n" "length x = n * sz" for l x
      using that fit [of l] by simp
    have len': "length m' = n * sz" using ex len by (simp add: exchanged_def)
    define l where "l = (if k = j then i else if k = i then j else k)"
    have l: "l < n" using ij k by (simp add: l_def)
    have "take sz (drop (k * sz) m') = take sz (drop (l * sz) m)"
    proof (rule nth_equalityI)
      show "length (take sz (drop (k * sz) m')) = length (take sz (drop (l * sz) m))"
        using tl [OF k len'] tl [OF l len] by simp
      fix d assume "d < length (take sz (drop (k * sz) m'))"
      then have d: "d < sz" using tl [OF k len'] by simp
      have "m' ! (k * sz + d) = m ! (l * sz + d)"
      proof (cases "k = i \<or> k = j")
        case True
        then show ?thesis using ex d by (auto simp: exchanged_def l_def)
      next
        case False
        have "k * sz + d < i * sz \<or> i * sz + sz \<le> k * sz + d"
          using index_apart [of k i sz] index_apart [of i k sz] False d by (cases "k < i") auto
        moreover have "k * sz + d < j * sz \<or> j * sz + sz \<le> k * sz + d"
          using index_apart [of k j sz] index_apart [of j k sz] False d by (cases "k < j") auto
        ultimately show ?thesis using ex False by (auto simp: exchanged_def l_def)
      qed
      then show "take sz (drop (k * sz) m') ! d = take sz (drop (l * sz) m) ! d"
        using at [OF d k len'] at [OF d l len] by simp
    qed
    then show ?thesis using k ij by (simp add: elements_def nth_list_update l_def)
  qed
  have "elements sz n m' = (elements sz n m)[i := elements sz n m ! j, j := elements sz n m ! i]"
    by (rule nth_equalityI) (use el in \<open>simp_all add: elements_def\<close>)
  then show ?thesis using ij by (simp add: elements_def)
qed

text \<open>
  Whatever the alignment of the array and the size of its elements, the exchange function
  that is chosen for them exchanges two whole elements, and touches nothing else.
\<close>

theorem exchange_func_swaps:
  assumes "length m = n * unat sz" "i < n" "j < n"
  shows "\<exists>m'. exchange_func base sz m (i * unat sz) (j * unat sz) (unat sz) = Some m' \<and>
    length m' = length m \<and> swap_at (elements (unat sz) n m) i j = Some (elements (unat sz) n m')"
proof -
  have "may_exchange (length m) (i * unat sz) (j * unat sz) (unat sz)"
    using index_apart [of i n "unat sz"] index_apart [of j n "unat sz"] index_apart [of i j "unat sz"]
      index_apart [of j i "unat sz"] assms
    unfolding may_exchange_def by (metis linorder_neqE_nat)
  then obtain m' where "exchange_func base sz m (i * unat sz) (j * unat sz) (unat sz) = Some m'"
    "exchanged m (i * unat sz) (j * unat sz) (unat sz) m'"
    using exchange_func_exchanges [of m "i * unat sz" "j * unat sz" "unat sz" sz base] by blast
  then show ?thesis using exchanged_elements [OF _ assms] by (auto simp: exchanged_def)
qed

theorem exchange_func_swaps_witness:
  "\<exists>m'. exchange_func 4 2 [1, 2, 3, 4, 5, 6] (0 * unat (2 :: u64)) (2 * unat (2 :: u64)) (unat (2 :: u64)) = Some m' \<and>
    length m' = length [1 :: u8, 2, 3, 4, 5, 6] \<and>
    swap_at (elements (unat (2 :: u64)) 3 [1, 2, 3, 4, 5, 6]) 0 2 = Some (elements (unat (2 :: u64)) 3 m')"
  by (rule exchange_func_swaps) simp_all

section \<open>Exchanges within a range\<close>

text \<open>Every change the sort makes is an exchange of two elements of the range from \<open>p\<close> to \<open>q\<close>.\<close>

inductive swaps :: "nat \<Rightarrow> nat \<Rightarrow> 'a list \<Rightarrow> 'a list \<Rightarrow> bool" for p q :: nat where
  swaps_refl: "swaps p q xs xs"
| swaps_step: "swaps p q xs ys \<Longrightarrow> p \<le> a \<Longrightarrow> a < q \<Longrightarrow> p \<le> b \<Longrightarrow> b < q \<Longrightarrow> q \<le> length xs
    \<Longrightarrow> swaps p q xs (ys[a := ys ! b, b := ys ! a])"

declare swaps_refl [simp, intro]

lemma swaps_length [simp]: "swaps p q xs ys \<Longrightarrow> length ys = length xs"
  by (induction rule: swaps.induct) simp_all

lemma swaps_mset: "swaps p q xs ys \<Longrightarrow> mset ys = mset xs"
  by (induction rule: swaps.induct) (simp_all add: mset_swap)

lemma swaps_outside: "swaps p q xs ys \<Longrightarrow> k < p \<or> q \<le> k \<Longrightarrow> ys ! k = xs ! k"
  by (induction rule: swaps.induct) auto

lemma swaps_inside: "swaps p q xs ys \<Longrightarrow> p \<le> k \<Longrightarrow> k < q \<Longrightarrow> \<exists>m. p \<le> m \<and> m < q \<and> ys ! k = xs ! m"
proof (induction arbitrary: k rule: swaps.induct)
  case (swaps_step xs ys a b)
  have "k < length ys" using swaps_step by simp
  then show ?case
    using swaps_step.IH [of a] swaps_step.IH [of b] swaps_step.IH [of k] swaps_step.hyps swaps_step.prems
    by (auto simp: nth_list_update)
qed auto

lemma swaps_trans: "swaps p q ys zs \<Longrightarrow> swaps p q xs ys \<Longrightarrow> swaps p q xs zs"
  by (induction rule: swaps.induct) (auto intro: swaps.intros)

lemma swaps_mono: "swaps p q xs ys \<Longrightarrow> p' \<le> p \<Longrightarrow> q \<le> q' \<Longrightarrow> q' \<le> length xs \<Longrightarrow> swaps p' q' xs ys"
  by (induction rule: swaps.induct) (auto intro: swaps.intros)

lemma swaps_one: "p \<le> a \<Longrightarrow> a < q \<Longrightarrow> p \<le> b \<Longrightarrow> b < q \<Longrightarrow> q \<le> length xs \<Longrightarrow> swaps p q xs (xs[a := xs ! b, b := xs ! a])"
  by (rule swaps_step [OF swaps_refl])

lemma swaps_all: "swaps p q xs ys \<Longrightarrow> q \<le> length xs \<Longrightarrow> (\<And>k. p \<le> k \<Longrightarrow> k < q \<Longrightarrow> P (xs ! k))
    \<Longrightarrow> p \<le> k \<Longrightarrow> k < q \<Longrightarrow> P (ys ! k)"
  using swaps_inside by metis

section \<open>Heap sort\<close>

lemma sift_child_ok:
  assumes "c < n" "b + n \<le> length xs"
  obtains c' where "sift_child cmp xs b c n = Some c'" "c' = c \<or> c' = c + 1" "c' < n"
    "c' = c + 1 \<Longrightarrow> cmp (xs ! (b + c)) (xs ! (b + c + 1)) \<le> 0"
    "c' = c \<Longrightarrow> c + 1 < n \<Longrightarrow> 0 < cmp (xs ! (b + c)) (xs ! (b + c + 1))"
  using assms by (cases "c < n - 1 \<and> cmp (xs ! (b + c)) (xs ! (b + c + 1)) \<le> 0")
    (auto simp: sift_child_def less_diff_conv)

abbreviation xchg :: "'a list \<Rightarrow> nat \<Rightarrow> nat \<Rightarrow> 'a list" where
  "xchg xs a b \<equiv> xs[a := xs ! b, b := xs ! a]"

definition child :: "nat \<Rightarrow> nat \<Rightarrow> bool" where
  "child r c = (c = 2 * r + 1 \<or> c = 2 * r + 2)"

text \<open>One turn of the sift: it stops, or goes on from a child not below the other one.\<close>

lemma sift_turn:
  assumes "r < n" "b + n \<le> length xs"
  obtains (leaf) "\<And>c. child r c \<Longrightarrow> \<not> c < n" "sift cmp xs b r n = Some xs"
  | (node) c where "child r c" "c < n"
      "\<And>d. child r d \<Longrightarrow> d < n \<Longrightarrow> d \<noteq> c \<Longrightarrow>
        cmp (xs ! (b + d)) (xs ! (b + c)) \<le> 0 \<or> 0 < cmp (xs ! (b + c)) (xs ! (b + d))"
      "sift cmp xs b r n = (if 0 < cmp (xs ! (b + r)) (xs ! (b + c)) then Some xs
         else sift cmp (xchg xs (b + r) (b + c)) b c n)"
proof (cases "r * 2 + 1 < n")
  case True
  obtain c where c: "sift_child cmp xs b (r * 2 + 1) n = Some c" "c = r * 2 + 1 \<or> c = r * 2 + 1 + 1" "c < n"
    "c = r * 2 + 1 + 1 \<Longrightarrow> cmp (xs ! (b + (r * 2 + 1))) (xs ! (b + (r * 2 + 1) + 1)) \<le> 0"
    "c = r * 2 + 1 \<Longrightarrow> r * 2 + 1 + 1 < n \<Longrightarrow> 0 < cmp (xs ! (b + (r * 2 + 1))) (xs ! (b + (r * 2 + 1) + 1))"
    by (rule sift_child_ok [OF True assms(2), where cmp = cmp]) blast
  show ?thesis
  proof (rule node [of c])
    show "child r c" using c(2) by (auto simp: child_def)
    show "cmp (xs ! (b + d)) (xs ! (b + c)) \<le> 0 \<or> 0 < cmp (xs ! (b + c)) (xs ! (b + d))"
      if "child r d" "d < n" "d \<noteq> c" for d
      using that c(2,4,5) by (auto simp: child_def mult.commute)
    show "sift cmp xs b r n = (if 0 < cmp (xs ! (b + r)) (xs ! (b + c)) then Some xs
         else sift cmp (xchg xs (b + r) (b + c)) b c n)"
      using True c(1,3) assms by (subst sift.simps) simp
  qed (rule c)
next
  case False
  show ?thesis
    by (rule leaf) (use False in \<open>auto simp: child_def sift.simps\<close>)
qed

lemma sift_ok:
  "r < n \<Longrightarrow> b + n \<le> length xs \<Longrightarrow> \<exists>ys. sift cmp xs b r n = Some ys \<and> swaps b (b + n) xs ys"
proof (induction "n - r" arbitrary: xs r rule: less_induct)
  case less
  from less.prems show ?case
  proof (cases rule: sift_turn [where cmp = cmp])
    case (node c)
    define ys where "ys = xchg xs (b + r) (b + c)"
    have sw: "swaps b (b + n) xs ys" unfolding ys_def using node less.prems by (intro swaps_one) auto
    have "\<exists>zs. sift cmp ys b c n = Some zs \<and> swaps b (b + n) ys zs"
      using node less.prems by (intro less.hyps) (auto simp: ys_def child_def)
    then show ?thesis using node(4) sw by (auto simp: ys_def [symmetric] intro: swaps_trans)
  qed auto
qed

lemma heapify_ok:
  "i \<le> n \<Longrightarrow> b + n \<le> length xs \<Longrightarrow> \<exists>ys. heapify cmp xs b n i = Some ys \<and> swaps b (b + n) xs ys"
proof (induction i arbitrary: xs)
  case (Suc i)
  obtain ys where ys: "sift cmp xs b i n = Some ys" "swaps b (b + n) xs ys"
    using sift_ok [of i n b xs] Suc.prems by auto
  then show ?case using Suc.IH [of ys] Suc.prems by (auto intro: swaps_trans)
qed auto

lemma heap_extract_ok:
  "i < n \<Longrightarrow> b + n \<le> length xs \<Longrightarrow> \<exists>ys. heap_extract cmp xs b i = Some ys \<and> swaps b (b + n) xs ys"
proof (induction i arbitrary: xs)
  case (Suc i)
  define ys where "ys = xchg xs b (b + Suc i)"
  have 1: "swaps b (b + n) xs ys" unfolding ys_def using Suc.prems by (intro swaps_one) auto
  obtain zs where zs: "sift cmp ys b 0 (Suc i) = Some zs" "swaps b (b + Suc i) ys zs"
    using sift_ok [of 0 "Suc i" b ys] Suc.prems by (auto simp: ys_def)
  have 2: "swaps b (b + n) ys zs" using zs(2) Suc.prems by (auto intro: swaps_mono simp: ys_def)
  from zs(2) have len: "length zs = length xs" by (auto simp: ys_def)
  show ?case
    using Suc.IH [of zs] Suc.prems zs(1) 1 2 len by (auto simp: ys_def intro: swaps_trans)
qed auto

lemma heapsortx_ok:
  assumes "b + n \<le> length xs"
  shows "\<exists>ys. heapsortx cmp xs b n = Some ys \<and> swaps b (b + n) xs ys"
proof (cases "1 < n")
  case True
  obtain ys where ys: "heapify cmp xs b n (n div 2) = Some ys" "swaps b (b + n) xs ys"
    using heapify_ok [of "n div 2" n b xs] assms by auto
  then show ?thesis using heap_extract_ok [of "n - 1" n b ys] assms True
    by (auto simp: heapsortx_def intro: swaps_trans)
qed (simp add: heapsortx_def)

section \<open>The partition\<close>

lemma med3_ok:
  "a < length xs \<Longrightarrow> b < length xs \<Longrightarrow> c < length xs \<Longrightarrow> \<exists>m. med3 cmp xs a b c = Some m \<and> m \<in> {a, b, c}"
  by (simp add: med3_def)

text \<open>
  The regions during the partition: equal to the pivot up to \<open>lt\<close>, below it up to \<open>i\<close>,
  above it from \<open>j\<close> to \<open>gt\<close>, equal to it from there to the end. They are told by the
  comparisons the code makes, pivot first, so nothing is asked of the comparator.
\<close>

definition regions :: "('a \<Rightarrow> 'a \<Rightarrow> int) \<Rightarrow> nat \<Rightarrow> nat \<Rightarrow> 'a list \<Rightarrow> nat \<Rightarrow> nat \<Rightarrow> nat \<Rightarrow> nat \<Rightarrow> bool" where
  "regions cmp p q xs i lt j gt =
     (p < lt \<and> lt \<le> i \<and> j \<le> gt \<and> gt \<le> q \<and> q \<le> length xs \<and>
      (\<forall>k. p < k \<and> k < lt \<longrightarrow> cmp (xs ! p) (xs ! k) = 0) \<and>
      (\<forall>k. lt \<le> k \<and> k < i \<longrightarrow> 0 < cmp (xs ! p) (xs ! k)) \<and>
      (\<forall>k. j \<le> k \<and> k < gt \<longrightarrow> cmp (xs ! p) (xs ! k) < 0) \<and>
      (\<forall>k. gt \<le> k \<and> k < q \<longrightarrow> cmp (xs ! p) (xs ! k) = 0))"

lemma regions_down:
  assumes "regions cmp p q xs i lt (Suc j) gt" "cmp (xs ! p) (xs ! j) < 0"
  shows "regions cmp p q xs i lt j gt"
proof -
  have "cmp (xs ! p) (xs ! k) < 0" if "j \<le> k" "k < gt" for k
    using that assms by (cases "k = j") (auto simp: regions_def)
  then show ?thesis using assms(1) by (auto simp: regions_def)
qed

lemma regions_up:
  assumes "regions cmp p q xs i lt j gt" "0 < cmp (xs ! p) (xs ! i)"
  shows "regions cmp p q xs (i + 1) lt j gt"
proof -
  have "0 < cmp (xs ! p) (xs ! k)" if "lt \<le> k" "k < i + 1" for k
    using that assms by (cases "k = i") (auto simp: regions_def)
  then show ?thesis using assms(1) by (auto simp: regions_def)
qed

lemma part_up_ok:
  "regions cmp p q xs i lt j gt \<Longrightarrow> i \<le> j \<Longrightarrow>
   \<exists>ys i' lt'. part_up cmp xs p i lt j = Some (ys, i', lt') \<and> swaps (p + 1) q xs ys \<and>
     i \<le> i' \<and> i' \<le> j \<and> regions cmp p q ys i' lt' j gt \<and> (i' < j \<longrightarrow> cmp (ys ! p) (ys ! i') < 0)"
proof (induction "j - i" arbitrary: xs i lt rule: less_induct)
  case less
  show ?case
  proof (cases "i < j")
    case True
    let ?c = "cmp (xs ! p) (xs ! i)"
    have b: "p < i" "i < length xs" "p < length xs" "lt < length xs" "i < q" "p < lt"
      using less.prems True by (auto simp: regions_def)
    consider "?c < 0" | "?c = 0" | "0 < ?c" by linarith
    then show ?thesis
    proof cases
      case 1 then show ?thesis using less.prems True b by (subst part_up.simps) auto
    next
      case 2
      have r: "regions cmp p q (xchg xs lt i) (i + 1) (lt + 1) j gt"
        using less.prems True b 2 by (auto simp: regions_def nth_list_update)
      have sw: "swaps (p + 1) q xs (xchg xs lt i)" using less.prems b by (intro swaps_one) (auto simp: regions_def)
      have e: "part_up cmp xs p i lt j = part_up cmp (xchg xs lt i) p (i + 1) (lt + 1) j"
        using True b 2 by (subst part_up.simps) simp
      have m: "j - (i + 1) < j - i" using True by linarith
      show ?thesis unfolding e using less.hyps [OF m r] True swaps_trans [OF _ sw] by fastforce
    next
      case 3
      have r: "regions cmp p q xs (i + 1) lt j gt" using less.prems True 3 by (auto simp: regions_def less_Suc_eq)
      have e: "part_up cmp xs p i lt j = part_up cmp xs p (i + 1) lt j"
        using True b 3 by (subst part_up.simps) simp
      have m: "j - (i + 1) < j - i" using True by linarith
      show ?thesis unfolding e using less.hyps [OF m r] True by fastforce
    qed
  next
    case False then show ?thesis using less.prems by (subst part_up.simps) auto
  qed
qed

lemma part_down_ok:
  "regions cmp p q xs i lt j gt \<Longrightarrow> i \<le> j \<Longrightarrow> (i < j \<Longrightarrow> cmp (xs ! p) (xs ! i) < 0) \<Longrightarrow>
   \<exists>ys j' gt'. part_down cmp xs p i j gt = Some (ys, j', gt') \<and> swaps (p + 1) q xs ys \<and>
     j' < j \<and> i \<le> gt' \<and>
     (if i < j' then regions cmp p q ys i lt (j' + 1) gt' \<and> cmp (ys ! p) (ys ! i) < 0 \<and> 0 < cmp (ys ! p) (ys ! j')
      else regions cmp p q ys i lt i gt')"
proof (induction j arbitrary: xs gt)
  case 0 then show ?case by (auto simp: regions_def)
next
  case (Suc j)
  show ?case
  proof (cases "i < j")
    case True
    let ?c = "cmp (xs ! p) (xs ! j)"
    have b: "p < i" "j < length xs" "p < length xs" "gt - 1 < length xs" "i < q" "p < lt" "j \<le> gt - 1" "j < gt"
      using Suc.prems(1) True by (auto simp: regions_def)
    consider "0 < ?c" | "?c = 0" | "?c < 0" by linarith
    then show ?thesis
    proof cases
      case 1 then show ?thesis using Suc.prems True b by (subst part_down.simps) auto
    next
      case 2
      let ?ys = "xchg xs (gt - 1) j"
      have r: "regions cmp p q ?ys i lt j (gt - 1)"
        using Suc.prems(1) True b 2 by (auto simp: regions_def nth_list_update)
      have sw: "swaps (p + 1) q xs ?ys" using Suc.prems(1) b True by (intro swaps_one) (auto simp: regions_def)
      have e: "part_down cmp xs p i (Suc j) gt = part_down cmp ?ys p i j (gt - 1)"
        using True b 2 by (subst part_down.simps) simp
      have h: "cmp (?ys ! p) (?ys ! i) < 0" using Suc.prems True b by (auto simp: nth_list_update)
      show ?thesis unfolding e using Suc.IH [OF r] h True swaps_trans [OF _ sw] by fastforce
    next
      case 3
      have r: "regions cmp p q xs i lt j gt"
        using Suc.prems(1) 3 by (rule regions_down)
      have e: "part_down cmp xs p i (Suc j) gt = part_down cmp xs p i j gt"
        using True b 3 by (subst part_down.simps) simp
      show ?thesis unfolding e using Suc.IH [OF r] Suc.prems(3) True by fastforce
    qed
  next
    case False
    have "i = j \<or> i = Suc j" using Suc.prems(2) False by linarith
    then have "regions cmp p q xs i lt i gt"
      using Suc.prems(1,3) by (auto intro: regions_down)
    then show ?thesis using Suc.prems False by (subst part_down.simps) (auto simp: regions_def)
  qed
qed

lemma part_loop_ok:
  "regions cmp p q xs i lt j gt \<Longrightarrow> i \<le> j \<Longrightarrow>
   \<exists>ys i' lt' gt'. part_loop cmp xs p i lt j gt = Some (ys, i', lt', gt') \<and> swaps (p + 1) q xs ys \<and>
     regions cmp p q ys i' lt' i' gt'"
proof (induction "j - i" arbitrary: xs i lt j gt rule: less_induct)
  case less
  obtain ys i' lt' where up: "part_up cmp xs p i lt j = Some (ys, i', lt')" "swaps (p + 1) q xs ys"
    "i \<le> i'" "i' \<le> j" "regions cmp p q ys i' lt' j gt" "i' < j \<Longrightarrow> cmp (ys ! p) (ys ! i') < 0"
    using part_up_ok [OF less.prems] by auto
  obtain zs j' gt' where dn: "part_down cmp ys p i' j gt = Some (zs, j', gt')" "swaps (p + 1) q ys zs"
    "j' < j" "i' \<le> gt'" "if i' < j' then regions cmp p q zs i' lt' (j' + 1) gt' \<and>
       cmp (zs ! p) (zs ! i') < 0 \<and> 0 < cmp (zs ! p) (zs ! j') else regions cmp p q zs i' lt' i' gt'"
    using part_down_ok [OF up(5,4,6)] by auto
  have sw: "swaps (p + 1) q xs zs" by (rule swaps_trans [OF dn(2) up(2)])
  show ?case
  proof (cases "i' < j'")
    case True
    let ?ws = "xchg zs i' j'"
    have b: "j' < length zs" "i' < length zs" "p < i'" "j' < q" "q \<le> length zs"
      using dn(5) True by (auto simp: regions_def)
    have c: "0 < cmp (?ws ! p) (?ws ! i')" "cmp (?ws ! p) (?ws ! j') < 0"
      using dn(5) True b by (simp_all add: nth_list_update)
    have "regions cmp p q zs i' lt' (Suc j') gt'" using dn(5) True by simp
    then have "regions cmp p q ?ws i' lt' (Suc j') gt'"
      using True b unfolding regions_def by (simp add: nth_list_update)
    then have r: "regions cmp p q ?ws (i' + 1) lt' j' gt'" using c by (blast intro: regions_up regions_down)
    have sw': "swaps (p + 1) q zs ?ws" using b True by (intro swaps_one) auto
    have e: "part_loop cmp xs p i lt j gt = part_loop cmp ?ws p (i' + 1) lt' j' gt'"
      using up(1) dn(1) True b by (subst part_loop.simps) simp
    have m: "j' - (i' + 1) < j - i" using True up(3) dn(3) by linarith
    show ?thesis unfolding e
      using less.hyps [OF m r] True swaps_trans [OF _ swaps_trans [OF sw' sw]] by fastforce
  next
    case False
    then show ?thesis using up(1) dn(1,5) sw by (subst part_loop.simps) simp
  qed
qed

lemma swap_block_ok:
  "a + n \<le> b \<Longrightarrow> b + n \<le> q \<Longrightarrow> q \<le> length xs \<Longrightarrow> p \<le> a \<Longrightarrow>
   \<exists>ys. swap_block xs a b n = Some ys \<and> swaps p q xs ys \<and>
     (\<forall>d<n. ys ! (a + d) = xs ! (b + d) \<and> ys ! (b + d) = xs ! (a + d)) \<and>
     (\<forall>k. (k < a \<or> a + n \<le> k) \<and> (k < b \<or> b + n \<le> k) \<longrightarrow> ys ! k = xs ! k)"
proof (induction n arbitrary: xs a b)
  case (Suc n)
  let ?ws = "xchg xs a b"
  have sw: "swaps p q xs ?ws" using Suc.prems by (intro swaps_one) auto
  obtain ys where ys: "swap_block ?ws (a + 1) (b + 1) n = Some ys" "swaps p q ?ws ys"
    "\<And>d. d < n \<Longrightarrow> ys ! (a + 1 + d) = ?ws ! (b + 1 + d) \<and> ys ! (b + 1 + d) = ?ws ! (a + 1 + d)"
    "\<And>k. (k < a + 1 \<or> a + 1 + n \<le> k) \<and> (k < b + 1 \<or> b + 1 + n \<le> k) \<Longrightarrow> ys ! k = ?ws ! k"
    using Suc.IH [of "a + 1" "b + 1" ?ws] Suc.prems by auto
  have "ys ! (a + d) = xs ! (b + d) \<and> ys ! (b + d) = xs ! (a + d)" if "d < Suc n" for d
  proof (cases d)
    case 0
    have "ys ! a = ?ws ! a" "ys ! b = ?ws ! b" using Suc.prems by (intro ys(4); simp)+
    then show ?thesis using 0 Suc.prems by simp
  next
    case (Suc e)
    then show ?thesis using ys(3) [of e] that Suc.prems by simp
  qed
  moreover have "ys ! k = xs ! k" if "(k < a \<or> a + Suc n \<le> k) \<and> (k < b \<or> b + Suc n \<le> k)" for k
  proof -
    have "k \<noteq> a" "k \<noteq> b" using that by auto
    moreover have "ys ! k = ?ws ! k" using that Suc.prems by (intro ys(4)) linarith
    ultimately show ?thesis by simp
  qed
  ultimately show ?case using Suc.prems ys(1) swaps_trans [OF ys(2) sw] by simp
qed auto

text \<open>
  Exchanging the shorter of two adjacent blocks with the far end of the other one puts the
  elements of the second block before those of the first.
\<close>

lemma swap_block_rotates:
  assumes "a \<le> m" "m \<le> c" "c \<le> q" "q \<le> length xs" "p \<le> a" "n = min (m - a) (c - m)"
  obtains ys where "swap_block xs a (c - n) n = Some ys" "swaps p q xs ys"
    "\<And>k. a \<le> k \<Longrightarrow> k < a + (c - m) \<Longrightarrow> \<exists>k'. m \<le> k' \<and> k' < c \<and> ys ! k = xs ! k'"
    "\<And>k. a + (c - m) \<le> k \<Longrightarrow> k < c \<Longrightarrow> \<exists>k'. a \<le> k' \<and> k' < m \<and> ys ! k = xs ! k'"
    "\<And>k. k < a \<or> c \<le> k \<Longrightarrow> ys ! k = xs ! k"
proof -
  have n: "n \<le> m - a" "n \<le> c - m" "n = m - a \<or> n = c - m" using assms(6) by auto
  have pre: "a + n \<le> c - n" "c - n + n \<le> q" using n assms(1-3) by linarith+
  obtain ys where ys: "swap_block xs a (c - n) n = Some ys" "swaps p q xs ys"
    "\<And>d. d < n \<Longrightarrow> ys ! (a + d) = xs ! (c - n + d) \<and> ys ! (c - n + d) = xs ! (a + d)"
    "\<And>k. (k < a \<or> a + n \<le> k) \<and> (k < c - n \<or> c - n + n \<le> k) \<Longrightarrow> ys ! k = xs ! k"
    using swap_block_ok [OF pre assms(4,5)] by blast
  show ?thesis
  proof (rule that [OF ys(1,2)])
    show "\<exists>k'. m \<le> k' \<and> k' < c \<and> ys ! k = xs ! k'" if "a \<le> k" "k < a + (c - m)" for k
    proof (cases "k < a + n")
      case True
      then have "ys ! k = xs ! (c - n + (k - a))" using ys(3) [of "k - a"] that by simp
      moreover have "m \<le> c - n + (k - a)" "c - n + (k - a) < c" using True that n by linarith+
      ultimately show ?thesis by blast
    next
      case False
      then have "n = m - a" using n that by linarith
      then have "ys ! k = xs ! k" using False that assms(1-3) by (intro ys(4)) linarith
      then show ?thesis using \<open>n = m - a\<close> False that assms by (intro exI [of _ k]) linarith
    qed
    show "\<exists>k'. a \<le> k' \<and> k' < m \<and> ys ! k = xs ! k'" if "a + (c - m) \<le> k" "k < c" for k
    proof (cases "k < c - n")
      case False
      then have "ys ! k = xs ! (a + (k - (c - n)))" using ys(3) [of "k - (c - n)"] that by simp
      moreover have "a + (k - (c - n)) < m" using False that n assms by linarith
      ultimately show ?thesis by (intro exI [of _ "a + (k - (c - n))"]) simp
    next
      case True
      then have "n = c - m" using n that assms by linarith
      then have "ys ! k = xs ! k" using True that assms(1-3) by (intro ys(4)) linarith
      then show ?thesis using \<open>n = c - m\<close> True that assms by (intro exI [of _ k]) linarith
    qed
    show "ys ! k = xs ! k" if "k < a \<or> c \<le> k" for k using that assms n by (intro ys(4)) linarith
  qed
qed

text \<open>What the partition leaves: the elements below the pivot, equal to it, above it.\<close>

definition parted :: "('a \<Rightarrow> 'a \<Rightarrow> int) \<Rightarrow> 'a \<Rightarrow> 'a list \<Rightarrow> nat \<Rightarrow> nat \<Rightarrow> nat \<Rightarrow> nat \<Rightarrow> bool" where
  "parted cmp v ys p n nl ng =
     (nl + ng < n \<and>
      (\<forall>k. p \<le> k \<and> k < p + nl \<longrightarrow> 0 < cmp v (ys ! k)) \<and>
      (\<forall>k. p + nl \<le> k \<and> k < p + n - ng \<longrightarrow> ys ! k = v \<or> cmp v (ys ! k) = 0) \<and>
      (\<forall>k. p + n - ng \<le> k \<and> k < p + n \<longrightarrow> cmp v (ys ! k) < 0))"

lemma rq_partition_ok:
  assumes n: "6 < n" "p + n \<le> length xs"
  shows "\<exists>ys nl ng v. rq_partition cmp xs p n = Some (ys, nl, ng) \<and> swaps p (p + n) xs ys \<and> parted cmp v ys p n nl ng"
proof -
  let ?q = "p + n"
  have q4: "3 * (n div 4) < n" using n by linarith
  obtain m where m: "med3 cmp xs (p + n div 4) (p + 2 * (n div 4)) (p + 3 * (n div 4)) = Some m"
    "p \<le> m" "m < ?q"
    using med3_ok [of "p + n div 4" xs "p + 2 * (n div 4)" "p + 3 * (n div 4)" cmp] n q4 by auto
  let ?x1 = "xchg xs p m"
  have s1: "swaps p ?q xs ?x1" using m n by (intro swaps_one) auto
  obtain x2 i lt gt where l: "part_loop cmp ?x1 p (p + 1) (p + 1) ?q ?q = Some (x2, i, lt, gt)"
    "swaps (p + 1) ?q ?x1 x2" "regions cmp p ?q x2 i lt i gt"
    using part_loop_ok [of cmp p ?q ?x1 "p + 1" "p + 1" ?q ?q] n by (auto simp: regions_def)
  have b: "p < lt" "lt \<le> i" "i \<le> gt" "gt \<le> ?q" "?q \<le> length x2" using l(3) by (auto simp: regions_def)
  have s2: "swaps p ?q ?x1 x2" using l(2) n by (auto intro: swaps_mono)
  define s where "s = min (lt - p) (i - lt)"
  define t where "t = min (gt - i) (?q - gt)"
  have "i \<le> ?q" "p \<le> lt" "p \<le> i" using b by linarith+
  obtain x3 where x3: "swap_block x2 p (i - s) s = Some x3" "swaps p ?q x2 x3"
    "\<And>k. p \<le> k \<Longrightarrow> k < p + (i - lt) \<Longrightarrow> \<exists>k'. lt \<le> k' \<and> k' < i \<and> x3 ! k = x2 ! k'"
    "\<And>k. p + (i - lt) \<le> k \<Longrightarrow> k < i \<Longrightarrow> \<exists>k'. p \<le> k' \<and> k' < lt \<and> x3 ! k = x2 ! k'"
    "\<And>k. k < p \<or> i \<le> k \<Longrightarrow> x3 ! k = x2 ! k"
    using swap_block_rotates [OF \<open>p \<le> lt\<close> b(2) \<open>i \<le> ?q\<close> b(5) order.refl s_def] by blast
  have "?q \<le> length x3" using x3(2) b by simp
  obtain x4 where x4: "swap_block x3 i (?q - t) t = Some x4" "swaps p ?q x3 x4"
    "\<And>k. i \<le> k \<Longrightarrow> k < i + (?q - gt) \<Longrightarrow> \<exists>k'. gt \<le> k' \<and> k' < ?q \<and> x4 ! k = x3 ! k'"
    "\<And>k. i + (?q - gt) \<le> k \<Longrightarrow> k < ?q \<Longrightarrow> \<exists>k'. i \<le> k' \<and> k' < gt \<and> x4 ! k = x3 ! k'"
    "\<And>k. k < i \<or> ?q \<le> k \<Longrightarrow> x4 ! k = x3 ! k"
    using swap_block_rotates [OF b(3,4) order.refl \<open>?q \<le> length x3\<close> \<open>p \<le> i\<close> t_def] by blast
  let ?v = "x2 ! p"
  have g: "i + (?q - gt) = ?q - (gt - i)" using b by linarith
  have "0 < cmp ?v (x4 ! k)" if "p \<le> k" "k < p + (i - lt)" for k
  proof -
    have "k < i" using that b by linarith
    then show ?thesis using x3(3) [OF that] x4(5) [of k] l(3) by (auto simp: regions_def)
  qed
  moreover have "x4 ! k = ?v \<or> cmp ?v (x4 ! k) = 0" if A: "p + (i - lt) \<le> k" "k < ?q - (gt - i)" for k
  proof (cases "k < i")
    case True
    obtain k' where k': "x3 ! k = x2 ! k'" "p \<le> k'" "k' < lt" using x3(4) [OF A(1) True] by blast
    then show ?thesis using l(3) x4(5) [of k] True by (cases "k' = p") (auto simp: regions_def)
  next
    case False
    obtain k' where "x4 ! k = x3 ! k'" "gt \<le> k'" "k' < ?q" using x4(3) [of k] A(2) False unfolding g by (meson not_less)
    then show ?thesis using l(3) x3(5) [of k'] b by (auto simp: regions_def)
  qed
  moreover have "cmp ?v (x4 ! k) < 0" if A: "?q - (gt - i) \<le> k" "k < ?q" for k
  proof -
    obtain k' where "x4 ! k = x3 ! k'" "i \<le> k'" "k' < gt" using x4(4) [of k] A unfolding g by blast
    then show ?thesis using l(3) x3(5) [of k'] by (auto simp: regions_def)
  qed
  ultimately have "parted cmp ?v x4 p n (i - lt) (gt - i)" using b by (auto simp: parted_def)
  moreover have "rq_partition cmp xs p n = Some (x4, i - lt, gt - i)"
    using m l(1) x3(1) x4(1) n by (simp add: rq_partition_def Let_def s_def t_def min.commute)
  ultimately show ?thesis using swaps_trans [OF x4(2) swaps_trans [OF x3(2) swaps_trans [OF s2 s1]]] by blast
qed

section \<open>Insertion sort\<close>

lemma ins_sink_ok:
  "ptr \<le> j \<Longrightarrow> j < q \<Longrightarrow> q \<le> length xs \<Longrightarrow> \<exists>ys. ins_sink cmp xs ptr j = Some ys \<and> swaps ptr q xs ys"
proof (induction j arbitrary: xs)
  case (Suc j)
  show ?case
  proof (cases "ptr < Suc j \<and> 0 < cmp (xs ! j) (xs ! Suc j)")
    case True
    let ?ys = "xchg xs (Suc j) j"
    have sw: "swaps ptr q xs ?ys" using Suc.prems True by (intro swaps_one) auto
    obtain zs where "ins_sink cmp ?ys ptr j = Some zs" "swaps ptr q ?ys zs"
      using Suc.IH [of ?ys] Suc.prems True by auto
    then show ?thesis using True Suc.prems swaps_trans [OF _ sw] by (subst ins_sink.simps) simp
  qed (use Suc.prems in \<open>subst ins_sink.simps, auto\<close>)
qed (simp add: ins_sink.simps)

lemma ins_loop_ok:
  "ptr \<le> i \<Longrightarrow> q \<le> length xs \<Longrightarrow> \<exists>ys. ins_loop cmp xs ptr i q = Some ys \<and> swaps ptr q xs ys"
proof (induction "q - i" arbitrary: xs i)
  case (Suc n)
  have b: "i < q" "n = q - (i + 1)" using Suc.hyps(2) by linarith+
  obtain ys where ys: "ins_sink cmp xs ptr i = Some ys" "swaps ptr q xs ys"
    using ins_sink_ok [OF Suc.prems(1) b(1) Suc.prems(2)] by blast
  obtain zs where "ins_loop cmp ys ptr (i + 1) q = Some zs" "swaps ptr q ys zs"
    using Suc.hyps(1) [OF b(2), of ys] Suc.prems ys(2) by auto
  then show ?case using ys b(1) swaps_trans [OF _ ys(2)] by (subst ins_loop.simps) simp
qed (simp add: ins_loop.simps)

section \<open>The loops over the stack\<close>

primrec span_sum :: "(nat \<times> nat \<times> nat) list \<Rightarrow> nat" where
  "span_sum [] = 0"
| "span_sum (e # sp) = fst (snd e) + 1 + span_sum sp"

text \<open>
  The stack: every entry lies in the array, and an entry with \<open>k\<close> entries below it has at
  least the depth \<open>k\<close>; the bound on the depth is the bound on the stack.
\<close>

primrec stack_ok :: "nat \<Rightarrow> (nat \<times> nat \<times> nat) list \<Rightarrow> bool" where
  "stack_ok N [] = True"
| "stack_ok N (e # sp) = ((case e of (b, c, d) \<Rightarrow> b + c \<le> N \<and> length sp \<le> d \<and> d \<le> 50) \<and> stack_ok N sp)"

abbreviation spans :: "(nat \<times> nat \<times> nat) list \<Rightarrow> (nat \<times> nat) list" where
  "spans sp \<equiv> map (\<lambda>(b, c, d). (b, c)) sp"

text \<open>
  What the loops preserve: a predicate of the array and of the spans still to be sorted that
  the partition, the heap sort and the insertion sort of one span each establish for what is
  left of it.
\<close>

locale rq_invariant =
  fixes cmp :: "'a \<Rightarrow> 'a \<Rightarrow> int"
    and inv_of :: "'a list \<Rightarrow> (nat \<times> nat) list \<Rightarrow> bool"
  assumes inv_parted: "\<lbrakk>inv_of xs ((p, n) # S); p + n \<le> length xs; swaps p (p + n) xs ys;
      parted cmp v ys p n nl ng\<rbrakk> \<Longrightarrow> inv_of ys ((p, nl) # (p + n - ng, ng) # S)"
    and inv_swap: "inv_of xs (s # t # S) \<Longrightarrow> inv_of xs (t # s # S)"
    and inv_heap: "\<lbrakk>inv_of xs ((p, n) # S); p + n \<le> length xs; heapsortx cmp xs p n = Some ys;
      swaps p (p + n) xs ys\<rbrakk> \<Longrightarrow> inv_of ys ((p, 0) # S)"
    and inv_ins: "\<lbrakk>inv_of xs ((p, n) # S); p + n \<le> length xs; ins_loop cmp xs p (p + 1) (p + n) = Some ys;
      swaps p (p + n) xs ys\<rbrakk> \<Longrightarrow> inv_of ys S"
begin

lemma rq_inner_ok:
  "\<lbrakk>N \<le> length xs; p + n \<le> N; stack_ok N sp; length sp \<le> d; d \<le> 50; inv_of xs ((p, n) # spans sp)\<rbrakk> \<Longrightarrow>
   \<exists>ys p' n' sp'. rq_inner cmp xs p n d sp = Some (ys, p', n', sp') \<and> swaps 0 N xs ys \<and>
     p' + n' \<le> N \<and> stack_ok N sp' \<and> span_sum sp' + n' \<le> span_sum sp + n \<and>
     inv_of ys ((p', n') # spans sp')"
proof (induction "50 - d" arbitrary: d p n sp xs rule: less_induct)
  case less
  have pn: "p + n \<le> length xs" using less.prems by linarith
  consider "n \<le> 6" | "6 < n" "d = 50" | "6 < n" "d < 50" using less.prems(5) by linarith
  then show ?case
  proof cases
    case 1 then show ?thesis using less.prems by (simp add: rq_inner.simps)
  next
    case 2
    obtain ys where ys: "heapsortx cmp xs p n = Some ys" "swaps p (p + n) xs ys"
      using heapsortx_ok [OF pn] by blast
    have "inv_of ys ((p, 0) # spans sp)" by (rule inv_heap [OF less.prems(6) pn ys])
    moreover have "swaps 0 N xs ys" by (rule swaps_mono [OF ys(2)]) (use less.prems in auto)
    ultimately show ?thesis using 2 ys less.prems by (simp add: rq_inner.simps)
  next
    case 3
    obtain ys nl ng v where ys: "rq_partition cmp xs p n = Some (ys, nl, ng)" "swaps p (p + n) xs ys"
      "parted cmp v ys p n nl ng" using rq_partition_ok [OF 3(1) pn] by blast
    have sw: "swaps 0 N xs ys" by (rule swaps_mono [OF ys(2)]) (use less.prems in auto)
    have len: "N \<le> length ys" using sw less.prems(1) by simp
    have sum: "nl + ng < n" using ys(3) by (simp add: parted_def)
    note inv = inv_parted [OF less.prems(6) pn ys(2,3)]
    have push: "rq_push e sp = Some (e # sp)" for e using less.prems(4) 3(2) by (simp add: rq_push_def)
    define e p1 n1 where "e = (if ng < nl then (p, nl, d + 1) else (p + n - ng, ng, d + 1))"
      and "p1 = (if ng < nl then p + n - ng else p)" and "n1 = (if ng < nl then ng else nl)"
    have eq: "rq_inner cmp xs p n d sp = rq_inner cmp ys p1 n1 (d + 1) (e # sp)"
      using 3 ys(1) by (subst rq_inner.simps) (simp add: push e_def p1_def n1_def)
    have "inv_of ys ((p1, n1) # spans (e # sp))"
      using inv inv_swap [OF inv] by (simp add: e_def p1_def n1_def)
    moreover have "stack_ok N (e # sp)" "p1 + n1 \<le> N" "span_sum (e # sp) + n1 \<le> span_sum sp + n"
      using less.prems(2-4) 3(2) sum by (auto simp: e_def p1_def n1_def)
    moreover have "50 - (d + 1) < 50 - d" "length (e # sp) \<le> d + 1" "d + 1 \<le> 50" using 3 less.prems(4) by auto
    ultimately obtain zs p' n' sp' where "rq_inner cmp ys p1 n1 (d + 1) (e # sp) = Some (zs, p', n', sp')"
      "swaps 0 N ys zs" "p' + n' \<le> N" "stack_ok N sp'"
      "span_sum sp' + n' \<le> span_sum sp + n" "inv_of zs ((p', n') # spans sp')"
      using less.hyps [of "d + 1" ys p1 n1 "e # sp"] len by (meson order.trans)
    then show ?thesis unfolding eq using swaps_trans [OF _ sw] by blast
  qed
qed

lemma rq_outer_ok:
  "\<lbrakk>N \<le> length xs; stack_ok N sp; inv_of xs (spans sp)\<rbrakk> \<Longrightarrow>
   \<exists>ys. rq_outer cmp xs sp = Some ys \<and> swaps 0 N xs ys \<and> inv_of ys []"
proof (induction "span_sum sp" arbitrary: sp xs rule: less_induct)
  case less
  show ?case
  proof (cases sp)
    case Nil then show ?thesis using less.prems by (subst rq_outer.simps) simp
  next
    case (Cons e rest)
    obtain p n d where e: "e = (p, n, d)" by (cases e)
    obtain ys p' n' sp' where ys: "rq_inner cmp xs p n d rest = Some (ys, p', n', sp')"
      "swaps 0 N xs ys" "p' + n' \<le> N" "stack_ok N sp'"
      "span_sum sp' + n' \<le> span_sum rest + n" "inv_of ys ((p', n') # spans sp')"
      using rq_inner_ok [of N xs p n rest d] less.prems by (auto simp: Cons e)
    have len: "N \<le> length ys" "p' + n' \<le> length ys" using ys(2,3) less.prems(1) by simp_all
    obtain zs where zs: "ins_loop cmp ys p' (p' + 1) (p' + n') = Some zs" "swaps p' (p' + n') ys zs"
      using ins_loop_ok [OF _ len(2), of p' "p' + 1" cmp] by auto
    have sw: "swaps 0 N ys zs" by (rule swaps_mono [OF zs(2)]) (use ys(3) len in auto)
    have "inv_of zs (spans sp')" by (rule inv_ins [OF ys(6) len(2) zs])
    moreover have "N \<le> length zs" using sw len by simp
    moreover have "span_sum sp' < span_sum sp" using ys(5) by (simp add: Cons e)
    ultimately obtain ws where ws: "rq_outer cmp zs sp' = Some ws" "swaps 0 N zs ws" "inv_of ws []"
      using less.hyps [of sp' zs] ys(4) by blast
    have "rq_outer cmp xs sp = Some ws"
      using ys(1) zs(1) ws(1) by (subst rq_outer.simps) (simp add: Cons e)
    then show ?thesis using swaps_trans [OF ws(2) swaps_trans [OF sw ys(2)]] ws(3) by blast
  qed
qed

lemma rqsort_ok:
  assumes "n \<le> length xs" "inv_of xs [(0, n)]"
  shows "\<exists>ys. rqsort cmp xs n = Some ys \<and> swaps 0 n xs ys \<and> (2 \<le> n \<longrightarrow> inv_of ys [])"
  using rq_outer_ok [of n xs "[(0, n, 0)]"] assms by (auto simp: rqsort_def)

end

interpretation rq_any: rq_invariant cmp "\<lambda>_ _. True" for cmp :: "'a \<Rightarrow> 'a \<Rightarrow> int"
  by unfold_locales simp_all



section \<open>Comparators\<close>

locale comparator =
  fixes cmp :: "'a \<Rightarrow> 'a \<Rightarrow> int"
  assumes cmp_sign: "(0 < cmp x y) = (cmp y x < 0)"
    and cmp_trans: "cmp x y \<le> 0 \<Longrightarrow> cmp y z \<le> 0 \<Longrightarrow> cmp x z \<le> 0"
begin

lemma cmp_total: "cmp x y \<le> 0 \<or> cmp y x \<le> 0"
  using cmp_sign [of x y] by linarith

lemma cmp_pos: "0 < cmp x y \<Longrightarrow> cmp y x \<le> 0"
  using cmp_sign [of x y] by linarith

lemma cmp_zero: "cmp x y = 0 \<Longrightarrow> cmp y x \<le> 0"
  using cmp_sign [of y x] by linarith

lemma cmp_refl [simp]: "cmp x x \<le> 0"
  using cmp_total by auto

definition sorted_span :: "'a list \<Rightarrow> nat \<Rightarrow> nat \<Rightarrow> bool" where
  "sorted_span xs p q = (\<forall>i j. p \<le> i \<and> i < j \<and> j < q \<longrightarrow> cmp (xs ! i) (xs ! j) \<le> 0)"

text \<open>While the element at \<open>j\<close> sinks, the others are in order and those behind it are not below it.\<close>

definition sinking :: "'a list \<Rightarrow> nat \<Rightarrow> nat \<Rightarrow> nat \<Rightarrow> bool" where
  "sinking xs p j q =
     (p \<le> j \<and> j < q \<and> q \<le> length xs \<and>
      (\<forall>i k. p \<le> i \<and> i < k \<and> k < q \<and> k \<noteq> j \<longrightarrow> cmp (xs ! i) (xs ! k) \<le> 0))"

lemma ins_sink_sorts: "sinking xs p j q \<Longrightarrow> ins_sink cmp xs p j = Some ys \<Longrightarrow> sorted_span ys p q"
proof (induction j arbitrary: xs)
  case 0 then show ?case by (auto simp: ins_sink.simps sinking_def sorted_span_def)
next
  case (Suc j)
  note s = Suc.prems(1) [unfolded sinking_def]
  consider "p = Suc j" | "p \<le> j" "cmp (xs ! j) (xs ! Suc j) \<le> 0" | "p \<le> j" "0 < cmp (xs ! j) (xs ! Suc j)"
    using s by linarith
  then show ?case
  proof cases
    case 1
    then show ?thesis using Suc.prems(2) s by (subst (asm) ins_sink.simps) (auto simp: sorted_span_def)
  next
    case 2
    have e: "ys = xs" using Suc.prems(2) s 2 by (subst (asm) ins_sink.simps) auto
    have "cmp (xs ! i) (xs ! k) \<le> 0" if "p \<le> i" "i < k" "k < q" for i k
    proof (cases "k = Suc j")
      case True
      show ?thesis
      proof (cases "i = j")
        case False
        then have "cmp (xs ! i) (xs ! j) \<le> 0" using s that True by simp
        then show ?thesis using True 2(2) cmp_trans by blast
      qed (use True 2 in simp)
    qed (use s that in simp)
    then show ?thesis by (simp add: e sorted_span_def)
  next
    case 3
    let ?ws = "xchg xs (Suc j) j"
    have at: "?ws ! k = (if k = j then xs ! Suc j else if k = Suc j then xs ! j else xs ! k)" for k
      using s by (simp add: nth_list_update)
    have ord: "cmp (xs ! i) (xs ! k) \<le> 0" if "p \<le> i" "i < k" "k < q" "k \<noteq> Suc j" for i k
      using s that by blast
    have "cmp (?ws ! i) (?ws ! k) \<le> 0" if A: "p \<le> i" "i < k" "k < q" "k \<noteq> j" for i k
    proof (cases "k = Suc j")
      case True
      then show ?thesis unfolding at using A cmp_pos [OF 3(2)] ord [of i j] by auto
    next
      case False
      then show ?thesis unfolding at
        using A ord [of i k] ord [of "Suc j" k] ord [of j k] 3(1) by auto
    qed
    then have "sinking ?ws p j q" using s 3(1) by (simp add: sinking_def)
    moreover have "ins_sink cmp ?ws p j = Some ys"
      using Suc.prems(2) s 3 by (subst (asm) ins_sink.simps) auto
    ultimately show ?thesis by (rule Suc.IH)
  qed
qed

lemma ins_loop_sorts:
  "sorted_span xs p i \<Longrightarrow> p \<le> i \<Longrightarrow> q \<le> length xs \<Longrightarrow> ins_loop cmp xs p i q = Some ys \<Longrightarrow> sorted_span ys p q"
proof (induction "q - i" arbitrary: xs i)
  case 0 then show ?case by (auto simp: ins_loop.simps sorted_span_def)
next
  case (Suc n)
  have b: "i < q" "n = q - (i + 1)" using Suc.hyps(2) by linarith+
  obtain zs where zs: "ins_sink cmp xs p i = Some zs" "swaps p q xs zs"
    using ins_sink_ok [OF Suc.prems(2) b(1) Suc.prems(3)] by blast
  have "sinking xs p i (i + 1)"
    using Suc.prems b by (auto simp: sinking_def sorted_span_def)
  then have "sorted_span zs p (i + 1)" using zs(1) by (rule ins_sink_sorts)
  moreover have "ins_loop cmp zs p (i + 1) q = Some ys"
    using Suc.prems(4) zs(1) b(1) by (subst (asm) ins_loop.simps) simp
  ultimately show ?case using Suc.hyps(1) [OF b(2)] Suc.prems zs(2) by simp
qed

text \<open>A heap from the index \<open>a\<close> on; in \<open>heap_but\<close> the element at \<open>r\<close> may be too small.\<close>

definition heap_from :: "'a list \<Rightarrow> nat \<Rightarrow> nat \<Rightarrow> nat \<Rightarrow> bool" where
  "heap_from xs b a n = (\<forall>r c. a \<le> r \<and> child r c \<and> c < n \<longrightarrow> cmp (xs ! (b + c)) (xs ! (b + r)) \<le> 0)"

definition heap_but :: "'a list \<Rightarrow> nat \<Rightarrow> nat \<Rightarrow> nat \<Rightarrow> nat \<Rightarrow> bool" where
  "heap_but xs b a n s =
     ((\<forall>r c. a \<le> r \<and> child r c \<and> c < n \<and> r \<noteq> s \<longrightarrow> cmp (xs ! (b + c)) (xs ! (b + r)) \<le> 0) \<and>
      (\<forall>r c. a \<le> r \<and> child r s \<and> child s c \<and> c < n \<longrightarrow> cmp (xs ! (b + c)) (xs ! (b + r)) \<le> 0))"

lemma child_less: "child r c \<Longrightarrow> r < c"
  by (auto simp: child_def)

lemma child_unique: "child r c \<Longrightarrow> child r' c \<Longrightarrow> r = r'"
  by (auto simp: child_def)

lemma sift_heap:
  "heap_but xs b a n s \<Longrightarrow> a \<le> s \<Longrightarrow> s < n \<Longrightarrow> b + n \<le> length xs \<Longrightarrow> sift cmp xs b s n = Some ys
   \<Longrightarrow> heap_from ys b a n"
proof (induction "n - s" arbitrary: xs s rule: less_induct)
  case less
  note h = less.prems(1) [unfolded heap_but_def]
  from less.prems(3,4) show ?case
  proof (cases rule: sift_turn [where cmp = cmp])
    case leaf
    then show ?thesis using h less.prems(5) by (auto simp: heap_from_def)
  next
    case (node c)
    have other: "cmp (xs ! (b + d)) (xs ! (b + c)) \<le> 0" if "child s d" "d < n" for d
      using node(3) [OF that] cmp_pos by (cases "d = c") auto
    show ?thesis
    proof (cases "0 < cmp (xs ! (b + s)) (xs ! (b + c))")
      case True
      have "cmp (xs ! (b + d)) (xs ! (b + s)) \<le> 0" if "child s d" "d < n" for d
        using other [OF that] cmp_pos [OF True] cmp_trans by blast
      then show ?thesis using h True node(4) less.prems(5) by (auto simp: heap_from_def)
    next
      case False
      let ?ws = "xchg xs (b + s) (b + c)"
      have sc: "s < c" using node(1) by (rule child_less)
      have len: "b + s < length xs" "b + c < length xs" using less.prems node by auto
      have at: "?ws ! (b + k) = (if k = s then xs ! (b + c) else if k = c then xs ! (b + s) else xs ! (b + k))"
        if "k < n" for k using len less.prems(4) that by (simp add: nth_list_update)
      have "cmp (?ws ! (b + d)) (?ws ! (b + r)) \<le> 0" if A: "a \<le> r" "child r d" "d < n" "r \<noteq> c" for r d
      proof -
        have rd: "r < d" using A(2) by (rule child_less)
        consider "r = s" "d = c" | "r = s" "d \<noteq> c" | "r \<noteq> s" "d = s" | "r \<noteq> s" "d \<noteq> s" "d \<noteq> c"
          using child_unique [OF A(2)] node(1) by blast
        then show ?thesis
        proof cases
          case 1 then show ?thesis using False at [of s] at [of c] sc node(2) by simp
        next
          case 2 then show ?thesis using other [of d] A rd at [of s] at [of d] by simp
        next
          case 3 then show ?thesis using h A rd at [of r] at [of s] node(1,2) sc by auto
        next
          case 4 then show ?thesis using h A rd at [of r] at [of d] by auto
        qed
      qed
      moreover have "cmp (?ws ! (b + d)) (?ws ! (b + r)) \<le> 0" if A: "a \<le> r" "child r c" "child c d" "d < n" for r d
      proof -
        have "r = s" using A(2) node(1) by (rule child_unique)
        moreover have "c < d" using A(3) by (rule child_less)
        ultimately show ?thesis using h A less.prems(2) sc at [of s] at [of d] node(2) by auto
      qed
      ultimately have "heap_but ?ws b a n c" by (auto simp: heap_but_def)
      moreover have "sift cmp ?ws b c n = Some ys" using node(4) False less.prems(5) by simp
      ultimately show ?thesis using less.hyps [of c ?ws] less.prems sc node(2) by simp
    qed
  qed
qed

lemma heap_top:
  assumes "heap_from xs b 0 n" "k < n"
  shows "cmp (xs ! (b + k)) (xs ! b) \<le> 0"
  using assms(2)
proof (induction k rule: less_induct)
  case (less k)
  show ?case
  proof (cases k)
    case (Suc m)
    have c: "child (m div 2) k" unfolding child_def Suc by presburger
    then have "cmp (xs ! (b + k)) (xs ! (b + m div 2)) \<le> 0" using assms(1) less.prems by (auto simp: heap_from_def)
    moreover have "cmp (xs ! (b + m div 2)) (xs ! b) \<le> 0"
      using less.IH [of "m div 2"] child_less [OF c] less.prems by simp
    ultimately show ?thesis by (rule cmp_trans)
  qed simp
qed

lemma heapify_heap:
  "heap_from xs b i n \<Longrightarrow> i \<le> n \<Longrightarrow> b + n \<le> length xs \<Longrightarrow> heapify cmp xs b n i = Some ys \<Longrightarrow> heap_from ys b 0 n"
proof (induction i arbitrary: xs)
  case (Suc i)
  obtain zs where zs: "sift cmp xs b i n = Some zs" "swaps b (b + n) xs zs"
    using sift_ok [of i n b xs] Suc.prems by auto
  have "heap_but xs b i n i" using Suc.prems(1) child_less
    by (fastforce simp: heap_but_def heap_from_def Suc_le_eq)
  then have "heap_from zs b i n" using zs(1) Suc.prems by (auto intro: sift_heap)
  then show ?case using Suc zs by auto
qed simp

lemma heap_extract_sorts:
  "\<lbrakk>heap_from xs b 0 (Suc i); i < n; b + n \<le> length xs; sorted_span xs (b + Suc i) (b + n);
    \<And>k j. k \<le> i \<Longrightarrow> i < j \<Longrightarrow> j < n \<Longrightarrow> cmp (xs ! (b + k)) (xs ! (b + j)) \<le> 0;
    heap_extract cmp xs b i = Some ys\<rbrakk> \<Longrightarrow> sorted_span ys b (b + n)"
proof (induction i arbitrary: xs)
  case 0
  have "cmp (xs ! u) (xs ! v) \<le> 0" if "b \<le> u" "u < v" "v < b + n" for u v
  proof (cases "u = b")
    case True then show ?thesis using 0(5) [of 0 "v - b"] that by simp
  next
    case False then show ?thesis using 0(4) that by (simp add: sorted_span_def)
  qed
  then show ?case using 0(6) by (simp add: sorted_span_def)
next
  case (Suc i)
  let ?m = "b + Suc i"
  define ws where "ws = xchg xs b ?m"
  have len: "b < length xs" "?m < length xs" "length ws = length xs" using Suc.prems by (auto simp: ws_def)
  have ws_at: "ws ! k = (if k = b then xs ! ?m else if k = ?m then xs ! b else xs ! k)" for k
    using len by (simp add: ws_def nth_list_update)
  obtain zs where zs: "sift cmp ws b 0 (Suc i) = Some zs" "swaps b (b + Suc i) ws zs"
    using sift_ok [of 0 "Suc i" b ws cmp] len by auto
  have top: "cmp (xs ! (b + k)) (xs ! b) \<le> 0" if "k \<le> Suc i" for k
    using heap_top [OF Suc.prems(1)] that by simp
  have "heap_but ws b 0 (Suc i) 0"
    using Suc.prems(1) child_less by (fastforce simp: heap_but_def heap_from_def ws_at)
  then have heap: "heap_from zs b 0 (Suc i)" using zs(1) len by (intro sift_heap) auto
  have out: "zs ! k = ws ! k" if "?m \<le> k" for k using swaps_outside [OF zs(2)] that by simp
  have ins: "\<exists>m. m \<le> Suc i \<and> zs ! (b + k) = xs ! (b + m)" if k: "k \<le> i" for k
  proof -
    obtain m where "b \<le> m" "m < ?m" "zs ! (b + k) = ws ! m"
      using swaps_inside [OF zs(2), of "b + k"] k by auto
    then show ?thesis
      using ws_at [of m] by (intro exI [of _ "if m = b then Suc i else m - b"]) auto
  qed
  have "sorted_span zs ?m (b + n)"
    unfolding sorted_span_def
  proof (intro allI impI)
    fix u v assume A: "?m \<le> u \<and> u < v \<and> v < b + n"
    then have v: "zs ! v = xs ! v" by (simp add: out ws_at)
    show "cmp (zs ! u) (zs ! v) \<le> 0"
    proof (cases "u = ?m")
      case True
      have "Suc i < v - b" "v - b < n" "b + (v - b) = v" using A True by linarith+
      then show ?thesis using True Suc.prems(5) [of 0 "v - b"] by (simp add: v out ws_at)
    next
      case False
      then have "zs ! u = xs ! u" using A by (simp add: out ws_at)
      then show ?thesis using A False Suc.prems(4) by (simp add: v sorted_span_def)
    qed
  qed
  moreover have "cmp (zs ! (b + k)) (zs ! (b + j)) \<le> 0" if k: "k \<le> i" "i < j" "j < n" for k j
  proof -
    obtain m where m: "m \<le> Suc i" "zs ! (b + k) = xs ! (b + m)" using ins [OF k(1)] by blast
    show ?thesis using m top [OF m(1)] Suc.prems(5) [OF m(1), of j] k out [of "b + j"] ws_at [of "b + j"]
      by (cases "j = Suc i") auto
  qed
  moreover have "heap_extract cmp zs b i = Some ys"
    using Suc.prems(6) zs(1) len by (simp add: ws_def)
  ultimately show ?case using Suc.IH [of zs] heap Suc.prems(2,3) zs(2) len by simp
qed

lemma heapsortx_sorts:
  assumes "heapsortx cmp xs b n = Some ys" "b + n \<le> length xs"
  shows "sorted_span ys b (b + n)"
proof (cases "1 < n")
  case True
  obtain zs where zs: "heapify cmp xs b n (n div 2) = Some zs" "swaps b (b + n) xs zs"
    using heapify_ok [of "n div 2" n b xs cmp] assms(2) by auto
  have "heap_from xs b (n div 2) n" by (auto simp: heap_from_def child_def)
  then have "heap_from zs b 0 n" by (rule heapify_heap [OF _ _ assms(2) zs(1)]) simp
  moreover have "heap_extract cmp zs b (n - 1) = Some ys" using assms(1) True zs(1) by (simp add: heapsortx_def)
  ultimately show ?thesis
    using heap_extract_sorts [of zs b "n - 1" n ys] True assms(2) zs(2) by (simp add: sorted_span_def)
qed (auto simp: sorted_span_def)

text \<open>
  The invariant of the sort: the spans still to be sorted do not overlap, and two elements are
  in order unless they are in the same span.
\<close>

primrec apart :: "(nat \<times> nat) list \<Rightarrow> bool" where
  "apart [] = True"
| "apart (s # S) =
     ((\<forall>t \<in> set S. fst s + snd s \<le> fst t \<or> fst t + snd t \<le> fst s) \<and> apart S)"

definition ordered_but :: "'a list \<Rightarrow> (nat \<times> nat) list \<Rightarrow> bool" where
  "ordered_but xs S =
     (apart S \<and> (\<forall>i j. i < j \<and> j < length xs \<longrightarrow>
        cmp (xs ! i) (xs ! j) \<le> 0 \<or> (\<exists>(p, n) \<in> set S. p \<le> i \<and> j < p + n)))"

lemma ordered_but_span:
  assumes ord: "ordered_but xs ((p, n) # S)" and len: "p + n \<le> length xs" and sw: "swaps p (p + n) xs ys"
    and new: "\<And>i j. p \<le> i \<Longrightarrow> i < j \<Longrightarrow> j < p + n \<Longrightarrow>
      cmp (ys ! i) (ys ! j) \<le> 0 \<or> (\<exists>(a, m) \<in> set T. a \<le> i \<and> j < a + m)"
    and ap: "apart (T @ S)"
  shows "ordered_but ys (T @ S)"
proof -
  have old: "cmp (xs ! i) (xs ! j) \<le> 0 \<or> (\<exists>(a, m) \<in> set S. a \<le> i \<and> j < a + m)"
    if "i < j" "j < length xs" "\<not> (p \<le> i \<and> j < p + n)" for i j
    using ord that unfolding ordered_but_def by fastforce
  have sep: "p + n \<le> a \<or> a + m \<le> p" if "(a, m) \<in> set S" for a m
    using ord that unfolding ordered_but_def by fastforce
  have "cmp (ys ! i) (ys ! j) \<le> 0 \<or> (\<exists>(a, m) \<in> set (T @ S). a \<le> i \<and> j < a + m)"
    if ij: "i < j" "j < length ys" for i j
  proof -
    have j: "j < length xs" using ij sw by simp
    consider (both) "p \<le> i" "j < p + n" | (low) "p \<le> i" "i < p + n" "p + n \<le> j"
      | (high) "i < p" "p \<le> j" "j < p + n" | (none) "i < p \<or> p + n \<le> i" "j < p \<or> p + n \<le> j" by linarith
    then show ?thesis
    proof cases
      case both then show ?thesis using new [of i j] ij by auto
    next
      case low
      obtain m where m: "p \<le> m" "m < p + n" "ys ! i = xs ! m" using swaps_inside [OF sw low(1,2)] by blast
      have "\<not> (\<exists>(a, c) \<in> set S. a \<le> m \<and> j < a + c)" using m low sep by fastforce
      then have "cmp (xs ! m) (xs ! j) \<le> 0" using old [of m j] m low j by auto
      then show ?thesis using m swaps_outside [OF sw, of j] low by simp
    next
      case high
      obtain m where m: "p \<le> m" "m < p + n" "ys ! j = xs ! m" using swaps_inside [OF sw high(2,3)] by blast
      have "\<not> (\<exists>(a, c) \<in> set S. a \<le> i \<and> m < a + c)" using m high sep by fastforce
      then have "cmp (xs ! i) (xs ! m) \<le> 0" using old [of i m] m high len by auto
      then show ?thesis using m swaps_outside [OF sw, of i] high by simp
    next
      case none
      then have "ys ! i = xs ! i" "ys ! j = xs ! j" using swaps_outside [OF sw] by auto
      then show ?thesis using old [OF ij(1) j] none ij by auto
    qed
  qed
  then show ?thesis using ap by (simp add: ordered_but_def)
qed

lemma apart_head: "ordered_but xs (s # S) \<Longrightarrow> apart (s # S)"
  by (simp add: ordered_but_def)

lemma ordered_but_parted:
  assumes ord: "ordered_but xs ((p, n) # S)" and len: "p + n \<le> length xs" and sw: "swaps p (p + n) xs ys"
    and part: "parted cmp v ys p n nl ng"
  shows "ordered_but ys ((p, nl) # (p + n - ng, ng) # S)"
proof -
  have le: "cmp (ys ! k) v \<le> 0" if k: "p \<le> k" "k < p + n - ng" for k
  proof (cases "k < p + nl")
    case True
    then have "0 < cmp v (ys ! k)" using part k by (simp add: parted_def)
    then show ?thesis by (rule cmp_pos)
  next
    case False
    then have "ys ! k = v \<or> cmp v (ys ! k) = 0" using part k by (simp add: parted_def)
    then show ?thesis using cmp_zero by auto
  qed
  have ge: "p + nl \<le> k \<Longrightarrow> k < p + n \<Longrightarrow> cmp v (ys ! k) \<le> 0" for k
    using part by (cases "k < p + n - ng") (auto simp: parted_def not_less)
  have sum: "nl + ng < n" using part by (simp add: parted_def)
  have "ordered_but ys ([(p, nl), (p + n - ng, ng)] @ S)"
  proof (rule ordered_but_span [OF ord len sw])
    fix i j assume ij: "p \<le> i" "i < j" "j < p + n"
    consider "j < p + nl" | "p + n - ng \<le> i" | "p + nl \<le> j" "i < p + n - ng" by linarith
    then show "cmp (ys ! i) (ys ! j) \<le> 0 \<or> (\<exists>(a, m) \<in> set [(p, nl), (p + n - ng, ng)]. a \<le> i \<and> j < a + m)"
    proof cases
      case 3 then show ?thesis using le [OF ij(1)] ge [OF _ ij(3)] cmp_trans by blast
    qed (use ij sum in auto)
  next
    show "apart ([(p, nl), (p + n - ng, ng)] @ S)" using apart_head [OF ord] sum by fastforce
  qed
  then show ?thesis by simp
qed

lemma ordered_invariant: "rq_invariant cmp ordered_but"
proof
  show "ordered_but ys ((p, nl) # (p + n - ng, ng) # S)"
    if "ordered_but xs ((p, n) # S)" "p + n \<le> length xs" "swaps p (p + n) xs ys" "parted cmp v ys p n nl ng"
    for xs ys v p n nl ng S
    using that by (rule ordered_but_parted)
  show "ordered_but xs (t # s # S)" if "ordered_but xs (s # t # S)" for xs s t S
    using that by (auto simp: ordered_but_def)
  show "ordered_but ys ((p, 0) # S)"
    if A: "ordered_but xs ((p, n) # S)" "p + n \<le> length xs" "heapsortx cmp xs p n = Some ys" "swaps p (p + n) xs ys"
    for xs ys p n S
    using ordered_but_span [OF A(1,2,4), of "[(p, 0)]"] heapsortx_sorts [OF A(3,2)] apart_head [OF A(1)]
    by (fastforce simp: sorted_span_def)
  show "ordered_but ys S"
    if A: "ordered_but xs ((p, n) # S)" "p + n \<le> length xs" "ins_loop cmp xs p (p + 1) (p + n) = Some ys"
      "swaps p (p + n) xs ys" for xs ys p n S
  proof -
    have "sorted_span ys p (p + n)"
      by (rule ins_loop_sorts [OF _ _ A(2,3)]) (auto simp: sorted_span_def)
    then show ?thesis using ordered_but_span [OF A(1,2,4), of "[]"] apart_head [OF A(1)]
      by (auto simp: sorted_span_def)
  qed
qed

end

sublocale comparator \<subseteq> rq_order: rq_invariant cmp ordered_but
  by (rule ordered_invariant)

context comparator begin

lemma rqsort_sorts:
  assumes "length xs = n"
  shows "\<exists>ys. rqsort cmp xs n = Some ys \<and> mset ys = mset xs \<and> sorted_wrt (\<lambda>x y. cmp x y \<le> 0) ys"
proof -
  have "ordered_but xs [(0, n)]" using assms by (simp add: ordered_but_def)
  then obtain ys where ys: "rqsort cmp xs n = Some ys" "swaps 0 n xs ys" "2 \<le> n \<longrightarrow> ordered_but ys []"
    using rq_order.rqsort_ok [of n xs] assms by auto
  have "sorted_wrt (\<lambda>x y. cmp x y \<le> 0) ys"
    using ys(2,3) assms by (cases "2 \<le> n") (auto simp: sorted_wrt_iff_nth_less ordered_but_def)
  then show ?thesis using ys(1) swaps_mset [OF ys(2)] by blast
qed

end

declare swaps_length [simp del] swaps_refl [simp del]

end
