(* ===== verification/Js_Sort.thy ===== *)
theory Js_Sort
  imports Rqsort Js_Number
begin

text \<open>
  The sort of typed arrays in quickjs/quickjs.c: the comparison functions and
  js_typed_array_sort. An element of a typed array is its bytes, as the comparison functions
  read them through their pointer.
\<close>

section \<open>Comparison functions\<close>

definition js_cmp_doubles :: "u64 \<Rightarrow> u64 \<Rightarrow> int" where
  "js_cmp_doubles x y =
     (if isnan x then (if isnan y then 0 else 1)
      else if isnan y then -1
      else if f64_scaled x < f64_scaled y then -1
      else if f64_scaled x > f64_scaled y then 1
      else if \<not> f64_is_zero x then 0
      else if f64_sign x then (if f64_sign y then 0 else -1)
      else (if f64_sign y then 1 else 0))"

text \<open>The conversion of a float to a double, which is exact.\<close>

fun top_bit :: "nat \<Rightarrow> nat" where
  "top_bit m = (if m < 2 then 0 else Suc (top_bit (m div 2)))"

definition f32_to_f64 :: "u32 \<Rightarrow> u64" where
  "f32_to_f64 f =
     (let e = unat (drop_bit 23 f AND 0xff); m = unat (f AND 0x7fffff); s = (if bit f 31 then 2 ^ 63 else 0 :: nat);
          k = top_bit m in
      of_nat (s + (if e = 255 then 2047 * 2 ^ 52 + m * 2 ^ 29
                   else if e \<noteq> 0 then (e + 896) * 2 ^ 52 + m * 2 ^ 29
                   else if m = 0 then 0
                   else (k + 874) * 2 ^ 52 + (m - 2 ^ k) * 2 ^ (52 - k))))"

definition rd_word :: "nat \<Rightarrow> bytes \<Rightarrow> 'a::len word" where
  "rd_word n p = of_nat (le_nat (take n p))"

definition js_TA_cmp_int8 :: "bytes \<Rightarrow> bytes \<Rightarrow> int" where
  "js_TA_cmp_int8 a b = sint (rd_word 1 a :: u8) - sint (rd_word 1 b :: u8)"
definition js_TA_cmp_uint8 :: "bytes \<Rightarrow> bytes \<Rightarrow> int" where
  "js_TA_cmp_uint8 a b = uint (rd_word 1 a :: u8) - uint (rd_word 1 b :: u8)"
definition js_TA_cmp_int16 :: "bytes \<Rightarrow> bytes \<Rightarrow> int" where
  "js_TA_cmp_int16 a b = sint (rd_word 2 a :: u16) - sint (rd_word 2 b :: u16)"
definition js_TA_cmp_uint16 :: "bytes \<Rightarrow> bytes \<Rightarrow> int" where
  "js_TA_cmp_uint16 a b = uint (rd_word 2 a :: u16) - uint (rd_word 2 b :: u16)"
definition js_TA_cmp_int32 :: "bytes \<Rightarrow> bytes \<Rightarrow> int" where
  "js_TA_cmp_int32 a b =
     (let x = sint (rd_word 4 a :: u32); y = sint (rd_word 4 b :: u32) in of_bool (y < x) - of_bool (y > x))"
definition js_TA_cmp_uint32 :: "bytes \<Rightarrow> bytes \<Rightarrow> int" where
  "js_TA_cmp_uint32 a b =
     (let x = uint (rd_word 4 a :: u32); y = uint (rd_word 4 b :: u32) in of_bool (y < x) - of_bool (y > x))"
definition js_TA_cmp_int64 :: "bytes \<Rightarrow> bytes \<Rightarrow> int" where
  "js_TA_cmp_int64 a b =
     (let x = sint (rd_word 8 a :: u64); y = sint (rd_word 8 b :: u64) in of_bool (y < x) - of_bool (y > x))"
definition js_TA_cmp_uint64 :: "bytes \<Rightarrow> bytes \<Rightarrow> int" where
  "js_TA_cmp_uint64 a b =
     (let x = uint (rd_word 8 a :: u64); y = uint (rd_word 8 b :: u64) in of_bool (y < x) - of_bool (y > x))"
definition js_TA_cmp_float32 :: "bytes \<Rightarrow> bytes \<Rightarrow> int" where
  "js_TA_cmp_float32 a b = js_cmp_doubles (f32_to_f64 (rd_word 4 a)) (f32_to_f64 (rd_word 4 b))"
definition js_TA_cmp_float64 :: "bytes \<Rightarrow> bytes \<Rightarrow> int" where
  "js_TA_cmp_float64 a b = js_cmp_doubles (rd_word 8 a) (rd_word 8 b)"

datatype ta_class = UINT8C_ARRAY | INT8_ARRAY | UINT8_ARRAY | INT16_ARRAY | UINT16_ARRAY | INT32_ARRAY
  | UINT32_ARRAY | BIG_INT64_ARRAY | BIG_UINT64_ARRAY | FLOAT32_ARRAY | FLOAT64_ARRAY

fun typed_array_size_log2 :: "ta_class \<Rightarrow> nat" where
  "typed_array_size_log2 UINT8C_ARRAY = 0"
| "typed_array_size_log2 INT8_ARRAY = 0"
| "typed_array_size_log2 UINT8_ARRAY = 0"
| "typed_array_size_log2 INT16_ARRAY = 1"
| "typed_array_size_log2 UINT16_ARRAY = 1"
| "typed_array_size_log2 INT32_ARRAY = 2"
| "typed_array_size_log2 UINT32_ARRAY = 2"
| "typed_array_size_log2 BIG_INT64_ARRAY = 3"
| "typed_array_size_log2 BIG_UINT64_ARRAY = 3"
| "typed_array_size_log2 FLOAT32_ARRAY = 2"
| "typed_array_size_log2 FLOAT64_ARRAY = 3"

fun ta_cmpfun :: "ta_class \<Rightarrow> bytes \<Rightarrow> bytes \<Rightarrow> int" where
  "ta_cmpfun INT8_ARRAY = js_TA_cmp_int8"
| "ta_cmpfun UINT8C_ARRAY = js_TA_cmp_uint8"
| "ta_cmpfun UINT8_ARRAY = js_TA_cmp_uint8"
| "ta_cmpfun INT16_ARRAY = js_TA_cmp_int16"
| "ta_cmpfun UINT16_ARRAY = js_TA_cmp_uint16"
| "ta_cmpfun INT32_ARRAY = js_TA_cmp_int32"
| "ta_cmpfun UINT32_ARRAY = js_TA_cmp_uint32"
| "ta_cmpfun BIG_INT64_ARRAY = js_TA_cmp_int64"
| "ta_cmpfun BIG_UINT64_ARRAY = js_TA_cmp_uint64"
| "ta_cmpfun FLOAT32_ARRAY = js_TA_cmp_float32"
| "ta_cmpfun FLOAT64_ARRAY = js_TA_cmp_float64"

text \<open>
  With a comparison function of the caller the indices are sorted, ties by the index.
  \<open>call\<close> is the function with its result as a number, taken here as one that returns and
  depends on the two elements alone (the exception paths are not modelled).
\<close>

definition js_TA_cmp_generic :: "(bytes \<Rightarrow> bytes \<Rightarrow> int) \<Rightarrow> bytes list \<Rightarrow> nat \<Rightarrow> nat \<Rightarrow> int" where
  "js_TA_cmp_generic call arr a_idx b_idx =
     (let val = call (arr ! a_idx) (arr ! b_idx); c = of_bool (val > 0) - of_bool (val < 0) in
      if c = 0 then of_bool (a_idx > b_idx) - of_bool (a_idx < b_idx) else c)"

text \<open>
  \<open>js_malloc\<close> tells whether an allocation of that many bytes succeeds; the result
  \<^const>\<open>None\<close> is the exception when it does not.
\<close>

definition js_typed_array_sort ::
  "(nat \<Rightarrow> bool) \<Rightarrow> ta_class \<Rightarrow> (bytes \<Rightarrow> bytes \<Rightarrow> int) option \<Rightarrow> bytes list \<Rightarrow> bytes list option" where
  "js_typed_array_sort js_malloc cls method arr =
     (let len = length arr; elt_size = 2 ^ typed_array_size_log2 cls in
      if len > 1 then
        (case method of
           None \<Rightarrow> rqsort (ta_cmpfun cls) arr len
         | Some call \<Rightarrow>
             (if js_malloc (len * 4) then do {
                array_idx \<leftarrow> rqsort (js_TA_cmp_generic call arr) [0..<len] len;
                if js_malloc (len * elt_size) then Some (map (\<lambda>j. arr ! j) array_idx) else None }
              else None))
      else Some arr)"

section \<open>They are comparators\<close>

interpretation ta_int8: comparator js_TA_cmp_int8 by unfold_locales (auto simp: js_TA_cmp_int8_def)
interpretation ta_uint8: comparator js_TA_cmp_uint8 by unfold_locales (auto simp: js_TA_cmp_uint8_def)
interpretation ta_int16: comparator js_TA_cmp_int16 by unfold_locales (auto simp: js_TA_cmp_int16_def)
interpretation ta_uint16: comparator js_TA_cmp_uint16 by unfold_locales (auto simp: js_TA_cmp_uint16_def)
interpretation ta_int32: comparator js_TA_cmp_int32
  by unfold_locales (auto simp: js_TA_cmp_int32_def Let_def of_bool_def split: if_splits)
interpretation ta_uint32: comparator js_TA_cmp_uint32
  by unfold_locales (auto simp: js_TA_cmp_uint32_def Let_def of_bool_def split: if_splits)
interpretation ta_int64: comparator js_TA_cmp_int64
  by unfold_locales (auto simp: js_TA_cmp_int64_def Let_def of_bool_def split: if_splits)
interpretation ta_uint64: comparator js_TA_cmp_uint64
  by unfold_locales (auto simp: js_TA_cmp_uint64_def Let_def of_bool_def split: if_splits)

lemma f64_zero_scaled: "f64_is_zero x = (f64_scaled x = 0)"
  by (simp add: f64_is_zero_def f64_scaled_def Let_def)

interpretation doubles: comparator js_cmp_doubles
  by unfold_locales (auto simp: js_cmp_doubles_def f64_zero_scaled split: if_splits)

lemma comparator_key: "comparator cmp \<Longrightarrow> comparator (\<lambda>a b. cmp (key a) (key b))"
  unfolding comparator_def by blast

interpretation ta_float32: comparator js_TA_cmp_float32
  using comparator_key [OF doubles.comparator_axioms, of "\<lambda>a. f32_to_f64 (rd_word 4 a)"]
  by (simp add: js_TA_cmp_float32_def [abs_def])

interpretation ta_float64: comparator js_TA_cmp_float64
  using comparator_key [OF doubles.comparator_axioms, of "rd_word 8"]
  by (simp add: js_TA_cmp_float64_def [abs_def])

lemma ta_comparator: "comparator (ta_cmpfun cls)"
  by (cases cls) (simp_all add: ta_int8.comparator_axioms ta_uint8.comparator_axioms ta_int16.comparator_axioms
    ta_uint16.comparator_axioms ta_int32.comparator_axioms ta_uint32.comparator_axioms ta_int64.comparator_axioms
    ta_uint64.comparator_axioms ta_float32.comparator_axioms ta_float64.comparator_axioms)

section \<open>What the sort does\<close>

text \<open>
  The order of the specification: numbers by value, -0 before +0, NaN behind everything.
\<close>

fun ta_value :: "ta_class \<Rightarrow> bytes \<Rightarrow> int" where
  "ta_value INT8_ARRAY a = sint (rd_word 1 a :: u8)"
| "ta_value INT16_ARRAY a = sint (rd_word 2 a :: u16)"
| "ta_value UINT16_ARRAY a = uint (rd_word 2 a :: u16)"
| "ta_value INT32_ARRAY a = sint (rd_word 4 a :: u32)"
| "ta_value UINT32_ARRAY a = uint (rd_word 4 a :: u32)"
| "ta_value BIG_INT64_ARRAY a = sint (rd_word 8 a :: u64)"
| "ta_value BIG_UINT64_ARRAY a = uint (rd_word 8 a :: u64)"
| "ta_value _ a = uint (rd_word 1 a :: u8)"

definition f64_before :: "u64 \<Rightarrow> u64 \<Rightarrow> bool" where
  "f64_before x y =
     (isnan y \<or> \<not> isnan x \<and> (f64_scaled x < f64_scaled y \<or>
        f64_scaled x = f64_scaled y \<and> (f64_is_zero x \<longrightarrow> f64_sign x \<or> \<not> f64_sign y)))"

definition ta_before :: "ta_class \<Rightarrow> bytes \<Rightarrow> bytes \<Rightarrow> bool" where
  "ta_before cls a b =
     (if cls = FLOAT32_ARRAY then f64_before (f32_to_f64 (rd_word 4 a)) (f32_to_f64 (rd_word 4 b))
      else if cls = FLOAT64_ARRAY then f64_before (rd_word 8 a) (rd_word 8 b)
      else ta_value cls a \<le> ta_value cls b)"

lemma js_cmp_doubles_before: "(js_cmp_doubles x y \<le> 0) = f64_before x y"
  by (auto simp: js_cmp_doubles_def f64_before_def)

lemma ta_cmpfun_before: "(ta_cmpfun cls a b \<le> 0) = ta_before cls a b"
  by (cases cls) (auto simp: ta_before_def js_TA_cmp_float32_def js_TA_cmp_float64_def js_cmp_doubles_before
    js_TA_cmp_int8_def js_TA_cmp_uint8_def js_TA_cmp_int16_def js_TA_cmp_uint16_def js_TA_cmp_int32_def
    js_TA_cmp_uint32_def js_TA_cmp_int64_def js_TA_cmp_uint64_def Let_def)

text \<open>
  C22. Without a comparison function the sort of a typed array of any class returns the elements
  of the array in the order of their values, -0 before +0 and NaN last.
\<close>

theorem js_typed_array_sort_by_value:
  "\<exists>ys. js_typed_array_sort js_malloc cls None arr = Some ys \<and> mset ys = mset arr \<and> sorted_wrt (ta_before cls) ys"
proof -
  have "sorted_wrt (ta_before cls) arr" if "length arr \<le> 1"
    using that by (cases arr) auto
  then show ?thesis
    using comparator.rqsort_sorts [OF ta_comparator, of arr "length arr" cls, OF refl]
    by (cases "1 < length arr") (auto simp: js_typed_array_sort_def ta_cmpfun_before)
qed

lemma generic_comparator:
  assumes "comparator call"
  shows "comparator (js_TA_cmp_generic call arr)"
proof -
  note c = comparator.cmp_sign [OF assms]
  note t = comparator.cmp_trans [OF assms]
  show ?thesis
  proof
    show "(0 < js_TA_cmp_generic call arr i j) = (js_TA_cmp_generic call arr j i < 0)" for i j
      using c [of "arr ! i" "arr ! j"] c [of "arr ! j" "arr ! i"]
      by (auto simp: js_TA_cmp_generic_def Let_def of_bool_def)
    show "js_TA_cmp_generic call arr i k \<le> 0"
      if "js_TA_cmp_generic call arr i j \<le> 0" "js_TA_cmp_generic call arr j k \<le> 0" for i j k
    proof -
      let ?x = "arr ! i" and ?y = "arr ! j" and ?z = "arr ! k"
      have g: "(js_TA_cmp_generic call arr a b \<le> 0) = (call (arr ! a) (arr ! b) < 0 \<or> call (arr ! a) (arr ! b) = 0 \<and> a \<le> b)"
        for a b by (auto simp: js_TA_cmp_generic_def Let_def of_bool_def)
      have le: "call ?x ?y \<le> 0" "call ?y ?z \<le> 0" using that by (auto simp: g)
      then have "call ?x ?z \<le> 0" by (rule t)
      moreover have "call ?x ?y = 0 \<and> call ?y ?z = 0" if z: "call ?x ?z = 0"
      proof -
        have "call ?z ?x \<le> 0" using z c [of ?z ?x] by linarith
        then have "call ?y ?x \<le> 0" "call ?z ?y \<le> 0" using le t by blast+
        then show ?thesis using le c [of ?y ?x] c [of ?z ?y] by linarith
      qed
      ultimately show ?thesis using that by (fastforce simp: g)
    qed
  qed
qed



end
