(* ===== verification/C_String.thy ===== *)
theory C_String
  imports Ckb_Prelude "HOL-Library.Sublist"
begin

text \<open>
  include/c-stdlib/src/string_impl.c: the string functions the program brings along. A pointer
  is the bytes of its object from there on; a result that is a pointer is the offset from the
  argument, \<^const>\<open>None\<close> inside for NULL; an access outside the object is \<^const>\<open>None\<close>.
  (strlen, strcmp, strcpy and memcmp come from the library of the submodule.)
\<close>

section \<open>memchr\<close>

definition CKB_SS :: nat where "CKB_SS = 8"
definition CKB_ONES :: u64 where "CKB_ONES = - 1 div 255"
definition CKB_HIGHS :: u64 where "CKB_HIGHS = CKB_ONES * 128"
definition CKB_HASZERO :: "u64 \<Rightarrow> u64" where
  "CKB_HASZERO x = (x - CKB_ONES) AND (NOT x) AND CKB_HIGHS"

text \<open>
  \<open>addr\<close> is the address of the object: the first loop runs up to an aligned address, the second
  reads words of eight bytes, the last one finishes byte by byte. The loops carry the offset and
  the count.
\<close>

function memchr_align :: "nat \<Rightarrow> bytes \<Rightarrow> u8 \<Rightarrow> nat \<Rightarrow> nat \<Rightarrow> (nat \<times> nat) option" where
  "memchr_align addr m c s n =
     (if (addr + s) mod CKB_SS \<noteq> 0 \<and> n \<noteq> 0
      then do { b \<leftarrow> rd m s; if b \<noteq> c then memchr_align addr m c (s + 1) (n - 1) else Some (s, n) }
      else Some (s, n))"
  by pat_completeness auto
termination by (relation "measure (\<lambda>(addr, m, c, s, n). n)") auto

function memchr_words :: "bytes \<Rightarrow> u64 \<Rightarrow> nat \<Rightarrow> nat \<Rightarrow> (nat \<times> nat) option" where
  "memchr_words m k w n =
     (if n \<ge> CKB_SS
      then do { b \<leftarrow> rd_bytes m w 8;
                if CKB_HASZERO (of_nat (le_nat b) XOR k) = 0 then memchr_words m k (w + 8) (n - 8) else Some (w, n) }
      else Some (w, n))"
  by pat_completeness auto
termination by (relation "measure (\<lambda>(m, k, w, n). n)") (auto simp: CKB_SS_def)

function memchr_bytes :: "bytes \<Rightarrow> u8 \<Rightarrow> nat \<Rightarrow> nat \<Rightarrow> (nat \<times> nat) option" where
  "memchr_bytes m c s n =
     (if n \<noteq> 0
      then do { b \<leftarrow> rd m s; if b \<noteq> c then memchr_bytes m c (s + 1) (n - 1) else Some (s, n) }
      else Some (s, n))"
  by pat_completeness auto
termination by (relation "measure (\<lambda>(m, c, s, n). n)") auto

declare memchr_align.simps [simp del] memchr_words.simps [simp del] memchr_bytes.simps [simp del]

definition memchr :: "nat \<Rightarrow> bytes \<Rightarrow> u8 \<Rightarrow> nat \<Rightarrow> nat option option" where
  "memchr addr m c n =
     do { (s, n) \<leftarrow> memchr_align addr m c 0 n;
          (s, n) \<leftarrow>
            (if n \<noteq> 0 then do { b \<leftarrow> rd m s;
                               if b \<noteq> c then memchr_words m (CKB_ONES * ucast c) s n else Some (s, n) }
             else Some (s, n));
          (s, n) \<leftarrow> memchr_bytes m c s n;
          Some (if n \<noteq> 0 then Some s else None) }"

section \<open>Searching for characters\<close>

fun strchrnul :: "bytes \<Rightarrow> u8 \<Rightarrow> nat option" where
  "strchrnul [] c = None"
| "strchrnul (x # s) c = (if x \<noteq> 0 \<and> x \<noteq> c then map_option Suc (strchrnul s c) else Some 0)"

definition strchrnul' :: "bytes \<Rightarrow> u8 \<Rightarrow> nat option" where
  "strchrnul' s c = (if c = 0 then strlen s else strchrnul s c)"

definition strchr :: "bytes \<Rightarrow> u8 \<Rightarrow> nat option option" where
  "strchr s c = do { r \<leftarrow> strchrnul' s c; x \<leftarrow> rd s r; Some (if x = c then Some r else None) }"

fun strncmp_loop :: "bytes \<Rightarrow> bytes \<Rightarrow> nat \<Rightarrow> int option" where
  "strncmp_loop (x # l) (y # r) n =
     (if x \<noteq> 0 \<and> y \<noteq> 0 \<and> n \<noteq> 0 \<and> x = y then strncmp_loop l r (n - 1) else Some (uint x - uint y))"
| "strncmp_loop _ _ n = None"

definition strncmp :: "bytes \<Rightarrow> bytes \<Rightarrow> nat \<Rightarrow> int option" where
  "strncmp l r n = (if n = 0 then Some 0 else strncmp_loop l r (n - 1))"

text \<open>The set of bytes as an array of four words.\<close>

definition bitop_set :: "u64 list \<Rightarrow> u8 \<Rightarrow> u64 list" where
  "bitop_set byteset b = byteset[unat b div 64 := byteset ! (unat b div 64) OR push_bit (unat b mod 64) 1]"

definition bitop_test :: "u64 list \<Rightarrow> u8 \<Rightarrow> bool" where
  "bitop_test byteset b = (byteset ! (unat b div 64) AND push_bit (unat b mod 64) 1 \<noteq> 0)"

fun byteset_fill :: "u64 list \<Rightarrow> bytes \<Rightarrow> u64 list option" where
  "byteset_fill bs [] = None"
| "byteset_fill bs (x # c) = (if x \<noteq> 0 then byteset_fill (bitop_set bs x) c else Some bs)"

fun span_while :: "(u8 \<Rightarrow> bool) \<Rightarrow> bytes \<Rightarrow> nat option" where
  "span_while P [] = None"
| "span_while P (x # s) = (if P x then map_option Suc (span_while P s) else Some 0)"

definition strspn :: "bytes \<Rightarrow> bytes \<Rightarrow> nat option" where
  "strspn s c =
     do { c0 \<leftarrow> rd c 0;
          if c0 = 0 then Some 0
          else do {
            c1 \<leftarrow> rd c 1;
            if c1 = 0 then span_while (\<lambda>x. x = c0) s
            else do { bs \<leftarrow> byteset_fill (replicate 4 0) c;
                      span_while (\<lambda>x. x \<noteq> 0 \<and> bitop_test bs x) s } } }"

definition strcspn :: "bytes \<Rightarrow> bytes \<Rightarrow> nat option" where
  "strcspn s c =
     do { c0 \<leftarrow> rd c 0;
          c1 \<leftarrow> (if c0 = 0 then Some 0 else rd c 1);
          if c0 = 0 \<or> c1 = 0 then strchrnul' s c0
          else do { bs \<leftarrow> byteset_fill (replicate 4 0) c;
                    span_while (\<lambda>x. x \<noteq> 0 \<and> \<not> bitop_test bs x) s } }"

definition strpbrk :: "bytes \<Rightarrow> bytes \<Rightarrow> nat option option" where
  "strpbrk s b = do { n \<leftarrow> strcspn s b; x \<leftarrow> rd s n; Some (if x \<noteq> 0 then Some n else None) }"

fun memrchr :: "bytes \<Rightarrow> u8 \<Rightarrow> nat \<Rightarrow> nat option option" where
  "memrchr m c 0 = Some None"
| "memrchr m c (Suc n) = do { x \<leftarrow> rd m n; if x = c then Some (Some n) else memrchr m c n }"

definition strrchr :: "bytes \<Rightarrow> u8 \<Rightarrow> nat option option" where
  "strrchr s c = do { n \<leftarrow> strlen s; memrchr s c (n + 1) }"

definition strcat :: "bytes \<Rightarrow> bytes \<Rightarrow> bytes option" where
  "strcat dest src = do { n \<leftarrow> strlen dest; t \<leftarrow> cstr src; wr_bytes dest n (strz t) }"

section \<open>strstr for short needles\<close>

text \<open>
  The loop of the three functions: a word holds the last characters, \<open>upd\<close> shifts the next one
  in. The result is the offset of the last character of the match.
\<close>

fun roll :: "('w \<Rightarrow> u8 \<Rightarrow> 'w) \<Rightarrow> 'w \<Rightarrow> 'w \<Rightarrow> nat \<Rightarrow> bytes \<Rightarrow> nat option option" where
  "roll upd nw hw i [] = None"
| "roll upd nw hw i (c # h) =
     (if c \<noteq> 0 \<and> hw \<noteq> nw
      then (case h of [] \<Rightarrow> None | d # _ \<Rightarrow> roll upd nw (upd hw d) (i + 1) h)
      else Some (if c \<noteq> 0 then Some i else None))"

definition word2 :: "u8 \<Rightarrow> u8 \<Rightarrow> u16" where "word2 a b = push_bit 8 (ucast a) OR ucast b"
definition word3 :: "u8 \<Rightarrow> u8 \<Rightarrow> u8 \<Rightarrow> u32" where
  "word3 a b c = push_bit 24 (ucast a) OR push_bit 16 (ucast b) OR push_bit 8 (ucast c)"
definition word4 :: "u8 \<Rightarrow> u8 \<Rightarrow> u8 \<Rightarrow> u8 \<Rightarrow> u32" where
  "word4 a b c d = push_bit 24 (ucast a) OR push_bit 16 (ucast b) OR push_bit 8 (ucast c) OR ucast d"

definition twobyte_strstr :: "bytes \<Rightarrow> bytes \<Rightarrow> nat option option" where
  "twobyte_strstr h n =
     do { n0 \<leftarrow> rd n 0; n1 \<leftarrow> rd n 1; h0 \<leftarrow> rd h 0; h1 \<leftarrow> rd h 1;
          r \<leftarrow> roll (\<lambda>hw x. push_bit 8 hw OR ucast x) (word2 n0 n1) (word2 h0 h1) 1 (drop 1 h);
          Some (map_option (\<lambda>i. i - 1) r) }"

definition threebyte_strstr :: "bytes \<Rightarrow> bytes \<Rightarrow> nat option option" where
  "threebyte_strstr h n =
     do { n0 \<leftarrow> rd n 0; n1 \<leftarrow> rd n 1; n2 \<leftarrow> rd n 2; h0 \<leftarrow> rd h 0; h1 \<leftarrow> rd h 1; h2 \<leftarrow> rd h 2;
          r \<leftarrow> roll (\<lambda>hw x. push_bit 8 (hw OR ucast x)) (word3 n0 n1 n2) (word3 h0 h1 h2) 2 (drop 2 h);
          Some (map_option (\<lambda>i. i - 2) r) }"

definition fourbyte_strstr :: "bytes \<Rightarrow> bytes \<Rightarrow> nat option option" where
  "fourbyte_strstr h n =
     do { n0 \<leftarrow> rd n 0; n1 \<leftarrow> rd n 1; n2 \<leftarrow> rd n 2; n3 \<leftarrow> rd n 3;
          h0 \<leftarrow> rd h 0; h1 \<leftarrow> rd h 1; h2 \<leftarrow> rd h 2; h3 \<leftarrow> rd h 3;
          r \<leftarrow> roll (\<lambda>hw x. push_bit 8 hw OR ucast x) (word4 n0 n1 n2 n3) (word4 h0 h1 h2 h3) 3 (drop 3 h);
          Some (map_option (\<lambda>i. i - 3) r) }"

text \<open>
  strstr, with the two-way search for needles of five characters and more as a parameter.
\<close>

definition strstr :: "(bytes \<Rightarrow> bytes \<Rightarrow> nat option option) \<Rightarrow> bytes \<Rightarrow> bytes \<Rightarrow> nat option option" where
  "strstr twoway_strstr h n =
     do { n0 \<leftarrow> rd n 0;
          if n0 = 0 then Some (Some 0)
          else do {
            r \<leftarrow> strchr h n0;
            case r of
              None \<Rightarrow> Some None
            | Some k \<Rightarrow> do {
                n1 \<leftarrow> rd n 1;
                if n1 = 0 then Some (Some k)
                else do {
                   let h = drop k h;
                   h1 \<leftarrow> rd h 1;
                   if h1 = 0 then Some None
                   else do {
                     n2 \<leftarrow> rd n 2;
                     if n2 = 0 then map_option (map_option (\<lambda>i. k + i)) (twobyte_strstr h n)
                     else do {
                       h2 \<leftarrow> rd h 2;
                       if h2 = 0 then Some None
                       else do {
                         n3 \<leftarrow> rd n 3;
                         if n3 = 0 then map_option (map_option (\<lambda>i. k + i)) (threebyte_strstr h n)
                         else do {
                           h3 \<leftarrow> rd h 3;
                           if h3 = 0 then Some None
                           else do {
                             n4 \<leftarrow> rd n 4;
                             map_option (map_option (\<lambda>i. k + i))
                               (if n4 = 0 then fourbyte_strstr h n else twoway_strstr h n) } } } } } } } } }"

section \<open>Character classes\<close>

definition islower :: "u32 \<Rightarrow> bool" where "islower c = (c - 97 < 26)"
definition isupper :: "u32 \<Rightarrow> bool" where "isupper c = (c - 65 < 26)"
definition tolower :: "u32 \<Rightarrow> u32" where "tolower c = (if isupper c then c OR 32 else c)"
definition toupper :: "u32 \<Rightarrow> u32" where "toupper c = (if islower c then c AND 0x5f else c)"
definition isspace :: "u32 \<Rightarrow> bool" where "isspace c = (c = 32 \<or> c - 9 < 5)"

definition char2int :: "int \<Rightarrow> u32 \<Rightarrow> int" where
  "char2int ch base =
     (if ch \<ge> 48 \<and> ch \<le> 57 then ch - 48
      else if base = 16 \<and> ch \<ge> 65 \<and> ch \<le> 70 then ch - 65 + 10
      else if base = 16 \<and> ch \<ge> 97 \<and> ch \<le> 102 then ch - 97 + 10
      else - 1)"

section \<open>The word test of memchr\<close>

primrec ones :: "nat \<Rightarrow> int" where
  "ones 0 = 0"
| "ones (Suc k) = 1 + 256 * ones k"

lemma zero_byte_borrows:
  "0 \<in> set bs \<Longrightarrow> \<exists>j < length bs. odd ((int (le_nat bs) - ones (length bs)) div 2 ^ (8 * j + 7)) \<and>
     even (int (le_nat bs) div 2 ^ (8 * j + 7))"
proof (induction bs)
  case (Cons b bs)
  let ?v = "int (le_nat bs) - ones (length bs)"
  have eq: "int (le_nat (b # bs)) - ones (length (b # bs)) = (int (unat b) - 1) + 256 * ?v" by simp
  show ?case
  proof (cases "b = 0")
    case True
    have "((int (unat b) - 1) + 256 * ?v) div 2 ^ 7 = 2 * ?v - 1" using True by simp
    then have "odd ((int (le_nat (b # bs)) - ones (length (b # bs))) div 2 ^ (8 * 0 + 7))" unfolding eq by simp
    moreover have "int (le_nat (b # bs)) div 2 ^ (8 * 0 + 7) = 2 * int (le_nat bs)" using True by simp
    ultimately show ?thesis by (metis even_mult_iff dvd_refl length_greater_0_conv list.distinct(1))
  next
    case False
    then obtain j where j: "j < length bs" "odd (?v div 2 ^ (8 * j + 7))" "even (int (le_nat bs) div 2 ^ (8 * j + 7))"
      using Cons by auto
    have b: "0 < unat b" "unat b < 256" using False unat_u8_bound [of b] by (auto simp: unat_gt_0)
    have p: "(2 :: int) ^ (8 * Suc j + 7) = 256 * 2 ^ (8 * j + 7)" by (simp add: power_add)
    have "0 \<le> int (unat b) - 1" "int (unat b) - 1 < 256" using b by linarith+
    then have "((int (unat b) - 1) + 256 * ?v) div 256 = ?v"
      by (simp only: div_mult_self2 div_pos_pos_trivial add_0_right)
    then have "((int (unat b) - 1) + 256 * ?v) div 2 ^ (8 * Suc j + 7) = ?v div 2 ^ (8 * j + 7)"
      unfolding p by (simp add: zdiv_zmult2_eq)
    moreover have "(int (unat b) + 256 * int (le_nat bs)) div 256 = int (le_nat bs)"
      using b by (simp only: div_mult_self2 div_pos_pos_trivial add_0_right)
    then have "int (le_nat (b # bs)) div 2 ^ (8 * Suc j + 7) = int (le_nat bs) div 2 ^ (8 * j + 7)"
      unfolding p by (simp add: zdiv_zmult2_eq)
    ultimately show ?thesis using j unfolding eq by (metis Suc_less_eq length_Cons)
  qed
qed simp

lemma le_nat_word_bound: "length bs = 8 \<Longrightarrow> int (le_nat bs) < 2 ^ 64"
  using le_nat_bound [of bs] by (simp flip: of_nat_less_iff)

lemma ones8: "ones 8 = 0x0101010101010101"
  by (simp add: numeral_eq_Suc)

lemma CKB_ONES_value: "CKB_ONES = 0x0101010101010101"
  unfolding CKB_ONES_def by (simp add: word_div_def unsigned_minus_1_eq_mask mask_eq_exp_minus_1)

lemma haszero_sound:
  assumes "length bs = 8" "0 \<in> set bs"
  shows "CKB_HASZERO (of_nat (le_nat bs)) \<noteq> 0"
proof -
  obtain j where j: "j < 8" "odd ((int (le_nat bs) - ones 8) div 2 ^ (8 * j + 7))" "even (int (le_nat bs) div 2 ^ (8 * j + 7))"
    using zero_byte_borrows [OF assms(2)] assms(1) by auto
  let ?n = "8 * j + 7" and ?x = "of_nat (le_nat bs) :: u64"
  have x: "?x = word_of_int (int (le_nat bs))" by simp
  have d: "?x - CKB_ONES = word_of_int (int (le_nat bs) - ones 8)"
    by (simp add: CKB_ONES_value ones8)
  have "bit (?x - CKB_ONES) ?n" unfolding d bit_word_of_int_iff using j by (simp add: bit_iff_odd)
  moreover have "\<not> bit ?x ?n" unfolding x bit_word_of_int_iff using j by (simp add: bit_iff_odd)
  moreover have "bit CKB_HIGHS ?n"
  proof -
    have "j \<in> {0, 1, 2, 3, 4, 5, 6, 7}" using j(1) by auto
    then show ?thesis by (auto simp: CKB_HIGHS_def CKB_ONES_value bit_iff_odd)
  qed
  ultimately have "bit (CKB_HASZERO ?x) ?n" using j(1) by (simp add: CKB_HASZERO_def bit_simps)
  then show ?thesis by auto
qed

lemma bit_le_nat: "bit (le_nat bs) i = (i div 8 < length bs \<and> bit (bs ! (i div 8)) (i mod 8))"
proof (induction bs arbitrary: i)
  case (Cons b bs)
  have u: "unat b < 256" by (rule unat_u8_bound)
  show ?case
  proof (cases "i < 8")
    case True
    have "bit (unat b + 256 * le_nat bs) i = bit (unat b) i"
    proof -
      have "(unat b + 256 * le_nat bs) mod 2 ^ 8 = unat b" using u by simp
      then have "take_bit 8 (unat b + 256 * le_nat bs) = unat b" by (simp add: take_bit_eq_mod)
      then show ?thesis using True by (metis bit_take_bit_iff)
    qed
    then show ?thesis using True by (simp add: bit_unsigned_iff)
  next
    case False
    then obtain k where k: "i = 8 + k" by (metis le_Suc_ex not_less)
    have "(unat b + 256 * le_nat bs) div 2 ^ 8 = le_nat bs" using u by simp
    then have "bit (unat b + 256 * le_nat bs) i = bit (le_nat bs) k"
      unfolding k by (metis bit_drop_bit_eq comp_apply drop_bit_eq_div add.commute)
    moreover have "(8 + k) div 8 = Suc (k div 8)" "(8 + k) mod 8 = k mod 8" by simp_all
    ultimately show ?thesis using Cons.IH [of k] by (simp only: k le_nat.simps nth_Cons_Suc list.size) simp
  qed
qed simp

lemma xor_repeated_byte:
  assumes "length bs = 8"
  shows "of_nat (le_nat bs) XOR (CKB_ONES * ucast c) = (of_nat (le_nat (map (\<lambda>b. b XOR c) bs)) :: u64)"
proof -
  have rep: "CKB_ONES * ucast c = (of_nat (le_nat (replicate 8 c)) :: u64)"
  proof -
    have "replicate 8 c = [c, c, c, c, c, c, c, c]" by (simp add: numeral_eq_Suc)
    then have "le_nat (replicate 8 c) = 0x0101010101010101 * unat c" by simp
    then have "of_nat (le_nat (replicate 8 c)) = (of_nat 0x0101010101010101 * of_nat (unat c) :: u64)"
      by (simp only: of_nat_mult)
    then show ?thesis by (simp add: CKB_ONES_value)
  qed
  have b: "bit (of_nat (le_nat xs) :: u64) i = (i < 64 \<and> bit (xs ! (i div 8)) (i mod 8))"
    if "length xs = 8" for xs i
    using that by (auto simp: bit_simps bit_le_nat)
  have nth: "i < 64 \<Longrightarrow> i div 8 < 8" for i :: nat by simp
  show ?thesis unfolding rep
    by (rule bit_word_eqI) (use assms nth in \<open>simp add: bit_xor_iff b\<close>)
qed

section \<open>memchr finds the first occurrence\<close>

definition find_byte :: "u8 \<Rightarrow> bytes \<Rightarrow> nat option" where
  "find_byte c bs = (if c \<in> set bs then Some (length (takeWhile (\<lambda>x. x \<noteq> c) bs)) else None)"

definition skipped :: "bytes \<Rightarrow> u8 \<Rightarrow> nat \<Rightarrow> nat \<Rightarrow> nat \<times> nat \<Rightarrow> bool" where
  "skipped m c s n r = (s \<le> fst r \<and> fst r + snd r = s + n \<and> (\<forall>k \<in> {s..<fst r}. m ! k \<noteq> c))"

lemma skipped_refl: "skipped m c s n (s, n)"
  by (simp add: skipped_def)

lemma skipped_trans:
  assumes "skipped m c s n r" "skipped m c (fst r) (snd r) r'"
  shows "skipped m c s n r'"
proof -
  have "{s..<fst r'} = {s..<fst r} \<union> {fst r..<fst r'}"
    using assms ivl_disj_un_two(3) unfolding skipped_def by metis
  then show ?thesis using assms by (auto simp: skipped_def)
qed

lemma skipped_more:
  assumes "skipped m c (s + d) (n - d) r" "d \<le> n" "\<forall>k \<in> {s..<s + d}. m ! k \<noteq> c"
  shows "skipped m c s n r"
  by (rule skipped_trans [of _ _ _ _ "(s + d, n - d)"]) (use assms in \<open>simp_all add: skipped_def\<close>)

lemma memchr_align_ok:
  "s + n \<le> length m \<Longrightarrow> \<exists>r. memchr_align addr m c s n = Some r \<and> skipped m c s n r"
proof (induction n arbitrary: s)
  case (Suc n)
  show ?case
  proof (cases "(addr + s) mod CKB_SS \<noteq> 0 \<and> m ! s \<noteq> c")
    case True
    obtain r where r: "memchr_align addr m c (s + 1) n = Some r" "skipped m c (s + 1) n r"
      using Suc.IH [of "s + 1"] Suc.prems by auto
    then have "skipped m c s (Suc n) r"
      using True by - (rule skipped_more [where d = 1], auto)
    then show ?thesis using True r(1) Suc.prems by (subst memchr_align.simps) (simp add: rd_def)
  next
    case False
    then show ?thesis using Suc.prems by (subst memchr_align.simps) (auto simp: rd_def skipped_refl)
  qed
qed (simp add: memchr_align.simps skipped_refl)

lemma memchr_words_ok:
  "s + n \<le> length m \<Longrightarrow> \<exists>r. memchr_words m (CKB_ONES * ucast c) s n = Some r \<and> skipped m c s n r"
proof (induction n arbitrary: s rule: less_induct)
  case (less n)
  show ?case
  proof (cases "8 \<le> n")
    case True
    let ?b = "take 8 (drop s m)"
    have b: "rd_bytes m s 8 = Some ?b" "length ?b = 8" using True less.prems by (simp_all add: rd_bytes_def)
    let ?x = "of_nat (le_nat ?b) XOR (CKB_ONES * ucast c) :: u64"
    show ?thesis
    proof (cases "CKB_HASZERO ?x = 0")
      case zero: True
      have "0 \<notin> set (map (\<lambda>x. x XOR c) ?b)"
        using haszero_sound [of "map (\<lambda>x. x XOR c) ?b"] zero b(2) by (auto simp: xor_repeated_byte)
      then have "c \<notin> set ?b" by (metis (mono_tags, lifting) image_eqI list.set_map xor_self_eq)
      then have skip: "m ! k \<noteq> c" if "s \<le> k" "k < s + 8" for k
      proof -
        have "?b ! (k - s) = m ! k" "k - s < length ?b" using that b(2) less.prems True by auto
        then show ?thesis using \<open>c \<notin> set ?b\<close> nth_mem by metis
      qed
      obtain r where r: "memchr_words m (CKB_ONES * ucast c) (s + 8) (n - 8) = Some r" "skipped m c (s + 8) (n - 8) r"
        using less.IH [of "n - 8" "s + 8"] True less.prems by auto
      then have "skipped m c s n r" using skip True by - (rule skipped_more [where d = 8], auto)
      then show ?thesis using r(1) b(1) zero True by (subst memchr_words.simps) (simp add: CKB_SS_def)
    next
      case False
      then show ?thesis using b(1) True by (subst memchr_words.simps) (simp add: CKB_SS_def skipped_refl)
    qed
  next
    case False
    then show ?thesis by (subst memchr_words.simps) (simp add: CKB_SS_def skipped_refl)
  qed
qed

lemma memchr_bytes_ok:
  "s + n \<le> length m \<Longrightarrow> \<exists>s' n'. memchr_bytes m c s n = Some (s', n') \<and> skipped m c s n (s', n') \<and> (n' = 0 \<or> m ! s' = c)"
proof (induction n arbitrary: s)
  case (Suc n)
  show ?case
  proof (cases "m ! s \<noteq> c")
    case True
    obtain s' n' where r: "memchr_bytes m c (s + 1) n = Some (s', n')" "skipped m c (s + 1) n (s', n')"
      "n' = 0 \<or> m ! s' = c" using Suc.IH [of "s + 1"] Suc.prems by auto
    then have "skipped m c s (Suc n) (s', n')"
      using True by - (rule skipped_more [where d = 1], auto)
    then show ?thesis using True r Suc.prems by (subst memchr_bytes.simps) (simp add: rd_def)
  next
    case False
    then show ?thesis using Suc.prems by (subst memchr_bytes.simps) (auto simp: rd_def skipped_refl)
  qed
qed (simp add: memchr_bytes.simps skipped_refl)

lemma find_byte_skipped:
  assumes "skipped m c 0 n (s, k)" "k = 0 \<or> m ! s = c" "n \<le> length m"
  shows "(if k \<noteq> 0 then Some s else None) = find_byte c (take n m)"
proof -
  have no: "\<forall>j < s. m ! j \<noteq> c" "s + k = n" using assms(1) by (auto simp: skipped_def)
  show ?thesis
  proof (cases "k = 0")
    case True
    then show ?thesis using no assms(3) by (auto simp: find_byte_def in_set_conv_nth)
  next
    case False
    then have s: "s < n" "m ! s = c" using no assms(2) by auto
    have "takeWhile (\<lambda>x. x \<noteq> c) (take n m) = take s (take n m)"
      by (rule takeWhile_eq_take_P_nth) (use no s assms(3) in auto)
    moreover have "c \<in> set (take n m)" using s assms(3) by (auto simp: in_set_conv_nth)
    ultimately show ?thesis using False s assms(3) by (simp add: find_byte_def)
  qed
qed

text \<open>
  C30. memchr, which tests eight bytes at a time when the address is aligned, returns the first
  of the n bytes that is c, for every address and every content, and never reads behind them.
\<close>

theorem memchr_finds_first:
  assumes "n \<le> length m"
  shows "memchr addr m c n = Some (find_byte c (take n m))"
proof -
  obtain s1 n1 where 1: "memchr_align addr m c 0 n = Some (s1, n1)" "skipped m c 0 n (s1, n1)"
    using memchr_align_ok [of 0 n m addr c] assms by auto
  have l1: "s1 + n1 \<le> length m" using 1(2) assms by (simp add: skipped_def)
  have "\<exists>s2 n2. (if n1 \<noteq> 0 then do { b \<leftarrow> rd m s1;
      if b \<noteq> c then memchr_words m (CKB_ONES * ucast c) s1 n1 else Some (s1, n1) } else Some (s1, n1)) = Some (s2, n2)
      \<and> skipped m c s1 n1 (s2, n2)"
    using memchr_words_ok [OF l1, of c] l1 by (auto simp: rd_def skipped_refl)
  then obtain s2 n2 where 2: "(if n1 \<noteq> 0 then do { b \<leftarrow> rd m s1;
      if b \<noteq> c then memchr_words m (CKB_ONES * ucast c) s1 n1 else Some (s1, n1) } else Some (s1, n1)) = Some (s2, n2)"
    "skipped m c s1 n1 (s2, n2)" by blast
  have l2: "s2 + n2 \<le> length m" using 2(2) l1 by (simp add: skipped_def)
  obtain s3 n3 where 3: "memchr_bytes m c s2 n2 = Some (s3, n3)" "skipped m c s2 n2 (s3, n3)" "n3 = 0 \<or> m ! s3 = c"
    using memchr_bytes_ok [OF l2] by blast
  have "skipped m c 0 n (s3, n3)" using skipped_trans [OF skipped_trans [OF 1(2)], of "(s2, n2)" "(s3, n3)"] 2(2) 3(2) by simp
  then show ?thesis using find_byte_skipped [OF _ 3(3) assms] 1(1) 2(1) 3(1) by (simp add: memchr_def)
qed

theorem memchr_finds_first_witness:
  "memchr 5 [1, 2, 3, 4, 5, 6, 7, 8, 9, 10, 11, 12, 0, 4] 0 13 = Some (find_byte 0 (take 13 [1, 2, 3, 4, 5, 6, 7, 8, 9, 10, 11, 12, 0, 4]))"
  by (rule memchr_finds_first) simp

section \<open>strstr of a short needle\<close>

text \<open>The reference: the first position where the needle is a prefix of what is left.\<close>

fun find_sub :: "bytes \<Rightarrow> bytes \<Rightarrow> nat option" where
  "find_sub n [] = (if n = [] then Some 0 else None)"
| "find_sub n (x # h) = (if prefix n (x # h) then Some 0 else map_option Suc (find_sub n h))"

lemma find_sub_prefix: "prefix n h \<Longrightarrow> find_sub n h = Some 0"
  by (cases h) auto

lemma find_sub_short: "length h < length n \<Longrightarrow> find_sub n h = None"
  by (induction h) (auto dest: prefix_length_le)

lemma find_sub_sound: "find_sub n h = Some i \<Longrightarrow> i \<le> length h \<and> prefix n (drop i h) \<and> (\<forall>j < i. \<not> prefix n (drop j h))"
proof (induction h arbitrary: i)
  case (Cons x h)
  show ?case
  proof (cases "prefix n (x # h)")
    case False
    then obtain k where k: "find_sub n h = Some k" "i = Suc k" using Cons.prems by auto
    then show ?thesis using Cons.IH [OF k(1)] False by (auto simp: less_Suc_eq_0_disj)
  qed (use Cons.prems in auto)
qed (auto split: if_splits)

lemma find_sub_skip: "0 \<notin> set p \<Longrightarrow> a \<notin> set p \<Longrightarrow> find_sub (a # n) (p @ h) = map_option ((+) (length p)) (find_sub (a # n) h)"
  by (induction p) (cases "find_sub (a # n) h"; simp)+

text \<open>One lemma for the three loops: \<open>enc\<close> packs a window of the characters into the word.\<close>

lemma roll_window:
  assumes inj: "\<And>xs ys. length xs = k \<Longrightarrow> length ys = k \<Longrightarrow> enc xs = enc ys \<Longrightarrow> xs = ys"
    and upd: "\<And>a xs d. length (a # xs) = k \<Longrightarrow> upd (enc (a # xs)) d = enc (xs @ [d])"
    and n: "length n = k" and k: "0 < k"
  shows "length w = k \<Longrightarrow> 0 \<notin> set w \<Longrightarrow> 0 \<notin> set r \<Longrightarrow>
    roll upd (enc n) (enc w) i (last w # r @ 0 # t) = Some (map_option ((+) i) (find_sub n (w @ r)))"
proof (induction r arbitrary: w i)
  case Nil
  have "w \<noteq> []" using Nil.prems k by auto
  then have l: "last w \<noteq> 0" using Nil.prems(2) last_in_set by metis
  have "prefix n w \<longleftrightarrow> w = n" using Nil.prems(1) n by (auto simp: prefix_def)
  then have "prefix n w \<longleftrightarrow> enc w = enc n" using inj [OF Nil.prems(1) n] by blast
  moreover have "find_sub n w = None" if "\<not> prefix n w"
    using that Nil.prems(1) n k by (cases w) (auto simp: find_sub_short)
  ultimately show ?case using l by (auto simp: find_sub_prefix)
next
  case (Cons d r)
  obtain a xs where w: "w = a # xs" using Cons.prems(1) k by (cases w) auto
  have l: "last w \<noteq> 0" using Cons.prems k last_in_set [of w] w by auto
  have "prefix n (w @ d # r) \<longleftrightarrow> w = n" using Cons.prems(1) n by (auto simp: prefix_def append_eq_append_conv)
  then have p: "prefix n (w @ d # r) \<longleftrightarrow> enc w = enc n" using inj [OF Cons.prems(1) n] by blast
  have u: "upd (enc w) d = enc (xs @ [d])" using upd Cons.prems(1) w by simp
  have "roll upd (enc n) (enc (xs @ [d])) (i + 1) (last (xs @ [d]) # r @ 0 # t)
      = Some (map_option ((+) (i + 1)) (find_sub n ((xs @ [d]) @ r)))"
    by (rule Cons.IH) (use Cons.prems w in auto)
  then show ?case using l p u w by (cases "find_sub n (xs @ d # r)") (auto simp: find_sub_prefix simp del: roll.simps(1))
qed

text \<open>The words of the three functions.\<close>

fun enc2 :: "bytes \<Rightarrow> u16" where "enc2 [a, b] = word2 a b" | "enc2 _ = 0"
fun enc3 :: "bytes \<Rightarrow> u32" where "enc3 [a, b, c] = word3 a b c" | "enc3 _ = 0"
fun enc4 :: "bytes \<Rightarrow> u32" where "enc4 [a, b, c, d] = word4 a b c d" | "enc4 _ = 0"

lemma word2_inj: "word2 a b = word2 a' b' \<longleftrightarrow> a = a' \<and> b = b'"
proof
  assume e: "word2 a b = word2 a' b'"
  have "ucast (drop_bit 8 (word2 a b)) = a" "ucast (word2 a b) = b" for a b
    by (rule bit_word_eqI; auto simp: word2_def bit_simps dest: bit_imp_le_length)+
  then show "a = a' \<and> b = b'" using e by metis
qed simp

lemma word3_inj: "word3 a b c = word3 a' b' c' \<longleftrightarrow> a = a' \<and> b = b' \<and> c = c'"
proof
  assume e: "word3 a b c = word3 a' b' c'"
  have "ucast (drop_bit 24 (word3 a b c)) = a" "ucast (drop_bit 16 (word3 a b c)) = b"
    "ucast (drop_bit 8 (word3 a b c)) = c" for a b c
    by (rule bit_word_eqI; auto simp: word3_def bit_simps dest: bit_imp_le_length)+
  then show "a = a' \<and> b = b' \<and> c = c'" using e by metis
qed simp

lemma word4_inj: "word4 a b c d = word4 a' b' c' d' \<longleftrightarrow> a = a' \<and> b = b' \<and> c = c' \<and> d = d'"
proof
  assume e: "word4 a b c d = word4 a' b' c' d'"
  have "ucast (drop_bit 24 (word4 a b c d)) = a" "ucast (drop_bit 16 (word4 a b c d)) = b"
    "ucast (drop_bit 8 (word4 a b c d)) = c" "ucast (word4 a b c d) = d" for a b c d
    by (rule bit_word_eqI; auto simp: word4_def bit_simps dest: bit_imp_le_length)+
  then show "a = a' \<and> b = b' \<and> c = c' \<and> d = d'" using e by metis
qed simp

lemma word2_shift: "push_bit 8 (word2 a b) OR ucast d = word2 b d"
  by (rule bit_word_eqI) (auto simp: word2_def bit_simps dest: bit_imp_le_length)

lemma word3_shift: "push_bit 8 (word3 a b c OR ucast d) = word3 b c d"
  by (rule bit_word_eqI) (auto simp: word3_def bit_simps dest: bit_imp_le_length)

lemma word4_shift: "push_bit 8 (word4 a b c d) OR ucast e = word4 b c d e"
  by (rule bit_word_eqI) (auto simp: word4_def bit_simps dest: bit_imp_le_length)

lemma strchr_index:
  assumes "0 \<notin> set h" "c \<noteq> 0"
  shows "strchr (h @ 0 # t) c =
    Some (if c \<in> set h then Some (length (takeWhile (\<lambda>x. x \<noteq> c) h)) else None)"
proof -
  have n: "strchrnul (h @ 0 # t) c = Some (length (takeWhile (\<lambda>x. x \<noteq> c) h))"
    using assms(1) by (induction h) auto
  have m: "(h @ 0 # t) ! length (takeWhile (\<lambda>x. x \<noteq> c) h) = (if c \<in> set h then c else 0)"
    by (induction h) auto
  show ?thesis using n m assms(2) length_takeWhile_le [of "\<lambda>x. x \<noteq> c" h]
    by (auto simp: strchr_def strchrnul'_def rd_def)
qed

lemma strstr_tail:
  assumes "c \<notin> set p" "0 \<notin> set p"
  shows "find_sub (c # n) (p @ h) = map_option ((+) (length p)) (find_sub (c # n) h)"
  by (rule find_sub_skip) (use assms in auto)

lemma rd_simps [simp]:
  "rd [] i = None" "rd (x # xs) 0 = Some x" "rd (x # xs) (Suc i) = rd xs i"
  "rd (x # xs) (numeral k) = rd xs (pred_numeral k)"
  by (simp_all add: rd_def numeral_eq_Suc)

lemma word4_shift_mult: "256 * word4 a b c d OR ucast e = word4 b c d e"
  using word4_shift [of a b c d e] by (simp add: push_bit_eq_mult mult.commute)

lemma roll2:
  assumes "0 \<notin> set [a, b]" "0 \<notin> set r"
  shows "twobyte_strstr ([a, b] @ r @ 0 # t) (n0 # n1 # s) = Some (find_sub [n0, n1] ([a, b] @ r))"
proof -
  have "roll (\<lambda>hw x. push_bit 8 hw OR ucast x) (enc2 [n0, n1]) (enc2 [a, b]) 1 (last [a, b] # r @ 0 # t)
      = Some (map_option ((+) 1) (find_sub [n0, n1] ([a, b] @ r)))"
    by (rule roll_window [where k = 2])
      (use assms in \<open>auto simp: numeral_2_eq_2 length_Suc_conv word2_inj word2_shift\<close>)
  then show ?thesis by (simp add: twobyte_strstr_def rd_def option.map_comp comp_def option.map_ident del: roll.simps find_sub.simps)
qed

lemma roll3:
  assumes "0 \<notin> set [a, b, c]" "0 \<notin> set r"
  shows "threebyte_strstr ([a, b, c] @ r @ 0 # t) (n0 # n1 # n2 # s) = Some (find_sub [n0, n1, n2] ([a, b, c] @ r))"
proof -
  have "roll (\<lambda>hw x. push_bit 8 (hw OR ucast x)) (enc3 [n0, n1, n2]) (enc3 [a, b, c]) 2 (last [a, b, c] # r @ 0 # t)
      = Some (map_option ((+) 2) (find_sub [n0, n1, n2] ([a, b, c] @ r)))"
    by (rule roll_window [where k = 3])
      (use assms in \<open>auto simp: numeral_3_eq_3 length_Suc_conv word3_inj word3_shift [simplified]\<close>)
  then show ?thesis by (simp add: threebyte_strstr_def rd_def option.map_comp comp_def option.map_ident del: roll.simps find_sub.simps)
qed

lemma roll4:
  assumes "0 \<notin> set [a, b, c, d]" "0 \<notin> set r"
  shows "fourbyte_strstr ([a, b, c, d] @ r @ 0 # t) (n0 # n1 # n2 # n3 # s)
    = Some (find_sub [n0, n1, n2, n3] ([a, b, c, d] @ r))"
proof -
  have "roll (\<lambda>hw x. push_bit 8 hw OR ucast x) (enc4 [n0, n1, n2, n3]) (enc4 [a, b, c, d]) 3 (last [a, b, c, d] # r @ 0 # t)
      = Some (map_option ((+) 3) (find_sub [n0, n1, n2, n3] ([a, b, c, d] @ r)))"
    by (rule roll_window [where k = 4])
      (use assms in \<open>auto simp: numeral_eq_Suc length_Suc_conv word4_inj word4_shift word4_shift_mult\<close>)
  then show ?thesis by (simp add: fourbyte_strstr_def rd_def option.map_comp comp_def option.map_ident del: roll.simps find_sub.simps)
qed

text \<open>
  C29. For needles of up to four characters the word-rolling searches of strstr are equivalent
  to the reference: strstr returns the position of the first occurrence of the needle, or NULL when there
  is none, for every haystack; the two-way search is never called.
\<close>

theorem strstr_short_needle:
  assumes "cstr hp = Some h" "cstr np = Some n" "length n \<le> 4"
  shows "strstr twoway hp np = Some (find_sub n h)"
proof (cases n)
  case Nil
  then have "np ! 0 = 0" "np \<noteq> []" using cstr_SomeD [OF assms(2)] by auto
  then show ?thesis using Nil by (simp add: strstr_def rd_def find_sub_prefix)
next
  case (Cons c m)
  obtain t s where hp: "hp = h @ 0 # t" "0 \<notin> set h" and np: "np = n @ 0 # s" "0 \<notin> set n"
    using cstr_SomeD [OF assms(1)] cstr_SomeD [OF assms(2)] by blast
  have c: "c \<noteq> 0" using np(2) Cons by auto
  show ?thesis
  proof (cases "c \<in> set h")
    case False
    then have "find_sub n h = None" using hp(2) c Cons strstr_tail [of c h m "[]"] by simp
    then show ?thesis using False c np(1) Cons hp strchr_index [OF hp(2) c] by (simp add: strstr_def)
  next
    case True
    then obtain p q where q: "h = p @ c # q" and p: "c \<notin> set p" by (meson split_list_first)
    have zq: "0 \<notin> set p" "0 \<notin> set q" using hp(2) q by auto
    have drop: "drop (length p) hp = c # q @ 0 # t" using hp(1) q by simp
    have "\<forall>x \<in> set p. x \<noteq> c" using p by auto
    then have tw: "takeWhile (\<lambda>x. x \<noteq> c) p = p" by (simp add: takeWhile_eq_all_conv)
    have chr: "strchr hp c = Some (Some (length p))"
      using strchr_index [OF hp(2) c] True hp(1) q tw by (simp add: takeWhile_tail)
    have tail: "find_sub n h = map_option ((+) (length p)) (find_sub n (c # q))"
      using strstr_tail [OF p zq(1)] q Cons by simp
    consider "m = []" | n1 where "m = [n1]" | n1 n2 where "m = [n1, n2]" | n1 n2 n3 where "m = [n1, n2, n3]"
      using assms(3) Cons by (cases m; cases "tl m"; cases "tl (tl m)") auto
    then show ?thesis
    proof cases
      case 1
      then show ?thesis using Cons chr np c tail by (simp add: strstr_def)
    next
      case 2
      then have "n1 \<noteq> 0" using np Cons by auto
      then show ?thesis
        using 2 Cons chr np c tail drop zq roll2 [of c "hd q" "tl q" t c n1 "0 # s"]
        by (cases q) (auto simp: strstr_def Let_def find_sub_short simp del: find_sub.simps)
    next
      case 3
      then have "n1 \<noteq> 0" "n2 \<noteq> 0" using np Cons by auto
      then show ?thesis
        using 3 Cons chr np c tail drop zq roll3 [of c "hd q" "hd (tl q)" "tl (tl q)" t c n1 n2 "0 # s"]
        by (cases q; cases "tl q") (auto simp: strstr_def Let_def find_sub_short simp del: find_sub.simps)
    next
      case 4
      then have "n1 \<noteq> 0" "n2 \<noteq> 0" "n3 \<noteq> 0" using np Cons by auto
      then show ?thesis
        using 4 Cons chr np c tail drop zq
          roll4 [of c "hd q" "hd (tl q)" "hd (tl (tl q))" "tl (tl (tl q))" t c n1 n2 n3 "0 # s"]
        by (cases q; cases "tl q"; cases "tl (tl q)") (auto simp: strstr_def Let_def find_sub_short simp del: find_sub.simps)
    qed
  qed
qed

theorem strstr_short_needle_witness:
  "strstr (\<lambda>h n. None) [97, 98, 97, 97, 98, 98, 0, 7] [97, 98, 98, 0] = Some (find_sub [97, 98, 98] [97, 98, 97, 97, 98, 98])"
  by (rule strstr_short_needle) simp_all

section \<open>strspn and strcspn\<close>

lemma bitop_test_bit: "bitop_test bs x = bit (bs ! (unat x div 64)) (unat x mod 64)"
  by (simp add: bitop_test_def bit_iff_and_push_bit_not_eq_0)

lemma bitop_set_test:
  assumes "length bs = 4"
  shows "bitop_test (bitop_set bs b) x = (x = b \<or> bitop_test bs x)"
proof -
  have u: "unat b < 256" "unat x < 256" by (rule unat_u8_bound)+
  have l: "unat b div 64 < 4" "unat x div 64 < 4" "unat x mod 64 < 64" using u by auto
  have "x = b \<longleftrightarrow> unat x div 64 = unat b div 64 \<and> unat x mod 64 = unat b mod 64"
    by (metis div_mult_mod_eq word_unat_eq_iff)
  then show ?thesis using l assms
    by (auto simp: bitop_test_bit bitop_set_def nth_list_update bit_simps)
qed

lemma bitop_set_length [simp]: "length (bitop_set bs b) = length bs"
  by (simp add: bitop_set_def)

lemma byteset_fill_ok:
  "length bs = 4 \<Longrightarrow> 0 \<notin> set c \<Longrightarrow>
    \<exists>bs'. byteset_fill bs (c @ 0 # t) = Some bs' \<and> (\<forall>x. bitop_test bs' x = (x \<in> set c \<or> bitop_test bs x))"
proof (induction c arbitrary: bs)
  case (Cons a c)
  obtain bs' where "byteset_fill (bitop_set bs a) (c @ 0 # t) = Some bs'"
    "\<forall>x. bitop_test bs' x = (x \<in> set c \<or> bitop_test (bitop_set bs a) x)"
    using Cons.IH [of "bitop_set bs a"] Cons.prems by auto
  then show ?case using Cons.prems by (auto simp: bitop_set_test)
qed simp

lemma byteset_of:
  assumes "0 \<notin> set c"
  shows "\<exists>bs. byteset_fill (replicate 4 0) (c @ 0 # t) = Some bs \<and> (\<forall>x. bitop_test bs x = (x \<in> set c))"
proof -
  have "\<not> bitop_test (replicate 4 0) x" for x
  proof -
    have "unat x div 64 < 4" using unat_u8_bound [of x] by auto
    then show ?thesis by (simp add: bitop_test_bit)
  qed
  then show ?thesis using byteset_fill_ok [of "replicate 4 0" c t] assms by auto
qed

lemma strchrnul_ok: "0 \<notin> set s \<Longrightarrow> strchrnul (s @ 0 # t) a = Some (length (takeWhile (\<lambda>x. x \<noteq> a) s))"
  by (induction s) auto

lemma span_while_ok: "\<not> P 0 \<Longrightarrow> span_while P (s @ 0 # t) = Some (length (takeWhile P s))"
  by (induction s) auto

text \<open>
  C31. strspn returns the length of the longest prefix of the string made of the characters of
  the accepted set, and strcspn that of the longest prefix without them, whatever the set: empty, one
  character (the two shortcuts) or many (the bitmap of 256 bits).
\<close>

theorem strspn_strcspn_spec:
  assumes "cstr sp = Some s" "cstr cp = Some c"
  shows "strspn sp cp = Some (length (takeWhile (\<lambda>x. x \<in> set c) s)) \<and>
         strcspn sp cp = Some (length (takeWhile (\<lambda>x. x \<notin> set c) s))"
proof -
  obtain t u where sp: "sp = s @ 0 # t" "0 \<notin> set s" and cp: "cp = c @ 0 # u" "0 \<notin> set c"
    using cstr_SomeD [OF assms(1)] cstr_SomeD [OF assms(2)] by blast
  obtain bs where bs: "byteset_fill (replicate 4 0) cp = Some bs" "\<And>x. bitop_test bs x = (x \<in> set c)"
    using byteset_of [OF cp(2)] cp(1) by blast
  have nz: "x \<noteq> 0 \<and> P x \<longleftrightarrow> P x" if "x \<in> set s" for x P using that sp(2) by auto
  have tw: "takeWhile (\<lambda>x. x \<noteq> 0 \<and> P x) s = takeWhile P s" for P
    by (rule takeWhile_cong) (use nz in auto)
  have nul: "strchrnul sp a = Some (length (takeWhile (\<lambda>x. x \<noteq> a) s))" for a
    using sp strchrnul_ok by simp
  consider "c = []" | a where "c = [a]" | a b d where "c = a # b # d" by (metis list.exhaust)
  then show ?thesis
  proof cases
    case 1
    moreover have "takeWhile (\<lambda>x. False) s = []" "length (takeWhile (\<lambda>x. True) s) = length s"
      by (cases s, simp, simp) (induction s, auto)
    ultimately show ?thesis using 1 cp(1) sp assms(1) by (simp add: strspn_def strcspn_def strchrnul'_def strlen_def)
  next
    case 2
    then have "cp = a # 0 # u" "a \<noteq> 0" using cp by auto
    then show ?thesis using 2 nul span_while_ok [of "\<lambda>x. x = a" s t] sp(1)
      by (simp add: strspn_def strcspn_def strchrnul'_def)
  next
    case 3
    have 1: "span_while (\<lambda>x. x \<noteq> 0 \<and> x \<in> set c) sp = Some (length (takeWhile (\<lambda>x. x \<in> set c) s))"
      and 2: "span_while (\<lambda>x. x \<noteq> 0 \<and> x \<notin> set c) sp = Some (length (takeWhile (\<lambda>x. x \<notin> set c) s))"
      by (simp_all add: sp(1) span_while_ok tw)
    have "cp = a # b # d @ 0 # u" "a \<noteq> 0" "b \<noteq> 0" using cp 3 by auto
    then show ?thesis using 1 2 bs by (simp add: strspn_def strcspn_def)
  qed
qed

theorem strspn_strcspn_spec_witness:
  "strspn [98, 97, 99, 98, 0, 9] [97, 98, 0] = Some 2 \<and> strcspn [98, 97, 99, 98, 0, 9] [99, 100, 0] = Some 2"
  using strspn_strcspn_spec [of "[98, 97, 99, 98, 0, 9]" "[98, 97, 99, 98]" "[97, 98, 0]" "[97, 98]"]
    strspn_strcspn_spec [of "[98, 97, 99, 98, 0, 9]" "[98, 97, 99, 98]" "[99, 100, 0]" "[99, 100]"] by simp

end
