(* ===== verification/Limbs.thy ===== *)
theory Limbs
  imports Ckb_Prelude
begin

text \<open>
  quickjs/libbf.c, the layer of natural numbers (mp_*): a number is its limbs of 64 bits, the
  least significant first. A function that writes n limbs to a result returns them as a list;
  every loop reads the limbs of an index before it writes that index, so that the result may be
  one of the operands, as it is in most calls. An operand is the list of the n limbs that the
  function is given. The carry that a C function returns is the second component.
\<close>

type_synonym limb = u64
type_synonym dlimb = "128 word"

definition LIMB_BITS :: nat where "LIMB_BITS = 64"

section \<open>Addition and subtraction\<close>

fun mp_add :: "limb list \<Rightarrow> limb list \<Rightarrow> limb \<Rightarrow> limb list \<times> limb" where
  "mp_add (v # op1) (w # op2) k =
     (let a = v + w;
          k1 = of_bool (a < v);
          a = a + k;
          k = of_bool (a < k) OR k1;
          (res, c) = mp_add op1 op2 k
      in (a # res, c))"
| "mp_add _ _ k = ([], k)"

fun mp_add_ui :: "limb list \<Rightarrow> limb \<Rightarrow> limb list \<times> limb" where
  "mp_add_ui [] k = ([], k)"
| "mp_add_ui (v # tab) k =
     (if k = 0 then (v # tab, k)
      else let a = v + k; (res, c) = mp_add_ui tab (of_bool (a < k)) in (a # res, c))"

fun mp_sub :: "limb list \<Rightarrow> limb list \<Rightarrow> limb \<Rightarrow> limb list \<times> limb" where
  "mp_sub (v # op1) (w # op2) k =
     (let a = v - w;
          k1 = of_bool (a > v);
          v' = a - k;
          k = of_bool (v' > a) OR k1;
          (res, c) = mp_sub op1 op2 k
      in (v' # res, c))"
| "mp_sub _ _ k = ([], k)"

fun mp_neg :: "limb list \<Rightarrow> limb \<Rightarrow> limb list \<times> limb" where
  "mp_neg [] k = ([], k)"
| "mp_neg (w # op2) k =
     (let v = 0;
          a = v - w;
          k1 = of_bool (a > v);
          v' = a - k;
          k = of_bool (v' > a) OR k1;
          (res, c) = mp_neg op2 k
      in (v' # res, c))"

fun mp_sub_ui :: "limb list \<Rightarrow> limb \<Rightarrow> limb list \<times> limb" where
  "mp_sub_ui [] k = ([], k)"
| "mp_sub_ui (v # tab) k =
     (let a = v - k;
          k = of_bool (a > v)
      in if k = 0 then (a # tab, k) else let (res, c) = mp_sub_ui tab k in (a # res, c))"

section \<open>Shift, comparison\<close>

text \<open>The limbs from the last to the first; the list of the recursion is the low part.\<close>

fun mp_shr_loop :: "limb list \<Rightarrow> nat \<Rightarrow> limb \<Rightarrow> limb list \<times> limb" where
  "mp_shr_loop [] shift l = ([], l)"
| "mp_shr_loop (a # tab) shift l =
     (let (res, l) = mp_shr_loop tab shift l
      in ((drop_bit shift a OR push_bit (LIMB_BITS - shift) l) # res, a))"

definition mp_shr :: "limb list \<Rightarrow> nat \<Rightarrow> limb \<Rightarrow> limb list \<times> limb" where
  "mp_shr tab shift high =
     (let (res, l) = mp_shr_loop tab shift high in (res, l AND (push_bit shift 1 - 1)))"

fun mp_cmp_down :: "limb list \<Rightarrow> limb list \<Rightarrow> int" where
  "mp_cmp_down (a # as) (b # bs) = (if a \<noteq> b then (if a < b then - 1 else 1) else mp_cmp_down as bs)"
| "mp_cmp_down _ _ = 0"

definition mp_cmp :: "limb list \<Rightarrow> limb list \<Rightarrow> int" where
  "mp_cmp taba tabb = mp_cmp_down (rev taba) (rev tabb)"

fun mp_scan_nz :: "limb list \<Rightarrow> bool" where
  "mp_scan_nz [] = False"
| "mp_scan_nz (x # tab) = (if x \<noteq> 0 then True else mp_scan_nz tab)"

section \<open>Multiplication\<close>

fun mp_mul1 :: "limb list \<Rightarrow> limb \<Rightarrow> limb \<Rightarrow> limb list \<times> limb" where
  "mp_mul1 [] b l = ([], l)"
| "mp_mul1 (a # taba) b l =
     (let t = (ucast a * ucast b + ucast l :: dlimb);
          (res, c) = mp_mul1 taba b (ucast (drop_bit LIMB_BITS t))
      in (ucast t # res, c))"

fun mp_add_mul1_loop :: "limb list \<Rightarrow> limb list \<Rightarrow> limb \<Rightarrow> limb \<Rightarrow> limb list \<times> limb" where
  "mp_add_mul1_loop (r # tabr) (a # taba) b l =
     (let t = (ucast a * ucast b + ucast l + ucast r :: dlimb);
          (res, c) = mp_add_mul1_loop tabr taba b (ucast (drop_bit LIMB_BITS t))
      in (ucast t # res, c))"
| "mp_add_mul1_loop _ _ b l = ([], l)"

definition mp_add_mul1 :: "limb list \<Rightarrow> limb list \<Rightarrow> limb \<Rightarrow> limb list \<times> limb" where
  "mp_add_mul1 tabr taba b = mp_add_mul1_loop tabr taba b 0"

fun mp_sub_mul1_loop :: "limb list \<Rightarrow> limb list \<Rightarrow> limb \<Rightarrow> limb \<Rightarrow> limb list \<times> limb" where
  "mp_sub_mul1_loop (r # tabr) (a # taba) b l =
     (let t = (ucast r - ucast a * ucast b - ucast l :: dlimb);
          (res, c) = mp_sub_mul1_loop tabr taba b (ucast (- drop_bit LIMB_BITS t))
      in (ucast t # res, c))"
| "mp_sub_mul1_loop _ _ b l = ([], l)"

definition mp_sub_mul1 :: "limb list \<Rightarrow> limb list \<Rightarrow> limb \<Rightarrow> limb list \<times> limb" where
  "mp_sub_mul1 tabr taba b = mp_sub_mul1_loop tabr taba b 0"

text \<open>Writing the limbs xs over those of an array from index i on.\<close>

definition put_limbs :: "limb list \<Rightarrow> nat \<Rightarrow> limb list \<Rightarrow> limb list" where
  "put_limbs tab i xs = take i tab @ xs @ drop (i + length xs) tab"

fun mul_rows :: "limb list \<Rightarrow> nat \<Rightarrow> limb list \<Rightarrow> limb list \<Rightarrow> limb list" where
  "mul_rows result i op1 [] = result"
| "mul_rows result i op1 (b # op2) =
     (let (row, r) = mp_add_mul1 (take (length op1) (drop i result)) op1 b
      in mul_rows (put_limbs result i (row @ [r])) (i + 1) op1 op2)"

definition mp_mul_basecase :: "limb list \<Rightarrow> limb list \<Rightarrow> limb list \<Rightarrow> limb list" where
  "mp_mul_basecase result op1 op2 =
     (let (row, r) = mp_mul1 op1 (hd op2) 0
      in mul_rows (put_limbs result 0 (row @ [r])) 1 op1 (tl op2))"

definition FFT_MUL_THRESHOLD :: nat where "FFT_MUL_THRESHOLD = 100"

definition mp_mul :: "(limb list \<Rightarrow> limb list \<Rightarrow> limb list option) \<Rightarrow> limb list \<Rightarrow> limb list \<Rightarrow> limb list \<Rightarrow> limb list option" where
  "mp_mul fft_mul result op1 op2 =
     (if min (length op1) (length op2) \<ge> FFT_MUL_THRESHOLD then fft_mul op1 op2
      else Some (mp_mul_basecase result op1 op2))"

section \<open>The value of limbs\<close>

abbreviation (input) limb_base where "limb_base \<equiv> (18446744073709551616 :: nat)"

primrec limbs_nat :: "limb list \<Rightarrow> nat" where
  "limbs_nat [] = 0"
| "limbs_nat (x # xs) = unat x + limb_base * limbs_nat xs"

lemma limb_bound: "unat (x :: limb) < limb_base"
  by (rule unat_u64_bound)

lemma limbs_nat_bound: "limbs_nat xs < limb_base ^ length xs"
proof (induction xs)
  case (Cons x xs)
  have "limb_base * limbs_nat xs + limb_base \<le> limb_base * limb_base ^ length xs" using Cons by simp
  then show ?case using limb_bound [of x] by (simp; linarith)
qed simp

lemma limbs_nat_append: "limbs_nat (xs @ ys) = limbs_nat xs + limb_base ^ length xs * limbs_nat ys"
  by (induction xs) (simp_all add: algebra_simps)

lemma limbs_nat_replicate_0 [simp]: "limbs_nat (replicate n 0) = 0"
  by (induction n) simp_all

lemma add_carry: "unat (v + w :: limb) + limb_base * of_bool (v + w < v) = unat v + unat w"
  "unat (v + w :: limb) + limb_base * of_bool (v + w < w) = unat v + unat w"
  using limb_bound [of v] limb_bound [of w] by (simp_all add: unat_plus_if' word_less_nat_alt split: if_splits; linarith)+

lemma sub_borrow: "unat (v - w :: limb) + unat w = unat v + limb_base * of_bool (v < v - w)"
  using limb_bound [of v] limb_bound [of w] by (simp add: unat_sub_if' word_less_nat_alt; linarith)

lemma unat_or_bools: "unat (of_bool a OR of_bool b :: limb) = of_bool (a \<or> b)"
  by simp

lemma add_step:
  assumes "unat k \<le> 1"
  shows "unat (v + w + k :: limb) + limb_base * unat (of_bool (v + w + k < k) OR of_bool (v + w < v) :: limb) = unat v + unat w + unat k"
    "unat (of_bool (v + w + k < k) OR of_bool (v + w < v) :: limb) \<le> 1"
proof -
  have "unat (v + w + k) + limb_base * of_bool (v + w + k < k) + limb_base * of_bool (v + w < v) = unat v + unat w + unat k"
    using add_carry(2) [of "v + w" k] add_carry(1) [of v w] by simp
  moreover have "unat v + unat w + unat k < 2 * limb_base" using assms limb_bound [of v] limb_bound [of w] by linarith
  ultimately show "unat (v + w + k) + limb_base * unat (of_bool (v + w + k < k) OR of_bool (v + w < v) :: limb) = unat v + unat w + unat k"
    by (cases "v + w < v"; cases "v + w + k < k") simp_all
qed simp

lemma sub_step:
  assumes "unat k \<le> 1"
  shows "unat (v - w - k :: limb) + unat w + unat k = unat v + limb_base * unat (of_bool (v - w < v - w - k) OR of_bool (v < v - w) :: limb)"
    "unat (of_bool (v - w < v - w - k) OR of_bool (v < v - w) :: limb) \<le> 1"
proof -
  have "unat (v - w - k) + unat w + unat k = unat v + limb_base * of_bool (v - w < v - w - k) + limb_base * of_bool (v < v - w)"
    using sub_borrow [of "v - w" k] sub_borrow [of v w] by simp
  moreover have "unat (v - w - k) + unat w + unat k < 2 * limb_base" using assms limb_bound [of "v - w - k"] limb_bound [of w] by linarith
  ultimately show "unat (v - w - k) + unat w + unat k = unat v + limb_base * unat (of_bool (v - w < v - w - k) OR of_bool (v < v - w) :: limb)"
    by (auto split: if_splits)
qed simp

lemma mp_add_value:
  "length op1 = length op2 \<Longrightarrow> unat k \<le> 1 \<Longrightarrow> mp_add op1 op2 k = (res, c) \<Longrightarrow>
    length res = length op1 \<and> unat c \<le> 1 \<and>
    limbs_nat res + limb_base ^ length op1 * unat c = limbs_nat op1 + limbs_nat op2 + unat k"
proof (induction op1 op2 k arbitrary: res c rule: mp_add.induct)
  case (1 v op1 w op2 k)
  let ?k = "of_bool (v + w + k < k) OR of_bool (v + w < v) :: limb"
  obtain res' where r: "mp_add op1 op2 ?k = (res', c)" "res = (v + w + k) # res'"
    using "1.prems"(3) by (auto simp: Let_def split: prod.splits)
  have "length res' = length op1 \<and> unat c \<le> 1 \<and>
      limbs_nat res' + limb_base ^ length op1 * unat c = limbs_nat op1 + limbs_nat op2 + unat ?k"
    by (rule "1.IH") (use "1.prems" add_step(2) r in \<open>auto simp: Let_def\<close>)
  then show ?case using add_step(1) [OF "1.prems"(2), of v w] r(2) by (simp add: algebra_simps)
qed auto

lemma mp_sub_value:
  "length op1 = length op2 \<Longrightarrow> unat k \<le> 1 \<Longrightarrow> mp_sub op1 op2 k = (res, c) \<Longrightarrow>
    length res = length op1 \<and> unat c \<le> 1 \<and>
    limbs_nat res + limbs_nat op2 + unat k = limbs_nat op1 + limb_base ^ length op1 * unat c"
proof (induction op1 op2 k arbitrary: res c rule: mp_sub.induct)
  case (1 v op1 w op2 k)
  let ?k = "of_bool (v - w < v - w - k) OR of_bool (v < v - w) :: limb"
  obtain res' where r: "mp_sub op1 op2 ?k = (res', c)" "res = (v - w - k) # res'"
    using "1.prems"(3) by (auto simp: Let_def split: prod.splits)
  have "length res' = length op1 \<and> unat c \<le> 1 \<and>
      limbs_nat res' + limbs_nat op2 + unat ?k = limbs_nat op1 + limb_base ^ length op1 * unat c"
    by (rule "1.IH") (use "1.prems" sub_step(2) r in \<open>auto simp: Let_def\<close>)
  then show ?case using sub_step(1) [OF "1.prems"(2), of v w] r(2) by (simp add: algebra_simps)
qed auto

section \<open>Double limbs\<close>

lemma unat_dlimb_bound: "unat (t :: dlimb) < limb_base * limb_base"
  using unsigned_less [of t] by simp

lemma ucast_dlimb [simp]: "unat (ucast a :: dlimb) = unat (a :: limb)"
  using limb_bound [of a] by (simp add: unsigned_ucast_eq take_bit_nat_eq_self)

lemma low_limb: "unat (ucast (t :: dlimb) :: limb) = unat t mod limb_base"
  by (simp add: unsigned_ucast_eq take_bit_eq_mod)

lemma high_limb: "unat (ucast (drop_bit LIMB_BITS (t :: dlimb)) :: limb) = unat t div limb_base"
proof -
  have "unat t div limb_base < limb_base" using unat_dlimb_bound [of t] by (simp add: less_mult_imp_div_less)
  then show ?thesis by (simp add: unsigned_ucast_eq take_bit_eq_mod LIMB_BITS_def unsigned_drop_bit_eq drop_bit_eq_div unat_div)
qed

lemma limb_prod_bound: "unat (a :: limb) * unat (b :: limb) + limb_base + limb_base \<le> limb_base * limb_base + 1"
proof -
  have "unat a * unat b \<le> (limb_base - 1) * (limb_base - 1)"
    by (rule mult_le_mono) (use limb_bound [of a] limb_bound [of b] in auto)
  then show ?thesis by simp
qed

lemma unat_mul_add:
  "unat (ucast a * ucast b + ucast l + ucast r :: dlimb) = unat (a :: limb) * unat (b :: limb) + unat (l :: limb) + unat (r :: limb)"
proof -
  have "unat a * unat b + unat l + unat r < limb_base * limb_base"
    using limb_prod_bound [of a b] limb_bound [of l] limb_bound [of r] by linarith
  then show ?thesis by (simp add: unat_word_ariths mod_less)
qed

lemma unat_mul_add1: "unat (ucast a * ucast b + ucast l :: dlimb) = unat (a :: limb) * unat (b :: limb) + unat (l :: limb)"
  using unat_mul_add [of a b l 0] by simp

lemma dlimb_split: "unat (ucast t :: limb) + limb_base * unat (ucast (drop_bit LIMB_BITS t) :: limb) = unat (t :: dlimb)"
  by (subst high_limb, subst low_limb) simp

lemma mp_mul1_value:
  "mp_mul1 a b l = (res, c) \<Longrightarrow> length res = length a \<and>
     limbs_nat res + limb_base ^ length a * unat c = limbs_nat a * unat b + unat l"
proof (induction a b l arbitrary: res c rule: mp_mul1.induct)
  case (2 a taba b l)
  let ?t = "ucast a * ucast b + ucast l :: dlimb"
  obtain res' where r: "mp_mul1 taba b (ucast (drop_bit LIMB_BITS ?t)) = (res', c)" "res = ucast ?t # res'"
    using "2.prems" by (auto simp: Let_def split: prod.splits)
  have "length res' = length taba \<and> limbs_nat res' + limb_base ^ length taba * unat c =
      limbs_nat taba * unat b + unat (ucast (drop_bit LIMB_BITS ?t) :: limb)"
    by (rule "2.IH") (use r in auto)
  moreover have "unat (ucast ?t :: limb) + limb_base * unat (ucast (drop_bit LIMB_BITS ?t) :: limb) = unat a * unat b + unat l"
    by (simp only: dlimb_split unat_mul_add1)
  ultimately show ?case unfolding r(2) by (simp add: algebra_simps)
qed auto

lemma mp_add_mul1_loop_value:
  "length r = length a \<Longrightarrow> mp_add_mul1_loop r a b l = (res, c) \<Longrightarrow> length res = length a \<and>
     limbs_nat res + limb_base ^ length a * unat c = limbs_nat r + limbs_nat a * unat b + unat l"
proof (induction r a b l arbitrary: res c rule: mp_add_mul1_loop.induct)
  case (1 r tabr a taba b l)
  let ?t = "ucast a * ucast b + ucast l + ucast r :: dlimb"
  obtain res' where r: "mp_add_mul1_loop tabr taba b (ucast (drop_bit LIMB_BITS ?t)) = (res', c)" "res = ucast ?t # res'"
    using "1.prems" by (auto simp: Let_def split: prod.splits)
  have "length res' = length taba \<and> limbs_nat res' + limb_base ^ length taba * unat c =
      limbs_nat tabr + limbs_nat taba * unat b + unat (ucast (drop_bit LIMB_BITS ?t) :: limb)"
    by (rule "1.IH") (use r "1.prems" in auto)
  moreover have "unat (ucast ?t :: limb) + limb_base * unat (ucast (drop_bit LIMB_BITS ?t) :: limb) = unat a * unat b + unat l + unat r"
    by (simp only: dlimb_split unat_mul_add)
  ultimately show ?case unfolding r(2) by (simp add: algebra_simps)
qed auto

lemma borrow_arith:
  fixes b x r t :: nat
  assumes t: "t = (if x \<le> r then r - x else r + b * b - x)" and r: "r < b" and x: "x + b \<le> b * b"
  shows "t mod b + x = r + b * (if t div b = 0 then 0 else b - t div b)"
proof (cases "x \<le> r")
  case True
  then show ?thesis using t r by simp
next
  case False
  have s: "t mod b + b * (t div b) = t" by simp
  have tt: "t + x = r + b * b" "b \<le> t" "t < b * b" using t False r x by auto
  then have h: "0 < t div b" "t div b < b" using r by (auto simp: div_greater_zero_iff less_mult_imp_div_less)
  have "b * (t div b) \<le> b * b" using h(2) by simp
  then have s2: "b * (b - t div b) + b * (t div b) = b * b" by (simp add: diff_mult_distrib2)
  have "t mod b + x = r + b * (b - t div b)" using s2 s tt(1) by linarith
  then show ?thesis using h(1) by simp
qed

lemma neg_high_limb:
  "unat (ucast (- drop_bit LIMB_BITS t) :: limb) = (if unat (t :: dlimb) div limb_base = 0 then 0 else limb_base - unat t div limb_base)"
proof -
  let ?h = "unat t div limb_base"
  have h: "unat (drop_bit LIMB_BITS t) = ?h" by (simp add: LIMB_BITS_def unsigned_drop_bit_eq drop_bit_eq_div unat_div)
  have b: "?h < limb_base" using unat_dlimb_bound [of t] by (simp add: less_mult_imp_div_less)
  have n: "unat (- w) = (if unat w = 0 then 0 else limb_base * limb_base - unat w)" for w :: dlimb
    using unat_sub_if' [of 0 w] by simp
  have "(limb_base * limb_base - ?h) mod limb_base = limb_base - ?h" if "?h \<noteq> 0"
  proof -
    have "limb_base * limb_base - ?h = (limb_base - ?h) + (limb_base - 1) * limb_base" using b by simp
    then show ?thesis using that by (simp only: mod_mult_self1) simp
  qed
  then show ?thesis by (subst low_limb, subst n, (subst h)+) auto
qed

lemma sub_mul_step:
  fixes r a b l :: limb
  defines "t \<equiv> ucast r - ucast a * ucast b - ucast l :: dlimb"
  shows "unat (ucast t :: limb) + (unat a * unat b + unat l) = unat r + limb_base * unat (ucast (- drop_bit LIMB_BITS t) :: limb)"
proof -
  let ?x = "unat a * unat b + unat l"
  have t: "t = ucast r - (ucast a * ucast b + ucast l)" unfolding t_def by simp
  have x: "?x < limb_base * limb_base" "?x + limb_base \<le> limb_base * limb_base" "unat r < limb_base"
    using limb_prod_bound [of a b] limb_bound [of l] limb_bound [of r] by linarith+
  have "unat t = (if ?x \<le> unat r then unat r - ?x else unat r + limb_base * limb_base - ?x)"
    unfolding t using x by (simp add: unat_sub_if' unat_mul_add1)
  from borrow_arith [OF this x(3) x(2)] show ?thesis by (subst neg_high_limb, subst low_limb)
qed

lemma mp_sub_mul1_loop_value:
  "length r = length a \<Longrightarrow> mp_sub_mul1_loop r a b l = (res, c) \<Longrightarrow> length res = length a \<and>
     limbs_nat res + limbs_nat a * unat b + unat l = limbs_nat r + limb_base ^ length a * unat c"
proof (induction r a b l arbitrary: res c rule: mp_sub_mul1_loop.induct)
  case (1 r tabr a taba b l)
  let ?t = "ucast r - ucast a * ucast b - ucast l :: dlimb"
  obtain res' where r: "mp_sub_mul1_loop tabr taba b (ucast (- drop_bit LIMB_BITS ?t)) = (res', c)" "res = ucast ?t # res'"
    using "1.prems" by (auto simp: Let_def split: prod.splits)
  have "length res' = length taba \<and> limbs_nat res' + limbs_nat taba * unat b + unat (ucast (- drop_bit LIMB_BITS ?t) :: limb)
      = limbs_nat tabr + limb_base ^ length taba * unat c"
    by (rule "1.IH") (use r "1.prems" in auto)
  with sub_mul_step [of r a b l] show ?case unfolding r(2) by (simp add: algebra_simps)
qed auto

section \<open>The product\<close>

lemma put_limbs_length [simp]: "i + length xs \<le> length tab \<Longrightarrow> length (put_limbs tab i xs) = length tab"
  by (simp add: put_limbs_def)

lemma take_put_limbs: "i + length xs \<le> length tab \<Longrightarrow> take (i + length xs) (put_limbs tab i xs) = take i tab @ xs"
  by (simp add: put_limbs_def)

lemma mul_rows_value:
  "length result = length op1 + i + length op2 \<Longrightarrow>
    length (mul_rows result i op1 op2) = length result \<and>
    limbs_nat (mul_rows result i op1 op2) = limbs_nat (take (length op1 + i) result) + limb_base ^ i * limbs_nat op1 * limbs_nat op2"
proof (induction op2 arbitrary: result i)
  case (Cons b op2)
  let ?n = "length op1"
  let ?d = "take ?n (drop i result)"
  obtain row r where row: "mp_add_mul1 ?d op1 b = (row, r)" by fastforce
  have l: "length ?d = ?n" using Cons.prems by simp
  have v: "length row = ?n" "limbs_nat row + limb_base ^ ?n * unat r = limbs_nat ?d + limbs_nat op1 * unat b"
    using mp_add_mul1_loop_value [OF l, of b 0 row r] row by (simp_all add: mp_add_mul1_def)
  let ?res = "put_limbs result i (row @ [r])"
  have res: "take (?n + (i + 1)) ?res = take i result @ row @ [r]" "length ?res = length result"
    using take_put_limbs [of i "row @ [r]" result] Cons.prems v(1) by (simp_all add: add.commute add.left_commute)
  have tk: "limbs_nat (take (?n + i) result) = limbs_nat (take i result) + limb_base ^ i * limbs_nat ?d"
    using Cons.prems limbs_nat_append [of "take i result" ?d] by (simp add: take_add add.commute)
  have "length (mul_rows ?res (i + 1) op1 op2) = length ?res \<and> limbs_nat (mul_rows ?res (i + 1) op1 op2) =
      limbs_nat (take (?n + (i + 1)) ?res) + limb_base ^ (i + 1) * limbs_nat op1 * limbs_nat op2"
    by (rule Cons.IH) (use Cons.prems res in simp)
  moreover have "limbs_nat (take i result @ row @ [r]) = limbs_nat (take i result) + limb_base ^ i * (limbs_nat ?d + limbs_nat op1 * unat b)"
    unfolding v(2) [symmetric] using Cons.prems v(1) by (simp add: limbs_nat_append)
  ultimately show ?case using row res tk by (simp add: algebra_simps)
qed simp

lemma mp_mul_basecase_value:
  assumes "length result = length op1 + length op2" "op2 \<noteq> []"
  shows "length (mp_mul_basecase result op1 op2) = length result \<and>
    limbs_nat (mp_mul_basecase result op1 op2) = limbs_nat op1 * limbs_nat op2"
proof -
  obtain b bs where op2: "op2 = b # bs" using assms(2) by (cases op2) auto
  obtain row r where row: "mp_mul1 op1 b 0 = (row, r)" by fastforce
  have v: "length row = length op1" "limbs_nat row + limb_base ^ length op1 * unat r = limbs_nat op1 * unat b"
    using mp_mul1_value [OF row] by simp_all
  let ?res = "put_limbs result 0 (row @ [r])"
  have res: "take (length op1 + 1) ?res = row @ [r]" "length ?res = length result"
    using take_put_limbs [of 0 "row @ [r]" result] assms op2 v(1) by simp_all
  have "length (mul_rows ?res 1 op1 bs) = length ?res \<and> limbs_nat (mul_rows ?res 1 op1 bs) =
      limbs_nat (take (length op1 + 1) ?res) + limb_base ^ 1 * limbs_nat op1 * limbs_nat bs"
    by (rule mul_rows_value) (use res assms op2 in simp)
  then show ?thesis using res row op2 v
    by (simp add: mp_mul_basecase_def limbs_nat_append algebra_simps)
qed



end
