(* ===== verification/Limbs_Div.thy ===== *)
theory Limbs_Div
  imports Limbs
begin

text \<open>
  quickjs/libbf.c, mp_div1norm and mp_divnorm: the division of two naturals given by their limbs
  (schoolbook division, with a quotient of two limbs by one that multiplies by a precomputed
  inverse), and the proof that it divides.
\<close>

section \<open>Division of two limbs by one\<close>

definition udiv1norm_init :: "limb \<Rightarrow> limb" where
  "udiv1norm_init d =
     (let a1 = - d - 1; a0 = - 1
      in ucast ((push_bit LIMB_BITS (ucast a1) OR ucast (a0 :: limb) :: dlimb) div ucast d))"

text \<open>The pair is the result and the value of *pr.\<close>

definition udiv1norm :: "limb \<Rightarrow> limb \<Rightarrow> limb \<Rightarrow> limb \<Rightarrow> limb \<times> limb" where
  "udiv1norm a1 a0 d d_inv =
     (let n1m = signed_drop_bit (LIMB_BITS - 1) a0;
          n_adj = a0 + (n1m AND d);
          a = ucast d_inv * ucast (a1 - n1m) + ucast n_adj :: dlimb;
          q = ucast (drop_bit LIMB_BITS a) + a1;
          a = push_bit LIMB_BITS (ucast a1) OR ucast a0 :: dlimb;
          a = a - ucast q * ucast d - ucast d;
          ah = ucast (drop_bit LIMB_BITS a);
          q = q + (1 + ah);
          r = ucast a + (ah AND d)
      in (q, r))"

definition UDIV1NORM_THRESHOLD :: nat where "UDIV1NORM_THRESHOLD = 3"

text \<open>The two loops of mp_div1norm go from the last limb to the first.\<close>

fun div1_inv_loop :: "limb list \<Rightarrow> limb \<Rightarrow> limb \<Rightarrow> limb \<Rightarrow> limb list \<times> limb" where
  "div1_inv_loop [] b b_inv r = ([], r)"
| "div1_inv_loop (x # taba) b b_inv r =
     (let (res, r) = div1_inv_loop taba b b_inv r; (q, r) = udiv1norm r x b b_inv in (q # res, r))"

fun div1_loop :: "limb list \<Rightarrow> limb \<Rightarrow> limb \<Rightarrow> limb list \<times> limb" where
  "div1_loop [] b r = ([], r)"
| "div1_loop (x # taba) b r =
     (let (res, r) = div1_loop taba b r;
          a1 = push_bit LIMB_BITS (ucast r) OR ucast x :: dlimb
      in (ucast (a1 div ucast b) # res, ucast (a1 mod ucast b)))"

definition mp_div1norm :: "limb list \<Rightarrow> limb \<Rightarrow> limb \<Rightarrow> limb list \<times> limb" where
  "mp_div1norm taba b r =
     (if length taba \<ge> UDIV1NORM_THRESHOLD then div1_inv_loop taba b (udiv1norm_init b) r
      else div1_loop taba b r)"

lemma unat_two_limbs: "unat (push_bit LIMB_BITS (ucast a1) OR ucast a0 :: dlimb) = limb_base * unat (a1 :: limb) + unat (a0 :: limb)"
proof -
  have "push_bit LIMB_BITS (ucast a1) OR ucast a0 = (push_bit LIMB_BITS (ucast a1) + ucast a0 :: dlimb)"
    by (rule disjunctive_add [symmetric]) (auto simp: bit_simps LIMB_BITS_def dest: bit_imp_le_length)
  also have "\<dots> = ucast (- 1 :: limb) * ucast a1 + ucast a1 + ucast a0"
    by (simp add: LIMB_BITS_def push_bit_eq_mult unsigned_minus_1_eq_mask mask_eq_exp_minus_1)
  finally have "push_bit LIMB_BITS (ucast a1) OR ucast a0 = (ucast (- 1 :: limb) * ucast a1 + ucast a1 + ucast a0 :: dlimb)" .
  then show ?thesis using unat_mul_add [of "- 1" a1 a1 a0] by (simp add: unsigned_minus_1_eq_mask mask_eq_exp_minus_1)
qed

text \<open>The quotient estimate with a precomputed inverse, over the naturals.\<close>

lemma quotient_estimate:
  fixes b d i n1 n0 x q :: int
  assumes d: "b \<le> 2 * d" "d < b" and i: "d * (b + i) = b * b - k" "1 \<le> k" "k \<le> d"
    and n: "0 \<le> n1" "n1 < d" "0 \<le> n0" "n0 < b"
    and x: "x = (if 2 * n0 < b then i * n1 + n0 else i * (n1 + 1) + (n0 + d - b))"
  shows "0 \<le> n1 * b + n0 - (x div b + n1) * d \<and> n1 * b + n0 - (x div b + n1) * d < 2 * d"
proof -
  define q0 where "q0 = x div b + n1"
  define x0 where "x0 = x mod b"
  have b: "0 < b" using d by linarith
  have x0: "0 \<le> x0" "x0 \<le> b - 1" using b pos_mod_bound [of b x] pos_mod_sign [of b x] unfolding x0_def by linarith+
  have q: "b * q0 = b * n1 + x - x0" unfolding q0_def x0_def by (simp add: algebra_simps minus_mod_eq_mult_div)
  have dx0: "0 \<le> d * x0" "d * x0 \<le> d * (b - 1)" using x0 d b by (auto intro: mult_left_mono)
  have di: "d * i = b * b - k - d * b" using i(1) by (simp add: algebra_simps)
  have "0 \<le> b * (n1 * b + n0 - q0 * d) \<and> b * (n1 * b + n0 - q0 * d) < b * (2 * d)"
  proof (cases "2 * n0 < b")
    case True
    have "b * (n1 * b + n0 - q0 * d) = n1 * b * b + b * n0 - d * (b * q0)" by (simp add: algebra_simps)
    also have "\<dots> = n1 * b * b + b * n0 - d * b * n1 - (d * i) * n1 - d * n0 + d * x0"
      unfolding q x using True by (simp add: algebra_simps)
    also have "\<dots> = n0 * (b - d) + k * n1 + d * x0" unfolding di by (simp add: algebra_simps)
    finally have e: "b * (n1 * b + n0 - q0 * d) = n0 * (b - d) + k * n1 + d * x0" .
    have "0 \<le> n0 * (b - d)" "0 \<le> k * n1" using n d i by simp_all
    moreover have "n0 * (b - d) \<le> d * (b - d)" using True d by (intro mult_right_mono) linarith+
    moreover have "k * n1 \<le> d * (d - 1)" using i n d by (intro mult_mono) linarith+
    moreover have "d * (b - d) + d * (d - 1) + d * (b - 1) = b * (2 * d) - 2 * d" by (simp add: algebra_simps)
    ultimately show ?thesis using e dx0 d b by linarith
  next
    case False
    have "b * (n1 * b + n0 - q0 * d) = n1 * b * b + b * n0 - d * (b * q0)" by (simp add: algebra_simps)
    also have "\<dots> = n1 * b * b + b * n0 - d * b * n1 - (d * i) * (n1 + 1) - d * (n0 + d - b) + d * x0"
      unfolding q x using False by (simp add: algebra_simps)
    also have "\<dots> = (b - d) * (n0 + d - b) + k * (n1 + 1) + d * x0" unfolding di by (simp add: algebra_simps)
    finally have e: "b * (n1 * b + n0 - q0 * d) = (b - d) * (n0 + d - b) + k * (n1 + 1) + d * x0" .
    have "0 \<le> (b - d) * (n0 + d - b)" "0 \<le> k * (n1 + 1)" using n d i False by simp_all
    moreover have "(b - d) * (n0 + d - b) \<le> (b - d) * (d - 1)" using n d by (intro mult_left_mono) linarith+
    moreover have "k * (n1 + 1) \<le> d * d" using i n d by (intro mult_mono) linarith+
    moreover have "(b - d) * (d - 1) + d * d + d * (b - 1) = b * (2 * d) - b" by (simp add: algebra_simps)
    ultimately show ?thesis using e dx0 d b by linarith
  qed
  then show ?thesis using b unfolding q0_def by (simp add: zero_le_mult_iff)
qed

text \<open>The inverse: floor of (limb_base^2 - 1) / d, without its leading one.\<close>

lemma udiv1norm_init_value:
  assumes d: "limb_base \<le> 2 * unat d"
  shows "\<exists>k. unat d * (limb_base + unat (udiv1norm_init d)) + k = limb_base * limb_base \<and> 1 \<le> k \<and> k \<le> unat d"
proof -
  have db: "unat d < limb_base" by (rule limb_bound)
  have a1: "unat (- d - 1) = limb_base - 1 - unat d"
    unfolding minus_diff_commute [of d 1]
    by (subst unat_sub [OF word_n1_ge]) (simp add: unsigned_minus_1_eq_mask mask_eq_exp_minus_1)
  let ?n = "push_bit LIMB_BITS (ucast (- d - 1)) OR ucast (- 1 :: limb) :: dlimb"
  have n: "unat ?n = limb_base * (limb_base - 1 - unat d) + (limb_base - 1)"
    by (subst unat_two_limbs, subst a1) (simp add: unsigned_minus_1_eq_mask mask_eq_exp_minus_1)
  define Q where "Q = (limb_base * (limb_base - 1 - unat d) + (limb_base - 1)) div unat d"
  define R where "R = (limb_base * (limb_base - 1 - unat d) + (limb_base - 1)) mod unat d"
  have QR: "unat d * Q + R = limb_base * (limb_base - 1 - unat d) + (limb_base - 1)" unfolding Q_def R_def by simp
  have R: "R < unat d" unfolding R_def using d by simp
  have tot: "limb_base * (limb_base - 1 - unat d) + (limb_base - 1) + limb_base * unat d + 1 = limb_base * limb_base" using db by (simp add: diff_mult_distrib2)
  have "unat d * Q < unat d * limb_base"
  proof -
    have "unat d * Q + limb_base * unat d < limb_base * limb_base" using QR tot by linarith
    then show ?thesis using d by linarith
  qed
  then have "Q < limb_base" by simp
  then have "unat (udiv1norm_init d) = Q"
    unfolding udiv1norm_init_def Let_def low_limb unat_div ucast_dlimb n Q_def by simp
  moreover have "unat d * (limb_base + Q) + (R + 1) = limb_base * limb_base" using QR tot by (simp add: algebra_simps)
  ultimately show ?thesis using R by (intro exI [of _ "R + 1"]) simp
qed

lemma sign_limb: "signed_drop_bit (LIMB_BITS - 1) a0 = (if 2 * unat a0 < limb_base then 0 else - 1 :: limb)"
proof -
  have "bit (unat a0) 63 \<longleftrightarrow> \<not> 2 * unat a0 < limb_base"
  proof -
    have "unat a0 div 2 ^ 63 = (if 2 * unat a0 < limb_base then 0 else 1)"
      using limb_bound [of a0] by (cases "unat a0 div 2 ^ 63 = 0") (auto simp: div_eq_0_iff div_nat_eqI)
    then show ?thesis by (simp add: bit_iff_odd)
  qed
  then have b: "bit a0 63 \<longleftrightarrow> \<not> 2 * unat a0 < limb_base" by (simp add: bit_unsigned_iff)
  show ?thesis
    by (rule bit_word_eqI) (use b in \<open>auto simp: LIMB_BITS_def bit_signed_drop_bit_iff Suc_le_eq\<close>)
qed

lemma below_square:
  fixes b e :: nat
  assumes "0 < e" "e < b"
  shows "(b * b - e) div b = b - 1" "(b * b - e) mod b = b - e"
proof -
  have e: "b * b - e = (b - e) + b * (b - 1)" using assms by (cases b) auto
  have l: "b - e < b" "b \<noteq> 0" using assms by auto
  show "(b * b - e) div b = b - 1" unfolding e by (subst div_mult_self2 [OF l(2)]) (simp add: l)
  show "(b * b - e) mod b = b - e" unfolding e by (subst mod_mult_self2) (simp add: l)
qed

lemma udiv_finish:
  fixes w a1 a0 d :: limb
  defines "A \<equiv> (push_bit LIMB_BITS (ucast a1) OR ucast a0) - ucast w * ucast d - ucast d :: dlimb"
  defines "ah \<equiv> ucast (drop_bit LIMB_BITS A) :: limb"
  assumes N: "N = limb_base * unat a1 + unat a0" "N < limb_base * unat d"
    and est: "unat w * unat d \<le> N" "N < unat w * unat d + 2 * unat d"
  shows "unat (w + (1 + ah)) * unat d + unat (ucast A + (ah AND d)) = N \<and> unat (ucast A + (ah AND d)) < unat d"
proof -
  have D: "0 < unat d" "unat d < limb_base" using N(2) limb_bound [of d] by auto
  have A: "A = (push_bit LIMB_BITS (ucast a1) OR ucast a0) - (ucast w * ucast d + ucast d)" unfolding A_def by simp
  have uX: "unat (ucast w * ucast d + ucast d :: dlimb) = unat w * unat d + unat d" by (rule unat_mul_add1)
  have uT: "unat (push_bit LIMB_BITS (ucast a1) OR ucast a0 :: dlimb) = N"
    unfolding N(1) by (rule unat_two_limbs)
  have uA: "unat A = (if unat w * unat d + unat d \<le> N then N - (unat w * unat d + unat d) else N + limb_base * limb_base - (unat w * unat d + unat d))"
    unfolding A unat_sub_if' uX uT by simp
  have ah: "unat ah = unat A div limb_base" unfolding ah_def by (rule high_limb)
  have lo: "unat (ucast A :: limb) = unat A mod limb_base" by (rule low_limb)
  show ?thesis
  proof (cases "unat w * unat d + unat d \<le> N")
    case True
    then have v: "unat w * unat d + unat d + unat A = N" "unat A < unat d" using uA est by auto
    then have "unat A < limb_base" using D(2) by linarith
    then have "unat ah = 0" "unat (ucast A :: limb) = unat A" using ah lo by simp_all
    moreover from this(1) have "ah = 0" by (simp add: word_unat_eq_iff)
    moreover have "(unat w + 1) * unat d = unat w * unat d + unat d" by simp
    then have "(unat w + 1) * unat d < limb_base * unat d" using v(1) N(2) by linarith
    then have "unat w + 1 < limb_base" by (simp only: mult_less_cancel2)
    then have "unat (w + 1) = unat w + 1" by (simp add: unat_plus_if')
    ultimately show ?thesis using v by (simp add: algebra_simps)
  next
    case False
    define e where "e = unat w * unat d + unat d - N"
    have e: "0 < e" "e \<le> unat d" "unat w * unat d + unat d = N + e" unfolding e_def using False est by auto
    have eB: "e < limb_base" using e D by linarith
    have vA: "unat A = limb_base * limb_base - e" using uA False e by simp
    have "unat ah = limb_base - 1" "unat (ucast A :: limb) = limb_base - e"
      unfolding ah lo vA using below_square [OF e(1) eB] by blast+
    then have "ah = - 1" by (simp add: word_unat_eq_iff unsigned_minus_1_eq_mask mask_eq_exp_minus_1)
    moreover have "unat (ucast A + d) = unat d - e"
      using e eB D \<open>unat (ucast A :: limb) = limb_base - e\<close> by (simp add: unat_plus_if')
    ultimately show ?thesis using e by (simp add: algebra_simps)
  qed
qed

lemma udiv_adjust:
  fixes a1 a0 d :: limb
  defines "n1m \<equiv> signed_drop_bit (LIMB_BITS - 1) a0"
  assumes d: "limb_base \<le> 2 * unat d" and a1: "unat a1 < unat d"
  shows "unat (a0 + (n1m AND d)) = (if 2 * unat a0 < limb_base then unat a0 else unat a0 + unat d - limb_base)"
    "unat (a1 - n1m) = (if 2 * unat a0 < limb_base then unat a1 else unat a1 + 1)"
proof -
  have n: "n1m = (if 2 * unat a0 < limb_base then 0 else - 1)" unfolding n1m_def by (rule sign_limb)
  have b: "unat d < limb_base" "unat a0 < limb_base" by (rule limb_bound)+
  show "unat (a0 + (n1m AND d)) = (if 2 * unat a0 < limb_base then unat a0 else unat a0 + unat d - limb_base)"
    using d b by (auto simp: n unat_plus_if')
  have "unat (a1 + 1) = unat a1 + 1" using a1 b by (simp add: unat_plus_if')
  then show "unat (a1 - n1m) = (if 2 * unat a0 < limb_base then unat a1 else unat a1 + 1)" by (simp add: n)
qed

lemma int_limbs: "int (unat (x :: limb)) < int limb_base"
  using limb_bound [of x] by (simp only: of_nat_less_iff)

lemma quotient_estimate_nat:
  fixes b d i n1 n0 x :: nat
  assumes d: "b \<le> 2 * d" "d < b" and i: "d * (b + i) + k = b * b" "1 \<le> k" "k \<le> d"
    and n: "n1 < d" "n0 < b"
    and x: "x = (if 2 * n0 < b then i * n1 + n0 else i * (n1 + 1) + (n0 + d - b))"
  shows "(x div b + n1) * d \<le> b * n1 + n0 \<and> b * n1 + n0 < (x div b + n1) * d + 2 * d"
proof -
  have kk: "int d * (int b + int i) = int b * int b - int k"
    using i(1) by (metis add_diff_cancel_right' of_nat_add of_nat_mult)
  have xx: "int x = (if 2 * int n0 < int b then int i * int n1 + int n0
      else int i * (int n1 + 1) + (int n0 + int d - int b))"
  proof (cases "2 * n0 < b")
    case False
    then have "int (n0 + d - b) = int n0 + int d - int b" using d by (simp add: of_nat_diff)
    then show ?thesis using False x by (simp add: algebra_simps)
  qed (use x in simp)
  have "0 \<le> int n1 * int b + int n0 - (int x div int b + int n1) * int d \<and>
    int n1 * int b + int n0 - (int x div int b + int n1) * int d < 2 * int d"
    by (rule quotient_estimate [OF _ _ kk _ _ _ _ _ _ xx]) (use d n i in auto)
  then have "int ((x div b + n1) * d) \<le> int (b * n1 + n0)" "int (b * n1 + n0) < int ((x div b + n1) * d + 2 * d)"
    by (simp_all add: zdiv_int algebra_simps)
  then show ?thesis by linarith
qed

lemma udiv1norm_value:
  assumes d: "limb_base \<le> 2 * unat d" and a1: "unat a1 < unat d" and u: "udiv1norm a1 a0 d (udiv1norm_init d) = (q, r)"
  shows "unat q * unat d + unat r = limb_base * unat a1 + unat a0 \<and> unat r < unat d"
proof -
  let ?v = "udiv1norm_init d" and ?n1m = "signed_drop_bit (LIMB_BITS - 1) a0"
  obtain k where k: "unat d * (limb_base + unat ?v) + k = limb_base * limb_base" "1 \<le> k" "k \<le> unat d"
    using udiv1norm_init_value [OF d] by blast
  define a where "a = (ucast ?v * ucast (a1 - ?n1m) + ucast (a0 + (?n1m AND d)) :: dlimb)"
  have ua: "unat a = unat ?v * unat (a1 - ?n1m) + unat (a0 + (?n1m AND d))"
    unfolding a_def by (rule unat_mul_add1)
  have x: "unat a = (if 2 * unat a0 < limb_base then unat ?v * unat a1 + unat a0
      else unat ?v * (unat a1 + 1) + (unat a0 + unat d - limb_base))"
    unfolding ua udiv_adjust [OF d a1] by simp
  define N where "N = limb_base * unat a1 + unat a0"
  have est: "(unat a div limb_base + unat a1) * unat d \<le> N \<and> N < (unat a div limb_base + unat a1) * unat d + 2 * unat d"
    unfolding N_def by (rule quotient_estimate_nat [OF d limb_bound k a1 limb_bound x])
  have "N < limb_base * (unat a1 + 1)" unfolding N_def using limb_bound [of a0] by simp
  also have "\<dots> \<le> limb_base * unat d" using a1 by (intro mult_left_mono) auto
  finally have N: "N < limb_base * unat d" .
  define w where "w = ucast (drop_bit LIMB_BITS a) + a1"
  have "(unat a div limb_base + unat a1) * unat d < limb_base * unat d" using est N by linarith
  then have "unat a div limb_base + unat a1 < limb_base" by (simp only: mult_less_cancel2)
  then have uw: "unat w = unat a div limb_base + unat a1"
    unfolding w_def unat_plus_if' high_limb by simp
  have "q = w + (1 + ucast (drop_bit LIMB_BITS ((push_bit LIMB_BITS (ucast a1) OR ucast a0) - ucast w * ucast d - ucast d :: dlimb)))"
    "r = ucast ((push_bit LIMB_BITS (ucast a1) OR ucast a0) - ucast w * ucast d - ucast d :: dlimb) +
      (ucast (drop_bit LIMB_BITS ((push_bit LIMB_BITS (ucast a1) OR ucast a0) - ucast w * ucast d - ucast d :: dlimb)) AND d)"
    using u unfolding udiv1norm_def Let_def w_def a_def by simp_all
  then show ?thesis using udiv_finish [OF N_def N, of w] est uw N_def by simp
qed

lemma div1_inv_loop_value:
  assumes b: "limb_base \<le> 2 * unat b"
  shows "unat r < unat b \<Longrightarrow> div1_inv_loop a b (udiv1norm_init b) r = (q, r') \<Longrightarrow> length q = length a \<and>
    limbs_nat q * unat b + unat r' = limbs_nat a + limb_base ^ length a * unat r \<and> unat r' < unat b"
proof (induction a arbitrary: q r')
  case (Cons x a)
  obtain qs s where s: "div1_inv_loop a b (udiv1norm_init b) r = (qs, s)" by fastforce
  obtain q0 r0 where u: "udiv1norm s x b (udiv1norm_init b) = (q0, r0)" by fastforce
  have ih: "length qs = length a" "limbs_nat qs * unat b + unat s = limbs_nat a + limb_base ^ length a * unat r" "unat s < unat b"
    using Cons.IH [OF Cons.prems(1) s] by auto
  have "q = q0 # qs" "r' = r0" using Cons.prems(2) s u by auto
  then show ?case using udiv1norm_value [OF b ih(3) u] ih by (simp add: algebra_simps)
qed auto

lemma div1_loop_value:
  "unat r < unat b \<Longrightarrow> div1_loop a b r = (q, r') \<Longrightarrow> length q = length a \<and>
    limbs_nat q * unat b + unat r' = limbs_nat a + limb_base ^ length a * unat r \<and> unat r' < unat b"
proof (induction a arbitrary: q r')
  case (Cons x a)
  obtain qs s where s: "div1_loop a b r = (qs, s)" by fastforce
  have ih: "length qs = length a" "limbs_nat qs * unat b + unat s = limbs_nat a + limb_base ^ length a * unat r" "unat s < unat b"
    using Cons.IH [OF Cons.prems(1) s] by auto
  let ?a1 = "push_bit LIMB_BITS (ucast s) OR ucast x :: dlimb"
  have q: "q = ucast (?a1 div ucast b) # qs" "r' = ucast (?a1 mod ucast b)" using Cons.prems(2) s by (auto simp: Let_def)
  have n: "limb_base * unat s + unat x < limb_base * unat b"
  proof -
    have "limb_base * unat s + unat x < limb_base * (unat s + 1)" using limb_bound [of x] by simp
    also have "\<dots> \<le> limb_base * unat b" using ih(3) by (intro mult_left_mono) auto
    finally show ?thesis .
  qed
  have d: "unat (ucast (?a1 div ucast b) :: limb) = (limb_base * unat s + unat x) div unat b"
    unfolding low_limb unat_div unat_two_limbs ucast_dlimb using n by (simp add: less_mult_imp_div_less)
  have m: "unat (ucast (?a1 mod ucast b) :: limb) = (limb_base * unat s + unat x) mod unat b"
    unfolding low_limb unat_mod unat_two_limbs ucast_dlimb
    using ih(3) limb_bound [of b] by (intro mod_less order_less_trans [OF mod_less_divisor]) auto
  have "unat (ucast (?a1 div ucast b) :: limb) * unat b + unat r' = limb_base * unat s + unat x" "unat r' < unat b"
    unfolding q d m using ih(3) by (simp_all only: div_mult_mod_eq) (rule mod_less_divisor, simp)
  then show ?case unfolding q(1) using ih by (simp add: algebra_simps)
qed auto

lemma mp_div1norm_value:
  assumes "limb_base \<le> 2 * unat b" "unat r < unat b" "mp_div1norm a b r = (q, r')"
  shows "length q = length a \<and> limbs_nat q * unat b + unat r' = limbs_nat a + limb_base ^ length a * unat r \<and> unat r' < unat b"
  using assms div1_inv_loop_value [OF assms(1,2)] div1_loop_value [OF assms(2)]
  by (simp add: mp_div1norm_def split: if_splits)

section \<open>Division\<close>

text \<open>The comparison of the first iteration, from the last limb down.\<close>

fun first_quotient :: "limb list \<Rightarrow> limb list \<Rightarrow> limb" where
  "first_quotient (a # as) (b # bs) = (if a \<noteq> b then (if a < b then 0 else 1) else first_quotient as bs)"
| "first_quotient _ _ = 1"

text \<open>
  The loop that adds the divisor back until the remainder is not negative: \<open>sl\<close> are the nb
  limbs from taba[i] on and \<open>h\<close> is taba[i + nb]. It has no bound of its own, so that not ending
  is the value \<^const>\<open>None\<close>.
\<close>

partial_function (option) add_back :: "limb list \<Rightarrow> limb list \<Rightarrow> limb \<Rightarrow> limb \<Rightarrow> (limb list \<times> limb \<times> limb) option" where
  "add_back tabb sl h q =
     (let q = q - 1;
          (sl, c) = mp_add sl tabb 0
      in if c \<noteq> 0
         then (if h + 1 = 0 then Some (sl, h + 1, q) else add_back tabb sl (h + 1) q)
         else add_back tabb sl h q)"

definition div_estimate :: "limb \<Rightarrow> limb \<Rightarrow> limb \<Rightarrow> limb \<Rightarrow> limb" where
  "div_estimate ah al b1 b1_inv =
     (if ah \<ge> b1 then - 1
      else if b1_inv \<noteq> 0 then fst (udiv1norm ah al b1 b1_inv)
      else ucast ((push_bit LIMB_BITS (ucast ah) OR ucast al :: dlimb) div ucast b1))"

definition div_step :: "limb list \<Rightarrow> limb \<Rightarrow> limb \<Rightarrow> limb list \<Rightarrow> nat \<Rightarrow> (limb \<times> limb list) option" where
  "div_step tabb b1 b1_inv taba i =
     (let nb = length tabb;
          q = div_estimate (taba ! (i + nb)) (taba ! (i + nb - 1)) b1 b1_inv;
          (sl, r) = mp_sub_mul1 (take nb (drop i taba)) tabb q;
          v = taba ! (i + nb);
          a = v - r;
          c = (a > v)
      in do {
        (sl, a, q) \<leftarrow> (if c then add_back tabb sl a q else Some (sl, a, q));
        Some (q, put_limbs taba i (sl @ [a])) })"

primrec div_loop :: "limb list \<Rightarrow> limb \<Rightarrow> limb \<Rightarrow> nat \<Rightarrow> limb list \<Rightarrow> limb list \<Rightarrow> (limb list \<times> limb list) option" where
  "div_loop tabb b1 b1_inv 0 tabq taba = Some (tabq, taba)"
| "div_loop tabb b1 b1_inv (Suc i) tabq taba =
     do { (q, taba) \<leftarrow> div_step tabb b1 b1_inv taba i;
          div_loop tabb b1 b1_inv i (tabq[i := q]) taba }"

definition DIVNORM_LARGE_THRESHOLD :: nat where "DIVNORM_LARGE_THRESHOLD = 50"

text \<open>
  The result are the contents of tabq and taba. The division of large operands by the inverse,
  mp_divnorm_large, is a parameter.
\<close>

definition mp_divnorm ::
  "(limb list \<Rightarrow> limb list \<Rightarrow> limb list \<Rightarrow> (limb list \<times> limb list) option) \<Rightarrow>
     limb list \<Rightarrow> limb list \<Rightarrow> limb list \<Rightarrow> (limb list \<times> limb list) option" where
  "mp_divnorm mp_divnorm_large tabq taba tabb =
     (let na = length taba; nb = length tabb; b1 = tabb ! (nb - 1)
      in if nb = 1
         then (let (q, r) = mp_div1norm taba b1 0 in Some (put_limbs tabq 0 q, taba[0 := r]))
         else (let n = na - nb
               in if min n nb \<ge> DIVNORM_LARGE_THRESHOLD then mp_divnorm_large tabq taba tabb
                  else (let b1_inv = (if n \<ge> UDIV1NORM_THRESHOLD then udiv1norm_init b1 else 0);
                            q = first_quotient (rev (drop n taba)) (rev tabb);
                            tabq = tabq[n := q];
                            taba = (if q \<noteq> 0 then put_limbs taba n (fst (mp_sub (drop n taba) tabb 0)) else taba)
                        in div_loop tabb b1 b1_inv n tabq taba)))"

lemma first_quotient_value:
  "length as = length bs \<Longrightarrow> first_quotient as bs = (if limbs_nat (rev as) < limbs_nat (rev bs) then 0 else 1)"
proof (induction as bs rule: first_quotient.induct)
  case (1 a as b bs)
  have len: "length as = length bs" using "1.prems" by simp
  let ?x = "limbs_nat (rev as)" and ?y = "limbs_nat (rev bs)" and ?p = "limb_base ^ length bs"
  have b: "?x < ?p" "?y < ?p" using limbs_nat_bound [of "rev as"] limbs_nat_bound [of "rev bs"] len by simp_all
  have v: "limbs_nat (rev (a # as)) = ?x + ?p * unat a" "limbs_nat (rev (b # bs)) = ?y + ?p * unat b"
    using len by (simp_all add: limbs_nat_append)
  have lt: "?x + ?p * s < ?y + ?p * t" if "s < t" "?x < ?p" for s t x' y' :: nat
  proof -
    have "?p * (s + 1) \<le> ?p * t" using that(1) by (intro mult_left_mono) auto
    then show ?thesis using that(2) by (simp add: algebra_simps)
  qed
  have gt: "?y + ?p * t < ?x + ?p * s" if "t < s" for s t :: nat
  proof -
    have "?p * (t + 1) \<le> ?p * s" using that by (intro mult_left_mono) auto
    then show ?thesis using b(2) by (simp add: algebra_simps)
  qed
  consider "a = b" | "unat a < unat b" "a < b" "a \<noteq> b" | "unat b < unat a" "\<not> a < b" "a \<noteq> b"
    by (metis linorder_neqE_nat order_less_asym word_less_nat_alt word_unat_eq_iff)
  then show ?case
  proof cases
    case 1
    then show ?thesis using "1.IH" len v by simp
  next
    case 2
    then show ?thesis unfolding v using lt [OF 2(1) b(1)] by simp
  next
    case 3
    then show ?thesis unfolding v using gt [OF 3(1)] by simp
  qed
qed auto

lemma add_back_ends:
  assumes "0 < limbs_nat tabb"
  shows "length sl = length tabb \<Longrightarrow> \<exists>m sl'. 1 \<le> m \<and> add_back tabb sl h q = Some (sl', 0, q - of_nat m) \<and> length sl' = length tabb \<and>
    limbs_nat sl + limb_base ^ length tabb * unat h + m * limbs_nat tabb = limb_base ^ length tabb * limb_base + limbs_nat sl' \<and>
    limbs_nat sl' < limbs_nat tabb"
proof (induction "limb_base ^ length tabb * limb_base - (limbs_nat sl + limb_base ^ length tabb * unat h)" arbitrary: sl h q rule: less_induct)
  case less
  let ?P = "limb_base ^ length tabb" and ?b = "limbs_nat tabb"
  obtain s c where add: "mp_add sl tabb 0 = (s, c)" by fastforce
  have len: "length s = length tabb" and c: "unat c \<le> 1"
    and v: "limbs_nat s + ?P * unat c = limbs_nat sl + ?b"
    using mp_add_value [OF less.prems _ add] less.prems by simp_all
  have hb: "limbs_nat sl + ?P * unat h < ?P * limb_base"
  proof -
    have "limbs_nat sl < ?P" using limbs_nat_bound [of sl] less.prems by simp
    moreover have "?P * (unat h + 1) \<le> ?P * limb_base" using limb_bound [of h] by (intro mult_left_mono) auto
    moreover have "?P * (unat h + 1) = ?P * unat h + ?P" by simp
    ultimately show ?thesis by linarith
  qed
  show ?case
  proof (cases "c \<noteq> 0 \<and> h + 1 = 0")
    case True
    then have c1: "unat c = 1" using c by (metis le_neq_implies_less less_one unat_eq_zero)
    have "h = - 1" using True by (metis add_eq_0_iff2)
    then have h: "unat h = limb_base - 1" by (simp add: unsigned_minus_1_eq_mask mask_eq_exp_minus_1)
    have "add_back tabb sl h q = Some (s, 0, q - of_nat 1)"
      using True add by (subst add_back.simps) simp
    moreover have e: "limbs_nat sl + ?P * unat h + 1 * ?b = ?P * limb_base + limbs_nat s" using v c1 unfolding h by simp
    moreover have "limbs_nat s < ?b" using e hb by linarith
    ultimately show ?thesis using len by (metis order_refl)
  next
    case False
    let ?h = "if c \<noteq> 0 then h + 1 else h"
    have rec: "add_back tabb sl h q = add_back tabb s ?h (q - 1)"
      using False add by (subst add_back.simps) auto
    have uh: "unat ?h = unat h + unat c"
    proof (cases "c = 0")
      case c0: False
      then have "unat c = 1" using c by (metis le_neq_implies_less less_one unat_eq_zero)
      moreover have "unat (h + 1) = unat h + 1"
      proof -
        have "h \<noteq> - 1" using False c0 by auto
        then have "unat h \<noteq> limb_base - 1" by (simp add: word_unat_eq_iff unsigned_minus_1_eq_mask mask_eq_exp_minus_1)
        then show ?thesis using limb_bound [of h] by (simp add: unat_plus_if')
      qed
      ultimately show ?thesis using c0 by simp
    qed simp
    have e: "limbs_nat s + ?P * unat ?h = limbs_nat sl + ?P * unat h + ?b"
      unfolding uh using v by (simp add: algebra_simps)
    have "?P * limb_base - (limbs_nat s + ?P * unat ?h) < ?P * limb_base - (limbs_nat sl + ?P * unat h)"
      unfolding e using hb assms by simp
    from less.hyps [OF this len, of "q - 1"] obtain m sl' where m: "1 \<le> m"
      "add_back tabb s ?h (q - 1) = Some (sl', 0, q - 1 - of_nat m)" "length sl' = length tabb"
      "limbs_nat s + ?P * unat ?h + m * ?b = ?P * limb_base + limbs_nat sl'" "limbs_nat sl' < ?b" by blast
    have "limbs_nat sl + ?P * unat h + Suc m * ?b = ?P * limb_base + limbs_nat sl'" using m(4) unfolding e by simp
    moreover have "add_back tabb sl h q = Some (sl', 0, q - of_nat (Suc m))" using m(2) rec by (simp add: algebra_simps)
    ultimately show ?thesis using m(3,5) by (metis le_SucI m(1))
  qed
qed

text \<open>
  One step, over the naturals: u is the value of the nb + 1 limbs from taba[i] on, beta that of
  the divisor; the estimate is never below the quotient.
\<close>

lemma div_estimate_value:
  assumes b1: "limb_base \<le> 2 * unat b1" and inv: "b1_inv = udiv1norm_init b1 \<or> b1_inv = 0"
    and beta: "beta = P * unat b1 + bl" "bl < P" and u: "u = P * (limb_base * unat ah + unat al) + ul" "ul < P"
    and ub: "u < beta * limb_base"
  shows "u < (unat (div_estimate ah al b1 b1_inv) + 1) * beta"
proof (cases "b1 \<le> ah")
  case True
  then have "unat (div_estimate ah al b1 b1_inv) + 1 = limb_base"
    by (simp add: div_estimate_def unsigned_minus_1_eq_mask mask_eq_exp_minus_1)
  then show ?thesis using ub by (simp add: mult.commute)
next
  case False
  then have ah: "unat ah < unat b1" by (simp add: word_less_nat_alt not_le)
  let ?q = "unat (div_estimate ah al b1 b1_inv)" and ?n = "limb_base * unat ah + unat al"
  have "?n < (?q + 1) * unat b1"
  proof (cases "b1_inv = 0")
    case True
    have n: "?n < limb_base * unat b1"
    proof -
      have "?n < limb_base * (unat ah + 1)" using limb_bound [of al] by simp
      also have "\<dots> \<le> limb_base * unat b1" using ah by (intro mult_left_mono) auto
      finally show ?thesis .
    qed
    have e: "div_estimate ah al b1 b1_inv = ucast ((push_bit LIMB_BITS (ucast ah) OR ucast al :: dlimb) div ucast b1)"
      using False True by (simp add: div_estimate_def)
    have "?q = ?n div unat b1"
      unfolding e low_limb unat_div unat_two_limbs ucast_dlimb using n by (simp add: less_mult_imp_div_less)
    then show ?thesis using ah dividend_less_div_times [of "unat b1" ?n] by (simp add: algebra_simps)
  next
    case nz: False
    obtain q r where u1: "udiv1norm ah al b1 (udiv1norm_init b1) = (q, r)" by fastforce
    have "unat q * unat b1 + unat r = ?n" "unat r < unat b1" using udiv1norm_value [OF b1 ah u1] by auto
    moreover have "?q = unat q" using False nz inv u1 by (auto simp: div_estimate_def)
    ultimately show ?thesis by (simp add: algebra_simps)
  qed
  then have "P * (?n + 1) \<le> P * ((?q + 1) * unat b1)" by (intro mult_left_mono) auto
  also have "\<dots> \<le> (?q + 1) * beta" unfolding beta(1) by (simp add: algebra_simps)
  finally show ?thesis using u by (simp add: algebra_simps)
qed

lemma take_drop_Suc: "i + k < length xs \<Longrightarrow> take (Suc k) (drop i xs) = take k (drop i xs) @ [xs ! (i + k)]"
  by (simp add: take_Suc_conv_app_nth add.commute)

lemma div_step_value:
  fixes tabb :: "limb list"
  defines "nb \<equiv> length tabb"
  assumes nb: "2 \<le> nb" and b1: "limb_base \<le> 2 * unat (tabb ! (nb - 1))"
    and inv: "b1_inv = udiv1norm_init (tabb ! (nb - 1)) \<or> b1_inv = 0"
    and i: "i + nb < length taba" and top: "limbs_nat (take nb (drop (Suc i) taba)) < limbs_nat tabb"
  shows "\<exists>q taba' sl. div_step tabb (tabb ! (nb - 1)) b1_inv taba i = Some (q, taba') \<and> taba' = put_limbs taba i (sl @ [0]) \<and>
    length sl = nb \<and> limbs_nat sl < limbs_nat tabb \<and>
    limbs_nat (take (Suc nb) (drop i taba)) = unat q * limbs_nat tabb + limbs_nat sl"
proof -
  let ?b = "limbs_nat tabb" and ?b1 = "tabb ! (nb - 1)" and ?P = "limb_base ^ nb"
  let ?sl = "take nb (drop i taba)" and ?v = "taba ! (i + nb)" and ?al = "taba ! (i + nb - 1)"
  let ?u = "limbs_nat (take (Suc nb) (drop i taba))"
  have lsl: "length ?sl = nb" using i by simp
  have u: "?u = limbs_nat ?sl + ?P * unat ?v"
    unfolding take_drop_Suc [OF i] using lsl by (simp add: limbs_nat_append)
  have ub: "?u < ?b * limb_base"
  proof -
    have "take (Suc nb) (drop i taba) = taba ! i # take nb (drop (Suc i) taba)"
      using i by (simp add: Cons_nth_drop_Suc [symmetric])
    then have "?u = unat (taba ! i) + limb_base * limbs_nat (take nb (drop (Suc i) taba))" by simp
    moreover have "limb_base * (limbs_nat (take nb (drop (Suc i) taba)) + 1) \<le> limb_base * ?b" using top by (intro mult_left_mono) auto
    ultimately show ?thesis using limb_bound [of "taba ! i"] by (simp add: algebra_simps)
  qed
  obtain m where m: "nb = Suc m" using nb by (cases nb) auto
  have sl2: "?sl = take m (drop i taba) @ [?al]" using take_drop_Suc [of i m taba] i m by simp
  have tb2: "tabb = take m tabb @ [?b1]" using take_Suc_conv_app_nth [of m tabb] m nb_def by simp
  have u2: "?u = limb_base ^ m * (limb_base * unat ?v + unat ?al) + limbs_nat (take m (drop i taba))"
    using i m unfolding u sl2 by (simp add: limbs_nat_append algebra_simps)
  have b2: "?b = limb_base ^ m * unat ?b1 + limbs_nat (take m tabb)"
    using m nb_def by (subst tb2) (simp add: limbs_nat_append)
  define q where "q = div_estimate ?v ?al ?b1 b1_inv"
  have "length (take m (drop i taba)) = m" using i m by simp
  then have lo: "limbs_nat (take m (drop i taba)) < limb_base ^ m" using limbs_nat_bound [of "take m (drop i taba)"] by simp
  have est: "?u < (unat q + 1) * ?b" unfolding q_def
    by (rule div_estimate_value [OF b1 inv b2 _ u2 _ ub])
      (use limbs_nat_bound [of "take m tabb"] lo m nb_def in simp_all)
  obtain s r where sub: "mp_sub_mul1 ?sl tabb q = (s, r)" by fastforce
  have s: "length s = nb" "limbs_nat s + ?b * unat q = limbs_nat ?sl + ?P * unat r"
    using mp_sub_mul1_loop_value [of ?sl tabb q 0 s r] sub lsl nb_def by (simp_all add: mp_sub_mul1_def)
  let ?a = "?v - r"
  have a: "unat ?a + unat r = unat ?v + limb_base * of_bool (?v < ?a)" by (rule sub_borrow)
  have V: "limbs_nat s + ?P * unat ?a + unat q * ?b = ?u + ?P * limb_base * of_bool (?v < ?a)"
  proof -
    have "?P * (unat ?a + unat r) = ?P * (unat ?v + limb_base * of_bool (?v < ?a))" using a by simp
    then have "?P * unat ?a + ?P * unat r = ?P * unat ?v + ?P * limb_base * of_bool (?v < ?a)"
      by (simp only: add_mult_distrib2 mult.assoc)
    then show ?thesis using s(2) unfolding u mult.commute [of "unat q"] by linarith
  qed
  have Pb: "?b < ?P" using limbs_nat_bound [of tabb] nb_def by simp
  show ?thesis
  proof (cases "?v < ?a")
    case False
    then have V': "limbs_nat s + ?P * unat ?a + unat q * ?b = ?u" using V by simp
    then have small: "limbs_nat s + ?P * unat ?a < ?b" using est by simp
    have "unat ?a = 0"
    proof (rule ccontr)
      assume "unat ?a \<noteq> 0"
      then have "?P * 1 \<le> ?P * unat ?a" by (intro mult_left_mono) auto
      then show False using small Pb by linarith
    qed
    then have a0: "?a = 0" by (simp add: word_unat_eq_iff)
    have "div_step tabb ?b1 b1_inv taba i = Some (q, put_limbs taba i (s @ [0]))"
      using False a0 sub by (simp add: div_step_def Let_def q_def nb_def)
    then show ?thesis using V' small a0 s(1) by auto
  next
    case True
    have bp: "0 < ?b"
      using b2 b1 by auto
    obtain k sl' where k: "1 \<le> k" "add_back tabb s ?a q = Some (sl', 0, q - of_nat k)" "length sl' = length tabb"
      "limbs_nat s + limb_base ^ length tabb * unat ?a + k * ?b = limb_base ^ length tabb * limb_base + limbs_nat sl'" "limbs_nat sl' < ?b"
      using add_back_ends [OF bp, of s ?a q] s(1) nb_def by blast
    have e: "?u + k * ?b = unat q * ?b + limbs_nat sl'" using V k(4) True nb_def by simp
    have kq: "k \<le> unat q"
    proof (rule ccontr)
      assume "\<not> k \<le> unat q"
      then have "(unat q + 1) * ?b \<le> k * ?b" by (intro mult_right_mono) auto
      then show False using e k(5) by simp
    qed
    have uq: "unat (q - of_nat k) = unat q - k"
    proof -
      have "unat (of_nat k :: limb) = k" using kq limb_bound [of q] by (intro unat_of_nat_u64) simp
      then show ?thesis using kq by (subst unat_sub) (simp_all add: word_le_nat_alt)
    qed
    have "?u = (unat q - k) * ?b + limbs_nat sl'"
    proof -
      have "(unat q - k) * ?b + k * ?b = unat q * ?b" using kq by (metis add_mult_distrib le_add_diff_inverse2)
      then show ?thesis using e by linarith
    qed
    moreover have "div_step tabb ?b1 b1_inv taba i = Some (q - of_nat k, put_limbs taba i (sl' @ [0]))"
      using True k(2) sub by (simp add: div_step_def Let_def q_def nb_def)
    ultimately show ?thesis using k(3,5) uq nb_def by metis
  qed
qed

lemma drop_put_limbs: "i \<le> length xs \<Longrightarrow> i + length ys \<le> length xs \<Longrightarrow> drop i (put_limbs xs i ys) = ys @ drop (i + length ys) xs"
  by (simp add: put_limbs_def)

lemma div_loop_value:
  fixes tabb :: "limb list"
  defines "nb \<equiv> length tabb"
  assumes nb: "2 \<le> nb" and b1: "limb_base \<le> 2 * unat (tabb ! (nb - 1))"
    and inv: "b1_inv = udiv1norm_init (tabb ! (nb - 1)) \<or> b1_inv = 0"
  shows "i + nb \<le> length taba \<Longrightarrow> i \<le> length tabq \<Longrightarrow> limbs_nat (take nb (drop i taba)) < limbs_nat tabb \<Longrightarrow>
    \<exists>tabq' taba'. div_loop tabb (tabb ! (nb - 1)) b1_inv i tabq taba = Some (tabq', taba') \<and>
      length tabq' = length tabq \<and> length taba' = length taba \<and> drop i tabq' = drop i tabq \<and>
      limbs_nat (take nb taba') < limbs_nat tabb \<and>
      limbs_nat (take i tabq') * limbs_nat tabb + limbs_nat (take nb taba') = limbs_nat (take (i + nb) taba)"
proof (induction i arbitrary: tabq taba)
  case (Suc i)
  let ?b = "limbs_nat tabb" and ?b1 = "tabb ! (nb - 1)"
  obtain q sl where st: "div_step tabb ?b1 b1_inv taba i = Some (q, put_limbs taba i (sl @ [0]))"
    and sl: "length sl = nb" "limbs_nat sl < ?b"
    and u: "limbs_nat (take (Suc nb) (drop i taba)) = unat q * ?b + limbs_nat sl"
    using div_step_value [of tabb b1_inv i taba] nb b1 inv Suc.prems unfolding nb_def by fastforce
  let ?t = "put_limbs taba i (sl @ [0])"
  have t: "length ?t = length taba" "take i ?t = take i taba" "take nb (drop i ?t) = sl"
    using Suc.prems(1) sl(1) by (simp_all add: put_limbs_def)
  obtain tabq' taba' where r: "div_loop tabb ?b1 b1_inv i (tabq[i := q]) ?t = Some (tabq', taba')"
      "length tabq' = length (tabq[i := q])" "length taba' = length ?t" "drop i tabq' = drop i (tabq[i := q])"
      "limbs_nat (take nb taba') < ?b"
      "limbs_nat (take i tabq') * ?b + limbs_nat (take nb taba') = limbs_nat (take (i + nb) ?t)"
    using Suc.IH [of ?t "tabq[i := q]"] Suc.prems t sl(2) by auto
  have q: "tabq' ! i = q" "drop (Suc i) tabq' = drop (Suc i) tabq"
  proof -
    have d: "drop i tabq' = q # drop (Suc i) tabq" using r(4) Suc.prems(2) by (simp add: drop_update_swap Cons_nth_drop_Suc [symmetric])
    show "tabq' ! i = q" using d r(2) Suc.prems(2) by (metis Suc_le_lessD drop_eq_Nil hd_drop_conv_nth length_list_update list.sel(1) not_less)
    show "drop (Suc i) tabq' = drop (Suc i) tabq" using d by (metis drop_Suc list.sel(3) tl_drop)
  qed
  have lq: "limbs_nat (take (Suc i) tabq') = limbs_nat (take i tabq') + limb_base ^ i * unat q"
    using Suc.prems(2) r(2) q(1) by (simp add: take_Suc_conv_app_nth limbs_nat_append)
  have w1: "limbs_nat (take (i + nb) ?t) = limbs_nat (take i taba) + limb_base ^ i * limbs_nat sl"
    unfolding take_add t using Suc.prems(1) by (simp add: limbs_nat_append)
  have w2: "limbs_nat (take (Suc i + nb) taba) = limbs_nat (take i taba) + limb_base ^ i * limbs_nat (take (Suc nb) (drop i taba))"
    using take_add [of i "Suc nb" taba] Suc.prems(1) by (simp add: limbs_nat_append)
  have "limbs_nat (take (Suc i) tabq') * ?b + limbs_nat (take nb taba') = limbs_nat (take (Suc i + nb) taba)"
    using r(6) unfolding lq w1 w2 u by (simp add: algebra_simps)
  moreover have "div_loop tabb ?b1 b1_inv (Suc i) tabq taba = Some (tabq', taba')" using st r(1) by simp
  ultimately show ?case using r t q by auto
qed auto

lemma div_mod_unique: "q * b + r = a \<Longrightarrow> r < b \<Longrightarrow> q = a div b \<and> r = (a mod b :: nat)"
  by auto

text \<open>
  C18. mp_divnorm returns for all operands of the base case whose divisor is normalised: the loop
  that corrects the quotient estimate ends, tabq is the quotient and the low limbs of taba are the
  remainder of the two numbers.
\<close>

theorem mp_divnorm_divides:
  assumes "tabb \<noteq> []" "2 ^ 63 \<le> unat (last tabb)" "length tabb \<le> length taba"
    and "length tabq = length taba - length tabb + 1"
    and "min (length taba - length tabb) (length tabb) < DIVNORM_LARGE_THRESHOLD"
  shows "\<exists>q t. mp_divnorm large tabq taba tabb = Some (q, t) \<and> length q = length tabq \<and> length t = length taba \<and>
    limbs_nat q = limbs_nat taba div limbs_nat tabb \<and>
    limbs_nat (take (length tabb) t) = limbs_nat taba mod limbs_nat tabb"
proof -
  let ?nb = "length tabb" and ?n = "length taba - length tabb" and ?b = "limbs_nat tabb"
  let ?b1 = "tabb ! (?nb - 1)"
  have b1: "limb_base \<le> 2 * unat ?b1" using assms(1,2) by (simp add: last_conv_nth)
  show ?thesis
  proof (cases "?nb = 1")
    case True
    then have tabb: "tabb = [?b1]" by (cases tabb) auto
    obtain q r where d: "mp_div1norm taba ?b1 0 = (q, r)" by fastforce
    have "limbs_nat [?b1] = unat ?b1" by simp
    then have bv: "?b = unat ?b1" using tabb by metis
    have v: "length q = length taba" "limbs_nat q * ?b + unat r = limbs_nat taba" "unat r < ?b"
      using mp_div1norm_value [OF b1 _ d] b1 unfolding bv by simp_all
    have "length q = length tabq" "taba \<noteq> []" using v(1) assms(3,4) True by auto
    then have "mp_divnorm large tabq taba tabb = Some (q, taba[0 := r])"
      using True d by (simp add: mp_divnorm_def put_limbs_def)
    moreover have "limbs_nat (take ?nb (taba[0 := r])) = unat r" using True \<open>taba \<noteq> []\<close> by (cases taba) auto
    ultimately show ?thesis using div_mod_unique [OF v(2,3)] \<open>length q = length tabq\<close> by auto
  next
    case False
    then have nb: "2 \<le> ?nb" using assms(1) by (cases tabb; cases "tl tabb") auto
    define inv where "inv = (if ?n \<ge> UDIV1NORM_THRESHOLD then udiv1norm_init ?b1 else 0)"
    let ?hi = "drop ?n taba"
    have lhi: "length ?hi = ?nb" using assms(3) by simp
    define q where "q = first_quotient (rev ?hi) (rev tabb)"
    have q: "q = (if limbs_nat ?hi < ?b then 0 else 1)"
      unfolding q_def using first_quotient_value [of "rev ?hi" "rev tabb"] lhi by simp
    define t where "t = (if q \<noteq> 0 then put_limbs taba ?n (fst (mp_sub ?hi tabb 0)) else taba)"
    have a: "limbs_nat taba = limbs_nat (take ?n taba) + limb_base ^ ?n * limbs_nat ?hi"
      using limbs_nat_append [of "take ?n taba" ?hi] by simp
    have big: "limbs_nat ?hi < 2 * ?b"
    proof -
      obtain m where m: "?nb = Suc m" using nb by (cases ?nb) auto
      have tb: "tabb = take m tabb @ [?b1]" using take_Suc_conv_app_nth [of m tabb] m by simp
      have lm: "length (take m tabb) = m" using m by simp
      have "?b = limbs_nat (take m tabb) + limb_base ^ m * unat ?b1"
        using arg_cong [OF tb, of limbs_nat] by (simp only: limbs_nat_append lm limbs_nat.simps mult_0_right add_0_right)
      then have "limb_base ^ m * unat ?b1 \<le> ?b" by linarith
      moreover have "limb_base ^ m * limb_base \<le> limb_base ^ m * (2 * unat ?b1)" using b1 by (rule mult_left_mono) simp
      moreover have "limb_base ^ m * (2 * unat ?b1) = 2 * (limb_base ^ m * unat ?b1)" by (simp only: mult.left_commute)
      moreover have "limb_base ^ ?nb = limb_base ^ m * limb_base" unfolding m by (rule power_Suc2)
      ultimately have "limb_base ^ ?nb \<le> 2 * ?b" by linarith
      then show ?thesis using limbs_nat_bound [of ?hi] lhi by simp
    qed
    have t: "length t = length taba" "take ?n t = take ?n taba" "limbs_nat (drop ?n t) < ?b"
      "limbs_nat ?hi = unat q * ?b + limbs_nat (drop ?n t)"
    proof -
      obtain s c where s: "mp_sub ?hi tabb 0 = (s, c)" by fastforce
      have v: "length s = ?nb" "unat c \<le> 1" "limbs_nat s + ?b = limbs_nat ?hi + limb_base ^ ?nb * unat c"
        using mp_sub_value [OF lhi _ s] lhi by simp_all
      have "unat c = 0" if "\<not> limbs_nat ?hi < ?b"
      proof (rule ccontr)
        assume "unat c \<noteq> 0"
        then have "unat c = 1" using v(2) by simp
        then show False using v(3) that limbs_nat_bound [of s] v(1) by simp
      qed
      moreover have "length ?hi = ?nb" "?n + ?nb = length taba" using assms(3) by simp_all
      ultimately show "length t = length taba" "take ?n t = take ?n taba" "limbs_nat (drop ?n t) < ?b"
        "limbs_nat ?hi = unat q * ?b + limbs_nat (drop ?n t)"
        using v s q big assms(3) by (auto simp: t_def put_limbs_def)
    qed
    have def1: "mp_divnorm large tabq taba tabb = div_loop tabb ?b1 inv ?n (tabq[?n := q]) t"
    proof -
      have "\<not> min ?n ?nb \<ge> DIVNORM_LARGE_THRESHOLD" using assms(5) by (simp only: not_le)
      then show ?thesis using False
        unfolding mp_divnorm_def Let_def inv_def q_def t_def by (simp only: if_False)
    qed
    have tk: "take ?nb (drop ?n t) = drop ?n t" using t(1) assms(3) by simp
    have inv: "inv = udiv1norm_init ?b1 \<or> inv = 0" by (simp add: inv_def)
    obtain tabq' t' where r: "div_loop tabb ?b1 inv ?n (tabq[?n := q]) t = Some (tabq', t')"
      "length tabq' = length tabq" "length t' = length t" "drop ?n tabq' = drop ?n (tabq[?n := q])"
      "limbs_nat (take ?nb t') < ?b"
      "limbs_nat (take ?n tabq') * ?b + limbs_nat (take ?nb t') = limbs_nat (take (?n + ?nb) t)"
      using div_loop_value [OF nb b1 inv, of ?n t "tabq[?n := q]"] assms(3,4) t tk by auto
    have "drop ?n tabq' = [q]" using r(4) assms(4) by (simp add: drop_update_swap)
      (metis Suc_eq_plus1 drop_eq_Nil Cons_nth_drop_Suc lessI list_update_code(2) order_refl)
    then have "limbs_nat tabq' = limbs_nat (take ?n tabq') + limb_base ^ ?n * unat q"
      using limbs_nat_append [of "take ?n tabq'" "[q]"] r(2) assms(4) append_take_drop_id [of ?n tabq'] by simp
    moreover have "limbs_nat (take (?n + ?nb) t) = limbs_nat (take ?n taba) + limb_base ^ ?n * limbs_nat (drop ?n t)"
      using limbs_nat_append [of "take ?n taba" "drop ?n t"] t(1,2) assms(3) append_take_drop_id [of ?n t] by simp
    ultimately have "limbs_nat tabq' * ?b + limbs_nat (take ?nb t') = limbs_nat taba"
      using r(6) t(4) unfolding a by (simp add: algebra_simps)
    from div_mod_unique [OF this r(5)] show ?thesis using r(1-3) t(1) def1 by auto
  qed
qed

theorem mp_divnorm_divides_witness:
  "\<exists>q t. mp_divnorm (\<lambda>_ _ _. None) [0, 0] [5, 7, 3] [1, 0x8000000000000000] = Some (q, t) \<and>
    length q = length [0, 0 :: limb] \<and> length t = length [5, 7, 3 :: limb] \<and>
    limbs_nat q = limbs_nat [5, 7, 3] div limbs_nat [1, 0x8000000000000000] \<and>
    limbs_nat (take (length [1, 0x8000000000000000 :: limb]) t) = limbs_nat [5, 7, 3] mod limbs_nat [1, 0x8000000000000000]"
  by (rule mp_divnorm_divides) (simp_all add: DIVNORM_LARGE_THRESHOLD_def)

end
