(* ===== verification/Char_Range.thy ===== *)
theory Char_Range
  imports Ckb_Prelude
begin

text \<open>
  quickjs/libunicode.c and libunicode.h, the character ranges of the regular expressions: a set of code points
  is the increasing list of the points where membership changes. The memory the points live in
  is a state of its own, and \<open>ra\<close> is its reallocation function: it gets the new number of
  points and says whether it succeeded. Every operation returns the memory, the result code of
  the C function and the range.
\<close>

record CharRange =
  cr_size :: nat
  cr_points :: "u32 list"

definition cr_init :: CharRange where
  "cr_init = \<lparr>cr_size = 0, cr_points = []\<rparr>"

definition cr_realloc :: "('m \<Rightarrow> nat \<Rightarrow> 'm \<times> bool) \<Rightarrow> 'm \<Rightarrow> CharRange \<Rightarrow> nat \<Rightarrow> 'm \<times> int \<times> CharRange" where
  "cr_realloc ra m cr n =
     (if n > cr_size cr
      then let new_size = max n (cr_size cr * 3 div 2); (m, ok) = ra m new_size
           in if ok then (m, 0, cr\<lparr>cr_size := new_size\<rparr>) else (m, - 1, cr)
      else (m, 0, cr))"

definition cr_copy :: "('m \<Rightarrow> nat \<Rightarrow> 'm \<times> bool) \<Rightarrow> 'm \<Rightarrow> CharRange \<Rightarrow> CharRange \<Rightarrow> 'm \<times> int \<times> CharRange" where
  "cr_copy ra m cr cr1 =
     (let (m, ret, cr) = cr_realloc ra m cr (length (cr_points cr1))
      in if ret \<noteq> 0 then (m, - 1, cr) else (m, 0, cr\<lparr>cr_points := cr_points cr1\<rparr>))"

definition cr_add_point :: "('m \<Rightarrow> nat \<Rightarrow> 'm \<times> bool) \<Rightarrow> 'm \<Rightarrow> CharRange \<Rightarrow> u32 \<Rightarrow> 'm \<times> int \<times> CharRange" where
  "cr_add_point ra m cr v =
     (let (m, ret, cr) = (if length (cr_points cr) \<ge> cr_size cr then cr_realloc ra m cr (length (cr_points cr) + 1) else (m, 0, cr))
      in if ret \<noteq> 0 then (m, - 1, cr) else (m, 0, cr\<lparr>cr_points := cr_points cr @ [v]\<rparr>))"

definition cr_add_interval :: "('m \<Rightarrow> nat \<Rightarrow> 'm \<times> bool) \<Rightarrow> 'm \<Rightarrow> CharRange \<Rightarrow> u32 \<Rightarrow> u32 \<Rightarrow> 'm \<times> int \<times> CharRange" where
  "cr_add_interval ra m cr c1 c2 =
     (let (m, ret, cr) = (if length (cr_points cr) + 2 > cr_size cr then cr_realloc ra m cr (length (cr_points cr) + 2) else (m, 0, cr))
      in if ret \<noteq> 0 then (m, - 1, cr) else (m, 0, cr\<lparr>cr_points := cr_points cr @ [c1, c2]\<rparr>))"

text \<open>
  cr_compress works in place with a write index that never passes the read index, so that the
  points it reads are still the old ones: the recursion is over what is left to read. The inner
  loop (\<open>cr_last\<close>) runs over intervals that begin where the one before ends.
\<close>

fun cr_last :: "u32 \<Rightarrow> u32 list \<Rightarrow> u32 \<times> u32 list" where
  "cr_last e (p # q # r) = (if e = p then cr_last q r else (e, p # q # r))"
| "cr_last e r = (e, r)"

lemma cr_last_length [termination_simp]: "(e', r') = cr_last e r \<Longrightarrow> length r' \<le> length r"
  by (induction e r rule: cr_last.induct) (auto split: if_splits)

fun cr_compressed :: "u32 list \<Rightarrow> u32 list" where
  "cr_compressed (p # q # r) =
     (if p = q then cr_compressed r else (case cr_last q r of (e, r') \<Rightarrow> p # e # cr_compressed r'))"
| "cr_compressed _ = []"

definition cr_compress :: "CharRange \<Rightarrow> CharRange" where
  "cr_compress cr = cr\<lparr>cr_points := cr_compressed (cr_points cr)\<rparr>"

datatype CharRangeOpEnum = CR_OP_UNION | CR_OP_INTER | CR_OP_XOR

definition cr_is_in :: "CharRangeOpEnum \<Rightarrow> nat \<Rightarrow> nat \<Rightarrow> nat" where
  "cr_is_in opr a_idx b_idx =
     (case opr of
        CR_OP_UNION \<Rightarrow> (a_idx AND 1) OR (b_idx AND 1)
      | CR_OP_INTER \<Rightarrow> (a_idx AND 1) AND (b_idx AND 1)
      | CR_OP_XOR \<Rightarrow> (a_idx AND 1) XOR (b_idx AND 1))"

text \<open>The loop of cr_op; \<open>a\<close> and \<open>b\<close> are the points that a_idx and b_idx have not passed.\<close>

function cr_op_loop :: "('m \<Rightarrow> nat \<Rightarrow> 'm \<times> bool) \<Rightarrow> CharRangeOpEnum \<Rightarrow> 'm \<Rightarrow> CharRange \<Rightarrow> nat \<Rightarrow> u32 list \<Rightarrow> nat \<Rightarrow> u32 list
    \<Rightarrow> 'm \<times> int \<times> CharRange" where
  "cr_op_loop ra opr m cr a_idx a b_idx b =
     (if a = [] \<and> b = [] then (m, 0, cr)
      else let take_a = (a \<noteq> [] \<and> (b = [] \<or> hd a \<le> hd b));
               take_b = (b \<noteq> [] \<and> (a = [] \<or> hd b \<le> hd a));
               v = (if take_a then hd a else hd b);
               a_idx = (if take_a then a_idx + 1 else a_idx);
               b_idx = (if take_b then b_idx + 1 else b_idx);
               a = (if take_a then tl a else a);
               b = (if take_b then tl b else b)
           in if cr_is_in opr a_idx b_idx \<noteq> length (cr_points cr) AND 1
              then let (m, ret, cr) = cr_add_point ra m cr v
                   in if ret \<noteq> 0 then (m, - 1, cr) else cr_op_loop ra opr m cr a_idx a b_idx b
              else cr_op_loop ra opr m cr a_idx a b_idx b)"
  by pat_completeness auto
termination
  by (relation "measure (\<lambda>(ra, opr, m, cr, a_idx, a, b_idx, b). length a + length b)")
    (auto simp: neq_Nil_conv split: if_splits)

declare cr_op_loop.simps [simp del]

definition cr_op :: "('m \<Rightarrow> nat \<Rightarrow> 'm \<times> bool) \<Rightarrow> 'm \<Rightarrow> CharRange \<Rightarrow> u32 list \<Rightarrow> u32 list \<Rightarrow> CharRangeOpEnum \<Rightarrow> 'm \<times> int \<times> CharRange" where
  "cr_op ra m cr a_pt b_pt opr =
     (let (m, ret, cr) = cr_op_loop ra opr m cr 0 a_pt 0 b_pt
      in if ret \<noteq> 0 then (m, - 1, cr) else (m, 0, cr_compress cr))"

definition cr_union1 :: "('m \<Rightarrow> nat \<Rightarrow> 'm \<times> bool) \<Rightarrow> 'm \<Rightarrow> CharRange \<Rightarrow> u32 list \<Rightarrow> 'm \<times> int \<times> CharRange" where
  "cr_union1 ra m cr b_pt =
     (let (m, ret, cr') = cr_op ra m (cr\<lparr>cr_size := 0, cr_points := []\<rparr>) (cr_points cr) b_pt CR_OP_UNION;
          (m, _) = ra m 0
      in (m, ret, cr'))"

definition cr_union_interval :: "('m \<Rightarrow> nat \<Rightarrow> 'm \<times> bool) \<Rightarrow> 'm \<Rightarrow> CharRange \<Rightarrow> u32 \<Rightarrow> u32 \<Rightarrow> 'm \<times> int \<times> CharRange" where
  "cr_union_interval ra m cr c1 c2 = cr_union1 ra m cr [c1, c2 + 1]"

definition cr_invert :: "('m \<Rightarrow> nat \<Rightarrow> 'm \<times> bool) \<Rightarrow> 'm \<Rightarrow> CharRange \<Rightarrow> 'm \<times> int \<times> CharRange" where
  "cr_invert ra m cr =
     (let (m, ret, cr) = cr_realloc ra m cr (length (cr_points cr) + 2)
      in if ret \<noteq> 0 then (m, - 1, cr)
         else (m, 0, cr_compress (cr\<lparr>cr_points := 0 # cr_points cr @ [0xFFFFFFFF]\<rparr>)))"

section \<open>The set of a range\<close>

definition points_upto :: "u32 list \<Rightarrow> u32 \<Rightarrow> nat" where
  "points_upto pts x = length (filter (\<lambda>p. p \<le> x) pts)"

lemma points_upto_simps [simp]:
  "points_upto [] x = 0" "points_upto (p # pts) x = (if p \<le> x then Suc (points_upto pts x) else points_upto pts x)"
  "points_upto (ps @ qs) x = points_upto ps x + points_upto qs x"
  by (simp_all add: points_upto_def)

text \<open>A code point is in the set when an odd number of the points is not above it.\<close>

definition points_set :: "u32 list \<Rightarrow> u32 set" where
  "points_set pts = {x. odd (points_upto pts x)}"

abbreviation cr_set :: "CharRange \<Rightarrow> u32 set" where
  "cr_set cr \<equiv> points_set (cr_points cr)"

text \<open>What every function keeps: an even number of points, in increasing order.\<close>

definition cr_ok :: "u32 list \<Rightarrow> bool" where
  "cr_ok pts \<longleftrightarrow> sorted pts \<and> even (length pts)"

fun cr_op_set :: "CharRangeOpEnum \<Rightarrow> u32 set \<Rightarrow> u32 set \<Rightarrow> u32 set" where
  "cr_op_set CR_OP_UNION A B = A \<union> B"
| "cr_op_set CR_OP_INTER A B = A \<inter> B"
| "cr_op_set CR_OP_XOR A B = (A - B) \<union> (B - A)"

fun op_bool :: "CharRangeOpEnum \<Rightarrow> bool \<Rightarrow> bool \<Rightarrow> bool" where
  "op_bool CR_OP_UNION a b = (a \<or> b)"
| "op_bool CR_OP_INTER a b = (a \<and> b)"
| "op_bool CR_OP_XOR a b = (a \<noteq> b)"

lemma cr_is_in_op: "cr_is_in opr i j = of_bool (op_bool opr (odd i) (odd j))"
  by (cases opr) (auto simp: cr_is_in_def and_one_eq mod_2_eq_odd)

lemma cr_last_points: "cr_last e r = (e', r') \<Longrightarrow> odd (points_upto (e # r) x) = odd (points_upto (e' # r') x) \<and> even (length r) = even (length r')"
  by (induction e r rule: cr_last.induct) (auto split: if_splits)

lemma cr_compressed_points: "even (length pts) \<Longrightarrow> odd (points_upto (cr_compressed pts) x) = odd (points_upto pts x)"
proof (induction pts rule: cr_compressed.induct)
  case (1 p q r)
  show ?case
  proof (cases "p = q")
    case False
    obtain e r' where l: "cr_last q r = (e, r')" by fastforce
    then show ?thesis using 1 False cr_last_points [OF l, of x] by (auto split: if_splits)
  qed (use 1 in auto)
qed auto

lemma cr_last_sorted: "cr_last e r = (e', r') \<Longrightarrow> sorted (e # r) \<Longrightarrow> even (length r) \<Longrightarrow>
    e \<le> e' \<and> sorted (e' # r') \<and> (r' \<noteq> [] \<longrightarrow> e' < hd r') \<and> even (length r')"
proof (induction e r rule: cr_last.induct)
  case (1 e p q r)
  then show ?case by (cases "e = p") auto
qed auto

lemma cr_compressed_sorted:
  "sorted pts \<Longrightarrow> even (length pts) \<Longrightarrow> sorted_wrt (<) (cr_compressed pts) \<and> even (length (cr_compressed pts)) \<and> set (cr_compressed pts) \<subseteq> set pts"
proof (induction pts rule: cr_compressed.induct)
  case (1 p q r)
  show ?case
  proof (cases "p = q")
    case True
    then show ?thesis using 1 by auto
  next
    case False
    obtain e r' where l: "cr_last q r = (e, r')" by fastforce
    have s: "q \<le> e" "sorted (e # r')" "r' \<noteq> [] \<longrightarrow> e < hd r'" "even (length r')"
      using cr_last_sorted [OF l] "1.prems" by auto
    have sub: "set r' \<subseteq> set r \<and> e \<in> insert q (set r)"
      using l by (induction q r rule: cr_last.induct) (auto split: if_splits)
    have "sorted_wrt (<) (cr_compressed r')" "even (length (cr_compressed r'))" "set (cr_compressed r') \<subseteq> set r'"
      using "1.IH"(2) [OF False l [symmetric]] s by auto
    moreover have "\<forall>x \<in> set r'. e < x" using s(2,3) by (cases r') auto
    moreover have "p < e" using False "1.prems" s(1) by (auto intro: less_le_trans)
    ultimately have "\<forall>x \<in> set (cr_compressed r'). e < x \<and> p < x" by (auto dest: subsetD intro: less_trans)
    then show ?thesis using False l sub \<open>p < e\<close> \<open>sorted_wrt (<) (cr_compressed r')\<close>
        \<open>even (length (cr_compressed r'))\<close> \<open>set (cr_compressed r') \<subseteq> set r'\<close> by auto
  qed
qed auto

definition cr_fits :: "CharRange \<Rightarrow> bool" where
  "cr_fits cr \<longleftrightarrow> length (cr_points cr) \<le> cr_size cr"

lemma cr_realloc_spec:
  "cr_realloc ra m cr n = (m', ret, cr') \<Longrightarrow> cr_points cr' = cr_points cr \<and> (ret = 0 \<or> ret = - 1) \<and>
     cr_size cr \<le> cr_size cr' \<and> (ret = 0 \<longrightarrow> n \<le> cr_size cr')"
  by (auto simp: cr_realloc_def Let_def split: if_splits prod.splits)

lemma cr_add_point_spec:
  assumes "cr_add_point ra m cr v = (m', ret, cr')" "cr_fits cr"
  shows "(ret = 0 \<or> ret = - 1) \<and> cr_fits cr' \<and> (ret = 0 \<longrightarrow> cr_points cr' = cr_points cr @ [v])"
  using assms by (auto simp: cr_add_point_def cr_fits_def Let_def split: if_splits prod.splits dest!: cr_realloc_spec)

lemma sorted_points_below: "sorted a \<Longrightarrow> a \<noteq> [] \<Longrightarrow> x < hd a \<Longrightarrow> points_upto a x = 0"
  by (cases a) (auto simp: points_upto_def filter_empty_conv)

lemma cr_op_loop_points:
  "sorted a \<Longrightarrow> sorted b \<Longrightarrow> odd (length (cr_points cr)) = op_bool opr (odd ai) (odd bi) \<Longrightarrow> cr_fits cr \<Longrightarrow>
   cr_op_loop ra opr m cr ai a bi b = (m', ret, cr') \<Longrightarrow> (ret = 0 \<or> ret = - 1) \<and> cr_fits cr' \<and> (ret = 0 \<longrightarrow>
     (\<exists>ext. cr_points cr' = cr_points cr @ ext \<and> sorted ext \<and> set ext \<subseteq> set a \<union> set b \<and>
        odd (length (cr_points cr')) = op_bool opr (odd (ai + length a)) (odd (bi + length b)) \<and>
        (\<forall>x. odd (length (cr_points cr) + points_upto ext x) =
             op_bool opr (odd (ai + points_upto a x)) (odd (bi + points_upto b x)))))"
proof (induction ra opr m cr ai a bi b rule: cr_op_loop.induct)
  case (1 ra opr m cr ai a bi b)
  show ?case
  proof (cases "a = [] \<and> b = []")
    case True
    then show ?thesis using "1.prems" by (subst (asm) cr_op_loop.simps) auto
  next
    case False
    define ta where "ta \<longleftrightarrow> a \<noteq> [] \<and> (b = [] \<or> hd a \<le> hd b)"
    define tb where "tb \<longleftrightarrow> b \<noteq> [] \<and> (a = [] \<or> hd b \<le> hd a)"
    define v where "v = (if ta then hd a else hd b)"
    define ai' where "ai' = (if ta then ai + 1 else ai)"
    define bi' where "bi' = (if tb then bi + 1 else bi)"
    define a' where "a' = (if ta then tl a else a)"
    define b' where "b' = (if tb then tl b else b)"
    note defs = ta_def tb_def v_def ai'_def bi'_def a'_def b'_def
    let ?change = "cr_is_in opr ai' bi' \<noteq> length (cr_points cr) AND 1"
    have step: "cr_op_loop ra opr m cr ai a bi b =
      (if ?change then let (m, ret, cr) = cr_add_point ra m cr v
         in if ret \<noteq> 0 then (m, - 1, cr) else cr_op_loop ra opr m cr ai' a' bi' b'
       else cr_op_loop ra opr m cr ai' a' bi' b')"
      using False by (subst cr_op_loop.simps) (simp only: if_False Let_def defs)
    have "linear": "hd a \<le> hd b \<or> hd b \<le> hd a" by (rule linear)
    have parts: "ta \<or> tb" "sorted a'" "sorted b'" "set a' \<subseteq> set a" "set b' \<subseteq> set b" "v \<in> set a \<union> set b"
      using False "linear" "1.prems"(1,2) by (auto simp: defs sorted_tl dest: list.set_sel(2))
    have cnt: "ai + length a = ai' + length a'" "bi + length b = bi' + length b'"
      by (auto simp: defs)
    have mina: "hd a \<le> x" if "x \<in> set a" for x using that "1.prems"(1) by (cases a) auto
    have minb: "hd b \<le> x" if "x \<in> set b" for x using that "1.prems"(2) by (cases b) auto
    have vmin: "v \<le> x" if "x \<in> set a \<union> set b" for x
      using that mina [of x] minb [of x] False unfolding defs by (auto split: if_splits)
    have ca: "ta \<Longrightarrow> a = v # a'" and cb: "tb \<Longrightarrow> b = v # b'"
      unfolding defs by (auto split: if_splits)
    have above: "ai + points_upto a x = ai' + points_upto a' x" "bi + points_upto b x = bi' + points_upto b' x" if "v \<le> x" for x
    proof -
      have "ta \<Longrightarrow> points_upto a x = Suc (points_upto a' x)" "tb \<Longrightarrow> points_upto b x = Suc (points_upto b' x)"
        using that arg_cong [OF ca, of "\<lambda>l. points_upto l x"] arg_cong [OF cb, of "\<lambda>l. points_upto l x"] by auto
      then show "ai + points_upto a x = ai' + points_upto a' x" "bi + points_upto b x = bi' + points_upto b' x"
        by (auto simp: ai'_def bi'_def a'_def b'_def)
    qed
    have none: "points_upto l x = 0" if "x < v" "set l \<subseteq> set a \<union> set b" for l x
      using that vmin by (fastforce simp: points_upto_def filter_empty_conv)
    have len1: "length (cr_points cr) AND 1 = of_bool (odd (length (cr_points cr)))" by (simp add: and_one_eq mod_2_eq_odd)
    have finish: "(ret = 0 \<or> ret = - 1) \<and> cr_fits cr' \<and> (ret = 0 \<longrightarrow>
     (\<exists>ext. cr_points cr' = cr_points cr @ ext \<and> sorted ext \<and> set ext \<subseteq> set a \<union> set b \<and>
        odd (length (cr_points cr')) = op_bool opr (odd (ai + length a)) (odd (bi + length b)) \<and>
        (\<forall>x. odd (length (cr_points cr) + points_upto ext x) =
             op_bool opr (odd (ai + points_upto a x)) (odd (bi + points_upto b x)))))"
      if p: "cr_points cr1 = cr_points cr @ pre" "set pre \<subseteq> {v}" "sorted pre" and
        ih: "(ret = 0 \<or> ret = - 1) \<and> cr_fits cr' \<and> (ret = 0 \<longrightarrow>
     (\<exists>ext. cr_points cr' = cr_points cr1 @ ext \<and> sorted ext \<and> set ext \<subseteq> set a' \<union> set b' \<and>
        odd (length (cr_points cr')) = op_bool opr (odd (ai' + length a')) (odd (bi' + length b')) \<and>
        (\<forall>x. odd (length (cr_points cr1) + points_upto ext x) =
             op_bool opr (odd (ai' + points_upto a' x)) (odd (bi' + points_upto b' x)))))" for cr1 pre
    proof (intro conjI impI)
      assume "ret = 0"
      then obtain ext where e: "cr_points cr' = cr_points cr1 @ ext" "sorted ext" "set ext \<subseteq> set a' \<union> set b'"
        "odd (length (cr_points cr')) = op_bool opr (odd (ai' + length a')) (odd (bi' + length b'))"
        "\<And>x. odd (length (cr_points cr1) + points_upto ext x) =
             op_bool opr (odd (ai' + points_upto a' x)) (odd (bi' + points_upto b' x))" using ih by blast
      have sub: "set ext \<subseteq> set a \<union> set b" using e(3) parts by blast
      have "sorted (pre @ ext)" using e(2) p vmin sub by (auto simp: sorted_append)
      moreover have "set (pre @ ext) \<subseteq> set a \<union> set b" using sub p(2) parts(6) by auto
      moreover have "odd (length (cr_points cr) + points_upto (pre @ ext) x) =
             op_bool opr (odd (ai + points_upto a x)) (odd (bi + points_upto b x))" for x
      proof (cases "v \<le> x")
        case True
        then have "points_upto pre x = length pre" using p(2) by (auto simp: points_upto_def intro!: filter_True arg_cong [of _ _ length])
        then show ?thesis using e(5) [of x] above [OF True] p(1) by (simp add: add.assoc)
      next
        case False
        then have "points_upto (pre @ ext) x = 0" "points_upto a x = 0" "points_upto b x = 0"
          using none \<open>set (pre @ ext) \<subseteq> set a \<union> set b\<close> by auto
        then show ?thesis using "1.prems"(3) by simp
      qed
      ultimately show "\<exists>ext. cr_points cr' = cr_points cr @ ext \<and> sorted ext \<and> set ext \<subseteq> set a \<union> set b \<and>
        odd (length (cr_points cr')) = op_bool opr (odd (ai + length a)) (odd (bi + length b)) \<and>
        (\<forall>x. odd (length (cr_points cr) + points_upto ext x) =
             op_bool opr (odd (ai + points_upto a x)) (odd (bi + points_upto b x)))"
        using e(1,4) p(1) cnt by (intro exI [of _ "pre @ ext"]) simp
    qed (use ih in auto)
    note IH = "1.IH" [OF False ta_def tb_def v_def ai'_def bi'_def a'_def b'_def]
    show ?thesis
    proof (cases ?change)
      case True
      obtain m1 ret1 cr1 where add: "cr_add_point ra m cr v = (m1, ret1, cr1)" by (cases "cr_add_point ra m cr v") auto
      have spec: "ret1 = 0 \<or> ret1 = - 1" "cr_fits cr1" "ret1 = 0 \<Longrightarrow> cr_points cr1 = cr_points cr @ [v]"
        using cr_add_point_spec [OF add "1.prems"(4)] by auto
      show ?thesis
      proof (cases "ret1 = 0")
        case ok: True
        have par: "odd (length (cr_points cr1)) = op_bool opr (odd ai') (odd bi')"
          using True spec(3) [OF ok] unfolding len1 cr_is_in_op by (auto simp: of_bool_def split: if_splits)
        have "cr_op_loop ra opr m1 cr1 ai' a' bi' b' = (m', ret, cr')"
          using "1.prems"(5) True add ok unfolding step by (simp add: Let_def)
        from finish [OF spec(3) [OF ok] _ _ IH(1) [OF True add [symmetric] refl refl _ parts(2,3) par spec(2) this]] ok
        show ?thesis by simp
      next
        case bad: False
        then have "ret = - 1" "cr' = cr1" using "1.prems"(5) True add unfolding step by (auto simp: Let_def)
        then show ?thesis using spec by auto
      qed
    next
      case same: False
      then have par: "odd (length (cr_points cr)) = op_bool opr (odd ai') (odd bi')"
        unfolding len1 cr_is_in_op by (auto simp: of_bool_def split: if_splits)
      have "cr_op_loop ra opr m cr ai' a' bi' b' = (m', ret, cr')"
        using "1.prems"(5) same unfolding step by simp
      from finish [of cr "[]", OF _ _ _ IH(2) [OF same parts(2,3) par "1.prems"(4) this]] show ?thesis by simp
    qed
  qed
qed

lemma op_set: "{x. op_bool opr (x \<in> S) (x \<in> T)} = cr_op_set opr S T"
  by (cases opr) auto

lemma cr_ok_compress: "cr_ok pts \<Longrightarrow> cr_ok (cr_compressed pts) \<and> sorted_wrt (<) (cr_compressed pts)"
  using cr_compressed_sorted [of pts] by (auto simp: cr_ok_def strict_sorted_iff)

lemma cr_compressed_length: "length (cr_compressed pts) \<le> length pts"
proof (induction pts rule: cr_compressed.induct)
  case (1 p q r)
  obtain e r' where l: "cr_last q r = (e, r')" by fastforce
  have "length r' \<le> length r" using cr_last_length [of e r' q r] l by simp
  then show ?case using 1 l by (cases "p = q") auto
qed auto

lemma cr_compress_fits: "cr_fits cr \<Longrightarrow> cr_fits (cr_compress cr)"
  using cr_compressed_length [of "cr_points cr"] by (simp add: cr_fits_def cr_compress_def)

lemma cr_op_loop_set:
  assumes "cr_ok a" "cr_ok b" "cr_points cr = []" "cr_fits cr" "cr_op ra m cr a b opr = (m', ret, cr')"
  shows "(ret = 0 \<or> ret = - 1) \<and> cr_fits cr' \<and> (ret = 0 \<longrightarrow> sorted_wrt (<) (cr_points cr') \<and> even (length (cr_points cr')) \<and>
    (\<forall>x. odd (points_upto (cr_points cr') x) = op_bool opr (odd (points_upto a x)) (odd (points_upto b x))))"
proof -
  obtain m1 ret1 cr1 where l: "cr_op_loop ra opr m cr 0 a 0 b = (m1, ret1, cr1)" by (cases "cr_op_loop ra opr m cr 0 a 0 b") auto
  have 0: "odd (length (cr_points cr)) = op_bool opr (odd (0 :: nat)) (odd (0 :: nat))" using assms(3) by (cases opr) auto
  have spec: "(ret1 = 0 \<or> ret1 = - 1) \<and> cr_fits cr1 \<and> (ret1 = 0 \<longrightarrow>
     (\<exists>ext. cr_points cr1 = cr_points cr @ ext \<and> sorted ext \<and> set ext \<subseteq> set a \<union> set b \<and>
        odd (length (cr_points cr1)) = op_bool opr (odd (0 + length a)) (odd (0 + length b)) \<and>
        (\<forall>x. odd (length (cr_points cr) + points_upto ext x) =
             op_bool opr (odd (0 + points_upto a x)) (odd (0 + points_upto b x)))))"
    by (rule cr_op_loop_points [OF _ _ 0 assms(4) l]) (use assms(1,2) in \<open>simp_all add: cr_ok_def\<close>)
  show ?thesis
  proof (cases "ret1 = 0")
    case True
    then have e: "sorted (cr_points cr1)" "odd (length (cr_points cr1)) = op_bool opr (odd (length a)) (odd (length b))"
      "\<forall>x. odd (points_upto (cr_points cr1) x) = op_bool opr (odd (points_upto a x)) (odd (points_upto b x))"
      using spec assms(3) by auto
    then have ok: "cr_ok (cr_points cr1)" using assms(1,2) by (cases opr) (auto simp: cr_ok_def)
    have "ret = 0" "cr' = cr_compress cr1" using assms(5) l True by (auto simp: cr_op_def)
    then show ?thesis using cr_ok_compress [OF ok] cr_compressed_points [of "cr_points cr1"] ok e(3) cr_compress_fits spec
      by (auto simp: cr_compress_def cr_ok_def)
  next
    case False
    then show ?thesis using spec assms(5) l by (auto simp: cr_op_def)
  qed
qed

lemma cr_op_ok:
  assumes "cr_ok a" "cr_ok b" "cr_points cr = []" "cr_fits cr" "cr_op ra m cr a b opr = (m', ret, cr')"
  shows "(ret = 0 \<or> ret = - 1) \<and> cr_fits cr' \<and>
    (ret = 0 \<longrightarrow> sorted_wrt (<) (cr_points cr') \<and> even (length (cr_points cr')) \<and>
       cr_set cr' = cr_op_set opr (points_set a) (points_set b))"
  using cr_op_loop_set [OF assms] op_set [of opr "points_set a" "points_set b"]
  by (auto simp: points_set_def)

text \<open>
  C20. cr_op computes the union, the intersection or the symmetric difference of two ranges: it
  returns -1 when an allocation fails, and otherwise a range in canonical form (strictly
  increasing points, an even number of them) of exactly that set; the points never outgrow
  their buffer.
\<close>

theorem cr_op_set_operation:
  assumes "cr_ok a" "cr_ok b" "cr_points cr = []" "cr_fits cr" "cr_op ra m cr a b opr = (m', ret, cr')"
  shows "(ret = 0 \<or> ret = - 1) \<and> cr_fits cr' \<and>
    (ret = 0 \<longrightarrow> sorted_wrt (<) (cr_points cr') \<and> even (length (cr_points cr')) \<and>
       cr_set cr' = cr_op_set opr (points_set a) (points_set b))"
  using assms by (rule cr_op_ok)

theorem cr_op_set_operation_witness:
  "\<exists>m' ret cr'. cr_op (\<lambda>m n. (m + n, True)) (0 :: nat) cr_init [1, 5, 7, 9] [3, 7] CR_OP_XOR = (m', ret, cr') \<and>
     (ret = 0 \<longrightarrow> cr_set cr' = cr_op_set CR_OP_XOR (points_set [1, 5, 7, 9]) (points_set [3, 7]))"
proof -
  obtain m' ret cr' where r: "cr_op (\<lambda>m n. (m + n, True)) (0 :: nat) cr_init [1, 5, 7, 9] [3, 7] CR_OP_XOR = (m', ret, cr')"
    by (cases "cr_op (\<lambda>m n. (m + n, True)) (0 :: nat) cr_init [1, 5, 7, 9] [3, 7] CR_OP_XOR") auto
  then show ?thesis using cr_op_set_operation [OF _ _ _ _ r] by (simp add: cr_ok_def cr_init_def cr_fits_def)
qed

lemma points_set_interval: "c1 \<le> c2 \<Longrightarrow> c2 \<noteq> 0xFFFFFFFF \<Longrightarrow> points_set [c1, c2 + 1] = {c1..c2} \<and> cr_ok [c1, c2 + 1]"
proof -
  assume c: "c1 \<le> c2" "c2 \<noteq> (0xFFFFFFFF :: u32)"
  have le: "c2 + 1 \<le> x \<longleftrightarrow> c2 < x" for x
  proof -
    have "unat c2 \<noteq> 0xFFFFFFFF" using c(2) by (simp add: word_unat_eq_iff)
    then have "unat (c2 + 1) = unat c2 + 1" using unat_u32_bound [of c2] by (simp add: unat_plus_if')
    then show ?thesis by (simp add: word_le_nat_alt word_less_nat_alt Suc_le_eq)
  qed
  have "c2 < c2 + 1" using le [of "c2 + 1"] by blast
  then have "c1 \<le> c2 + 1" using c(1) by simp
  then have ok: "cr_ok [c1, c2 + 1]" by (simp add: cr_ok_def)
  have "x \<in> points_set [c1, c2 + 1] \<longleftrightarrow> c1 \<le> x \<and> \<not> c2 < x" for x
  proof -
    have "c1 \<le> x" if "c2 < x" using c(1) that by (rule order_trans [OF _ less_imp_le])
    then show ?thesis unfolding points_set_def mem_Collect_eq points_upto_simps le
      by (cases "c2 < x"; cases "c1 \<le> x") simp_all
  qed
  then have "points_set [c1, c2 + 1] = {c1..c2}" by (simp add: set_eq_iff not_less)
  then show ?thesis using ok by (rule conjI)
qed

text \<open>
  cr_union_interval adds exactly the code points from c1 to c2 to the set of the range, for
  an interval that does not end at the largest 32-bit value, or returns -1.
\<close>

theorem cr_union_interval_adds:
  assumes "cr_ok (cr_points cr)" "c1 \<le> c2" "c2 \<noteq> 0xFFFFFFFF" "cr_union_interval ra m cr c1 c2 = (m', ret, cr')"
  shows "ret = - 1 \<or> ret = 0 \<and> cr_ok (cr_points cr') \<and> cr_set cr' = cr_set cr \<union> {c1..c2}"
proof -
  obtain m1 where r: "cr_op ra m (cr\<lparr>cr_size := 0, cr_points := []\<rparr>) (cr_points cr) [c1, c2 + 1] CR_OP_UNION = (m1, ret, cr')"
    using assms(4) by (auto simp: cr_union_interval_def cr_union1_def split: prod.splits)
  show ?thesis
    using cr_op_ok [OF assms(1) _ _ _ r] points_set_interval [OF assms(2,3)]
    by (auto simp: cr_fits_def cr_ok_def strict_sorted_iff)
qed

theorem cr_union_interval_adds_witness:
  "\<exists>m' ret cr'. cr_union_interval (\<lambda>m n. (m, True)) () (cr_init\<lparr>cr_size := 4, cr_points := [65, 91]\<rparr>) 48 57 = (m', ret, cr') \<and>
     (ret = - 1 \<or> ret = 0 \<and> cr_ok (cr_points cr') \<and> cr_set cr' = points_set [65, 91] \<union> {48..57})"
proof -
  let ?c = "cr_init\<lparr>cr_size := 4, cr_points := [65, 91]\<rparr>"
  obtain m' ret cr' where r: "cr_union_interval (\<lambda>m n. (m, True)) () ?c 48 57 = (m', ret, cr')"
    by (cases "cr_union_interval (\<lambda>m n. (m, True)) () ?c 48 57") auto
  then show ?thesis using cr_union_interval_adds [OF _ _ _ r] by (simp add: cr_ok_def)
qed

text \<open>
  cr_invert complements a range within the values below the largest 32-bit value, which is a
  member of no range, or returns -1 with the points unchanged.
\<close>

theorem cr_invert_complements:
  assumes "cr_ok (cr_points cr)" "cr_invert ra m cr = (m', ret, cr')"
  shows "ret = - 1 \<and> cr_points cr' = cr_points cr \<or>
    ret = 0 \<and> cr_ok (cr_points cr') \<and> cr_set cr' = {x. x < 0xFFFFFFFF} - cr_set cr \<and> 0xFFFFFFFF \<notin> cr_set cr"
proof -
  have max: "p \<le> (0xFFFFFFFF :: u32)" for p
    using unat_u32_bound [of p] by (simp add: word_le_nat_alt)
  obtain m1 ret1 cr1 where r: "cr_realloc ra m cr (length (cr_points cr) + 2) = (m1, ret1, cr1)"
    by (cases "cr_realloc ra m cr (length (cr_points cr) + 2)") auto
  have spec: "cr_points cr1 = cr_points cr" "ret1 = 0 \<or> ret1 = - 1" using cr_realloc_spec [OF r] by auto
  show ?thesis
  proof (cases "ret1 = 0")
    case True
    let ?pts = "0 # cr_points cr @ [0xFFFFFFFF]"
    have ok: "cr_ok ?pts" using assms(1) max by (auto simp: cr_ok_def sorted_append)
    have res: "ret = 0" "cr_points cr' = cr_compressed ?pts"
      using assms(2) r True spec by (auto simp: cr_invert_def cr_compress_def)
    have all: "points_upto (cr_points cr) 0xFFFFFFFF = length (cr_points cr)"
      using max by (simp add: points_upto_def)
    have "odd (points_upto (cr_compressed ?pts) x) = (x < 0xFFFFFFFF \<and> even (points_upto (cr_points cr) x))" for x
    proof (cases "x = 0xFFFFFFFF")
      case True
      then show ?thesis using cr_compressed_points [of ?pts x] ok all by (simp add: cr_ok_def)
    next
      case False
      then have "x < 0xFFFFFFFF" using max [of x] by simp
      then show ?thesis using cr_compressed_points [of ?pts x] ok by (simp add: cr_ok_def not_le)
    qed
    then show ?thesis using res cr_ok_compress [OF ok] all assms(1) by (auto simp: points_set_def cr_ok_def)
  next
    case False
    then show ?thesis using assms(2) r spec by (auto simp: cr_invert_def)
  qed
qed

theorem cr_invert_complements_witness:
  "\<exists>m' ret cr'. cr_invert (\<lambda>m n. (m, True)) () (cr_init\<lparr>cr_size := 2, cr_points := [0, 91]\<rparr>) = (m', ret, cr') \<and>
     (ret = - 1 \<and> cr_points cr' = [0, 91] \<or>
      ret = 0 \<and> cr_ok (cr_points cr') \<and> cr_set cr' = {x. x < 0xFFFFFFFF} - points_set [0, 91] \<and> 0xFFFFFFFF \<notin> points_set [0, 91])"
proof -
  let ?c = "cr_init\<lparr>cr_size := 2, cr_points := [0, 91]\<rparr>"
  obtain m' ret cr' where r: "cr_invert (\<lambda>m n. (m, True)) () ?c = (m', ret, cr')"
    by (cases "cr_invert (\<lambda>m n. (m, True)) () ?c") auto
  then show ?thesis using cr_invert_complements [OF _ r] by (simp add: cr_ok_def)
qed

end
