(* ===== verification/Uni_Case.thy ===== *)
theory Uni_Case
  imports Uni_Tables
begin

text \<open>
  quickjs/libunicode.c: lre_case_conv, the case conversion of one code point by a binary search
  in the table of runs, and the proof that it stays inside the tables for every code point and finds
  the run of the code point when there is one.
\<close>

datatype run_type =
    RUN_TYPE_U | RUN_TYPE_L | RUN_TYPE_UF | RUN_TYPE_LF | RUN_TYPE_UL | RUN_TYPE_LSU
  | RUN_TYPE_U2L_399_EXT2 | RUN_TYPE_UF_D20 | RUN_TYPE_UF_D1_EXT | RUN_TYPE_U_EXT
  | RUN_TYPE_LF_EXT | RUN_TYPE_U_EXT2 | RUN_TYPE_L_EXT2 | RUN_TYPE_U_EXT3

text \<open>The constants of the enumeration by their values; the others take the default of the switch.\<close>

definition run_type_of :: "nat \<Rightarrow> run_type" where
  "run_type_of t =
     (if t = 0 then RUN_TYPE_U else if t = 1 then RUN_TYPE_L else if t = 2 then RUN_TYPE_UF
      else if t = 3 then RUN_TYPE_LF else if t = 4 then RUN_TYPE_UL else if t = 5 then RUN_TYPE_LSU
      else if t = 6 then RUN_TYPE_U2L_399_EXT2 else if t = 7 then RUN_TYPE_UF_D20
      else if t = 8 then RUN_TYPE_UF_D1_EXT else if t = 9 then RUN_TYPE_U_EXT
      else if t = 10 then RUN_TYPE_LF_EXT else if t = 11 then RUN_TYPE_U_EXT2
      else if t = 12 then RUN_TYPE_L_EXT2 else RUN_TYPE_U_EXT3)"

definition tab_at :: "'a list \<Rightarrow> nat \<Rightarrow> 'a option" where
  "tab_at t i = (if i < length t then Some (t ! i) else None)"

definition run_code :: "u32 \<Rightarrow> u32" where "run_code v = drop_bit (32 - 17) v"
definition run_len :: "u32 \<Rightarrow> u32" where "run_len v = drop_bit (32 - 17 - 7) v AND 0x7f"

text \<open>The binary search; idx_max falls to -1 below the first run.\<close>

function case_search :: "u32 \<Rightarrow> int \<Rightarrow> int \<Rightarrow> nat option option" where
  "case_search c idx_min idx_max =
     (if idx_min \<le> idx_max
      then let idx = (idx_max + idx_min) div 2
           in do { v \<leftarrow> tab_at case_conv_table1 (nat idx);
                   if c < run_code v then case_search c idx_min (idx - 1)
                   else if c \<ge> run_code v + run_len v then case_search c (idx + 1) idx_max
                   else Some (Some (nat idx)) }
      else Some None)"
  by pat_completeness auto
termination by (relation "measure (\<lambda>(c, idx_min, idx_max). nat (idx_max - idx_min + 1))") auto

declare case_search.simps [simp del]

definition case_conv_find :: "u32 \<Rightarrow> nat option option" where
  "case_conv_find c = case_search c 0 (int (length case_conv_table1) - 1)"

text \<open>The switch over the kind of the run; the result is the list of the code points in res.\<close>

definition case_conv_switch :: "u32 \<Rightarrow> nat \<Rightarrow> u32 \<Rightarrow> nat \<Rightarrow> nat \<Rightarrow> u32 list option" where
  "case_conv_switch c conv_type code typ data =
     (let is_lower = of_bool (conv_type \<noteq> 0) :: nat;
          ext = (\<lambda>i. map_option ucast (tab_at case_conv_ext i)) :: nat \<Rightarrow> u32 option;
          straight = (if conv_type = (typ AND 1) \<or> typ \<ge> 2 \<and> conv_type = 2
             then do { w \<leftarrow> tab_at case_conv_table1 data; Some [c - code + run_code w] } else Some [c])
      in case run_type_of typ of
           RUN_TYPE_U \<Rightarrow> straight | RUN_TYPE_L \<Rightarrow> straight | RUN_TYPE_UF \<Rightarrow> straight | RUN_TYPE_LF \<Rightarrow> straight
         | RUN_TYPE_UL \<Rightarrow>
             (let a = c - code in Some [if (a AND 1) \<noteq> 1 - of_nat is_lower then c else (a XOR 1) + code])
         | RUN_TYPE_LSU \<Rightarrow>
             (let a = c - code
              in Some [if a = 1 then c + (2 * of_nat is_lower - 1)
                       else if a = (1 - of_nat is_lower) * 2 then c + (2 * of_nat is_lower - 1) * 2 else c])
         | RUN_TYPE_U2L_399_EXT2 \<Rightarrow>
             (if is_lower = 0 then do { e \<leftarrow> ext (drop_bit 6 data); Some [c - code + e, 0x399] }
              else do { e \<leftarrow> ext (data AND 0x3f); Some [c - code + e] })
         | RUN_TYPE_UF_D20 \<Rightarrow>
             Some [if conv_type = 1 then c else of_nat data + of_bool (conv_type = 2) * 0x20]
         | RUN_TYPE_UF_D1_EXT \<Rightarrow>
             (if conv_type = 1 then Some [c] else do { e \<leftarrow> ext data; Some [e + of_bool (conv_type = 2)] })
         | RUN_TYPE_U_EXT \<Rightarrow> (if is_lower \<noteq> typ - 9 then Some [c] else do { e \<leftarrow> ext data; Some [e] })
         | RUN_TYPE_LF_EXT \<Rightarrow> (if is_lower \<noteq> typ - 9 then Some [c] else do { e \<leftarrow> ext data; Some [e] })
         | RUN_TYPE_U_EXT2 \<Rightarrow>
             (if conv_type \<noteq> typ - 11 then Some [c]
              else do { e \<leftarrow> ext (drop_bit 6 data); f \<leftarrow> ext (data AND 0x3f); Some [c - code + e, f] })
         | RUN_TYPE_L_EXT2 \<Rightarrow>
             (if conv_type \<noteq> typ - 11 then Some [c]
              else do { e \<leftarrow> ext (drop_bit 6 data); f \<leftarrow> ext (data AND 0x3f); Some [c - code + e, f] })
         | RUN_TYPE_U_EXT3 \<Rightarrow>
             (if conv_type \<noteq> 0 then Some [c]
              else do { e \<leftarrow> ext (drop_bit 8 data); f \<leftarrow> ext (drop_bit 4 data AND 0xf); g \<leftarrow> ext (data AND 0xf);
                        Some [e, f, g] }))"

definition case_conv_run :: "u32 \<Rightarrow> nat \<Rightarrow> u32 \<Rightarrow> u8 \<Rightarrow> u32 list option" where
  "case_conv_run c conv_type v d =
     case_conv_switch c conv_type (run_code v) (unat (drop_bit (32 - 17 - 7 - 4) v AND 0xf))
       (unat (push_bit 8 (v AND 0xf) OR ucast d))"

definition lre_case_conv :: "u32 \<Rightarrow> nat \<Rightarrow> u32 list option" where
  "lre_case_conv c conv_type =
     (if c < 128
      then Some [if conv_type \<noteq> 0 then (if c \<ge> 65 \<and> c \<le> 90 then c - 65 + 97 else c)
                 else (if c \<ge> 97 \<and> c \<le> 122 then c - 97 + 65 else c)]
      else do {
        i \<leftarrow> case_conv_find c;
        case i of
          None \<Rightarrow> Some [c]
        | Some idx \<Rightarrow> do { v \<leftarrow> tab_at case_conv_table1 idx; d \<leftarrow> tab_at case_conv_table2 idx; case_conv_run c conv_type v d } })"

section \<open>The tables\<close>

definition code_nat :: "u32 \<Rightarrow> nat" where "code_nat v = unat v div 2 ^ 15"
definition len_nat :: "u32 \<Rightarrow> nat" where "len_nat v = unat v div 2 ^ 8 mod 2 ^ 7"

lemma unat_run_code: "unat (run_code v) = code_nat v"
  by (simp add: run_code_def code_nat_def unsigned_drop_bit_eq drop_bit_eq_div unat_div)

lemma unat_run_len: "unat (run_len v) = len_nat v"
proof -
  have "run_len v = take_bit 7 (drop_bit 8 v)" by (simp add: run_len_def take_bit_eq_mask mask_eq_exp_minus_1)
  then show ?thesis by (simp add: len_nat_def unsigned_take_bit_eq unsigned_drop_bit_eq drop_bit_eq_div take_bit_eq_mod unat_div unat_mod)
qed

lemma unat_run_end: "unat (run_code v + run_len v) = code_nat v + len_nat v"
proof -
  have "code_nat v + len_nat v < 2 ^ 32"
  proof -
    have "code_nat v \<le> unat v div 2 ^ 15" "len_nat v < 2 ^ 7" by (simp_all add: code_nat_def len_nat_def)
    moreover have "unat v div 2 ^ 15 < 2 ^ 17" using unat_u32_bound [of v] by (simp add: less_mult_imp_div_less)
    ultimately show ?thesis by simp
  qed
  then show ?thesis by (simp add: unat_plus_if' unat_run_code unat_run_len)
qed

definition before :: "u32 \<Rightarrow> u32 \<Rightarrow> bool" where
  "before v w \<longleftrightarrow> code_nat v + len_nat v \<le> code_nat w"

fun runs_from :: "nat \<Rightarrow> u32 list \<Rightarrow> bool" where
  "runs_from e [] = True"
| "runs_from e (v # vs) = (e \<le> code_nat v \<and> runs_from (code_nat v + len_nat v) vs)"

lemma runs_from_sorted: "runs_from e vs \<Longrightarrow> sorted_wrt before vs \<and> (\<forall>v \<in> set vs. e \<le> code_nat v)"
proof (induction vs arbitrary: e)
  case (Cons v vs)
  then have "sorted_wrt before vs" "\<forall>w \<in> set vs. code_nat v + len_nat v \<le> code_nat w" "e \<le> code_nat v" by auto
  moreover from this(2) have "\<forall>w \<in> set vs. before v w" by (simp add: before_def)
  ultimately show ?case by auto
qed simp

lemma table1_runs: "runs_from 0 case_conv_table1"
  by (simp add: case_conv_table1_def code_nat_def len_nat_def)

lemmas table1_sorted = runs_from_sorted [OF table1_runs, THEN conjunct1]

lemma table1_length: "length case_conv_table1 = 370" "length case_conv_table2 = 370" "length case_conv_ext = 58"
  by (simp_all add: case_conv_table1_def case_conv_table2_def case_conv_ext_def)

definition switch_ok :: "nat \<Rightarrow> nat \<Rightarrow> bool" where
  "switch_ok t data =
     (if t < 4 then data < 370
      else if t = 4 \<or> t = 5 \<or> t = 7 then True
      else if t = 6 \<or> t = 11 \<or> t = 12 then data div 64 < 58 \<and> data mod 64 < 58
      else if t = 8 \<or> t = 9 \<or> t = 10 then data < 58
      else data div 256 < 58)"

definition run_ok :: "u32 \<Rightarrow> u8 \<Rightarrow> bool" where
  "run_ok v d = switch_ok (unat v div 16 mod 16) (unat v mod 16 * 256 + unat d)"

lemma runs_ok: "list_all2 run_ok case_conv_table1 case_conv_table2"
  by (simp add: case_conv_table1_def case_conv_table2_def run_ok_def switch_ok_def)

section \<open>The search\<close>

definition covers :: "u32 \<Rightarrow> u32 \<Rightarrow> bool" where
  "covers v c \<longleftrightarrow> code_nat v \<le> unat c \<and> unat c < code_nat v + len_nat v"

lemma c_below: "c < run_code v \<longleftrightarrow> unat c < code_nat v"
  by (simp add: word_less_nat_alt unat_run_code)

lemma c_above: "c \<ge> run_code v + run_len v \<longleftrightarrow> code_nat v + len_nat v \<le> unat c"
  by (simp add: word_le_nat_alt unat_run_end)

lemma table1_before: "i < j \<Longrightarrow> j < 370 \<Longrightarrow> before (case_conv_table1 ! i) (case_conv_table1 ! j)"
  using table1_sorted by (simp add: sorted_wrt_iff_nth_less table1_length)

lemma case_search_correct:
  "0 \<le> lo \<Longrightarrow> hi < 370 \<Longrightarrow>
    (\<And>j. j < 370 \<Longrightarrow> int j < lo \<Longrightarrow> code_nat (case_conv_table1 ! j) + len_nat (case_conv_table1 ! j) \<le> unat c) \<Longrightarrow>
    (\<And>j. j < 370 \<Longrightarrow> hi < int j \<Longrightarrow> unat c < code_nat (case_conv_table1 ! j)) \<Longrightarrow>
    \<exists>r. case_search c lo hi = Some r \<and> (\<forall>i. r = Some i \<longleftrightarrow> i < 370 \<and> covers (case_conv_table1 ! i) c)"
proof (induction c lo hi rule: case_search.induct)
  case (1 c lo hi)
  show ?case
  proof (cases "lo \<le> hi")
    case False
    have "\<not> covers (case_conv_table1 ! i) c" if "i < 370" for i
    proof (cases "int i < lo")
      case True
      then show ?thesis using "1.prems"(3) [OF that] by (simp add: covers_def)
    next
      case ge: False
      then have "hi < int i" using False by simp
      then show ?thesis using "1.prems"(4) [OF that] by (simp add: covers_def)
    qed
    then show ?thesis using False by (subst case_search.simps) auto
  next
    case True
    define k where "k = nat ((hi + lo) div 2)"
    have kb: "lo \<le> int k" "int k \<le> hi" "k < 370" "(hi + lo) div 2 = int k" unfolding k_def using True "1.prems"(1,2) by auto
    let ?v = "case_conv_table1 ! k"
    have rd: "tab_at case_conv_table1 (nat ((hi + lo) div 2)) = Some ?v"
      using kb by (simp add: tab_at_def table1_length)
    have step: "case_search c lo hi =
      (if unat c < code_nat ?v then case_search c lo (int k - 1)
       else if code_nat ?v + len_nat ?v \<le> unat c then case_search c (int k + 1) hi else Some (Some k))"
      using True rd by (subst case_search.simps) (simp add: Let_def c_below c_above kb(4))
    have unique: "i = k" if "i < 370" "covers (case_conv_table1 ! i) c" "covers ?v c" for i
    proof (rule ccontr)
      assume "i \<noteq> k"
      then consider "i < k" | "k < i" by linarith
      then show False
        using table1_before [of i k] table1_before [of k i] that kb(3) by cases (auto simp: before_def covers_def)
    qed
    consider "unat c < code_nat ?v" | "\<not> unat c < code_nat ?v" "code_nat ?v + len_nat ?v \<le> unat c"
      | "\<not> unat c < code_nat ?v" "\<not> code_nat ?v + len_nat ?v \<le> unat c" by linarith
    then show ?thesis
    proof cases
      case 1
      have "unat c < code_nat (case_conv_table1 ! j)" if "j < 370" "int k - 1 < int j" for j
        using table1_before [of k j] that 1 by (cases "j = k") (auto simp: before_def)
      then have "\<exists>r. case_search c lo (int k - 1) = Some r \<and> (\<forall>i. r = Some i \<longleftrightarrow> i < 370 \<and> covers (case_conv_table1 ! i) c)"
        using "1.IH"(1) [OF True refl rd, unfolded kb(4)] "1.prems" kb 1 by (auto simp: c_below kb(4))
      then show ?thesis using 1 step by simp
    next
      case 2
      have "code_nat (case_conv_table1 ! j) + len_nat (case_conv_table1 ! j) \<le> unat c" if "j < 370" "int j < int k + 1" for j
        using table1_before [of j k] that 2 kb(3) by (cases "j = k") (auto simp: before_def)
      then have "\<exists>r. case_search c (int k + 1) hi = Some r \<and> (\<forall>i. r = Some i \<longleftrightarrow> i < 370 \<and> covers (case_conv_table1 ! i) c)"
        using "1.IH"(2) [OF True refl rd, unfolded kb(4)] "1.prems" kb 2 by (auto simp: c_below c_above kb(4))
      then show ?thesis using 2 step by simp
    next
      case 3
      then have "covers ?v c" by (simp add: covers_def)
      then have "Some k = Some i \<longleftrightarrow> i < 370 \<and> covers (case_conv_table1 ! i) c" for i
        using unique [of i] kb(3) by blast
      moreover have "case_search c lo hi = Some (Some k)" using step 3 by simp
      ultimately show ?thesis by blast
    qed
  qed
qed

lemma case_conv_find_ok:
  "\<exists>r. case_conv_find c = Some r \<and> (\<forall>i. r = Some i \<longleftrightarrow> i < 370 \<and> covers (case_conv_table1 ! i) c)"
  unfolding case_conv_find_def by (rule case_search_correct) (auto simp: table1_length)

text \<open>
  The binary search of the case conversion never reads outside its table and finds a run
  exactly when one covers the code point, and then the only one, for each of the 2^32 arguments.
\<close>

theorem case_conv_find_correct:
  "\<exists>r. case_conv_find c = Some r \<and>
    (\<forall>i. r = Some i \<longleftrightarrow> i < length case_conv_table1 \<and> covers (case_conv_table1 ! i) c)"
  using case_conv_find_ok by (simp add: table1_length)

lemma run_type_nat: "unat (drop_bit 4 (v :: u32) AND 0xf) = unat v div 16 mod 16"
proof -
  have "drop_bit 4 v AND 0xf = take_bit 4 (drop_bit 4 v)" by (simp add: take_bit_eq_mask mask_eq_exp_minus_1)
  then show ?thesis by (simp add: unsigned_take_bit_eq unsigned_drop_bit_eq drop_bit_eq_div take_bit_eq_mod unat_div unat_mod)
qed

lemma run_data_nat: "unat (push_bit 8 ((v :: u32) AND 0xf) OR ucast (d :: u8)) = unat v mod 16 * 256 + unat d"
proof -
  have "v AND 0xf = take_bit 4 v" by (simp add: take_bit_eq_mask mask_eq_exp_minus_1)
  moreover have "push_bit 8 (take_bit 4 v) OR ucast d = push_bit 8 (take_bit 4 v) + (ucast d :: u32)"
    by (rule disjunctive_add [symmetric]) (auto simp: bit_simps dest: bit_imp_le_length)
  moreover have "unat (push_bit 8 (take_bit 4 v)) = unat v mod 16 * 256"
  proof -
    have t: "unat (take_bit 4 v) = unat v mod 16" by (simp add: unsigned_take_bit_eq take_bit_eq_mod unat_mod)
    have "push_bit 8 (take_bit 4 v) = take_bit 4 v * 256" by (simp add: push_bit_eq_mult)
    then have "unat (push_bit 8 (take_bit 4 v)) = (unat v mod 16 * 256) mod 2 ^ 32" by (simp only: unat_word_ariths t) simp
    moreover have "unat v mod 16 < 16" by simp
    then have "unat v mod 16 * 256 < 4294967296" by linarith
    ultimately show ?thesis by simp
  qed
  moreover have "unat v mod 16 * 256 + unat d < 4294967296"
  proof -
    have "unat v mod 16 < 16" by simp
    then show ?thesis using unat_u8_bound [of d] by linarith
  qed
  moreover have "unat (ucast d :: u32) = unat d" by (simp add: unsigned_ucast_eq take_bit_nat_eq_self unat_u8_bound order_less_trans [OF unat_u8_bound])
  ultimately show ?thesis by (simp add: unat_plus_if')
qed

lemma nat_masks:
  "drop_bit 6 n = n div 64" "n AND 0x3f = n mod 64" "drop_bit 8 n = n div 256" "drop_bit 4 n AND 0xf = n div 16 mod 16"
  "n AND 0xf = n mod 16" for n :: nat
proof -
  have m: "n AND (2 ^ k - 1) = n mod 2 ^ k" for n k :: nat
    by (metis mask_eq_exp_minus_1 take_bit_eq_mask take_bit_eq_mod)
  show "drop_bit 6 n = n div 64" "n AND 0x3f = n mod 64" "drop_bit 8 n = n div 256" "drop_bit 4 n AND 0xf = n div 16 mod 16"
    "n AND 0xf = n mod 16"
    using m [of n 6] m [of "n div 16" 4] m [of n 4] by (simp_all add: drop_bit_eq_div)
qed

lemma ext_at: "i < 58 \<Longrightarrow> \<exists>e. tab_at case_conv_ext i = Some e"
  by (simp add: tab_at_def table1_length)

lemma table1_at: "i < 370 \<Longrightarrow> \<exists>w. tab_at case_conv_table1 i = Some w"
  by (simp add: tab_at_def table1_length)

lemma case_conv_switch_total:
  assumes "switch_ok t data"
  shows "\<exists>res. case_conv_switch c conv_type code t data = Some res \<and> 1 \<le> length res \<and> length res \<le> 3"
proof -
  have small: "n mod 16 < 58" for n :: nat by (rule order_less_trans [OF mod_less_divisor]) simp_all
  note sm = case_conv_switch_def Let_def nat_masks run_type_of_def
  consider "t < 4" | "t = 4 \<or> t = 5 \<or> t = 7" | "t = 6 \<or> t = 11 \<or> t = 12" | "t = 8 \<or> t = 9 \<or> t = 10" | "13 \<le> t" by linarith
  then show ?thesis
  proof cases
    case 1
    then obtain w where "tab_at case_conv_table1 data = Some w" using table1_at assms by (auto simp: switch_ok_def)
    moreover have "t = 0 \<or> t = 1 \<or> t = 2 \<or> t = 3" using 1 by linarith
    ultimately show ?thesis by (auto simp: sm)
  next
    case 2
    then show ?thesis by (auto simp: sm)
  next
    case 3
    then obtain e f where "tab_at case_conv_ext (data div 64) = Some e" "tab_at case_conv_ext (data mod 64) = Some f"
      using ext_at [of "data div 64"] ext_at [of "data mod 64"] assms by (auto simp: switch_ok_def)
    then show ?thesis using 3 by (auto simp: sm)
  next
    case 4
    then obtain e where "tab_at case_conv_ext data = Some e" using ext_at [of data] assms by (auto simp: switch_ok_def)
    then show ?thesis using 4 by (auto simp: sm)
  next
    case 5
    then obtain e f g where "tab_at case_conv_ext (data div 256) = Some e" "tab_at case_conv_ext (data div 16 mod 16) = Some f"
      "tab_at case_conv_ext (data mod 16) = Some g"
      using ext_at [of "data div 256"] ext_at [OF small [of "data div 16"]] ext_at [OF small [of data]] assms
      by (auto simp: switch_ok_def)
    then show ?thesis using 5 by (auto simp: sm drop_bit_eq_div)
  qed
qed

lemma case_conv_run_total:
  assumes "run_ok v d"
  shows "\<exists>res. case_conv_run c conv_type v d = Some res \<and> 1 \<le> length res \<and> length res \<le> 3"
  using assms run_type_nat [of v] run_data_nat [of v d] unfolding case_conv_run_def run_ok_def
  by (simp add: case_conv_switch_total del: One_nat_def)

lemma lre_case_conv_ok:
  "\<exists>res. lre_case_conv c conv_type = Some res \<and> 1 \<le> length res \<and> length res \<le> 3"
proof (cases "c < 128")
  case False
  obtain r where r: "case_conv_find c = Some r" "\<forall>i. r = Some i \<longleftrightarrow> i < 370 \<and> covers (case_conv_table1 ! i) c"
    using case_conv_find_ok by blast
  show ?thesis
  proof (cases r)
    case None
    then show ?thesis using False r by (simp add: lre_case_conv_def)
  next
    case (Some i)
    then have i: "i < 370" using r(2) by blast
    have "run_ok (case_conv_table1 ! i) (case_conv_table2 ! i)"
      using list_all2_nthD [OF runs_ok, of i] i by (simp add: table1_length)
    from case_conv_run_total [OF this] show ?thesis
      using False r(1) Some i by (simp add: lre_case_conv_def tab_at_def table1_length)
  qed
qed (simp add: lre_case_conv_def)

text \<open>
  C33. lre_case_conv is total: for each of the 2^32 code points and every kind of conversion it
  stays inside its three tables and returns one to three code points, what the caller's buffer
  of LRE_CC_RES_LEN_MAX can hold.
\<close>

theorem lre_case_conv_total:
  "\<exists>res. lre_case_conv c conv_type = Some res \<and> 1 \<le> length res \<and> length res \<le> 3"
  by (rule lre_case_conv_ok)

end
