(* ===== verification/Uni_Prop.thy ===== *)
theory Uni_Prop
  imports Uni_Case
begin

text \<open>
  quickjs/libunicode.c: the properties of code points (cased, case ignorable), which are kept as
  run lengths with an index of every 32nd byte. The reference is the set that the whole table
  describes when it is read from its beginning.
\<close>

definition get_le24 :: "bytes \<Rightarrow> nat \<Rightarrow> u32 option" where
  "get_le24 ptr i =
     do { a \<leftarrow> rd ptr i; b \<leftarrow> rd ptr (i + 1); c \<leftarrow> rd ptr (i + 2);
          Some (ucast a OR push_bit 8 (ucast b) OR push_bit 16 (ucast c)) }"

definition UNICODE_INDEX_BLOCK_LEN :: nat where "UNICODE_INDEX_BLOCK_LEN = 32"

function index_search :: "u32 \<Rightarrow> bytes \<Rightarrow> nat \<Rightarrow> nat \<Rightarrow> nat option" where
  "index_search c index_table idx_min idx_max =
     (if idx_max - idx_min > 1
      then let idx = (idx_max + idx_min) div 2
           in do { v \<leftarrow> get_le24 index_table (idx * 3);
                   if c < (v AND (push_bit 21 1 - 1)) then index_search c index_table idx_min idx
                   else index_search c index_table idx idx_max }
      else Some idx_min)"
  by pat_completeness auto
termination by (relation "measure (\<lambda>(c, t, idx_min, idx_max). idx_max - idx_min)") auto

declare index_search.simps [simp del]

text \<open>\<^const>\<open>None\<close> inside is -1; otherwise the code and the offset of the block.\<close>

definition get_index_pos :: "u32 \<Rightarrow> bytes \<Rightarrow> nat \<Rightarrow> (u32 \<times> nat) option option" where
  "get_index_pos c index_table index_table_len =
     do { v \<leftarrow> get_le24 index_table 0;
          if c < (v AND (push_bit 21 1 - 1)) then Some (Some (0, 0))
          else do {
            let idx_max = index_table_len - 1;
            code \<leftarrow> get_le24 index_table (idx_max * 3);
            if c \<ge> code then Some None
            else do {
              idx_min \<leftarrow> index_search c index_table 0 idx_max;
              v \<leftarrow> get_le24 index_table (idx_min * 3);
              Some (Some (v AND (push_bit 21 1 - 1), (idx_min + 1) * UNICODE_INDEX_BLOCK_LEN + unat (drop_bit 21 v))) } } }"

text \<open>The loop over the bytes from the block on.\<close>

function table_scan :: "u32 \<Rightarrow> u32 \<Rightarrow> bool \<Rightarrow> bytes \<Rightarrow> bool option" where
  "table_scan c code bt [] = None"
| "table_scan c code bt (byte # p) =
     (let b = ucast byte :: u32
      in if b < 64
         then (let code = code + (drop_bit 3 b + 1)
               in if c < code then Some bt
                  else let bt = (\<not> bt); code = code + ((b AND 7) + 1)
                       in if c < code then Some bt else table_scan c code (\<not> bt) p)
         else if b \<ge> 0x80
         then (let code = code + (b - 0x80 + 1) in if c < code then Some bt else table_scan c code (\<not> bt) p)
         else if b < 0x60
         then (case p of [] \<Rightarrow> None
               | x # p \<Rightarrow> let code = code + ((push_bit 8 (b - 0x40) OR ucast x) + 1)
                          in if c < code then Some bt else table_scan c code (\<not> bt) p)
         else (case p of x # y # p \<Rightarrow> let code = code + ((push_bit 16 (b - 0x60) OR push_bit 8 (ucast x) OR ucast y) + 1)
                          in if c < code then Some bt else table_scan c code (\<not> bt) p
               | _ \<Rightarrow> None))"
  by pat_completeness auto
termination by (relation "measure (\<lambda>(c, code, bt, p). length p)") auto

declare table_scan.simps [simp del]

definition lre_is_in_table :: "u32 \<Rightarrow> bytes \<Rightarrow> bytes \<Rightarrow> nat \<Rightarrow> bool option" where
  "lre_is_in_table c table index_table index_table_len =
     do { r \<leftarrow> get_index_pos c index_table index_table_len;
          case r of None \<Rightarrow> Some False | Some (code, pos) \<Rightarrow> table_scan c code False (drop pos table) }"

definition lre_is_cased :: "u32 \<Rightarrow> bool option" where
  "lre_is_cased c =
     do { r \<leftarrow> case_conv_find c;
          if r \<noteq> None then Some True
          else lre_is_in_table c unicode_prop_Cased1_table unicode_prop_Cased1_index
                 (length unicode_prop_Cased1_index div 3) }"

definition lre_is_case_ignorable :: "u32 \<Rightarrow> bool option" where
  "lre_is_case_ignorable c =
     lre_is_in_table c unicode_prop_Case_Ignorable_table unicode_prop_Case_Ignorable_index
       (length unicode_prop_Case_Ignorable_index div 3)"

section \<open>The set of a table\<close>

text \<open>The lengths of the runs one step of the scan reads, how many bytes it takes, and the rest.\<close>

fun table_step :: "int list \<Rightarrow> (int list \<times> nat \<times> int list) option" where
  "table_step [] = None"
| "table_step (b # p) =
     (if b < 64 then Some ([b div 8 + 1, b mod 8 + 1], 1, p)
      else if b \<ge> 128 then Some ([b - 127], 1, p)
      else if b < 96 then (case p of x # p \<Rightarrow> Some ([(b - 64) * 256 + x + 1], 2, p) | _ \<Rightarrow> None)
      else (case p of x # y # p \<Rightarrow> Some ([(b - 96) * 65536 + x * 256 + y + 1], 3, p) | _ \<Rightarrow> None))"

lemma table_step_length: "table_step bs = Some (ls, k, bs') \<Longrightarrow> length bs' < length bs"
  by (cases bs rule: table_step.cases) (auto split: if_splits list.splits)

fun bounds_from :: "int \<Rightarrow> int list \<Rightarrow> int list" where
  "bounds_from code [] = []"
| "bounds_from code (l # ls) = (code + l) # bounds_from (code + l) ls"

function table_bounds :: "int \<Rightarrow> int list \<Rightarrow> int list" where
  "table_bounds code bs =
     (case table_step bs of None \<Rightarrow> []
      | Some (ls, k, bs') \<Rightarrow> bounds_from code ls @ table_bounds (code + sum_list ls) bs')"
  by pat_completeness auto
termination by (relation "measure (\<lambda>(code, bs). length bs)") (auto dest: table_step_length)

declare table_bounds.simps [simp del]

text \<open>
  The code points with an odd number of bounds below them, as far as the table goes.
\<close>

definition table_member :: "int list \<Rightarrow> int \<Rightarrow> bool" where
  "table_member table c =
     (let bs = table_bounds 0 table in bs \<noteq> [] \<and> c < last bs \<and> odd (length (filter (\<lambda>p. p \<le> c) bs)))"

text \<open>
  The check of an index: every entry is a position where a step begins, with the code reached
  there and an even number of runs before it; the last one is the end of the table.
\<close>

fun index_entries :: "int \<Rightarrow> int list \<Rightarrow> (int \<times> int) list" where
  "index_entries i (a # b # c # r) = (i * 32 + c div 32, a + 256 * b + 65536 * (c mod 32)) # index_entries (i + 1) r"
| "index_entries i _ = []"

function block_ok :: "(int \<times> int) list \<Rightarrow> int \<Rightarrow> int \<Rightarrow> bool \<Rightarrow> int list \<Rightarrow> bool" where
  "block_ok es pos code od [] = (\<exists>p. es = [(p, code)])"
| "block_ok es pos code od (b # p) =
    (if es = [] then False
     else if snd (hd es) = code then (fst (hd es) = pos \<and> \<not> od \<and> block_ok (tl es) pos code od (b # p))
     else if b < 64 then block_ok es (pos + 1) (code + (b div 8 + 1 + (b mod 8 + 1))) od p
     else if b \<ge> 128 then block_ok es (pos + 1) (code + (b - 127)) (\<not> od) p
     else if b < 96 then (case p of x # p \<Rightarrow> block_ok es (pos + 2) (code + ((b - 64) * 256 + x + 1)) (\<not> od) p | _ \<Rightarrow> False)
     else (case p of x # y # p \<Rightarrow> block_ok es (pos + 3) (code + ((b - 96) * 65536 + x * 256 + y + 1)) (\<not> od) p | _ \<Rightarrow> False))"
  by pat_completeness auto
termination by (relation "measures [\<lambda>(es, pos, code, b, bs). length bs, \<lambda>(es, pos, code, b, bs). length es]") auto

definition table_ok :: "bytes \<Rightarrow> bytes \<Rightarrow> bool" where
  "table_ok table index \<longleftrightarrow>
     length index mod 3 = 0 \<and> index \<noteq> [] \<and> table \<noteq> [] \<and> snd (last (index_entries 1 (map uint index))) < 2 ^ 21 \<and>
     uint (last index) < 32 \<and>
     block_ok (index_entries 1 (map uint index)) 0 0 False (map uint table)"

lemma cased1_ok: "table_ok unicode_prop_Cased1_table unicode_prop_Cased1_index"
  by (simp add: table_ok_def unicode_prop_Cased1_table_def unicode_prop_Cased1_index_def)

lemma case_ignorable_ok: "table_ok unicode_prop_Case_Ignorable_table unicode_prop_Case_Ignorable_index"
  by (simp add: table_ok_def unicode_prop_Case_Ignorable_table_def unicode_prop_Case_Ignorable_index_def)

declare block_ok.simps [simp del]

section \<open>The scan\<close>

lemma table_step_facts:
  assumes "table_step bs = Some (ls, k, bs')" "\<forall>b \<in> set bs. 0 \<le> b"
  shows "bs' = drop k bs" "1 \<le> k" "k \<le> length bs" "\<forall>l \<in> set ls. 1 \<le> l" "length ls = 1 \<or> length ls = 2" "\<forall>b \<in> set bs'. 0 \<le> b"
  using assms by (cases bs rule: table_step.cases; auto split: if_splits list.splits)+

lemma bounds_from_facts:
  "\<forall>l \<in> set ls. 1 \<le> l \<Longrightarrow> length (bounds_from code ls) = length ls \<and>
     (\<forall>x \<in> set (bounds_from code ls). code < x \<and> x \<le> code + sum_list ls) \<and>
     (ls \<noteq> [] \<longrightarrow> bounds_from code ls \<noteq> [] \<and> last (bounds_from code ls) = code + sum_list ls) \<and> 0 \<le> sum_list ls"
proof (induction ls arbitrary: code)
  case (Cons l ls)
  have ih: "length (bounds_from (code + l) ls) = length ls \<and>
     (\<forall>x \<in> set (bounds_from (code + l) ls). code + l < x \<and> x \<le> code + l + sum_list ls) \<and>
     (ls \<noteq> [] \<longrightarrow> bounds_from (code + l) ls \<noteq> [] \<and> last (bounds_from (code + l) ls) = code + l + sum_list ls) \<and> 0 \<le> sum_list ls"
    by (rule Cons.IH) (use Cons.prems in simp)
  then show ?case using Cons.prems by fastforce
qed simp

lemma table_bounds_step:
  "table_step bs = Some (ls, k, bs') \<Longrightarrow> table_bounds code bs = bounds_from code ls @ table_bounds (code + sum_list ls) bs'"
  by (subst table_bounds.simps) simp

lemma table_bounds_none: "table_step bs = None \<Longrightarrow> table_bounds code bs = []"
  by (subst table_bounds.simps) simp

lemma table_bounds_above: "\<forall>b \<in> set bs. 0 \<le> b \<Longrightarrow> x \<in> set (table_bounds code bs) \<Longrightarrow> code < x \<and> x \<le> last (table_bounds code bs)"
proof (induction code bs arbitrary: x rule: table_bounds.induct)
  case (1 code bs)
  show ?case
  proof (cases "table_step bs")
    case None
    then show ?thesis using 1 by (simp add: table_bounds_none)
  next
    case (Some st)
    obtain ls k bs' where st: "table_step bs = Some (ls, k, bs')" using Some by (cases st) auto
    note f = table_step_facts [OF st "1.prems"(1)]
    have bf: "\<forall>y \<in> set (bounds_from code ls). code < y \<and> y \<le> code + sum_list ls" "0 \<le> sum_list ls"
      "last (bounds_from code ls) = code + sum_list ls"
      using bounds_from_facts [OF f(4), of code] f(5) by auto
    have ih: "code + sum_list ls < y \<and> y \<le> last (table_bounds (code + sum_list ls) bs')"
      if "y \<in> set (table_bounds (code + sum_list ls) bs')" for y
      by (rule "1.IH" [OF st refl refl f(6) that])
    show ?thesis
    proof (cases "table_bounds (code + sum_list ls) bs' = []")
      case True
      then show ?thesis using "1.prems"(2) bf table_bounds_step [OF st, of code] by auto
    next
      case False
      let ?r = "table_bounds (code + sum_list ls) bs'"
      have l: "last (table_bounds code bs) = last ?r" using False table_bounds_step [OF st, of code] by simp
      have lr: "code + sum_list ls < last ?r" using ih [OF last_in_set [OF False]] by simp
      consider "x \<in> set (bounds_from code ls)" | "x \<in> set ?r"
        using "1.prems"(2) table_bounds_step [OF st, of code] by auto
      then show ?thesis
      proof cases
        case 1
        then have "code < x" "x \<le> code + sum_list ls" using bf(1) by auto
        then show ?thesis using lr unfolding l by linarith
      next
        case 2
        then show ?thesis using ih [OF 2] bf(2) unfolding l by linarith
      qed
    qed
  qed
qed

lemma count_none: "\<forall>x \<in> set xs. c < x \<Longrightarrow> length (filter (\<lambda>p. p \<le> c) xs) = 0" for c :: int
  by (auto simp: filter_empty_conv)

text \<open>The words of the scan are the numbers of the steps.\<close>

lemma scan_words:
  fixes byte x y :: u8
  shows "drop_bit 3 (ucast byte) + 1 = (word_of_int (uint byte div 8 + 1) :: u32)"
    "(ucast byte AND 7) + 1 = (word_of_int (uint byte mod 8 + 1) :: u32)"
    "ucast byte - 0x80 + 1 = (word_of_int (uint byte - 127) :: u32)"
    "(push_bit 8 (ucast byte - 0x40) OR ucast x) + 1 = (word_of_int ((uint byte - 64) * 256 + uint x + 1) :: u32)"
    "(push_bit 16 (ucast byte - 0x60) OR push_bit 8 (ucast x) OR ucast y) + 1
       = (word_of_int ((uint byte - 96) * 65536 + uint x * 256 + uint y + 1) :: u32)"
proof -
  have u: "ucast b = (word_of_int (uint b) :: u32)" for b :: u8 by simp
  have ub: "uint (ucast b :: u32) = uint b" for b :: u8
    using uint_lt2p [of b] by (simp add: unsigned_ucast_eq take_bit_int_eq_self)
  have "uint (drop_bit 3 (ucast byte :: u32)) = uint byte div 8" by (simp add: unsigned_drop_bit_eq drop_bit_eq_div uint_div ub)
  then have "drop_bit 3 (ucast byte) = (word_of_int (uint byte div 8) :: u32)" by (metis word_of_int_uint)
  then show "drop_bit 3 (ucast byte) + 1 = (word_of_int (uint byte div 8 + 1) :: u32)" by simp
  have "ucast byte AND 7 = take_bit 3 (ucast byte :: u32)" by (simp add: take_bit_eq_mask mask_eq_exp_minus_1)
  then have "uint (ucast byte AND 7 :: u32) = uint byte mod 8" by (simp add: unsigned_take_bit_eq take_bit_eq_mod uint_mod ub)
  then have "ucast byte AND 7 = (word_of_int (uint byte mod 8) :: u32)" by (metis word_of_int_uint)
  then show "(ucast byte AND 7) + 1 = (word_of_int (uint byte mod 8 + 1) :: u32)" by simp
  show "ucast byte - 0x80 + 1 = (word_of_int (uint byte - 127) :: u32)" by simp
  have "push_bit 8 (ucast byte - 0x40) OR ucast x = (push_bit 8 (ucast byte - 0x40) + ucast x :: u32)"
    by (rule disjunctive_add [symmetric]) (auto simp: bit_simps dest: bit_imp_le_length)
  then show "(push_bit 8 (ucast byte - 0x40) OR ucast x) + 1 = (word_of_int ((uint byte - 64) * 256 + uint x + 1) :: u32)"
    by (simp add: push_bit_eq_mult algebra_simps)
  have "push_bit 8 (ucast x) OR ucast y = (push_bit 8 (ucast x) + ucast y :: u32)"
    by (rule disjunctive_add [symmetric]) (auto simp: bit_simps dest: bit_imp_le_length)
  moreover have "push_bit 16 (ucast byte - 0x60) OR (push_bit 8 (ucast x) OR ucast y) =
      (push_bit 16 (ucast byte - 0x60) + (push_bit 8 (ucast x) OR ucast y) :: u32)"
    by (rule disjunctive_add [symmetric]) (auto simp: bit_simps dest: bit_imp_le_length)
  ultimately show "(push_bit 16 (ucast byte - 0x60) OR push_bit 8 (ucast x) OR ucast y) + 1
       = (word_of_int ((uint byte - 96) * 65536 + uint x * 256 + uint y + 1) :: u32)"
    by (simp add: or.assoc push_bit_eq_mult algebra_simps)
qed

lemma nonneg_bytes: "\<forall>b \<in> set (map uint (bs :: bytes)). 0 \<le> b"
  by simp

lemma uint_add_run: "0 \<le> l \<Longrightarrow> uint code + l < 2 ^ 32 \<Longrightarrow> uint (code + word_of_int l :: u32) = uint code + l"
  by (simp add: uint_word_of_int uint_word_ariths mod_add_right_eq)

lemma c_less_uint: "c < d \<longleftrightarrow> uint c < uint (d :: u32)"
  by (simp add: word_less_def)

text \<open>One step of the scan, by the runs it reads.\<close>

lemma table_scan_step:
  "table_scan c code bt bs =
    (case table_step (map uint bs) of
       None \<Rightarrow> None
     | Some (ls, k, _) \<Rightarrow>
         (case ls of
            [l] \<Rightarrow> let code = code + word_of_int l in if c < code then Some bt else table_scan c code (\<not> bt) (drop k bs)
          | [l1, l2] \<Rightarrow> let code1 = code + word_of_int l1; code2 = code1 + word_of_int l2
                        in if c < code1 then Some bt else if c < code2 then Some (\<not> bt) else table_scan c code2 bt (drop k bs)
          | _ \<Rightarrow> None))"
proof (cases bs)
  case (Cons byte p)
  have u: "(ucast byte :: u32) < 64 \<longleftrightarrow> uint byte < 64" "(ucast byte :: u32) \<ge> 0x80 \<longleftrightarrow> uint byte \<ge> 128"
    "(ucast byte :: u32) < 0x60 \<longleftrightarrow> uint byte < 96"
    using uint_lt2p [of byte] by (simp_all add: word_less_def word_le_def unsigned_ucast_eq take_bit_int_eq_self)
  show ?thesis
    unfolding Cons
    by (subst table_scan.simps) (auto simp: Let_def u scan_words split: list.splits)
qed (simp add: table_scan.simps)

lemma table_scan_member:
  "(\<forall>x \<in> set (table_bounds (uint code) (map uint bs)). x < 2 ^ 32) \<Longrightarrow> table_bounds (uint code) (map uint bs) \<noteq> [] \<Longrightarrow>
   uint c < last (table_bounds (uint code) (map uint bs)) \<Longrightarrow>
   table_scan c code bt bs = Some (bt \<noteq> odd (length (filter (\<lambda>p. p \<le> uint c) (table_bounds (uint code) (map uint bs)))))"
proof (induction "length bs" arbitrary: bs code bt rule: less_induct)
  case less
  let ?m = "map uint bs"
  obtain ls k bs' where st: "table_step ?m = Some (ls, k, bs')"
    using less.prems(2) table_bounds_none [of ?m] by (cases "table_step ?m") auto
  note f = table_step_facts [OF st nonneg_bytes]
  have bs': "bs' = map uint (drop k bs)" using f(1) by (simp add: drop_map)
  have dl: "length (drop k bs) < length bs" using f(2,3) by simp
  note tb = table_bounds_step [OF st, of "uint code"]
  have above: "uint code + sum_list ls < x" if "x \<in> set (table_bounds (uint code + sum_list ls) bs')" for x
    using table_bounds_above [OF f(6) that] by simp
  consider (one) l where "ls = [l]" | (two) l1 l2 where "ls = [l1, l2]"
    using f(5) by (auto simp: length_Suc_conv numeral_2_eq_2)
  then show ?case
  proof cases
    case one
    have l: "1 \<le> l" using f(4) one by simp
    let ?c' = "code + word_of_int l"
    have u: "uint ?c' = uint code + l" using less.prems(1) tb one l by (intro uint_add_run) auto
    let ?r = "table_bounds (uint ?c') (map uint (drop k bs))"
    have tb1: "table_bounds (uint code) ?m = uint ?c' # ?r" using tb one u bs' by simp
    have scan: "table_scan c code bt bs = (if c < ?c' then Some bt else table_scan c ?c' (\<not> bt) (drop k bs))"
      using st one by (subst table_scan_step) (simp add: Let_def)
    show ?thesis
    proof (cases "c < ?c'")
      case True
      then have "\<forall>x \<in> set (table_bounds (uint code) ?m). uint c < x"
        using above tb1 one u bs' by (auto simp: c_less_uint intro: less_trans)
      then show ?thesis using True scan count_none [of _ "uint c"] by simp
    next
      case False
      then have ge: "uint ?c' \<le> uint c" by (simp add: c_less_uint)
      then have ne: "?r \<noteq> []" using less.prems(3) tb1 by auto
      have "table_scan c ?c' (\<not> bt) (drop k bs) = Some ((\<not> bt) \<noteq> odd (length (filter (\<lambda>p. p \<le> uint c) ?r)))"
        by (rule less.hyps [OF dl]) (use less.prems tb1 ne in auto)
      then show ?thesis using False scan ge unfolding tb1 by simp
    qed
  next
    case two
    have l: "1 \<le> l1" "1 \<le> l2" using f(4) two by auto
    let ?c1 = "code + word_of_int l1"
    let ?c2 = "?c1 + word_of_int l2"
    have u1: "uint ?c1 = uint code + l1" using less.prems(1) tb two l by (intro uint_add_run) auto
    have u2: "uint ?c2 = uint code + l1 + l2" using less.prems(1) tb two l u1 uint_add_run [of l2 ?c1] by auto
    let ?r = "table_bounds (uint ?c2) (map uint (drop k bs))"
    have tb2: "table_bounds (uint code) ?m = uint ?c1 # uint ?c2 # ?r" using tb two u1 u2 bs' by (simp add: add.assoc)
    have scan: "table_scan c code bt bs = (if c < ?c1 then Some bt else if c < ?c2 then Some (\<not> bt) else table_scan c ?c2 bt (drop k bs))"
      using st two by (subst table_scan_step) (simp add: Let_def)
    have c12: "uint ?c1 < uint ?c2" using u1 u2 l by simp
    have above2: "\<forall>x \<in> set ?r. uint ?c2 < x" using above two u2 bs' by (auto simp: add.assoc)
    consider "uint c < uint ?c1" | "uint ?c1 \<le> uint c" "uint c < uint ?c2" | "uint ?c2 \<le> uint c" by linarith
    then show ?thesis
    proof cases
      case 1
      then have "\<forall>x \<in> set (table_bounds (uint code) ?m). uint c < x" using above2 c12 unfolding tb2 by auto
      then show ?thesis using 1 scan count_none [of _ "uint c"] by (simp add: c_less_uint)
    next
      case 2
      then have "\<forall>x \<in> set ?r. uint c < x" using above2 by auto
      then have "length (filter (\<lambda>p. p \<le> uint c) ?r) = 0" by (rule count_none)
      then show ?thesis using 2 scan unfolding tb2 by (simp add: c_less_uint)
    next
      case 3
      then have ne: "?r \<noteq> []" using less.prems(3) tb2 by auto
      have "table_scan c ?c2 bt (drop k bs) = Some (bt \<noteq> odd (length (filter (\<lambda>p. p \<le> uint c) ?r)))"
        by (rule less.hyps [OF dl]) (use less.prems tb2 ne in auto)
      then show ?thesis using 3 c12 scan unfolding tb2 by (simp add: c_less_uint)
    qed
  qed
qed

section \<open>The index\<close>

lemma block_ok_step:
  assumes "es \<noteq> []" "snd (hd es) \<noteq> code" "bs \<noteq> []"
  shows "block_ok es pos code od bs =
    (case table_step bs of None \<Rightarrow> False
     | Some (ls, k, bs') \<Rightarrow> block_ok es (pos + int k) (code + sum_list ls) (od \<noteq> (length ls = 1)) bs')"
  using assms by (cases bs) (auto simp: block_ok.simps split: list.splits)

lemma block_ok_hit:
  assumes "es \<noteq> []" "snd (hd es) = code" "bs \<noteq> []"
  shows "block_ok es pos code od bs = (fst (hd es) = pos \<and> \<not> od \<and> block_ok (tl es) pos code od bs)"
proof -
  obtain b p where bs: "bs = b # p" using assms(3) by (cases bs) auto
  show ?thesis unfolding bs by (subst block_ok.simps(2)) (use assms in simp)
qed

text \<open>What an accepted index says of one of its entries.\<close>

definition entry_ok :: "int \<times> int \<Rightarrow> int \<Rightarrow> int \<Rightarrow> bool \<Rightarrow> int list \<Rightarrow> bool" where
  "entry_ok e pos code od bs \<longleftrightarrow> (\<exists>pre. pos \<le> fst e \<and> table_bounds code bs = pre @ table_bounds (snd e) (drop (nat (fst e - pos)) bs) \<and>
     (\<forall>x \<in> set pre. x \<le> snd e) \<and> odd (length pre) = od)"

lemma block_ok_entries:
  "\<forall>b \<in> set bs. 0 \<le> b \<Longrightarrow> block_ok es pos code od bs \<Longrightarrow>
     es \<noteq> [] \<and> code \<le> snd (last es) \<and> (\<forall>e \<in> set es. code \<le> snd e \<and> snd e \<le> snd (last es)) \<and>
     (\<forall>e \<in> set (butlast es). entry_ok e pos code od bs) \<and>
     (table_bounds code bs = [] \<and> snd (last es) = code \<or> table_bounds code bs \<noteq> [] \<and> last (table_bounds code bs) = snd (last es))"
proof (induction "length bs + length es" arbitrary: es pos code od bs rule: less_induct)
  case less
  show ?case
  proof (cases "bs = []")
    case True
    then show ?thesis using less.prems(2) by (auto simp: table_bounds_none block_ok.simps)
  next
    case ne: False
    then obtain b p where bs: "bs = b # p" by (cases bs) auto
    then have es: "es \<noteq> []" using less.prems(2) by (auto simp: block_ok.simps)
    show ?thesis
    proof (cases "snd (hd es) = code")
      case True
      have "fst (hd es) = pos \<and> \<not> od \<and> block_ok (tl es) pos code od bs"
        by (rule iffD1 [OF block_ok_hit [OF es True ne] less.prems(2)])
      then have h: "fst (hd es) = pos" "\<not> od" "block_ok (tl es) pos code od bs" by blast+
      obtain e es' where e: "es = e # es'" using es by (cases es) auto
      have ih: "es' \<noteq> [] \<and> code \<le> snd (last es') \<and> (\<forall>e \<in> set es'. code \<le> snd e \<and> snd e \<le> snd (last es')) \<and>
        (\<forall>e \<in> set (butlast es'). entry_ok e pos code od bs) \<and>
        (table_bounds code bs = [] \<and> snd (last es') = code \<or> table_bounds code bs \<noteq> [] \<and> last (table_bounds code bs) = snd (last es'))"
        by (rule less.hyps) (use less.prems(1) h(3) e in auto)
      moreover have "entry_ok e pos code od bs"
        unfolding entry_ok_def using True h(1,2) e by (intro exI [of _ "[]"]) auto
      moreover have "snd e = code" using True e by simp
      moreover have "last es = last es'" "butlast es = e # butlast es'" "set es = insert e (set es')"
        using e calculation(1) by auto
      ultimately show ?thesis using es by auto
    next
      case False
      obtain ls k bs' where st: "table_step bs = Some (ls, k, bs')"
        and ok: "block_ok es (pos + int k) (code + sum_list ls) (od \<noteq> (length ls = 1)) bs'"
        using less.prems(2) block_ok_step [OF es False ne] by (auto split: option.splits prod.splits)
      note f = table_step_facts [OF st less.prems(1)]
      have lt: "length bs' + length es < length bs + length es" using f(1-3) by simp
      note ih = less.hyps [OF lt f(6) ok]
      have bf: "\<forall>y \<in> set (bounds_from code ls). y \<le> code + sum_list ls" "0 \<le> sum_list ls"
        "length (bounds_from code ls) = length ls" "bounds_from code ls \<noteq> []" "last (bounds_from code ls) = code + sum_list ls"
        using bounds_from_facts [OF f(4), of code] f(5) by auto
      note tb = table_bounds_step [OF st, of code]
      have ih_e: "entry_ok e (pos + int k) (code + sum_list ls) (od \<noteq> (length ls = 1)) bs'" if "e \<in> set (butlast es)" for e
        using ih that by blast
      have "entry_ok e pos code od bs" if e: "e \<in> set (butlast es)" for e
      proof -
        obtain pre where p: "pos + int k \<le> fst e"
          "table_bounds (code + sum_list ls) bs' = pre @ table_bounds (snd e) (drop (nat (fst e - (pos + int k))) bs')"
          "\<forall>x \<in> set pre. x \<le> snd e" "odd (length pre) = (od \<noteq> (length ls = 1))"
          using ih_e [OF e] unfolding entry_ok_def by blast
        have d: "drop (nat (fst e - pos)) bs = drop (nat (fst e - (pos + int k))) bs'"
        proof -
          have "nat (fst e - pos) = nat (fst e - (pos + int k)) + k" using p(1) by simp
          then show ?thesis using f(1) by simp
        qed
        have le: "code + sum_list ls \<le> snd e" using ih e in_set_butlastD by metis
        show ?thesis unfolding entry_ok_def
        proof (intro exI [of _ "bounds_from code ls @ pre"] conjI)
          show "pos \<le> fst e" using p(1) by simp
          show "table_bounds code bs = (bounds_from code ls @ pre) @ table_bounds (snd e) (drop (nat (fst e - pos)) bs)"
            using tb p(2) d by simp
          show "\<forall>x \<in> set (bounds_from code ls @ pre). x \<le> snd e" using bf(1) p(3) le by fastforce
          show "odd (length (bounds_from code ls @ pre)) = od" using bf(3) p(4) f(5) by auto
        qed
      qed
      moreover have "\<forall>e \<in> set es. code \<le> snd e \<and> snd e \<le> snd (last es)" using ih bf(2) by fastforce
      moreover have "code \<le> snd (last es)" using ih bf(2) by linarith
      moreover have "table_bounds code bs \<noteq> [] \<and> last (table_bounds code bs) = snd (last es)"
        using ih tb bf(4,5) by (cases "table_bounds (code + sum_list ls) bs' = []") auto
      ultimately show ?thesis using es by blast
    qed
  qed
qed

lemma index_entries_nth:
  "length xs = 3 * n \<Longrightarrow> length (index_entries i xs) = n \<and> (\<forall>j < n. index_entries i xs ! j =
     ((i + int j) * 32 + xs ! (3 * j + 2) div 32, xs ! (3 * j) + 256 * xs ! (3 * j + 1) + 65536 * (xs ! (3 * j + 2) mod 32)))"
proof (induction i xs arbitrary: n rule: index_entries.induct)
  case (1 i a b c r)
  then obtain m where m: "n = Suc m" "length r = 3 * m" by (cases n) auto
  show ?case
  proof (intro conjI allI impI)
    show "length (index_entries i (a # b # c # r)) = n" using "1.IH" [OF m(2)] m(1) by simp
    fix j assume "j < n"
    then show "index_entries i (a # b # c # r) ! j = ((i + int j) * 32 + (a # b # c # r) ! (3 * j + 2) div 32,
       (a # b # c # r) ! (3 * j) + 256 * (a # b # c # r) ! (3 * j + 1) + 65536 * ((a # b # c # r) ! (3 * j + 2) mod 32))"
      using "1.IH" [OF m(2)] m(1) by (cases j) (simp_all add: algebra_simps)
  qed
qed auto

lemma get_le24_value:
  assumes "i + 2 < length ptr"
  shows "\<exists>v. get_le24 ptr i = Some v \<and> uint v = uint (ptr ! i) + 256 * uint (ptr ! (i + 1)) + 65536 * uint (ptr ! (i + 2))"
proof -
  let ?a = "ptr ! i" and ?b = "ptr ! (i + 1)" and ?c = "ptr ! (i + 2)"
  let ?v = "ucast ?a OR push_bit 8 (ucast ?b) OR push_bit 16 (ucast ?c) :: u32"
  have 1: "push_bit 8 (ucast ?b) OR push_bit 16 (ucast ?c) = (push_bit 8 (ucast ?b) + push_bit 16 (ucast ?c) :: u32)"
    by (rule disjunctive_add [symmetric]) (auto simp: bit_simps dest: bit_imp_le_length)
  have 2: "?v = ucast ?a + (push_bit 8 (ucast ?b) OR push_bit 16 (ucast ?c))"
    by (rule disjunctive_add [symmetric]) (auto simp: bit_simps dest: bit_imp_le_length)
  have w: "?v = word_of_int (uint ?a + 256 * uint ?b + 65536 * uint ?c)"
    unfolding 1 2 [unfolded 1] by (simp add: push_bit_eq_mult mult.commute add.assoc)
  have "uint ?a < 256" "uint ?b < 256" "uint ?c < 256" using uint_lt2p [of ?a] uint_lt2p [of ?b] uint_lt2p [of ?c] by simp_all
  then have "uint ?v = uint ?a + 256 * uint ?b + 65536 * uint ?c"
    unfolding w uint_word_of_int by (intro mod_pos_pos_trivial) auto
  moreover have "get_le24 ptr i = Some ?v" using assms by (simp add: get_le24_def rd_def)
  ultimately show ?thesis by blast
qed

lemma low21: "uint ((v :: u32) AND (push_bit 21 1 - 1)) = uint v mod 2 ^ 21"
proof -
  have "v AND (push_bit 21 1 - 1) = take_bit 21 v" by (simp add: take_bit_eq_mask mask_eq_exp_minus_1)
  then show ?thesis by (simp add: unsigned_take_bit_eq take_bit_eq_mod uint_mod)
qed

lemma high21: "int (unat (drop_bit 21 (v :: u32))) = uint v div 2 ^ 21"
  by (simp add: unsigned_drop_bit_eq drop_bit_eq_div uint_div)

lemma table_ok_entry:
  assumes "table_ok table index" "i < length index div 3"
  shows "\<exists>v. get_le24 index (i * 3) = Some v \<and>
    index_entries 1 (map uint index) ! i = (int ((i + 1) * UNICODE_INDEX_BLOCK_LEN + unat (drop_bit 21 v)), uint v mod 2 ^ 21) \<and>
    uint v div 2 ^ 21 = uint (index ! (i * 3 + 2)) div 32"
proof -
  have l: "length index = 3 * (length index div 3)" using assms(1) by (auto simp: table_ok_def)
  have b: "i * 3 + 2 < length index" using assms(2) l by linarith
  let ?a = "index ! (i * 3)" and ?b = "index ! (i * 3 + 1)" and ?c = "index ! (i * 3 + 2)"
  obtain v where v: "get_le24 index (i * 3) = Some v" "uint v = uint ?a + 256 * uint ?b + 65536 * uint ?c"
    using get_le24_value [OF b] by blast
  have u: "0 \<le> uint ?a" "uint ?a < 256" "0 \<le> uint ?b" "uint ?b < 256"
    using uint_lt2p [of ?a] uint_lt2p [of ?b] by simp_all
  have split: "uint v = (uint ?a + 256 * uint ?b + 65536 * (uint ?c mod 32)) + 2 ^ 21 * (uint ?c div 32)"
  proof -
    have "uint ?c = 32 * (uint ?c div 32) + uint ?c mod 32" by simp
    then have "uint v = (uint ?a + 256 * uint ?b + 65536 * (uint ?c mod 32)) + 2097152 * (uint ?c div 32)"
      unfolding v(2) by linarith
    then show ?thesis by simp
  qed
  have small: "0 \<le> uint ?a + 256 * uint ?b + 65536 * (uint ?c mod 32)" "uint ?a + 256 * uint ?b + 65536 * (uint ?c mod 32) < 2 ^ 21"
  proof -
    have "0 \<le> uint ?c mod 32" "uint ?c mod 32 < 32" by simp_all
    then have "0 \<le> uint ?a + 256 * uint ?b + 65536 * (uint ?c mod 32)" "uint ?a + 256 * uint ?b + 65536 * (uint ?c mod 32) < 2097152"
      using u by linarith+
    then show "0 \<le> uint ?a + 256 * uint ?b + 65536 * (uint ?c mod 32)" "uint ?a + 256 * uint ?b + 65536 * (uint ?c mod 32) < 2 ^ 21"
      by simp_all
  qed
  have m: "uint v mod 2 ^ 21 = uint ?a + 256 * uint ?b + 65536 * (uint ?c mod 32)" and d: "uint v div 2 ^ 21 = uint ?c div 32"
    unfolding split using small by simp_all
  have "index_entries 1 (map uint index) ! i = ((1 + int i) * 32 + uint ?c div 32, uint ?a + 256 * uint ?b + 65536 * (uint ?c mod 32))"
    using index_entries_nth [of "map uint index" "length index div 3" 1] l assms(2) b by (simp add: mult.commute)
  then show ?thesis using v(1) m d high21 [of v] by (simp add: UNICODE_INDEX_BLOCK_LEN_def)
qed

lemma index_search_ok:
  assumes t: "table_ok table index"
  defines "es \<equiv> index_entries 1 (map uint index)"
  shows "lo < hi \<Longrightarrow> hi < length index div 3 \<Longrightarrow> snd (es ! lo) \<le> uint c \<Longrightarrow> uint c < snd (es ! hi) \<Longrightarrow>
    \<exists>i. index_search c index lo hi = Some i \<and> i + 1 < length index div 3 \<and> snd (es ! i) \<le> uint c"
proof (induction "hi - lo" arbitrary: lo hi rule: less_induct)
  case less
  show ?case
  proof (cases "hi - lo > 1")
    case False
    then show ?thesis using less.prems by (subst index_search.simps) auto
  next
    case True
    define k where "k = (hi + lo) div 2"
    have k: "lo < k" "k < hi" unfolding k_def using True by auto
    then have kn: "k < length index div 3" using less.prems(2) by simp
    obtain v where v: "get_le24 index (k * 3) = Some v" "snd (es ! k) = uint v mod 2 ^ 21"
      using table_ok_entry [OF t kn] unfolding es_def by auto
    have step: "index_search c index lo hi = (if uint c < snd (es ! k) then index_search c index lo k else index_search c index k hi)"
      using True v by (subst index_search.simps) (simp add: Let_def k_def [symmetric] c_less_uint low21 del: push_bit_of_1)
    show ?thesis
    proof (cases "uint c < snd (es ! k)")
      case True
      then show ?thesis using less.hyps [of k lo] k kn less.prems step by simp
    next
      case False
      then show ?thesis using less.hyps [of hi k] k kn less.prems step by simp
    qed
  qed
qed

lemma lre_is_in_table_ok:
  assumes t: "table_ok table index"
  shows "lre_is_in_table c table index (length index div 3) = Some (table_member (map uint table) (uint c))"
proof -
  let ?n = "length index div 3" and ?es = "index_entries 1 (map uint index)" and ?tb = "table_bounds 0 (map uint table)"
  let ?E = "snd (last ?es)"
  have "length index mod 3 = 0" "index \<noteq> []" and last32: "uint (last index) < 32" and E21: "?E < 2 ^ 21"
    and ok: "block_ok ?es 0 0 False (map uint table)" using t by (auto simp: table_ok_def)
  then have l1: "length index = 3 * ?n" by auto
  have "0 < length index" using \<open>index \<noteq> []\<close> by simp
  then have "0 < ?n" using l1 by linarith
  note l = l1 this
  have len: "length ?es = ?n" using index_entries_nth [of "map uint index" ?n 1] l by simp
  have lastE: "last ?es = ?es ! (?n - 1)" using len l(2) by (metis last_conv_nth length_greater_0_conv)
  note be = block_ok_entries [OF nonneg_bytes ok]
  have leE: "snd (?es ! i) \<le> ?E" if "i < ?n" for i using be nth_mem [of i ?es] len that by auto
  have bounds32: "\<forall>x \<in> set ?tb. x < 2 ^ 32"
    using be E21 table_bounds_above [OF nonneg_bytes, of _ 0 table] by fastforce
  obtain v0 where v0: "get_le24 index 0 = Some v0" "snd (?es ! 0) = uint v0 mod 2 ^ 21"
    using table_ok_entry [OF t l(2)] by auto
  obtain v1 where v1: "get_le24 index ((?n - 1) * 3) = Some v1" "?E = uint v1"
  proof -
    have i: "?n - 1 < ?n" using l(2) by simp
    have "index ! ((?n - 1) * 3 + 2) = last index"
    proof -
      have "(?n - 1) * 3 + 2 = length index - 1" using l by linarith
      then show ?thesis using \<open>index \<noteq> []\<close> by (simp add: last_conv_nth)
    qed
    then obtain v where v: "get_le24 index ((?n - 1) * 3) = Some v" "snd (?es ! (?n - 1)) = uint v mod 2 ^ 21" "uint v div 2 ^ 21 = 0"
      using table_ok_entry [OF t i] last32 by auto
    then have "uint v = uint v mod 2 ^ 21" by (metis mult_zero_right add_0 mult_div_mod_eq)
    then show ?thesis using that v lastE by simp
  qed
  have from_start: "table_scan c 0 False table = Some (table_member (map uint table) (uint c))" if "uint c < ?E"
  proof -
    have ne: "?tb \<noteq> []" "uint c < last ?tb" using be that uint_ge_0 [of c] by auto
    then show ?thesis using table_scan_member [of 0 table c False] bounds32 by (simp add: table_member_def Let_def)
  qed
  have pos: "get_index_pos c index ?n =
    (if uint c < snd (?es ! 0) then Some (Some (0, 0))
     else if ?E \<le> uint c then Some None
     else do { idx_min \<leftarrow> index_search c index 0 (?n - 1); v \<leftarrow> get_le24 index (idx_min * 3);
               Some (Some (v AND (push_bit 21 1 - 1), (idx_min + 1) * UNICODE_INDEX_BLOCK_LEN + unat (drop_bit 21 v))) })"
    unfolding get_index_pos_def Let_def v0(1) v1(1) Option.bind.bind_lunit c_less_uint low21 word_le_def v0(2) [symmetric] v1(2)
    by (rule refl)
  consider (first) "uint c < snd (?es ! 0)" | (out) "\<not> uint c < snd (?es ! 0)" "?E \<le> uint c"
    | (block) "\<not> uint c < snd (?es ! 0)" "\<not> ?E \<le> uint c" by blast
  then show ?thesis
  proof cases
    case first
    then have "uint c < ?E" using leE [OF l(2)] by simp
    then show ?thesis using from_start first pos by (simp add: lre_is_in_table_def)
  next
    case out
    then have "\<not> table_member (map uint table) (uint c)" using be by (auto simp: table_member_def Let_def)
    then show ?thesis using out pos by (simp add: lre_is_in_table_def)
  next
    case block
    have "0 < ?n - 1" using block lastE by (cases "?n - 1 = 0") auto
    then obtain i where i: "index_search c index 0 (?n - 1) = Some i" "i + 1 < ?n" "snd (?es ! i) \<le> uint c"
      using index_search_ok [OF t, of 0 "?n - 1" c] block lastE by auto
    then have "i < ?n" by simp
    then obtain v where v: "get_le24 index (i * 3) = Some v"
      "?es ! i = (int ((i + 1) * UNICODE_INDEX_BLOCK_LEN + unat (drop_bit 21 v)), uint v mod 2 ^ 21)"
      using table_ok_entry [OF t] by blast
    let ?p = "(i + 1) * UNICODE_INDEX_BLOCK_LEN + unat (drop_bit 21 v)" and ?code = "v AND (push_bit 21 1 - 1)"
    have "?es ! i \<in> set (butlast ?es)" using i(2) len by (metis butlast_conv_take add.commute less_diff_conv nth_mem nth_butlast length_butlast)
    then have "entry_ok (?es ! i) 0 0 False (map uint table)" using be by blast
    then obtain pre where pre: "?tb = pre @ table_bounds (uint v mod 2 ^ 21) (drop ?p (map uint table))"
      "\<forall>x \<in> set pre. x \<le> uint v mod 2 ^ 21" "even (length pre)"
    proof -
      have p: "nat (fst (?es ! i) - 0) = ?p" "snd (?es ! i) = uint v mod 2 ^ 21"
        by (simp_all only: v(2) fst_conv snd_conv diff_zero nat_int)
      show ?thesis using \<open>entry_ok (?es ! i) 0 0 False (map uint table)\<close> that unfolding entry_ok_def p by blast
    qed
    let ?r = "table_bounds (uint ?code) (map uint (drop ?p table))"
    have r: "?tb = pre @ ?r" using pre(1) by (simp only: low21 drop_map)
    have cE: "uint c < ?E" and vc: "uint v mod 2 ^ 21 \<le> uint c" using block i(3) v(2) by auto
    have tbne: "?tb \<noteq> []" "last ?tb = ?E" using be cE uint_ge_0 [of c] by auto
    have "?r \<noteq> []"
    proof
      assume "?r = []"
      then have "?tb = pre" using r by simp
      then have "last ?tb \<in> set pre" using tbne(1) last_in_set by metis
      then show False using pre(2) tbne(2) cE vc by fastforce
    qed
    then have "table_scan c ?code False (drop ?p table) = Some (odd (length (filter (\<lambda>p. p \<le> uint c) ?r)))"
      using table_scan_member [of ?code "drop ?p table" c False] bounds32 cE tbne(2) unfolding r by auto
    moreover have "table_member (map uint table) (uint c) = odd (length (filter (\<lambda>p. p \<le> uint c) ?r))"
    proof -
      have "filter (\<lambda>p. p \<le> uint c) pre = pre" using pre(2) vc by (auto intro!: filter_True)
      then have "length (filter (\<lambda>p. p \<le> uint c) ?tb) = length pre + length (filter (\<lambda>p. p \<le> uint c) ?r)" unfolding r by simp
      then show ?thesis using tbne cE pre(3) unfolding table_member_def Let_def by simp
    qed
    ultimately show ?thesis using block i(1) v(1) unfolding lre_is_in_table_def pos by simp
  qed
qed

text \<open>
  C19. For a table whose index passes the check, lre_is_in_table answers for every code point what the
  whole table says: it returns, reads inside the two arrays, and the block that the index
  selects gives the same answer as a scan from the beginning.
\<close>

theorem lre_is_in_table_scans:
  assumes "table_ok table index"
  shows "lre_is_in_table c table index (length index div 3) = Some (table_member (map uint table) (uint c))"
  using assms by (rule lre_is_in_table_ok)

theorem lre_is_in_table_scans_witness:
  "lre_is_in_table 0x3b1 unicode_prop_Cased1_table unicode_prop_Cased1_index (length unicode_prop_Cased1_index div 3)
     = Some (table_member (map uint unicode_prop_Cased1_table) (uint (0x3b1 :: u32)))"
  by (rule lre_is_in_table_scans) (rule cased1_ok)

text \<open>
  C34. The two properties are total: every code point is cased exactly when a run of the case
  conversion covers it or the whole table of the other cased characters has it, and case ignorable
  exactly when the whole table of that property has it.
\<close>

theorem unicode_properties_total:
  "lre_is_cased c = Some ((\<exists>i < length case_conv_table1. covers (case_conv_table1 ! i) c) \<or>
     table_member (map uint unicode_prop_Cased1_table) (uint c)) \<and>
   lre_is_case_ignorable c = Some (table_member (map uint unicode_prop_Case_Ignorable_table) (uint c))"
proof -
  obtain r where r: "case_conv_find c = Some r" "\<forall>i. r = Some i \<longleftrightarrow> i < length case_conv_table1 \<and> covers (case_conv_table1 ! i) c"
    using case_conv_find_ok by (auto simp: table1_length)
  have "r \<noteq> None \<longleftrightarrow> (\<exists>i < length case_conv_table1. covers (case_conv_table1 ! i) c)"
    using r(2) by (metis not_None_eq)
  then show ?thesis using r(1) lre_is_in_table_ok [OF cased1_ok] lre_is_in_table_ok [OF case_ignorable_ok]
    by (auto simp: lre_is_cased_def lre_is_case_ignorable_def)
qed

end
