(* ===== verification/Printf.thy ===== *)
theory Printf
  imports Ckb_Prelude
begin

text \<open>
  The formatted output of include/c-stdlib/src/printf_impl.c: the output functions, the digit
  generator \<open>_ntoa_long\<close>, the padding and sign logic of \<open>_ntoa_format\<close> and \<open>_out_rev\<close>, the parser of
  format directives \<open>_vsnprintf\<close>, and snprintf, sprintf and printf on top of them. The conversions of
  doubles (\<open>_ftoa\<close>, \<open>_etoa\<close>) are an argument \<open>ftoa\<close>: the text they output for a directive.

  A format is its bytes up to and including the terminating NUL, the variable arguments are a
  list; fetching an argument that is not there or has another type, reading past the end of a
  format or of a string argument, and the overflow of a signed negation are \<^const>\<open>None\<close>.
\<close>

section \<open>Flags\<close>

definition FLAGS_ZEROPAD :: u32 where "FLAGS_ZEROPAD = 1"
definition FLAGS_LEFT :: u32 where "FLAGS_LEFT = 2"
definition FLAGS_PLUS :: u32 where "FLAGS_PLUS = 4"
definition FLAGS_SPACE :: u32 where "FLAGS_SPACE = 8"
definition FLAGS_HASH :: u32 where "FLAGS_HASH = 16"
definition FLAGS_UPPERCASE :: u32 where "FLAGS_UPPERCASE = 32"
definition FLAGS_CHAR :: u32 where "FLAGS_CHAR = 64"
definition FLAGS_SHORT :: u32 where "FLAGS_SHORT = 128"
definition FLAGS_LONG :: u32 where "FLAGS_LONG = 256"
definition FLAGS_LONG_LONG :: u32 where "FLAGS_LONG_LONG = 512"
definition FLAGS_PRECISION :: u32 where "FLAGS_PRECISION = 1024"
definition FLAGS_ADAPT_EXP :: u32 where "FLAGS_ADAPT_EXP = 2048"
definition PRINTF_NTOA_BUFFER_SIZE :: nat where "PRINTF_NTOA_BUFFER_SIZE = 32"

named_theorems flag_defs \<open>the bits of the flags\<close>

lemmas [flag_defs] = FLAGS_ZEROPAD_def FLAGS_LEFT_def FLAGS_PLUS_def FLAGS_SPACE_def FLAGS_HASH_def
  FLAGS_UPPERCASE_def FLAGS_CHAR_def FLAGS_SHORT_def FLAGS_LONG_def FLAGS_LONG_LONG_def
  FLAGS_PRECISION_def FLAGS_ADAPT_EXP_def

definition has_flag :: "u32 \<Rightarrow> u32 \<Rightarrow> bool" where
  "has_flag flags f \<longleftrightarrow> flags AND f \<noteq> 0"

section \<open>Output functions\<close>

text \<open>
  An output function takes the character, the object it writes to, the index and maxlen. All
  indexes are of type size_t; they are natural numbers here.
\<close>

type_synonym out_fct = "u8 \<Rightarrow> bytes \<Rightarrow> nat \<Rightarrow> nat \<Rightarrow> bytes option"

definition out_buffer :: out_fct where
  "out_buffer character buffer idx maxlen = (if idx < maxlen then wr buffer idx character else Some buffer)"

definition out_null :: out_fct where
  "out_null character buffer idx maxlen = Some buffer"

text \<open>The device that \<open>_putchar\<close> of the program writes to is the list of what it was given.\<close>

definition out_char :: out_fct where
  "out_char character buffer idx maxlen = Some (if character \<noteq> 0 then buffer @ [character] else buffer)"

text \<open>The loops that output spaces, and the characters of a list in order.\<close>

primrec out_spaces :: "out_fct \<Rightarrow> nat \<Rightarrow> bytes \<Rightarrow> nat \<Rightarrow> nat \<Rightarrow> (nat \<times> bytes) option" where
  "out_spaces out 0 buffer idx maxlen = Some (idx, buffer)"
| "out_spaces out (Suc n) buffer idx maxlen =
     Option.bind (out 32 buffer idx maxlen) (\<lambda>buffer. out_spaces out n buffer (idx + 1) maxlen)"

primrec out_chars :: "out_fct \<Rightarrow> bytes \<Rightarrow> bytes \<Rightarrow> nat \<Rightarrow> nat \<Rightarrow> (nat \<times> bytes) option" where
  "out_chars out [] buffer idx maxlen = Some (idx, buffer)"
| "out_chars out (c # cs) buffer idx maxlen =
     Option.bind (out c buffer idx maxlen) (\<lambda>buffer. out_chars out cs buffer (idx + 1) maxlen)"

text \<open>The text in buf is in reverse; len is the length of the list.\<close>

definition out_rev ::
    "out_fct \<Rightarrow> bytes \<Rightarrow> nat \<Rightarrow> nat \<Rightarrow> bytes \<Rightarrow> u32 \<Rightarrow> u32 \<Rightarrow> (nat \<times> bytes) option" where
  "out_rev out buffer idx maxlen buf width flags = do {
     (idx1, buffer) \<leftarrow>
       (if \<not> has_flag flags FLAGS_LEFT \<and> \<not> has_flag flags FLAGS_ZEROPAD
        then out_spaces out (unat width - length buf) buffer idx maxlen else Some (idx, buffer));
     (idx2, buffer) \<leftarrow> out_chars out (rev buf) buffer idx1 maxlen;
     if has_flag flags FLAGS_LEFT
     then out_spaces out (unat width - (idx2 - idx)) buffer idx2 maxlen else Some (idx2, buffer)
   }"

section \<open>Integers\<close>

text \<open>Appending zeros while the text is shorter than n and the buffer has room.\<close>

function pad_zeros :: "nat \<Rightarrow> bytes \<Rightarrow> bytes" where
  "pad_zeros n buf =
     (if length buf < n \<and> length buf < PRINTF_NTOA_BUFFER_SIZE then pad_zeros n (buf @ [48]) else buf)"
  by pat_completeness auto
termination by (relation "measure (\<lambda>(n, buf). n - length buf)") auto

declare pad_zeros.simps [simp del]

definition append_room :: "bytes \<Rightarrow> u8 \<Rightarrow> bytes" where
  "append_room buf c = (if length buf < PRINTF_NTOA_BUFFER_SIZE then buf @ [c] else buf)"

definition ntoa_hash :: "bytes \<Rightarrow> u32 \<Rightarrow> u32 \<Rightarrow> u32 \<Rightarrow> u32 \<Rightarrow> bytes" where
  "ntoa_hash buf base prec width flags =
     (let buf1 =
            (if \<not> has_flag flags FLAGS_PRECISION \<and> buf \<noteq> [] \<and>
                (length buf = unat prec \<or> length buf = unat width)
             then (let b = butlast buf in if b \<noteq> [] \<and> base = 16 then butlast b else b) else buf);
          buf2 =
            (if base = 16 \<and> \<not> has_flag flags FLAGS_UPPERCASE then append_room buf1 120
             else if base = 16 \<and> has_flag flags FLAGS_UPPERCASE then append_room buf1 88
             else if base = 2 then append_room buf1 98 else buf1)
      in append_room buf2 48)"

definition ntoa_sign :: "bytes \<Rightarrow> bool \<Rightarrow> u32 \<Rightarrow> bytes" where
  "ntoa_sign buf negative flags =
     (if negative then append_room buf 45
      else if has_flag flags FLAGS_PLUS then append_room buf 43
      else if has_flag flags FLAGS_SPACE then append_room buf 32 else buf)"

definition ntoa_format ::
    "out_fct \<Rightarrow> bytes \<Rightarrow> nat \<Rightarrow> nat \<Rightarrow> bytes \<Rightarrow> bool \<Rightarrow> u32 \<Rightarrow> u32 \<Rightarrow> u32 \<Rightarrow> u32 \<Rightarrow> (nat \<times> bytes) option" where
  "ntoa_format out buffer idx maxlen buf negative base prec width flags =
     (let left = has_flag flags FLAGS_LEFT;
          width =
            (if \<not> left \<and> width \<noteq> 0 \<and> has_flag flags FLAGS_ZEROPAD \<and>
                (negative \<or> has_flag flags (FLAGS_PLUS OR FLAGS_SPACE)) then width - 1 else width);
          buf = (if left then buf else pad_zeros (unat prec) buf);
          buf = (if \<not> left \<and> has_flag flags FLAGS_ZEROPAD then pad_zeros (unat width) buf else buf);
          buf = (if has_flag flags FLAGS_HASH then ntoa_hash buf base prec width flags else buf);
          buf = ntoa_sign buf negative flags
      in out_rev out buffer idx maxlen buf width flags)"

definition digit_char :: "u64 \<Rightarrow> bool \<Rightarrow> u8" where
  "digit_char digit upper =
     (if digit < 10 then 48 + ucast digit else (if upper then 65 else 97) + ucast digit - 10)"

text \<open>The do loop: at least one digit, at most as many as the buffer holds.\<close>

function ntoa_digits :: "u64 \<Rightarrow> u64 \<Rightarrow> bool \<Rightarrow> bytes \<Rightarrow> bytes" where
  "ntoa_digits value base upper buf =
     (let buf = buf @ [digit_char (value mod base) upper]; value = value div base in
      if value \<noteq> 0 \<and> length buf < PRINTF_NTOA_BUFFER_SIZE then ntoa_digits value base upper buf else buf)"
  by pat_completeness auto
termination
  by (relation "measure (\<lambda>(value, base, upper, buf). PRINTF_NTOA_BUFFER_SIZE - length buf)") auto

declare ntoa_digits.simps [simp del]

definition ntoa_long ::
    "out_fct \<Rightarrow> bytes \<Rightarrow> nat \<Rightarrow> nat \<Rightarrow> u64 \<Rightarrow> bool \<Rightarrow> u64 \<Rightarrow> u32 \<Rightarrow> u32 \<Rightarrow> u32 \<Rightarrow> (nat \<times> bytes) option" where
  "ntoa_long out buffer idx maxlen value negative base prec width flags =
     (let flags = (if value = 0 then flags AND NOT FLAGS_HASH else flags);
          buf = (if \<not> has_flag flags FLAGS_PRECISION \<or> value \<noteq> 0
                 then ntoa_digits value base (has_flag flags FLAGS_UPPERCASE) [] else [])
      in ntoa_format out buffer idx maxlen buf negative (ucast base) prec width flags)"

text \<open>The type long long has 64 bits as long has: the code of \<open>_ntoa_long_long\<close> is that of \<open>_ntoa_long\<close>.\<close>

definition ntoa_long_long ::
    "out_fct \<Rightarrow> bytes \<Rightarrow> nat \<Rightarrow> nat \<Rightarrow> u64 \<Rightarrow> bool \<Rightarrow> u64 \<Rightarrow> u32 \<Rightarrow> u32 \<Rightarrow> u32 \<Rightarrow> (nat \<times> bytes) option" where
  "ntoa_long_long out buffer idx maxlen value negative base prec width flags =
     ntoa_long out buffer idx maxlen value negative base prec width flags"

section \<open>Directives\<close>

text \<open>Arguments: int, long (size_t, long long, pointers to void), double, strings.\<close>

datatype varg = VInt u32 | VLong u64 | VDouble u64 | VStr bytes

fun va_int :: "varg list \<Rightarrow> (u32 \<times> varg list) option" where
  "va_int (VInt w # va) = Some (w, va)"
| "va_int _ = None"

fun va_long :: "varg list \<Rightarrow> (u64 \<times> varg list) option" where
  "va_long (VLong w # va) = Some (w, va)"
| "va_long _ = None"

fun va_double :: "varg list \<Rightarrow> (u64 \<times> varg list) option" where
  "va_double (VDouble d # va) = Some (d, va)"
| "va_double _ = None"

fun va_str :: "varg list \<Rightarrow> (bytes \<times> varg list) option" where
  "va_str (VStr s # va) = Some (s, va)"
| "va_str _ = None"

definition is_digit :: "u8 \<Rightarrow> bool" where
  "is_digit ch \<longleftrightarrow> ch \<ge> 48 \<and> ch \<le> 57"

text \<open>The value and where the pointer to the format points afterwards.\<close>

fun atoi_loop :: "u32 \<Rightarrow> bytes \<Rightarrow> (u32 \<times> bytes) option" where
  "atoi_loop i [] = None"
| "atoi_loop i (c # str) =
     (if is_digit c then atoi_loop (i * 10 + ucast (c - 48)) str else Some (i, c # str))"

definition atoi :: "bytes \<Rightarrow> (u32 \<times> bytes) option" where
  "atoi str = atoi_loop 0 str"

fun parse_flags :: "u32 \<Rightarrow> bytes \<Rightarrow> (u32 \<times> bytes) option" where
  "parse_flags flags [] = None"
| "parse_flags flags (c # format) =
     (if c = 48 then parse_flags (flags OR FLAGS_ZEROPAD) format
      else if c = 45 then parse_flags (flags OR FLAGS_LEFT) format
      else if c = 43 then parse_flags (flags OR FLAGS_PLUS) format
      else if c = 32 then parse_flags (flags OR FLAGS_SPACE) format
      else if c = 35 then parse_flags (flags OR FLAGS_HASH) format
      else Some (flags, c # format))"

text \<open>The negation of the least int overflows.\<close>

definition neg_int :: "u32 \<Rightarrow> u32 option" where
  "neg_int w = (if w = 0x80000000 then None else Some (- w))"

definition neg_long :: "u64 \<Rightarrow> u64 option" where
  "neg_long w = (if w = 0x8000000000000000 then None else Some (- w))"

definition parse_width :: "u32 \<Rightarrow> bytes \<Rightarrow> varg list \<Rightarrow> (u32 \<times> u32 \<times> bytes \<times> varg list) option" where
  "parse_width flags format va =
     (case format of
        [] \<Rightarrow> None
      | c # format1 \<Rightarrow>
          (if is_digit c then do { (width, format) \<leftarrow> atoi format; Some (flags, width, format, va) }
           else if c = 42 then do {
             (w, va) \<leftarrow> va_int va;
             if w <s 0 then do { width \<leftarrow> neg_int w; Some (flags OR FLAGS_LEFT, width, format1, va) }
             else Some (flags, w, format1, va) }
           else Some (flags, 0, format, va)))"

definition parse_precision :: "u32 \<Rightarrow> bytes \<Rightarrow> varg list \<Rightarrow> (u32 \<times> u32 \<times> bytes \<times> varg list) option" where
  "parse_precision flags format va =
     (case format of
        [] \<Rightarrow> None
      | c # format1 \<Rightarrow>
          (if c = 46 then
             (let flags = flags OR FLAGS_PRECISION in
              case format1 of
                [] \<Rightarrow> None
              | d # format2 \<Rightarrow>
                  (if is_digit d then do { (precision, format) \<leftarrow> atoi format1; Some (flags, precision, format, va) }
                   else if d = 42 then do {
                     (prec, va) \<leftarrow> va_int va;
                     Some (flags, if 0 <s prec then prec else 0, format2, va) }
                   else Some (flags, 0, format1, va)))
           else Some (flags, 0, format, va)))"

definition parse_length :: "u32 \<Rightarrow> bytes \<Rightarrow> (u32 \<times> bytes) option" where
  "parse_length flags format =
     (case format of
        [] \<Rightarrow> None
      | c # format1 \<Rightarrow>
          (if c = 108 then
             (case format1 of
                [] \<Rightarrow> None
              | d # format2 \<Rightarrow>
                  (if d = 108 then Some (flags OR FLAGS_LONG OR FLAGS_LONG_LONG, format2)
                   else Some (flags OR FLAGS_LONG, format1)))
           else if c = 104 then
             (case format1 of
                [] \<Rightarrow> None
              | d # format2 \<Rightarrow>
                  (if d = 104 then Some (flags OR FLAGS_SHORT OR FLAGS_CHAR, format2)
                   else Some (flags OR FLAGS_SHORT, format1)))
           else if c \<in> {116, 106, 122} then Some (flags OR FLAGS_LONG, format1)
           else Some (flags, format)))"

section \<open>Conversions\<close>

text \<open>
  The directives d, i, u, x, X, o and b. A plain char is unsigned on riscv64; \<open>scast\<close> of the low
  16 bits is the cast to short.
\<close>

definition conv_integer ::
    "out_fct \<Rightarrow> u8 \<Rightarrow> bytes \<Rightarrow> nat \<Rightarrow> nat \<Rightarrow> u32 \<Rightarrow> u32 \<Rightarrow> u32 \<Rightarrow> varg list \<Rightarrow>
     (varg list \<times> nat \<times> bytes) option" where
  "conv_integer out c buffer idx maxlen flags width precision va =
     (let base = (if c = 120 \<or> c = 88 then 16 else if c = 111 then 8 else if c = 98 then 2 else 10);
          flags = (if base = 10 then flags AND NOT FLAGS_HASH else flags);
          flags = (if c = 88 then flags OR FLAGS_UPPERCASE else flags);
          flags = (if c \<noteq> 105 \<and> c \<noteq> 100 then flags AND NOT (FLAGS_PLUS OR FLAGS_SPACE) else flags);
          flags = (if has_flag flags FLAGS_PRECISION then flags AND NOT FLAGS_ZEROPAD else flags)
      in
      if c = 105 \<or> c = 100 then
        (if has_flag flags FLAGS_LONG_LONG then do {
           (value, va) \<leftarrow> va_long va;
           m \<leftarrow> (if 0 <s value then Some value else neg_long value);
           (idx, buffer) \<leftarrow> ntoa_long_long out buffer idx maxlen m (value <s 0) base precision width flags;
           Some (va, idx, buffer) }
         else if has_flag flags FLAGS_LONG then do {
           (value, va) \<leftarrow> va_long va;
           m \<leftarrow> (if 0 <s value then Some value else neg_long value);
           (idx, buffer) \<leftarrow> ntoa_long out buffer idx maxlen m (value <s 0) base precision width flags;
           Some (va, idx, buffer) }
         else do {
           (w, va) \<leftarrow> va_int va;
           let value = (if has_flag flags FLAGS_CHAR then ucast (ucast w :: u8)
                        else if has_flag flags FLAGS_SHORT then scast (ucast w :: u16) else w);
           m \<leftarrow> (if 0 <s value then Some value else neg_int value);
           (idx, buffer) \<leftarrow> ntoa_long out buffer idx maxlen (ucast m) (value <s 0) base precision width flags;
           Some (va, idx, buffer) })
      else
        (if has_flag flags FLAGS_LONG_LONG then do {
           (value, va) \<leftarrow> va_long va;
           (idx, buffer) \<leftarrow> ntoa_long_long out buffer idx maxlen value False base precision width flags;
           Some (va, idx, buffer) }
         else if has_flag flags FLAGS_LONG then do {
           (value, va) \<leftarrow> va_long va;
           (idx, buffer) \<leftarrow> ntoa_long out buffer idx maxlen value False base precision width flags;
           Some (va, idx, buffer) }
         else do {
           (w, va) \<leftarrow> va_int va;
           let value = (if has_flag flags FLAGS_CHAR then ucast (ucast w :: u8)
                        else if has_flag flags FLAGS_SHORT then ucast (ucast w :: u16) else w);
           (idx, buffer) \<leftarrow> ntoa_long out buffer idx maxlen (ucast (value :: u32)) False base precision width flags;
           Some (va, idx, buffer) }))"

definition conv_char ::
    "out_fct \<Rightarrow> bytes \<Rightarrow> nat \<Rightarrow> nat \<Rightarrow> u32 \<Rightarrow> u32 \<Rightarrow> varg list \<Rightarrow> (varg list \<times> nat \<times> bytes) option" where
  "conv_char out buffer idx maxlen flags width va = do {
     (idx, buffer) \<leftarrow> (if has_flag flags FLAGS_LEFT then Some (idx, buffer)
                       else out_spaces out (unat width - 1) buffer idx maxlen);
     (w, va) \<leftarrow> va_int va;
     (idx, buffer) \<leftarrow> out_chars out [ucast w] buffer idx maxlen;
     (idx, buffer) \<leftarrow> (if has_flag flags FLAGS_LEFT
                       then out_spaces out (unat width - 1) buffer idx maxlen else Some (idx, buffer));
     Some (va, idx, buffer)
   }"

text \<open>The character at s is read before the limit is tested.\<close>

fun strnlen_s :: "bytes \<Rightarrow> nat \<Rightarrow> nat option" where
  "strnlen_s [] maxsize = None"
| "strnlen_s (c # s) maxsize =
     (if c = 0 \<or> maxsize = 0 then Some 0 else map_option Suc (strnlen_s s (maxsize - 1)))"

text \<open>The characters that the output loop of the directive s outputs, limited by the precision if any.\<close>

fun str_chars :: "bytes \<Rightarrow> nat option \<Rightarrow> bytes option" where
  "str_chars [] limit = None"
| "str_chars (c # p) limit =
     (if c = 0 \<or> limit = Some 0 then Some []
      else map_option ((#) c) (str_chars p (map_option (\<lambda>n. n - 1) limit)))"

definition conv_string ::
    "out_fct \<Rightarrow> bytes \<Rightarrow> nat \<Rightarrow> nat \<Rightarrow> u32 \<Rightarrow> u32 \<Rightarrow> u32 \<Rightarrow> varg list \<Rightarrow> (varg list \<times> nat \<times> bytes) option" where
  "conv_string out buffer idx maxlen flags width precision va = do {
     (p, va) \<leftarrow> va_str va;
     n \<leftarrow> strnlen_s p (if precision \<noteq> 0 then unat precision else 2 ^ 64 - 1);
     let l = (of_nat n :: u32);
     let l = (if has_flag flags FLAGS_PRECISION then (if l < precision then l else precision) else l);
     (idx, buffer) \<leftarrow> (if has_flag flags FLAGS_LEFT then Some (idx, buffer)
                       else out_spaces out (unat width - unat l) buffer idx maxlen);
     cs \<leftarrow> str_chars p (if has_flag flags FLAGS_PRECISION then Some (unat precision) else None);
     (idx, buffer) \<leftarrow> out_chars out cs buffer idx maxlen;
     (idx, buffer) \<leftarrow> (if has_flag flags FLAGS_LEFT
                       then out_spaces out (unat width - unat l) buffer idx maxlen else Some (idx, buffer));
     Some (va, idx, buffer)
   }"

definition conv_pointer ::
    "out_fct \<Rightarrow> bytes \<Rightarrow> nat \<Rightarrow> nat \<Rightarrow> u32 \<Rightarrow> u32 \<Rightarrow> varg list \<Rightarrow> (varg list \<times> nat \<times> bytes) option" where
  "conv_pointer out buffer idx maxlen flags precision va = do {
     (value, va) \<leftarrow> va_long va;
     (idx, buffer) \<leftarrow> ntoa_long_long out buffer idx maxlen value False 16 precision 16
                        (flags OR FLAGS_ZEROPAD OR FLAGS_UPPERCASE);
     Some (va, idx, buffer)
   }"

text \<open>The switch on the specifier.\<close>

type_synonym ftoa = "u8 \<Rightarrow> u64 \<Rightarrow> u32 \<Rightarrow> u32 \<Rightarrow> u32 \<Rightarrow> bytes"

definition conversion ::
    "ftoa \<Rightarrow> out_fct \<Rightarrow> u8 \<Rightarrow> bytes \<Rightarrow> nat \<Rightarrow> nat \<Rightarrow> u32 \<Rightarrow> u32 \<Rightarrow> u32 \<Rightarrow> varg list \<Rightarrow>
     (varg list \<times> nat \<times> bytes) option" where
  "conversion ftoa out c buffer idx maxlen flags width precision va =
     (if c \<in> {100, 105, 117, 120, 88, 111, 98}
      then conv_integer out c buffer idx maxlen flags width precision va
      else if c \<in> {102, 70, 101, 69, 103, 71} then do {
        (d, va) \<leftarrow> va_double va;
        (idx, buffer) \<leftarrow> out_chars out (ftoa c d precision width flags) buffer idx maxlen;
        Some (va, idx, buffer) }
      else if c = 99 then conv_char out buffer idx maxlen flags width va
      else if c = 115 then conv_string out buffer idx maxlen flags width precision va
      else if c = 112 then conv_pointer out buffer idx maxlen flags precision va
      else do {
        (idx, buffer) \<leftarrow> out_chars out [c] buffer idx maxlen;
        Some (va, idx, buffer) })"

text \<open>A directive, from behind the percent sign.\<close>

definition directive ::
    "ftoa \<Rightarrow> out_fct \<Rightarrow> bytes \<Rightarrow> varg list \<Rightarrow> bytes \<Rightarrow> nat \<Rightarrow> nat \<Rightarrow>
     (bytes \<times> varg list \<times> nat \<times> bytes) option" where
  "directive ftoa out format va buffer idx maxlen = do {
     (flags, format) \<leftarrow> parse_flags 0 format;
     (flags, width, format, va) \<leftarrow> parse_width flags format va;
     (flags, precision, format, va) \<leftarrow> parse_precision flags format va;
     (flags, format) \<leftarrow> parse_length flags format;
     case format of
       [] \<Rightarrow> None
     | c # format \<Rightarrow> do {
         (va, idx, buffer) \<leftarrow> conversion ftoa out c buffer idx maxlen flags width precision va;
         Some (format, va, idx, buffer) }
   }"

lemma atoi_loop_length: "atoi_loop i str = Some (v, rest) \<Longrightarrow> length rest \<le> length str"
  by (induction str arbitrary: i) (auto split: if_splits, force)

lemma parse_flags_length: "parse_flags flags format = Some (v, rest) \<Longrightarrow> length rest \<le> length format"
  by (induction format arbitrary: flags) (auto split: if_splits intro: le_SucI)

lemma parse_width_length: "parse_width flags format va = Some (f, w, rest, va') \<Longrightarrow> length rest \<le> length format"
  by (auto simp: parse_width_def atoi_def bind_eq_Some_iff split: list.splits if_splits
      dest!: atoi_loop_length)

lemma parse_precision_length:
  "parse_precision flags format va = Some (f, w, rest, va') \<Longrightarrow> length rest \<le> length format"
  by (auto simp: parse_precision_def atoi_def bind_eq_Some_iff Let_def split: list.splits if_splits
      dest!: atoi_loop_length)

lemma parse_length_length: "parse_length flags format = Some (f, rest) \<Longrightarrow> length rest \<le> length format"
  by (auto simp: parse_length_def split: list.splits if_splits)

lemma case_list_eq_Some:
  "(case xs of [] \<Rightarrow> None | c # r \<Rightarrow> f c r) = Some y \<longleftrightarrow> (\<exists>c r. xs = c # r \<and> f c r = Some y)"
  by (cases xs) auto

lemma directive_length:
  "directive ftoa out format va buffer idx maxlen = Some (rest, r) \<Longrightarrow> length rest < length format"
  unfolding directive_def
  by (auto simp: bind_eq_Some_iff case_list_eq_Some
      dest!: parse_flags_length parse_width_length parse_precision_length parse_length_length)

function vsnprintf_loop ::
    "ftoa \<Rightarrow> out_fct \<Rightarrow> bytes \<Rightarrow> varg list \<Rightarrow> bytes \<Rightarrow> nat \<Rightarrow> nat \<Rightarrow> (nat \<times> bytes) option" where
  "vsnprintf_loop ftoa out format va buffer idx maxlen =
     (case format of
        [] \<Rightarrow> None
      | c # format1 \<Rightarrow>
          (if c = 0 then Some (idx, buffer)
           else if c \<noteq> 37 then
             (case out c buffer idx maxlen of
                None \<Rightarrow> None
              | Some buffer \<Rightarrow> vsnprintf_loop ftoa out format1 va buffer (idx + 1) maxlen)
           else
             (case directive ftoa out format1 va buffer idx maxlen of
                None \<Rightarrow> None
              | Some (format, va, idx, buffer) \<Rightarrow> vsnprintf_loop ftoa out format va buffer idx maxlen)))"
  by pat_completeness auto
termination
  by (relation "measure (\<lambda>(ftoa, out, format, va, buffer, idx, maxlen). length format)")
    (auto dest!: directive_length)

declare vsnprintf_loop.simps [simp del]

text \<open>
  The pointer to the buffer may be null (\<^const>\<open>None\<close>). When maxlen is 0, \<open>maxlen - 1U\<close> is the largest
  size_t. The result is the return value, an int, and the buffer.
\<close>

definition vsnprintf' ::
    "ftoa \<Rightarrow> out_fct \<Rightarrow> bytes option \<Rightarrow> nat \<Rightarrow> bytes \<Rightarrow> varg list \<Rightarrow> (int \<times> bytes) option" where
  "vsnprintf' ftoa out buffer maxlen format va =
     (let (out, buf) = (case buffer of None \<Rightarrow> (out_null, []) | Some b \<Rightarrow> (out, b)) in do {
        (idx, buf) \<leftarrow> vsnprintf_loop ftoa out format va buf 0 maxlen;
        buf \<leftarrow> out 0 buf (if idx < maxlen then idx else (maxlen + 2 ^ 64 - 1) mod 2 ^ 64) maxlen;
        Some (sint (of_nat idx :: u32), buf)
      })"

definition snprintf :: "ftoa \<Rightarrow> bytes option \<Rightarrow> nat \<Rightarrow> bytes \<Rightarrow> varg list \<Rightarrow> (int \<times> bytes) option" where
  "snprintf ftoa buffer count format va = vsnprintf' ftoa out_buffer buffer count format va"

definition vsnprintf :: "ftoa \<Rightarrow> bytes option \<Rightarrow> nat \<Rightarrow> bytes \<Rightarrow> varg list \<Rightarrow> (int \<times> bytes) option" where
  "vsnprintf ftoa buffer count format va = vsnprintf' ftoa out_buffer buffer count format va"

definition sprintf :: "ftoa \<Rightarrow> bytes option \<Rightarrow> bytes \<Rightarrow> varg list \<Rightarrow> (int \<times> bytes) option" where
  "sprintf ftoa buffer format va = vsnprintf' ftoa out_buffer buffer (2 ^ 64 - 1) format va"

definition vprintf' :: "ftoa \<Rightarrow> bytes \<Rightarrow> varg list \<Rightarrow> (int \<times> bytes) option" where
  "vprintf' ftoa format va = vsnprintf' ftoa out_char (Some []) (2 ^ 64 - 1) format va"

definition CKB_C_STDLIB_PRINTF_BUFFER_SIZE :: nat where
  "CKB_C_STDLIB_PRINTF_BUFFER_SIZE = 2048"

text \<open>
  printf formats into its static buffer and hands the C string in it to \<open>ckb_debug\<close>; the result is
  the return value, the buffer for the next call and the string. \<open>ckb_printf\<close> is the same function.
\<close>

definition printf :: "ftoa \<Rightarrow> bytes \<Rightarrow> bytes \<Rightarrow> varg list \<Rightarrow> (int \<times> bytes \<times> bytes) option" where
  "printf ftoa static format va = do {
     (ret, buf) \<leftarrow> vsnprintf ftoa (Some static) CKB_C_STDLIB_PRINTF_BUFFER_SIZE format va;
     str \<leftarrow> cstr buf;
     Some (ret, buf, str)
   }"

definition ckb_printf :: "ftoa \<Rightarrow> bytes \<Rightarrow> bytes \<Rightarrow> varg list \<Rightarrow> (int \<times> bytes \<times> bytes) option" where
  "ckb_printf ftoa static format va = do {
     (ret, buf) \<leftarrow> vsnprintf ftoa (Some static) CKB_C_STDLIB_PRINTF_BUFFER_SIZE format va;
     str \<leftarrow> cstr buf;
     Some (ret, buf, str)
   }"

section \<open>The text of a format\<close>

text \<open>
  Whatever the output function is, the code hands it the same characters at successive indexes.
  The text of a format is what it hands to an output function that appends.
\<close>

definition out_text :: out_fct where
  "out_text character buffer idx maxlen = Some (buffer @ [character])"

definition format_text :: "ftoa \<Rightarrow> bytes \<Rightarrow> varg list \<Rightarrow> bytes option" where
  "format_text ftoa format va = map_option snd (vsnprintf_loop ftoa out_text format va [] 0 0)"

lemma out_chars_text: "out_chars out_text cs buffer idx maxlen = Some (idx + length cs, buffer @ cs)"
  by (induction cs arbitrary: buffer idx) (simp_all add: out_text_def)

lemma out_spaces_chars: "out_spaces out n buffer idx maxlen = out_chars out (replicate n 32) buffer idx maxlen"
  by (induction n arbitrary: buffer idx) simp_all

lemma out_chars_idx: "out_chars out cs buffer idx maxlen = Some (i, b) \<Longrightarrow> i = idx + length cs"
  by (induction cs arbitrary: buffer idx) (force simp: bind_eq_Some_iff)+

lemma out_chars_append:
  "out_chars out (xs @ ys) buffer idx maxlen =
     Option.bind (out_chars out xs buffer idx maxlen) (\<lambda>(i, b). out_chars out ys b i maxlen)"
proof (induction xs arbitrary: buffer idx)
  case Nil
  then show ?case by simp
next
  case (Cons x xs)
  then show ?case by (cases "out x buffer idx maxlen") simp_all
qed

definition rev_text :: "bytes \<Rightarrow> u32 \<Rightarrow> u32 \<Rightarrow> bytes" where
  "rev_text buf width flags =
     (if \<not> has_flag flags FLAGS_LEFT \<and> \<not> has_flag flags FLAGS_ZEROPAD
      then replicate (unat width - length buf) 32 else []) @ rev buf @
     (if has_flag flags FLAGS_LEFT then replicate (unat width - length buf) 32 else [])"

lemma out_rev_chars:
  "out_rev out buffer idx maxlen buf width flags = out_chars out (rev_text buf width flags) buffer idx maxlen"
proof (cases "has_flag flags FLAGS_LEFT")
  case True
  then show ?thesis
    by (cases "out_chars out (rev buf) buffer idx maxlen")
      (auto simp: out_rev_def rev_text_def out_spaces_chars out_chars_append dest: out_chars_idx)
next
  case False
  then show ?thesis
    by (cases "out_chars out (replicate (unat width - length buf) 32) buffer idx maxlen"; cases "out_chars out (rev buf) buffer idx maxlen")
      (auto simp: out_rev_def rev_text_def out_spaces_chars out_chars_append split: option.split)
qed

definition ntoa_text :: "u64 \<Rightarrow> bool \<Rightarrow> u64 \<Rightarrow> u32 \<Rightarrow> u32 \<Rightarrow> u32 \<Rightarrow> bytes" where
  "ntoa_text value negative base prec width flags =
     (case ntoa_long out_text [] 0 0 value negative base prec width flags of
        Some (_, t) \<Rightarrow> t | None \<Rightarrow> [])"

lemma ntoa_long_chars:
  "ntoa_long out buffer idx maxlen value negative base prec width flags =
     out_chars out (ntoa_text value negative base prec width flags) buffer idx maxlen"
  by (simp add: ntoa_text_def ntoa_long_def ntoa_format_def Let_def out_rev_chars out_chars_text)

lemma bind_pair: "Option.bind x (\<lambda>(i, b). Some (a, i, b)) = map_option (Pair a) x"
  by (cases x) auto

text \<open>A piece of output: a value that does not depend on the output function, and characters.\<close>

definition emits ::
    "(out_fct \<Rightarrow> bytes \<Rightarrow> nat \<Rightarrow> nat \<Rightarrow> ('a \<times> nat \<times> bytes) option) \<Rightarrow> ('a \<times> bytes) option \<Rightarrow> bool" where
  "emits f r \<longleftrightarrow> (\<forall>out buffer idx maxlen. f out buffer idx maxlen =
     (case r of None \<Rightarrow> None | Some (a, cs) \<Rightarrow> map_option (Pair a) (out_chars out cs buffer idx maxlen)))"

named_theorems emits_rules \<open>pieces of output, by the shape of the code\<close>

lemma emits_none [emits_rules]: "\<exists>r. emits (\<lambda>out buffer idx maxlen. None) r"
  by (rule exI [of _ None]) (simp add: emits_def)

lemma emits_return [emits_rules]: "\<exists>r. emits (\<lambda>out buffer idx maxlen. Some (a, idx, buffer)) r"
  by (rule exI [of _ "Some (a, [])"]) (simp add: emits_def)

lemma emits_if [emits_rules]:
  "(P \<Longrightarrow> \<exists>r. emits f r) \<Longrightarrow> (\<not> P \<Longrightarrow> \<exists>r. emits g r) \<Longrightarrow>
   \<exists>r. emits (\<lambda>out buffer idx maxlen. if P then f out buffer idx maxlen else g out buffer idx maxlen) r"
  by (cases P) simp_all

lemma emits_bind [emits_rules]:
  "(\<And>y. \<exists>r. emits (f y) r) \<Longrightarrow>
   \<exists>r. emits (\<lambda>out buffer idx maxlen. Option.bind x (\<lambda>y. f y out buffer idx maxlen)) r"
  by (cases x) (simp_all add: emits_none)

lemma emits_pair [emits_rules]:
  "(\<And>a b. \<exists>r. emits (f a b) r) \<Longrightarrow>
   \<exists>r. emits (\<lambda>out buffer idx maxlen. case p of (a, b) \<Rightarrow> f a b out buffer idx maxlen) r"
  by (cases p) simp

lemma emits_chars [emits_rules]:
  assumes "\<exists>r. emits g r"
  shows "\<exists>r. emits (\<lambda>out buffer idx maxlen.
    Option.bind (out_chars out cs buffer idx maxlen) (\<lambda>(i, b). g out b i maxlen)) r"
proof -
  from assms obtain r where g: "\<And>out buffer idx maxlen. g out buffer idx maxlen =
      (case r of None \<Rightarrow> None | Some (a, ds) \<Rightarrow> map_option (Pair a) (out_chars out ds buffer idx maxlen))"
    unfolding emits_def by blast
  have "emits (\<lambda>out buffer idx maxlen. Option.bind (out_chars out cs buffer idx maxlen) (\<lambda>(i, b). g out b i maxlen))
      (map_option (\<lambda>(a, ds). (a, cs @ ds)) r)"
    unfolding emits_def
  proof (intro allI)
    fix out buffer idx maxlen
    show "Option.bind (out_chars out cs buffer idx maxlen) (\<lambda>(i, b). g out b i maxlen) =
      (case map_option (\<lambda>(a, ds). (a, cs @ ds)) r of None \<Rightarrow> None
       | Some (a, ds) \<Rightarrow> map_option (Pair a) (out_chars out ds buffer idx maxlen))"
      by (cases "out_chars out cs buffer idx maxlen") (auto simp: g out_chars_append split: option.split)
  qed
  then show ?thesis by blast
qed

lemma conv_integer_emits:
  "\<exists>r. emits (\<lambda>out buffer idx maxlen. conv_integer out c buffer idx maxlen flags width precision va) r"
  unfolding conv_integer_def Let_def ntoa_long_long_def ntoa_long_chars by (intro emits_rules)

lemma conv_char_emits:
  "\<exists>r. emits (\<lambda>out buffer idx maxlen. conv_char out buffer idx maxlen flags width va) r"
  by (cases "has_flag flags FLAGS_LEFT"; simp only: conv_char_def out_spaces_chars if_True if_False
      Option.bind.simps prod.case not_True_eq_False not_False_eq_True; intro emits_rules)

lemma conv_string_emits:
  "\<exists>r. emits (\<lambda>out buffer idx maxlen. conv_string out buffer idx maxlen flags width precision va) r"
  by (cases "has_flag flags FLAGS_LEFT"; simp only: conv_string_def Let_def out_spaces_chars if_True if_False
      Option.bind.simps prod.case; intro emits_rules)

lemma conv_pointer_emits:
  "\<exists>r. emits (\<lambda>out buffer idx maxlen. conv_pointer out buffer idx maxlen flags precision va) r"
  unfolding conv_pointer_def ntoa_long_long_def ntoa_long_chars by (intro emits_rules)

lemma conversion_emits:
  "\<exists>r. emits (\<lambda>out buffer idx maxlen. conversion ftoa out c buffer idx maxlen flags width precision va) r"
  unfolding conversion_def
  by (intro emits_if conv_integer_emits conv_char_emits conv_string_emits conv_pointer_emits emits_rules)

lemma directive_emits:
  "\<exists>r. \<forall>out buffer idx maxlen. directive ftoa out format va buffer idx maxlen =
     (case r of None \<Rightarrow> None
      | Some (format', va', cs) \<Rightarrow> map_option (\<lambda>(i, b). (format', va', i, b)) (out_chars out cs buffer idx maxlen))"
proof (cases "do {
     (flags, format) \<leftarrow> parse_flags 0 format;
     (flags, width, format, va) \<leftarrow> parse_width flags format va;
     (flags, precision, format, va) \<leftarrow> parse_precision flags format va;
     (flags, format) \<leftarrow> parse_length flags format;
     case format of [] \<Rightarrow> None | c # format \<Rightarrow> Some (c, format, flags, width, precision, va) }")
  case None
  then have "directive ftoa out format va buffer idx maxlen = None" for out buffer idx maxlen
    by (auto simp: directive_def split: option.splits list.splits bind_splits)
  then show ?thesis by (intro exI [of _ None]) simp
next
  case (Some x)
  then obtain c rest flags width precision va' where x: "x = (c, rest, flags, width, precision, va')"
    by (cases x)
  have d: "directive ftoa out format va buffer idx maxlen =
      Option.bind (conversion ftoa out c buffer idx maxlen flags width precision va')
        (\<lambda>(va, idx, buffer). Some (rest, va, idx, buffer))" for out buffer idx maxlen
    using Some unfolding x by (auto simp: directive_def bind_eq_Some_iff case_list_eq_Some)
  obtain r where "emits (\<lambda>out buffer idx maxlen. conversion ftoa out c buffer idx maxlen flags width precision va') r"
    using conversion_emits by blast
  then have "directive ftoa out format va buffer idx maxlen =
      (case map_option (\<lambda>(va, cs). (rest, va, cs)) r of None \<Rightarrow> None
       | Some (format', va', cs) \<Rightarrow> map_option (\<lambda>(i, b). (format', va', i, b)) (out_chars out cs buffer idx maxlen))"
      for out buffer idx maxlen
    unfolding d emits_def by (auto split: option.split simp: map_option_case)
  then show ?thesis by blast
qed

lemma vsnprintf_loop_emits:
  "\<exists>r. \<forall>out buffer idx maxlen. vsnprintf_loop ftoa out format va buffer idx maxlen =
     Option.bind r (\<lambda>cs. out_chars out cs buffer idx maxlen)"
proof (induction "length format" arbitrary: format va rule: less_induct)
  case less
  show ?case
  proof (cases format)
    case Nil
    then show ?thesis by (intro exI [of _ None]) (simp add: vsnprintf_loop.simps)
  next
    case (Cons c format1)
    consider "c = 0" | "c \<noteq> 0" "c \<noteq> 37" | "c = 37" by blast
    then show ?thesis
    proof cases
      case 1
      then show ?thesis by (intro exI [of _ "Some []"]) (simp add: vsnprintf_loop.simps Cons)
    next
      case 2
      from less [of format1 va] Cons obtain r where
        "\<And>out buffer idx maxlen. vsnprintf_loop ftoa out format1 va buffer idx maxlen =
           Option.bind r (\<lambda>cs. out_chars out cs buffer idx maxlen)" by auto
      with 2 have "vsnprintf_loop ftoa out format va buffer idx maxlen =
          Option.bind (map_option ((#) c) r) (\<lambda>cs. out_chars out cs buffer idx maxlen)" for out buffer idx maxlen
        by (subst vsnprintf_loop.simps) (cases r; auto simp: Cons split: option.split)
      then show ?thesis by blast
    next
      case 3
      obtain r where r: "\<And>out buffer idx maxlen. directive ftoa out format1 va buffer idx maxlen =
        (case r of None \<Rightarrow> None
         | Some (format', va', cs) \<Rightarrow> map_option (\<lambda>(i, b). (format', va', i, b)) (out_chars out cs buffer idx maxlen))"
        using directive_emits [of ftoa format1 va] by blast
      show ?thesis
      proof (cases r)
        case None
        with 3 r show ?thesis
          by (intro exI [of _ None]) (subst vsnprintf_loop.simps, simp add: Cons)
      next
        case (Some x)
        then obtain format2 va2 cs where x: "r = Some (format2, va2, cs)" by (cases x) auto
        have "directive ftoa out_text format1 va [] 0 0 = Some (format2, va2, length cs, cs)"
          by (simp add: r x out_chars_text)
        from directive_length [OF this] Cons less [of format2 va2] obtain r2 where
          "\<And>out buffer idx maxlen. vsnprintf_loop ftoa out format2 va2 buffer idx maxlen =
             Option.bind r2 (\<lambda>cs. out_chars out cs buffer idx maxlen)" by auto
        with 3 r x have "vsnprintf_loop ftoa out format va buffer idx maxlen =
            Option.bind (map_option ((@) cs) r2) (\<lambda>cs. out_chars out cs buffer idx maxlen)" for out buffer idx maxlen
          by (subst vsnprintf_loop.simps)
            (cases r2; cases "out_chars out cs buffer idx maxlen"; auto simp: Cons out_chars_append)
        then show ?thesis by blast
      qed
    qed
  qed
qed

lemma vsnprintf_loop_text:
  "vsnprintf_loop ftoa out format va buffer idx maxlen =
     Option.bind (format_text ftoa format va) (\<lambda>cs. out_chars out cs buffer idx maxlen)"
proof -
  obtain r where r: "\<And>out buffer idx maxlen. vsnprintf_loop ftoa out format va buffer idx maxlen =
     Option.bind r (\<lambda>cs. out_chars out cs buffer idx maxlen)"
    using vsnprintf_loop_emits [of ftoa format va] by blast
  have "format_text ftoa format va = r"
    by (cases r) (simp_all add: format_text_def r out_chars_text)
  then show ?thesis using r by simp
qed

text \<open>Writing characters into a buffer of at least maxlen bytes.\<close>

lemma out_chars_beyond:
  "maxlen \<le> idx \<Longrightarrow> out_chars out_buffer cs buffer idx maxlen = Some (idx + length cs, buffer)"
  by (induction cs arbitrary: idx) (simp_all add: out_buffer_def)

lemma out_chars_buffer:
  "idx \<le> maxlen \<Longrightarrow> maxlen \<le> length buffer \<Longrightarrow> out_chars out_buffer cs buffer idx maxlen =
     Some (idx + length cs, take idx buffer @ take (maxlen - idx) cs @ drop (min maxlen (idx + length cs)) buffer)"
proof (induction cs arbitrary: buffer idx)
  case Nil
  then show ?case by simp
next
  case (Cons c cs)
  show ?case
  proof (cases "idx < maxlen")
    case True
    with Cons.prems have i: "idx < length buffer" by simp
    from True have "maxlen - idx = Suc (maxlen - Suc idx)" by simp
    moreover have "take (Suc idx) (buffer[idx := c]) = take idx buffer @ [c]"
      using i by (simp add: take_Suc_conv_app_nth)
    moreover have "drop (min maxlen (Suc (idx + length cs))) (buffer[idx := c]) = drop (min maxlen (Suc (idx + length cs))) buffer"
      using True by simp
    ultimately show ?thesis
      using True i Cons.prems Cons.IH [of "Suc idx" "buffer[idx := c]"]
      by (simp add: out_buffer_def wr_def)
  next
    case False
    with Cons.prems have "idx = maxlen" by simp
    moreover have "out_buffer c buffer maxlen maxlen = Some buffer" by (simp add: out_buffer_def)
    ultimately show ?thesis by (simp add: out_chars_beyond)
  qed
qed

definition c_int :: "nat \<Rightarrow> int" where
  "c_int n = sint (of_nat n :: u32)"

lemma snprintf_text:
  assumes "count \<le> length b" "count < 2 ^ 64"
  shows "snprintf ftoa (Some b) count format va =
     map_option (\<lambda>t. (c_int (length t),
        if count = 0 then b else take (count - 1) t @ 0 # drop (Suc (min (count - 1) (length t))) b))
       (format_text ftoa format va)"
proof (cases "format_text ftoa format va")
  case None
  then show ?thesis by (simp add: snprintf_def vsnprintf'_def vsnprintf_loop_text)
next
  case (Some t)
  have o: "out_chars out_buffer t b 0 count =
      Some (length t, take count t @ drop (min count (length t)) b)"
    using assms out_chars_buffer [of 0 count b t] by simp
  have w: "out_buffer 0 (take count t @ drop (min count (length t)) b)
      (if length t < count then length t else (count + 2 ^ 64 - 1) mod 2 ^ 64) count =
      Some (if count = 0 then b else take (count - 1) t @ 0 # drop (Suc (min (count - 1) (length t))) b)"
  proof (cases "length t < count")
    case True
    then obtain x xs where "drop (length t) b = x # xs" "drop (Suc (length t)) b = xs"
      using assms by (metis Cons_nth_drop_Suc order_less_le_trans)
    with True show ?thesis by (simp add: out_buffer_def wr_def)
  next
    case False
    show ?thesis
    proof (cases "count = 0")
      case True
      then show ?thesis by (simp add: out_buffer_def)
    next
      case pos: False
      then have m: "(count + 2 ^ 64 - 1) mod 2 ^ 64 = count - 1"
        using assms by (simp add: mod_if)
      have "take count t = take (count - 1) t @ [t ! (count - 1)]"
        using False pos take_Suc_conv_app_nth [of "count - 1" t] by simp
      then have "(take count t @ drop count b)[count - 1 := 0] = take (count - 1) t @ 0 # drop count b"
        using False pos by (simp add: list_update_append)
      with False pos assms m show ?thesis by (simp add: out_buffer_def wr_def)
    qed
  qed
  show ?thesis
    using Some o w by (simp add: snprintf_def vsnprintf'_def vsnprintf_loop_text c_int_def)
qed

section \<open>Decimals\<close>

definition dec_nat :: "bytes \<Rightarrow> nat" where
  "dec_nat cs = foldl (\<lambda>n c. n * 10 + (unat c - 48)) 0 cs"

lemma dec_nat_snoc: "dec_nat (cs @ [c]) = dec_nat cs * 10 + (unat c - 48)"
  by (simp add: dec_nat_def)

lemma dec_nat_zeros: "dec_nat (replicate n 48 @ cs) = dec_nat cs"
  by (induction n) (simp_all add: dec_nat_def)

lemma decimal_digit:
  "is_digit (digit_char (v mod 10) upper) \<and> unat (digit_char (v mod 10) upper) - 48 = unat v mod 10"
proof -
  have m: "unat (v mod 10) = unat v mod 10" by (simp add: unat_mod)
  then have l: "v mod 10 < 10" by (simp add: word_less_nat_alt)
  have "unat (ucast (v mod 10) :: u8) = unat v mod 10"
    by (simp add: unsigned_ucast_eq m take_bit_eq_mod) 
  then have "unat (48 + ucast (v mod 10) :: u8) = 48 + unat v mod 10"
    by (subst unat_add_lem [THEN iffD1]) simp_all
  with l show ?thesis by (simp add: digit_char_def is_digit_def word_le_nat_alt)
qed

lemma ntoa_digits_decimal:
  assumes "length buf < 32" "unat v < 10 ^ k" "0 < k" "k \<le> 32 - length buf"
  shows "\<exists>ds. ntoa_digits v 10 upper buf = buf @ ds \<and> ds \<noteq> [] \<and> (\<forall>c\<in>set ds. is_digit c) \<and>
    dec_nat (rev ds) = unat v \<and> length ds \<le> k"
  using assms
proof (induction k arbitrary: buf v)
  case 0
  then show ?case by simp
next
  case (Suc k)
  define d where "d = digit_char (v mod 10) upper"
  have d: "is_digit d" "unat d - 48 = unat v mod 10" using decimal_digit [of v upper] by (simp_all add: d_def)
  have q: "unat (v div 10) = unat v div 10" by (simp add: unat_div)
  show ?case
  proof (cases "v div 10 \<noteq> 0 \<and> length (buf @ [d]) < 32")
    case True
    then have "unat v div 10 \<noteq> 0" using q by (metis unat_eq_zero)
    moreover have "unat (v div 10) < 10 ^ k" using Suc.prems(2) by (simp add: q less_mult_imp_div_less)
    ultimately have "k \<noteq> 0" using q by (cases k) auto
    have "k \<le> 32 - length (buf @ [d])" using Suc.prems(4) by simp
    with Suc.IH [of "buf @ [d]" "v div 10"] True \<open>k \<noteq> 0\<close> \<open>unat (v div 10) < 10 ^ k\<close>
    obtain ds where ds: "ntoa_digits (v div 10) 10 upper (buf @ [d]) = (buf @ [d]) @ ds" "\<forall>c\<in>set ds. is_digit c"
        "dec_nat (rev ds) = unat v div 10" "length ds \<le> k"
      unfolding q by blast
    with True have "ntoa_digits v 10 upper buf = buf @ d # ds"
      by (subst ntoa_digits.simps) (simp add: Let_def d_def PRINTF_NTOA_BUFFER_SIZE_def)
    with ds d show ?thesis by (intro exI [of _ "d # ds"]) (simp add: dec_nat_snoc)
  next
    case False
    have "v div 10 = 0"
    proof (cases "length buf + 1 < 32")
      case True
      with False show ?thesis by simp
    next
      case f: False
      with Suc.prems have "k = 0" by simp
      with Suc.prems(2) have "unat (v div 10) = 0" by (simp add: q)
      then show ?thesis by (simp add: unat_eq_zero)
    qed
    moreover from this q have "unat v mod 10 = unat v" by simp
    ultimately show ?thesis
      using d by (intro exI [of _ "[d]"]) (subst ntoa_digits.simps, simp add: Let_def d_def dec_nat_def)
  qed
qed

lemma pad_zeros_replicate: "n \<le> 32 \<Longrightarrow> pad_zeros n buf = buf @ replicate (n - length buf) 48"
proof (induction "n - length buf" arbitrary: buf)
  case 0
  then show ?case by (subst pad_zeros.simps) simp
next
  case (Suc x)
  then have "length buf < n" by simp
  with Suc have "pad_zeros n (buf @ [48]) = (buf @ [48]) @ replicate (n - length (buf @ [48])) 48"
    by (intro Suc.hyps(1)) simp_all
  moreover from \<open>length buf < n\<close> have "n - length buf = Suc (n - Suc (length buf))" by simp
  ultimately show ?case
    using \<open>length buf < n\<close> Suc.prems by (subst pad_zeros.simps) (simp add: PRINTF_NTOA_BUFFER_SIZE_def)
qed

text \<open>Decimals with the flags 0 and +: a sign, zeros up to the width, the digits.\<close>

lemma ntoa_text_decimal:
  assumes "flags \<in> {0, FLAGS_ZEROPAD, FLAGS_ZEROPAD OR FLAGS_PLUS}" "unat width < 32" "flags = 0 \<longrightarrow> width = 0"
    "unat v < 10 ^ k" "0 < k" "k < 32"
  shows "\<exists>zs ds. ntoa_text v negative 10 0 width flags =
      (if negative then [45] else if has_flag flags FLAGS_PLUS then [43] else []) @ zs @ ds \<and>
      ds \<noteq> [] \<and> (\<forall>c\<in>set ds. is_digit c) \<and> dec_nat ds = unat v \<and> length ds \<le> k \<and>
      zs = replicate (unat width - of_bool (negative \<or> has_flag flags FLAGS_PLUS) - length ds) 48"
proof -
  obtain ds where ds: "ntoa_digits v 10 (has_flag flags FLAGS_UPPERCASE) [] = ds" "ds \<noteq> []"
      "\<forall>c\<in>set ds. is_digit c" "dec_nat (rev ds) = unat v" "length ds \<le> k"
    using ntoa_digits_decimal [of "[]" v k "has_flag flags FLAGS_UPPERCASE"] assms by auto
  have f: "\<not> has_flag flags FLAGS_LEFT" "\<not> has_flag flags FLAGS_HASH" "\<not> has_flag flags FLAGS_PRECISION"
    "\<not> has_flag flags FLAGS_SPACE" "has_flag flags (FLAGS_PLUS OR FLAGS_SPACE) = has_flag flags FLAGS_PLUS"
    "flags AND NOT FLAGS_HASH = flags" "flags \<noteq> 0 \<Longrightarrow> has_flag flags FLAGS_ZEROPAD"
    "flags = 0 \<Longrightarrow> \<not> has_flag flags FLAGS_ZEROPAD"
    using assms(1) by (auto simp: has_flag_def flag_defs)
  define w where "w = unat width - of_bool (negative \<or> has_flag flags FLAGS_PLUS)"
  have wd: "unat (if width \<noteq> 0 \<and> has_flag flags FLAGS_ZEROPAD \<and> (negative \<or> has_flag flags FLAGS_PLUS)
      then width - 1 else width) = w"
    using assms(3) f(7) by (auto simp: w_def unat_minus_one)
  have w32: "w \<le> 32" using assms(2) by (simp add: w_def)
  define b where "b = ds @ replicate (w - length ds) 48"
  have b: "length b < 32" "pad_zeros 0 ds = ds" "pad_zeros w ds = b"
    using assms(2,6) ds(5) w32 by (simp_all add: b_def w_def pad_zeros_replicate)
  have "ntoa_text v negative 10 0 width flags = rev (ntoa_sign b negative flags)"
  proof (cases "flags = 0")
    case True
    with assms(3) have "width = 0" "b = ds" by (simp_all add: b_def w_def)
    with True show ?thesis
      using f ds(1) b
      by (cases "v = 0") (simp_all add: ntoa_text_def ntoa_long_def ntoa_format_def Let_def out_rev_chars out_chars_text rev_text_def)
  next
    case False
    with f ds(1) b wd show ?thesis
      by (cases "v = 0") (simp_all add: ntoa_text_def ntoa_long_def ntoa_format_def Let_def out_rev_chars out_chars_text rev_text_def)
  qed
  also have "\<dots> = (if negative then [45] else if has_flag flags FLAGS_PLUS then [43] else []) @
      replicate (w - length ds) 48 @ rev ds"
    using b(1) f(4) by (simp add: ntoa_sign_def append_room_def PRINTF_NTOA_BUFFER_SIZE_def b_def)
  finally show ?thesis
    using ds by (intro exI [of _ "replicate (w - length ds) 48"] exI [of _ "rev ds"]) (simp add: w_def)
qed

text \<open>A C string literal.\<close>

definition c_format :: "string \<Rightarrow> bytes" where
  "c_format s = strz (map of_char s)"

text \<open>How the text of a format is made: characters stand for themselves, a directive is expanded.\<close>

named_theorems format_eval \<open>the text of a format\<close>

lemma format_end [format_eval]: "format_text ftoa (0 # r) va = Some []"
  by (simp add: format_text_def vsnprintf_loop.simps)

lemma format_char [format_eval]:
  "c \<noteq> 0 \<Longrightarrow> c \<noteq> 37 \<Longrightarrow> format_text ftoa (c # fmt) va = map_option ((#) c) (format_text ftoa fmt va)"
  unfolding format_text_def
  by (subst vsnprintf_loop.simps)
    (cases "format_text ftoa fmt va"; simp add: out_text_def vsnprintf_loop_text out_chars_text)

lemma format_directive [format_eval]:
  "format_text ftoa (37 # fmt) va =
     (case directive ftoa out_text fmt va [] 0 0 of
        None \<Rightarrow> None
      | Some (fmt', va', i, cs) \<Rightarrow> map_option ((@) cs) (format_text ftoa fmt' va'))"
proof (cases "directive ftoa out_text fmt va [] 0 0")
  case None
  then show ?thesis by (simp add: format_text_def vsnprintf_loop.simps [of ftoa out_text "37 # fmt"])
next
  case (Some x)
  obtain fmt' va' i cs where x: "x = (fmt', va', i, cs)" by (cases x)
  show ?thesis
    unfolding format_text_def using Some x
    by (subst vsnprintf_loop.simps) (cases "format_text ftoa fmt' va'"; simp add: vsnprintf_loop_text out_chars_text)
qed

definition int_text :: "u32 \<Rightarrow> u32 \<Rightarrow> u32 \<Rightarrow> bytes" where
  "int_text flags width w = ntoa_text (ucast (if 0 <s w then w else - w)) (w <s 0) 10 0 width flags"

lemma decimal_flags:
  assumes "flags \<in> {0, FLAGS_ZEROPAD, FLAGS_ZEROPAD OR FLAGS_PLUS}"
  shows "flags AND NOT FLAGS_HASH = flags" "flags AND FLAGS_PRECISION = 0" "flags AND FLAGS_LONG_LONG = 0"
    "flags AND FLAGS_LONG = 0" "flags AND FLAGS_CHAR = 0" "flags AND FLAGS_SHORT = 0" "flags AND FLAGS_LEFT = 0"
    "flags AND FLAGS_HASH = 0" "flags AND FLAGS_UPPERCASE = 0" "flags AND FLAGS_SPACE = 0"
  using assms by (auto simp: flag_defs)

lemma conv_integer_d:
  assumes "flags \<in> {0, FLAGS_ZEROPAD, FLAGS_ZEROPAD OR FLAGS_PLUS}" "w \<noteq> 0x80000000"
  shows "conv_integer out 100 buffer idx maxlen flags width 0 (VInt w # va) =
    map_option (Pair va) (out_chars out (int_text flags width w) buffer idx maxlen)"
  using decimal_flags [OF assms(1)] assms(2)
  by (simp add: conv_integer_def has_flag_def int_text_def ntoa_long_chars neg_int_def bind_pair Let_def)

lemma conv_integer_u:
  "conv_integer out 117 buffer idx maxlen 0 width 0 (VInt w # va) =
    map_option (Pair va) (out_chars out (ntoa_text (ucast w) False 10 0 width 0) buffer idx maxlen)"
  by (simp add: conv_integer_def has_flag_def ntoa_long_chars bind_pair Let_def)

lemmas directive_eval = directive_def parse_width_def parse_precision_def parse_length_def is_digit_def
  conversion_def atoi_def map_option_case

lemma directive_u [format_eval]: "directive ftoa out (117 # fmt) (VInt w # va) buffer idx maxlen =
   map_option (\<lambda>(i, b). (fmt, va, i, b)) (out_chars out (ntoa_text (ucast w) False 10 0 0 0) buffer idx maxlen)"
  by (simp add: directive_eval conv_integer_u split: option.split)

lemma directive_d [format_eval]: "w \<noteq> 0x80000000 \<Longrightarrow> directive ftoa out (100 # fmt) (VInt w # va) buffer idx maxlen =
   map_option (\<lambda>(i, b). (fmt, va, i, b)) (out_chars out (int_text 0 0 w) buffer idx maxlen)"
  by (simp add: directive_eval conv_integer_d split: option.split)

lemma directive_02d [format_eval]: "w \<noteq> 0x80000000 \<Longrightarrow> directive ftoa out (48 # 50 # 100 # fmt) (VInt w # va) buffer idx maxlen =
   map_option (\<lambda>(i, b). (fmt, va, i, b)) (out_chars out (int_text FLAGS_ZEROPAD 2 w) buffer idx maxlen)"
  by (simp add: directive_eval conv_integer_d split: option.split)

lemma directive_03d [format_eval]: "w \<noteq> 0x80000000 \<Longrightarrow> directive ftoa out (48 # 51 # 100 # fmt) (VInt w # va) buffer idx maxlen =
   map_option (\<lambda>(i, b). (fmt, va, i, b)) (out_chars out (int_text FLAGS_ZEROPAD 3 w) buffer idx maxlen)"
  by (simp add: directive_eval conv_integer_d split: option.split)

lemma directive_04d [format_eval]: "w \<noteq> 0x80000000 \<Longrightarrow> directive ftoa out (48 # 52 # 100 # fmt) (VInt w # va) buffer idx maxlen =
   map_option (\<lambda>(i, b). (fmt, va, i, b)) (out_chars out (int_text FLAGS_ZEROPAD 4 w) buffer idx maxlen)"
  by (simp add: directive_eval conv_integer_d split: option.split)

lemma directive_p07d [format_eval]: "w \<noteq> 0x80000000 \<Longrightarrow> directive ftoa out (43 # 48 # 55 # 100 # fmt) (VInt w # va) buffer idx maxlen =
   map_option (\<lambda>(i, b). (fmt, va, i, b)) (out_chars out (int_text (FLAGS_ZEROPAD OR FLAGS_PLUS) 7 w) buffer idx maxlen)"
  by (simp add: directive_eval conv_integer_d or.commute [of FLAGS_PLUS] split: option.split)

lemma unat_ucast_u64: "unat (ucast (w :: u32) :: u64) = unat w"
proof -
  have "unat w < 2 ^ 64" using unat_u32_bound [of w] by simp
  then show ?thesis by (simp add: unsigned_ucast_eq take_bit_nat_eq_self)
qed

text \<open>The decimal text of an int: a sign if it is negative or the flag + asks for one, zeros, digits.\<close>

lemma int_text_decimal:
  assumes "flags \<in> {0, FLAGS_ZEROPAD, FLAGS_ZEROPAD OR FLAGS_PLUS}" "unat width < 32" "flags = 0 \<longrightarrow> width = 0"
    and "\<bar>v\<bar> < 2 ^ 31"
  shows "\<exists>ds. int_text flags width (word_of_int v) =
      (if v < 0 then [45] else if has_flag flags FLAGS_PLUS then [43] else []) @ ds \<and>
      ds \<noteq> [] \<and> (\<forall>c\<in>set ds. is_digit c) \<and> dec_nat ds = nat \<bar>v\<bar> \<and>
      (\<forall>k. 0 < k \<longrightarrow> k < 32 \<longrightarrow> \<bar>v\<bar> < 10 ^ k \<longrightarrow>
         length ds \<le> max k (unat width - of_bool (v < 0 \<or> has_flag flags FLAGS_PLUS))) \<and>
      unat width - of_bool (v < 0 \<or> has_flag flags FLAGS_PLUS) \<le> length ds"
proof -
  let ?w = "word_of_int v :: u32"
  have si: "sint ?w = v" using assms(4) by (simp add: signed_of_int signed_take_bit_int_eq_self)
  have neg: "?w <s 0 \<longleftrightarrow> v < 0" and pos: "0 <s ?w \<longleftrightarrow> 0 < v" by (simp_all add: word_sless_alt si)
  define m :: u64 where "m = ucast (if 0 < v then ?w else - ?w)"
  have u: "unat (word_of_int x :: u32) = nat x" if "0 \<le> x" "x < 2 ^ 31" for x
    using that by (simp add: unsigned_of_int take_bit_int_eq_self)
  have "unat (if 0 < v then ?w else - ?w) = nat \<bar>v\<bar>"
  proof (cases "0 < v")
    case True
    then show ?thesis using u [of v] assms(4) by simp
  next
    case False
    have "- ?w = word_of_int (- v)" by simp
    then have "unat (- ?w) = nat (- v)" using u [of "- v"] assms(4) False by (simp only:)
    with False show ?thesis by simp
  qed
  then have m: "unat m = nat \<bar>v\<bar>" by (simp only: m_def unat_ucast_u64)
  have t: "int_text flags width ?w = ntoa_text m (v < 0) 10 0 width flags"
    by (simp add: int_text_def neg pos m_def)
  let ?pad = "unat width - of_bool (v < 0 \<or> has_flag flags FLAGS_PLUS)"
  have some: "\<exists>zs ds. int_text flags width ?w =
      (if v < 0 then [45] else if has_flag flags FLAGS_PLUS then [43] else []) @ zs @ ds \<and>
      ds \<noteq> [] \<and> (\<forall>c\<in>set ds. is_digit c) \<and> dec_nat ds = nat \<bar>v\<bar> \<and> length ds \<le> k \<and>
      zs = replicate (?pad - length ds) 48" if "0 < k" "k < 32" "\<bar>v\<bar> < 10 ^ k" for k
  proof -
    have "unat m < 10 ^ k" using that(3) m by (simp add: nat_less_iff)
    from ntoa_text_decimal [OF assms(1-3) this that(1,2), of "v < 0"] show ?thesis unfolding t m by blast
  qed
  have "\<bar>v\<bar> < 10 ^ 31" using assms(4) by simp
  from some [OF _ _ this] obtain zs ds where d: "int_text flags width ?w =
      (if v < 0 then [45] else if has_flag flags FLAGS_PLUS then [43] else []) @ zs @ ds"
      "ds \<noteq> []" "\<forall>c\<in>set ds. is_digit c" "dec_nat ds = nat \<bar>v\<bar>" "zs = replicate (?pad - length ds) 48"
    by auto
  have "length (zs @ ds) \<le> max k ?pad" if k: "0 < k" "k < 32" "\<bar>v\<bar> < 10 ^ k" for k
  proof -
    from some [OF k] obtain zs' ds' where d': "int_text flags width ?w =
        (if v < 0 then [45] else if has_flag flags FLAGS_PLUS then [43] else []) @ zs' @ ds'"
        "length ds' \<le> k" "zs' = replicate (?pad - length ds') 48" by auto
    with d(1) have "length (zs @ ds) = length (zs' @ ds')" by simp
    with d' show ?thesis by simp
  qed
  moreover have "\<forall>c\<in>set (zs @ ds). is_digit c" using d by (auto simp: is_digit_def)
  moreover have "dec_nat (zs @ ds) = nat \<bar>v\<bar>" using d by (simp add: dec_nat_zeros)
  ultimately show ?thesis using d(1,2,5) by (intro exI [of _ "zs @ ds"]) auto
qed

text \<open>What atoi reads from digits.\<close>

lemma atoi_loop_digits:
  "\<forall>c\<in>set ds. is_digit c \<Longrightarrow> r \<noteq> [] \<Longrightarrow> \<not> is_digit (hd r) \<Longrightarrow>
   atoi_loop i (ds @ r) = Some (foldl (\<lambda>x c. x * 10 + ucast (c - 48)) i ds, r)"
  by (induction ds arbitrary: i) (cases r; simp)+

lemma digits_word:
  "\<forall>c\<in>set ds. is_digit c \<Longrightarrow>
   foldl (\<lambda>x c. x * 10 + ucast (c - 48)) (of_nat n :: u32) ds = of_nat (foldl (\<lambda>n c. n * 10 + (unat c - 48)) n ds)"
proof (induction ds arbitrary: n)
  case Nil
  then show ?case by simp
next
  case (Cons c ds)
  have "(ucast (c - 48) :: u32) = of_nat (unat (c - 48))" by simp
  also have "unat (c - 48) = unat c - 48" using Cons.prems by (simp add: is_digit_def word_le_nat_alt unat_sub_if')
  finally have "(of_nat n :: u32) * 10 + ucast (c - 48) = of_nat (n * 10 + (unat c - 48))" by simp
  with Cons.IH [of "n * 10 + (unat c - 48)"] Cons.prems show ?case by simp
qed

section \<open>Properties\<close>

text \<open>
  C38. The contract that snprintf documents. Let t be the text of the format and its arguments, without
  NUL. A buffer of at least count bytes then holds the first count - 1 characters of t as a C string, the
  bytes from count on are untouched, and the return value is the length of t whether or not it was
  cut; with a null buffer only the length is computed.
\<close>

theorem snprintf_truncates:
  assumes "format_text ftoa format va = Some t" "0 \<notin> set t"
    and "0 < count" "count \<le> length b" "count < 2 ^ 64"
  shows "(\<exists>b'. snprintf ftoa (Some b) count format va = Some (c_int (length t), b') \<and>
      cstr b' = Some (take (count - 1) t) \<and> length b' = length b \<and> drop count b' = drop count b) \<and>
    snprintf ftoa None count format va = Some (c_int (length t), [])"
proof -
  have o: "out_chars out_null t buffer idx maxlen = Some (idx + length t, buffer)" for buffer idx maxlen
    by (induction t arbitrary: idx) (simp_all add: out_null_def)
  have "snprintf ftoa None count format va = Some (c_int (length t), [])"
    using assms(1) by (simp add: snprintf_def vsnprintf'_def vsnprintf_loop_text o out_null_def c_int_def)
  moreover have "\<exists>b'. snprintf ftoa (Some b) count format va = Some (c_int (length t), b') \<and>
      cstr b' = Some (take (count - 1) t) \<and> length b' = length b \<and> drop count b' = drop count b"
  proof (intro exI conjI)
    define u where "u = take (count - 1) t"
    have len: "length u < count" and k: "min (count - 1) (length t) = length u"
      using assms(3) by (auto simp: u_def)
    have "0 \<notin> set u" using assms(2) by (auto simp: u_def dest: in_set_takeD)
    then show "cstr (u @ 0 # drop (Suc (length u)) b) = Some (take (count - 1) t)"
      unfolding u_def [symmetric] by (rule cstr_append_NUL)
    show "snprintf ftoa (Some b) count format va = Some (c_int (length t), u @ 0 # drop (Suc (length u)) b)"
      using assms snprintf_text [of count b ftoa format va] k by (simp add: u_def)
    from len obtain d where d: "count = length u + Suc d" using less_iff_Suc_add by fastforce
    show "length (u @ 0 # drop (Suc (length u)) b) = length b" using assms(4) d by simp
    show "drop count (u @ 0 # drop (Suc (length u)) b) = drop count b" by (simp add: d add.commute)
  qed
  ultimately show ?thesis by blast
qed

text \<open>
  Whatever unsigned int the directive u prints, the program's atoi reads back, up to the end of the
  text.
\<close>

theorem printf_u_atoi: "\<exists>t. format_text ftoa (c_format ''%u'') [VInt w] = Some t \<and> atoi (t @ [0]) = Some (w, [0])"
proof -
  have "unat (ucast w :: u64) = unat w" by (rule unat_ucast_u64)
  moreover have "unat w < 10 ^ 10" using unat_u32_bound [of w] by simp
  ultimately obtain ds where ds: "ntoa_text (ucast w) False 10 0 0 0 = ds" "\<forall>c\<in>set ds. is_digit c" "dec_nat ds = unat w"
    using ntoa_text_decimal [of 0 0 "ucast w" 10 False] by (auto simp: has_flag_def)
  have "format_text ftoa (c_format ''%u'') [VInt w] = Some ds"
    by (simp add: c_format_def strz_def format_eval out_chars_text ds)
  moreover have "atoi (ds @ [0]) = Some (w, [0])"
    using atoi_loop_digits [OF ds(2), of "[0]" 0] digits_word [OF ds(2), of 0] ds(3)
    by (simp add: atoi_def is_digit_def dec_nat_def)
  ultimately show ?thesis by blast
qed

lemma demo_format: "format_text ftoa (c_format ''%s!'') [VStr [104, 101, 121, 0]] = Some [104, 101, 121, 33]"
proof -
  have "directive ftoa out_text (115 # fmt) (VStr [104, 101, 121, 0] # va) [] 0 0 = Some (fmt, va, 3, [104, 101, 121])" for fmt va
    by (simp add: directive_eval conv_string_def has_flag_def out_text_def)
  then show ?thesis
    by (simp add: c_format_def strz_def format_eval)
qed

lemma snprintf_truncates_witness:
  "\<exists>b'. snprintf (\<lambda>c d p w f. []) (Some [1, 1, 1, 1]) 3 (c_format ''%s!'') [VStr [104, 101, 121, 0]] =
       Some (c_int (length [104, 101, 121, 33 :: u8]), b') \<and> cstr b' = Some [104, 101]"
  using snprintf_truncates [OF demo_format, of 3 "[1, 1, 1, 1]" "\<lambda>c d p w f. []"] by auto

end
