(* ===== verification/Js_Date.thy ===== *)
theory Js_Date
  imports Js_Number Printf "HOL-Library.Signed_Division"
begin

text \<open>
  The Date component of quickjs/quickjs.c: the calendar arithmetic (days_from_year,
  year_from_days, get_date_fields, set_date_fields), the getters and setters over it, the
  printing of a date with snprintf and the parser of js_Date_parse.

  The functions compute with doubles that have no fraction; they are integers here, and every
  operation rounds its result to 53 significant bits (to nearest, ties to even), overflows to
  an infinity and propagates NaN as IEEE 754 says. The two zeros are one value: time_clip turns -0
  into +0. Arithmetic on int64_t is exact; an overflow, and a cast of a double that the integer type
  cannot hold, is undefined in C and \<^const>\<open>None\<close> here. The offset of the local time zone
  (localtime_r of the C library) is the argument \<open>tzoff\<close>, in minutes.
\<close>

section \<open>Doubles without a fraction\<close>

datatype dbl = Dnan | Dinf bool | Dint int

function bits :: "int \<Rightarrow> nat" where
  "bits n = (if n \<le> 0 then 0 else Suc (bits (n div 2)))"
  by pat_completeness auto
termination by (relation "measure nat") auto

declare bits.simps [simp del]

definition round_half_even :: "int \<Rightarrow> int \<Rightarrow> int" where
  "round_half_even n d =
     (let q = n div d; r = n mod d in if 2 * r < d \<or> (2 * r = d \<and> even q) then q else q + 1)"

definition d_round :: "int \<Rightarrow> dbl" where
  "d_round n =
     (let k = bits \<bar>n\<bar> - 53; m = round_half_even n (2 ^ k) * 2 ^ k
      in if \<bar>m\<bar> < 2 ^ 1024 then Dint m else Dinf (m < 0))"

fun d_neg :: "dbl \<Rightarrow> dbl" where
  "d_neg Dnan = Dnan"
| "d_neg (Dinf s) = Dinf (\<not> s)"
| "d_neg (Dint a) = Dint (- a)"

fun d_add :: "dbl \<Rightarrow> dbl \<Rightarrow> dbl" where
  "d_add (Dint a) (Dint b) = d_round (a + b)"
| "d_add (Dinf s) (Dint b) = Dinf s"
| "d_add (Dint a) (Dinf t) = Dinf t"
| "d_add (Dinf s) (Dinf t) = (if s = t then Dinf s else Dnan)"
| "d_add _ _ = Dnan"

definition d_sub :: "dbl \<Rightarrow> dbl \<Rightarrow> dbl" where
  "d_sub a b = d_add a (d_neg b)"

fun d_mul :: "dbl \<Rightarrow> dbl \<Rightarrow> dbl" where
  "d_mul (Dint a) (Dint b) = d_round (a * b)"
| "d_mul (Dinf s) (Dint b) = (if b = 0 then Dnan else Dinf (s \<noteq> (b < 0)))"
| "d_mul (Dint a) (Dinf t) = (if a = 0 then Dnan else Dinf (t \<noteq> (a < 0)))"
| "d_mul (Dinf s) (Dinf t) = Dinf (s \<noteq> t)"
| "d_mul _ _ = Dnan"

text \<open>
  \<open>floor (a / 12)\<close>: the quotient is rounded to 53 significant bits before floor sees it. A quotient
  below 1 in magnitude is at most \<open>11 / 12\<close> and does not round to 1.
\<close>

definition floor_div12 :: "int \<Rightarrow> int" where
  "floor_div12 a =
     (if \<bar>a\<bar> < 12 then (if a < 0 then - 1 else 0)
      else (let b = bits (\<bar>a\<bar> div 12) in
            if b \<le> 53 then round_half_even (a * 2 ^ (53 - b)) 12 div 2 ^ (53 - b)
            else round_half_even a (12 * 2 ^ (b - 53)) * 2 ^ (b - 53)))"

definition in_int64 :: "int \<Rightarrow> bool" where
  "in_int64 n \<longleftrightarrow> - (2 ^ 63) \<le> n \<and> n < 2 ^ 63"

fun d_to_int64 :: "dbl \<Rightarrow> int option" where
  "d_to_int64 (Dint n) = (if in_int64 n then Some n else None)"
| "d_to_int64 _ = None"

fun d_to_int :: "dbl \<Rightarrow> int option" where
  "d_to_int (Dint n) = (if - (2 ^ 31) \<le> n \<and> n < 2 ^ 31 then Some n else None)"
| "d_to_int _ = None"

text \<open>\<open>trunc\<close> of a double given by its bits, and JS_ToFloat64 followed by it; \<^const>\<open>None\<close> is an exception.\<close>

definition d_trunc :: "u64 \<Rightarrow> dbl" where
  "d_trunc b = (if isnan b then Dnan else if f64_exp b = 2047 then Dinf (f64_sign b) else Dint (f64_trunc b))"

definition JS_ToFloat64 :: "('b, 'o) js_conv \<Rightarrow> ('b, 'o) jsval \<Rightarrow> dbl option" where
  "JS_ToFloat64 E v =
     (case v of
        JInt n \<Rightarrow> Some (Dint (sint n))
      | JBool b \<Rightarrow> Some (Dint (of_bool b))
      | JNull \<Rightarrow> Some (Dint 0)
      | JFloat64 d \<Rightarrow> Some (d_trunc d)
      | _ \<Rightarrow>
          (case JS_ToNumberFree E v of
             Some (JInt n) \<Rightarrow> Some (Dint (sint n))
           | Some (JFloat64 d) \<Rightarrow> Some (d_trunc d)
           | _ \<Rightarrow> None))"

section \<open>The calendar\<close>

definition math_mod :: "int \<Rightarrow> int \<Rightarrow> int" where
  "math_mod a b = (let m = a smod b in m + of_bool (m < 0) * b)"

definition floor_div :: "int \<Rightarrow> int \<Rightarrow> int" where
  "floor_div a b = (let m = a smod b in (a - (m + of_bool (m < 0) * b)) sdiv b)"

definition days_from_year :: "int \<Rightarrow> int" where
  "days_from_year y =
     365 * (y - 1970) + floor_div (y - 1969) 4 - floor_div (y - 1901) 100 + floor_div (y - 1601) 400"

text \<open>No subexpression overflows.\<close>

definition days_from_year_fits :: "int \<Rightarrow> bool" where
  "days_from_year_fits y \<longleftrightarrow>
     in_int64 (y - 1970) \<and> in_int64 (365 * (y - 1970)) \<and>
     in_int64 (365 * (y - 1970) + floor_div (y - 1969) 4) \<and>
     in_int64 (365 * (y - 1970) + floor_div (y - 1969) 4 - floor_div (y - 1901) 100) \<and>
     in_int64 (days_from_year y)"

definition days_in_year :: "int \<Rightarrow> int" where
  "days_in_year y = 365 + of_bool (y smod 4 = 0) - of_bool (y smod 100 = 0) + of_bool (y smod 400 = 0)"

lemma smod_if: "0 < b \<Longrightarrow> a smod b = (if 0 \<le> a then a mod b else - (- a mod b))" for b :: int
  by (simp add: signed_modulo_int_def signed_divide_int_def sgn_if minus_div_mult_eq_mod)

lemma math_mod_mod: "0 < b \<Longrightarrow> math_mod a b = a mod b"
proof -
  assume b: "0 < b"
  have "a mod b = (if - a mod b = 0 then 0 else b - - a mod b)"
    using zmod_zminus1_eq_if [of "- a" b] by simp
  moreover have "0 \<le> - a mod b" "0 \<le> a mod b" using b by simp_all
  ultimately show ?thesis using b
    by (cases "0 \<le> a"; cases "- a mod b = 0"; simp add: math_mod_def Let_def smod_if order_less_le)
qed

lemma sdiv_exact: "0 < b \<Longrightarrow> (q * b) sdiv b = q" for b :: int
proof (cases "0 \<le> q")
  case True
  assume "0 < b"
  with True show ?thesis by (simp add: signed_divide_int_def sgn_if)
next
  case False
  assume b: "0 < b"
  with False have "\<bar>q * b\<bar> = - q * b" by (simp add: abs_mult)
  then have "\<bar>q * b\<bar> div \<bar>b\<bar> = - q" using b by (simp only: abs_of_pos) (rule nonzero_mult_div_cancel_right, simp)
  with False b show ?thesis by (simp add: signed_divide_int_def sgn_mult)
qed

lemma floor_div_div: "0 < b \<Longrightarrow> floor_div a b = a div b"
proof -
  assume b: "0 < b"
  have "a - a mod b = a div b * b" by (simp add: minus_mod_eq_div_mult)
  with math_mod_mod [OF b, of a] sdiv_exact [OF b, of "a div b"] show ?thesis
    by (simp add: floor_div_def math_mod_def Let_def)
qed

lemma smod_sdiv: "0 \<le> a \<Longrightarrow> 0 < b \<Longrightarrow> a smod b = a mod b \<and> (a - a mod b) sdiv b = a div b" for a b :: int
  by (simp add: smod_if minus_mod_eq_div_mult sdiv_exact)

lemma days_from_year_div:
  "days_from_year y = 365 * (y - 1970) + (y - 1969) div 4 - (y - 1901) div 100 + (y - 1601) div 400"
  by (simp add: days_from_year_def floor_div_div)

lemma smod_0_iff: "0 < b \<Longrightarrow> a smod b = 0 \<longleftrightarrow> a mod b = (0 :: int)"
  by (simp add: smod_if mod_eq_0_iff_dvd)

lemma days_in_year_mod:
  "days_in_year y = 365 + of_bool (y mod 4 = 0) - of_bool (y mod 100 = 0) + of_bool (y mod 400 = 0)"
  by (simp add: days_in_year_def smod_0_iff)

text \<open>The year after y starts days_in_year y days later.\<close>

lemma days_from_year_Suc: "days_from_year (y + 1) = days_from_year y + days_in_year y"
proof -
  have step: "(z + 1) div k = z div k + of_bool ((z + 1) mod k = 0)" if "1 < k" for z k :: int
  proof (cases "z mod k + 1 = k")
    case True
    have "z + 1 = z div k * k + (z mod k + 1)" by simp
    with True have "z + 1 = (z div k + 1) * k" by (simp add: distrib_right)
    then show ?thesis using that by simp
  next
    case False
    have "z mod k < k" "0 \<le> z mod k" using that by simp_all
    with False have r: "0 < z mod k + 1" "z mod k + 1 < k" by linarith+
    have e: "z + 1 = (z mod k + 1) + z div k * k" by simp
    have "(z + 1) div k = z div k" unfolding e using r by (subst div_mult_self1) simp_all
    moreover have "(z + 1) mod k = z mod k + 1" using r by (metis e mod_mult_self1 mod_pos_pos_trivial order_less_imp_le)
    ultimately show ?thesis using r by simp
  qed
  have shift: "(y - c) mod k = 0 \<longleftrightarrow> y mod k = 0" if "k dvd c" for k c
    using dvd_add_left_iff [OF that, of "y - c"] by (simp add: mod_eq_0_iff_dvd)
  have next_div: "(y + 1 - e) div k = (y - e) div k + of_bool (y mod k = 0)"
    if "1 < k" "k dvd c" "e = c + 1" for k c e
    using step [OF that(1), of "y - (c + 1)"] shift [OF that(2)] unfolding that(3) by (simp add: algebra_simps)
  have sum: "365 * (y + 1 - 1970) + A' - B' + C' = (365 * (y - 1970) + A - B + C) + (365 + a - b + c)"
    if "A' = A + a" "B' = B + b" "C' = C + c" for A B C A' B' C' a b c :: int
    using that by simp
  show ?thesis
    unfolding days_from_year_div days_in_year_mod
    by (rule sum; rule next_div [of 4 1968] next_div [of 100 1900] next_div [of 400 1600]; simp)
qed

lemma days_in_year_bounds: "365 \<le> days_in_year y \<and> days_in_year y \<le> 366"
proof -
  have "y mod 400 = 0 \<Longrightarrow> y mod 100 = 0" "y mod 100 = 0 \<Longrightarrow> y mod 4 = 0"
    by (auto simp: mod_eq_0_iff_dvd intro: dvd_trans [of _ 400] dvd_trans [of _ 100])
  then show ?thesis unfolding days_in_year_mod by (auto simp: of_bool_def)
qed

text \<open>The loop of year_from_days recomputes d1 from y in every turn; the result is d1 and the year.\<close>

function year_loop :: "int \<Rightarrow> int \<Rightarrow> int \<times> int" where
  "year_loop d y =
     (let d1 = d - days_from_year y in
      if d1 < 0 then year_loop d (y - 1)
      else if d1 < days_in_year y then (d1, y) else year_loop d (y + 1))"
  by pat_completeness auto
termination
proof (relation "measure (\<lambda>(d, y). let d1 = d - days_from_year y in if d1 < 0 then nat (- d1) + 400 else nat d1)", goal_cases)
  case 1
  show ?case by simp
next
  case (2 d y d1)
  then show ?case
    using days_from_year_Suc [of "y - 1"] days_in_year_bounds [of "y - 1"] by (auto simp: Let_def)
next
  case (3 d y d1)
  then show ?case
    using days_from_year_Suc [of y] days_in_year_bounds [of y] by (auto simp: Let_def)
qed

declare year_loop.simps [simp del]

definition year_from_days :: "int \<Rightarrow> int \<times> int" where
  "year_from_days days = year_loop days (floor_div (days * 10000) 3652425 + 1970)"

definition month_days :: "int list" where
  "month_days = [31, 28, 31, 30, 31, 30, 31, 31, 30, 31, 30, 31]"

definition month_length :: "int \<Rightarrow> nat \<Rightarrow> int" where
  "month_length y i = month_days ! i + (if i = 1 then days_in_year y - 365 else 0)"

function month_loop :: "int \<Rightarrow> nat \<Rightarrow> int \<Rightarrow> nat \<times> int" where
  "month_loop y i days =
     (if i < 11 then
        (let md = month_length y i in if days < md then (i, days) else month_loop y (i + 1) (days - md))
      else (i, days))"
  by pat_completeness auto
termination by (relation "measure (\<lambda>(y, i, days). 11 - i)") auto

declare month_loop.simps [simp del]

text \<open>
  The fields year, month, day, hours, minutes, seconds, milliseconds, week day, offset. A Date
  object is its value; \<^const>\<open>None\<close> is an object of another class. The results -1, FALSE and TRUE of
  get_date_fields:
\<close>

datatype fields_result = Not_a_Date | No_fields | Fields "dbl list"

definition date_fields :: "int \<Rightarrow> int \<Rightarrow> dbl list" where
  "date_fields d tz =
     (let h = math_mod d 86400000;
          days = (d - h) sdiv 86400000;
          ms = h smod 1000;
          h = (h - ms) sdiv 1000;
          s = h smod 60;
          h = (h - s) sdiv 60;
          m = h smod 60;
          h = (h - m) sdiv 60;
          wd = math_mod (days + 4) 7;
          (days, y) = year_from_days days;
          (i, days) = month_loop y 0 days
      in map d_round [y, int i, days + 1, h, m, s, ms, wd, tz])"

definition get_date_fields :: "(int \<Rightarrow> int) \<Rightarrow> dbl option \<Rightarrow> bool \<Rightarrow> bool \<Rightarrow> fields_result option" where
  "get_date_fields tzoff obj is_local force =
     (case obj of
        None \<Rightarrow> Some Not_a_Date
      | Some Dnan \<Rightarrow> if force then Some (Fields (date_fields 0 0)) else Some No_fields
      | Some dval \<Rightarrow>
          (case d_to_int64 dval of
             None \<Rightarrow> None
           | Some d \<Rightarrow>
               (let tz = (if is_local then - tzoff d else 0); d = d + tz * 60000 in
                if in_int64 d \<and> in_int64 (d - math_mod d 86400000)
                then Some (Fields (date_fields d tz)) else None)))"

fun time_clip :: "dbl \<Rightarrow> dbl" where
  "time_clip (Dint t) = (if - 8640000000000000 \<le> t \<and> t \<le> 8640000000000000 then Dint t else Dnan)"
| "time_clip _ = Dnan"

text \<open>\<open>days += md\<close> for the months before m.\<close>

primrec add_months :: "int \<Rightarrow> nat \<Rightarrow> dbl \<Rightarrow> dbl" where
  "add_months y 0 days = days"
| "add_months y (Suc m) days = d_add (add_months y m days) (d_round (month_length y m))"

definition set_date_fields :: "(int \<Rightarrow> int) \<Rightarrow> dbl list \<Rightarrow> bool \<Rightarrow> dbl option" where
  "set_date_fields tzoff fs is_local =
     (case fs ! 1 of
        Dint m1 \<Rightarrow>
          (let m = m1 smod 12; m = (if m < 0 then m + 12 else m) in
           case d_to_int64 (d_add (fs ! 0) (d_round (floor_div12 m1))) of
             None \<Rightarrow> None
           | Some y \<Rightarrow>
               if days_from_year_fits y then
                 (let days = add_months y (nat m) (d_round (days_from_year y));
                      days = d_add days (d_sub (fs ! 2) (Dint 1));
                      h = d_add (d_add (d_add (d_mul (fs ! 3) (Dint 3600000)) (d_mul (fs ! 4) (Dint 60000)))
                                   (d_mul (fs ! 5) (Dint 1000))) (fs ! 6);
                      d = d_add (d_mul days (Dint 86400000)) h
                  in if is_local then
                       (case d_to_int64 d of
                          None \<Rightarrow> None
                        | Some t \<Rightarrow> Some (time_clip (d_add d (d_round (tzoff t * 60000)))))
                     else Some (time_clip d))
               else None)
      | _ \<Rightarrow> None)"

section \<open>Getters, setters and constructors\<close>

datatype 'a js_ret = Exception | Value 'a

text \<open>
  JS_SetThisTimeValue stores the value in the object and returns it; the new value of the object is
  the second component. An object of another class throws.
\<close>

definition JS_SetThisTimeValue :: "dbl option \<Rightarrow> dbl \<Rightarrow> dbl js_ret \<times> dbl option" where
  "JS_SetThisTimeValue this v = (case this of None \<Rightarrow> (Exception, None) | Some _ \<Rightarrow> (Value v, Some v))"

text \<open>magic is \<open>0x100\<close> (getYear) + \<open>n << 4\<close> + is_local.\<close>

definition get_date_field :: "(int \<Rightarrow> int) \<Rightarrow> dbl option \<Rightarrow> u32 \<Rightarrow> dbl js_ret option" where
  "get_date_field tzoff this magic =
     (let is_local = magic AND 0x0F \<noteq> 0; n = unat (drop_bit 4 magic AND 0x0F) in
      case get_date_fields tzoff this is_local False of
        None \<Rightarrow> None
      | Some Not_a_Date \<Rightarrow> Some Exception
      | Some No_fields \<Rightarrow> Some (Value Dnan)
      | Some (Fields fs) \<Rightarrow>
          (let fs = (if magic AND 0x100 \<noteq> 0 then fs[0 := d_sub (fs ! 0) (Dint 1900)] else fs) in
           if n < length fs then Some (Value (fs ! n)) else None))"

text \<open>
  The arguments are given as what JS_ToFloat64 and trunc make of them, \<^const>\<open>None\<close> being an exception. The loop
  over the arguments stops at an exception (\<open>Inl True\<close>) and at a value that is not finite (\<open>Inl False\<close>).
\<close>

fun store_args :: "dbl list \<Rightarrow> nat \<Rightarrow> dbl option list \<Rightarrow> bool + dbl list" where
  "store_args fs i [] = Inr fs"
| "store_args fs i (None # argv) = Inl True"
| "store_args fs i (Some (Dint a) # argv) = store_args (fs[i := Dint a]) (i + 1) argv"
| "store_args fs i (Some a # argv) = Inl False"

text \<open>magic is \<open>first_field << 8\<close> + \<open>end_field << 4\<close> + is_local.\<close>

definition set_date_field ::
    "(int \<Rightarrow> int) \<Rightarrow> dbl option \<Rightarrow> dbl option list \<Rightarrow> u32 \<Rightarrow> (dbl js_ret \<times> dbl option) option" where
  "set_date_field tzoff this argv magic =
     (let first_field = unat (drop_bit 8 magic AND 0x0F); end_field = unat (drop_bit 4 magic AND 0x0F);
          is_local = magic AND 0x0F \<noteq> 0 in
      case get_date_fields tzoff this is_local (first_field = 0) of
        None \<Rightarrow> None
      | Some Not_a_Date \<Rightarrow> Some (Exception, this)
      | Some No_fields \<Rightarrow> Some (JS_SetThisTimeValue this Dnan)
      | Some (Fields fs) \<Rightarrow>
          (if argv = [] then Some (JS_SetThisTimeValue this Dnan)
           else
             (case store_args fs first_field (take (end_field - first_field) argv) of
                Inl True \<Rightarrow> Some (Exception, this)
              | Inl False \<Rightarrow> Some (JS_SetThisTimeValue this Dnan)
              | Inr fs \<Rightarrow> map_option (JS_SetThisTimeValue this) (set_date_fields tzoff fs is_local))))"

text \<open>Arguments of a constructor: the year is stored last, with the century added to a two-digit one.\<close>

definition add_century :: "dbl list \<Rightarrow> dbl list" where
  "add_century fs =
     (case fs ! 0 of Dint y \<Rightarrow> if 0 \<le> y \<and> y < 100 then fs[0 := Dint (y + 1900)] else fs | _ \<Rightarrow> fs)"

definition default_fields :: "dbl list" where
  "default_fields = map Dint [0, 0, 1, 0, 0, 0, 0]"

definition js_Date_UTC :: "dbl option list \<Rightarrow> dbl js_ret option" where
  "js_Date_UTC argv =
     (if argv = [] then Some (Value Dnan)
      else
        (case store_args default_fields 0 (take 7 argv) of
           Inl True \<Rightarrow> Some Exception
         | Inl False \<Rightarrow> Some (Value Dnan)
         | Inr fs \<Rightarrow> map_option Value (set_date_fields (\<lambda>_. 0) (add_century fs) False)))"

definition date_now :: int where "date_now = 0"

definition js_Date_now :: dbl where "js_Date_now = d_round date_now"

definition js_date_getTime :: "dbl option \<Rightarrow> dbl js_ret" where
  "js_date_getTime this = (case this of None \<Rightarrow> Exception | Some v \<Rightarrow> Value v)"

definition js_date_setTime :: "dbl option \<Rightarrow> dbl option \<Rightarrow> dbl js_ret \<times> dbl option" where
  "js_date_setTime this arg =
     (case this of
        None \<Rightarrow> (Exception, None)
      | Some _ \<Rightarrow> (case arg of None \<Rightarrow> (Exception, this) | Some v \<Rightarrow> JS_SetThisTimeValue this (time_clip v)))"

definition js_date_setYear :: "(int \<Rightarrow> int) \<Rightarrow> dbl option \<Rightarrow> dbl option \<Rightarrow> (dbl js_ret \<times> dbl option) option" where
  "js_date_setYear tzoff this arg =
     (case this of
        None \<Rightarrow> Some (Exception, None)
      | Some _ \<Rightarrow>
          (case arg of
             None \<Rightarrow> Some (Exception, this)
           | Some y \<Rightarrow>
               (let y = (case y of Dint y \<Rightarrow> Dint (if 0 \<le> y \<and> y < 100 then y + 1900 else y) | _ \<Rightarrow> y) in
                set_date_field tzoff this [Some y] 0x011)))"

definition js_date_getTimezoneOffset :: "(int \<Rightarrow> int) \<Rightarrow> dbl option \<Rightarrow> dbl js_ret option" where
  "js_date_getTimezoneOffset tzoff this =
     (case this of
        None \<Rightarrow> Some Exception
      | Some Dnan \<Rightarrow> Some (Value Dnan)
      | Some v \<Rightarrow> map_option (\<lambda>t. Value (d_round (tzoff t))) (d_to_int64 v))"

section \<open>Printing\<close>

definition month_names :: bytes where "month_names = c_format ''JanFebMarAprMayJunJulAugSepOctNovDec''"
definition day_names :: bytes where "day_names = c_format ''SunMonTueWedThuFriSat''"

definition va_of :: "int \<Rightarrow> varg" where "va_of n = VInt (word_of_int n)"

text \<open>The name at index i of a table, as the pointer that is passed for \<open>%.3s\<close>; outside the table it is undefined.\<close>

definition name_at :: "bytes \<Rightarrow> int \<Rightarrow> varg option" where
  "name_at names i = (if 0 \<le> i \<and> nat (i * 3) < length names then Some (VStr (drop (nat (i * 3)) names)) else None)"

text \<open>\<open>pos += snprintf(buf + pos, sizeof(buf) - pos, fmt, ...)\<close>\<close>

definition buf_printf :: "ftoa \<Rightarrow> string \<Rightarrow> varg list \<Rightarrow> nat \<times> bytes \<Rightarrow> (nat \<times> bytes) option" where
  "buf_printf ftoa fmt va s =
     (case s of (pos, buf) \<Rightarrow>
        if pos \<le> length buf then
          (case snprintf ftoa (Some (drop pos buf)) (length buf - pos) (c_format fmt) va of
             None \<Rightarrow> None
           | Some (ret, rest) \<Rightarrow> if 0 \<le> ret then Some (pos + nat ret, take pos buf @ rest) else None)
        else None)"

definition buf_char :: "u8 \<Rightarrow> nat \<times> bytes \<Rightarrow> (nat \<times> bytes) option" where
  "buf_char c s = (case s of (pos, buf) \<Rightarrow> map_option (\<lambda>b. (pos + 1, b)) (wr buf pos c))"

definition year_width :: "int \<Rightarrow> varg" where
  "year_width y = va_of (4 + of_bool (y < 0))"

definition date_part :: "ftoa \<Rightarrow> nat \<Rightarrow> nat \<Rightarrow> int \<Rightarrow> int \<Rightarrow> int \<Rightarrow> int \<Rightarrow> nat \<times> bytes \<Rightarrow> (nat \<times> bytes) option" where
  "date_part ftoa fmt part y mon d wd s =
     (if fmt = 0 then do {
        day \<leftarrow> name_at day_names wd; month \<leftarrow> name_at month_names mon;
        buf_printf ftoa ''%.3s, %02d %.3s %0*d '' [day, va_of d, month, year_width y, va_of y] s }
      else if fmt = 1 then do {
        day \<leftarrow> name_at day_names wd; month \<leftarrow> name_at month_names mon;
        s \<leftarrow> buf_printf ftoa ''%.3s %.3s %02d %0*d'' [day, month, va_of d, year_width y, va_of y] s;
        if part = 3 then buf_char 32 s else Some s }
      else if fmt = 2 then do {
        s \<leftarrow> (if 0 \<le> y \<and> y \<le> 9999 then buf_printf ftoa ''%04d'' [va_of y] s
              else buf_printf ftoa ''%+07d'' [va_of y] s);
        buf_printf ftoa ''-%02d-%02dT'' [va_of (mon + 1), va_of d] s }
      else if fmt = 3 then do {
        s \<leftarrow> buf_printf ftoa ''%02d/%02d/%0*d'' [va_of (mon + 1), va_of d, year_width y, va_of y] s;
        if part = 3 then Option.bind (buf_char 44 s) (buf_char 32) else Some s }
      else Some s)"

definition time_part :: "ftoa \<Rightarrow> nat \<Rightarrow> int \<Rightarrow> int \<Rightarrow> int \<Rightarrow> int \<Rightarrow> int \<Rightarrow> nat \<times> bytes \<Rightarrow> (nat \<times> bytes) option" where
  "time_part ftoa fmt h m sec ms tz s =
     (if fmt = 0 then buf_printf ftoa ''%02d:%02d:%02d GMT'' [va_of h, va_of m, va_of sec] s
      else if fmt = 1 then do {
        s \<leftarrow> buf_printf ftoa ''%02d:%02d:%02d GMT'' [va_of h, va_of m, va_of sec] s;
        s \<leftarrow> buf_char (if tz < 0 then 45 else 43) s;
        let tz = (if tz < 0 then - tz else tz);
        buf_printf ftoa ''%02d%02d'' [va_of (tz sdiv 60), va_of (tz smod 60)] s }
      else if fmt = 2 then
        buf_printf ftoa ''%02d:%02d:%02d.%03dZ'' [va_of h, va_of m, va_of sec, va_of ms] s
      else if fmt = 3 then
        buf_printf ftoa ''%02d:%02d:%02d %cM''
          [va_of ((h + 1) smod 12 - 1), va_of m, va_of sec, va_of (if h < 12 then 65 else 80)] s
      else Some s)"

text \<open>
  The result is the bytes that JS_NewStringLen is given. The 64 bytes of buf are not initialised
  (\<open>junk\<close>). The exception is the RangeError of toISOString and the TypeError of another object.
\<close>

definition get_date_string :: "ftoa \<Rightarrow> bytes \<Rightarrow> (int \<Rightarrow> int) \<Rightarrow> dbl option \<Rightarrow> u32 \<Rightarrow> bytes js_ret option" where
  "get_date_string ftoa junk tzoff this magic =
     (let fmt = unat (drop_bit 4 magic AND 0x0F); part = unat (magic AND 0x0F) in
      case get_date_fields tzoff this (odd fmt) False of
        None \<Rightarrow> None
      | Some Not_a_Date \<Rightarrow> Some Exception
      | Some No_fields \<Rightarrow> Some (if fmt = 2 then Exception else Value (map of_char ''Invalid Date''))
      | Some (Fields fs) \<Rightarrow> do {
          y \<leftarrow> d_to_int (fs ! 0); mon \<leftarrow> d_to_int (fs ! 1); d \<leftarrow> d_to_int (fs ! 2); h \<leftarrow> d_to_int (fs ! 3);
          m \<leftarrow> d_to_int (fs ! 4); s \<leftarrow> d_to_int (fs ! 5); ms \<leftarrow> d_to_int (fs ! 6); wd \<leftarrow> d_to_int (fs ! 7);
          tz \<leftarrow> d_to_int (fs ! 8);
          s1 \<leftarrow> (if odd part then date_part ftoa fmt part y mon d wd (0, junk) else Some (0, junk));
          (pos, buf) \<leftarrow> (if odd (part div 2) then time_part ftoa fmt h m s ms tz s1 else Some s1);
          map_option Value (rd_bytes buf 0 pos) })"

section \<open>Parsing\<close>

text \<open>
  A string is the list of its code units. The result of a parser is \<^const>\<open>None\<close> when the accumulator, an
  int64_t or an int, overflows, \<open>Some None\<close> for the return value -1, and else the value and the position behind it.
\<close>

type_synonym units = "nat list"
type_synonym 'a parsed = "'a option option"

definition pbind :: "'a parsed \<Rightarrow> ('a \<Rightarrow> 'b parsed) \<Rightarrow> 'b parsed" where
  "pbind x f = (case x of None \<Rightarrow> None | Some None \<Rightarrow> Some None | Some (Some y) \<Rightarrow> f y)"

definition is_digit_unit :: "nat \<Rightarrow> bool" where
  "is_digit_unit c \<longleftrightarrow> 48 \<le> c \<and> c \<le> 57"

fun skip_while :: "(nat \<Rightarrow> bool) \<Rightarrow> units \<Rightarrow> nat \<Rightarrow> nat" where
  "skip_while P [] p = p"
| "skip_while P (c # s) p = (if P c then skip_while P s (p + 1) else p)"

definition string_skip_spaces :: "units \<Rightarrow> nat \<Rightarrow> nat" where
  "string_skip_spaces sp p = skip_while (\<lambda>c. c = 32) (drop p sp) p"

definition string_skip_non_spaces :: "units \<Rightarrow> nat \<Rightarrow> nat" where
  "string_skip_non_spaces sp p = skip_while (\<lambda>c. c \<noteq> 32) (drop p sp) p"

text \<open>The loop over the units from p on; \<open>v * 10 + c - '0'\<close> is computed from the left.\<close>

fun digits_loop :: "units \<Rightarrow> nat \<Rightarrow> int \<Rightarrow> (int \<times> nat) option" where
  "digits_loop [] p v = Some (v, p)"
| "digits_loop (c # s) p v =
     (if is_digit_unit c then
        (if in_int64 (v * 10) \<and> in_int64 (v * 10 + int c) then digits_loop s (p + 1) (v * 10 + int c - 48) else None)
      else Some (v, p))"

definition string_get_digits :: "units \<Rightarrow> nat \<Rightarrow> (int \<times> nat) parsed" where
  "string_get_digits sp p =
     (if length sp \<le> p \<or> \<not> is_digit_unit (sp ! p) then Some None
      else map_option Some (digits_loop (drop p sp) p 0))"

definition string_get_signed_digits :: "units \<Rightarrow> nat \<Rightarrow> (int \<times> nat) parsed" where
  "string_get_signed_digits sp p =
     (if length sp \<le> p then Some None
      else
        (let sgn = sp ! p; p = (if sgn = 45 \<or> sgn = 43 then p + 1 else p) in
         pbind (string_get_digits sp p) (\<lambda>(v, p). Some (Some (if sgn = 45 then - v else v, p)))))"

primrec fixed_loop :: "nat \<Rightarrow> units \<Rightarrow> int \<Rightarrow> int option" where
  "fixed_loop 0 s v = Some v"
| "fixed_loop (Suc n) s v =
     (case s of
        [] \<Rightarrow> None
      | c # s \<Rightarrow> if is_digit_unit c then fixed_loop n s (v * 10 + int c - 48) else None)"

definition string_get_fixed_width_digits :: "units \<Rightarrow> nat \<Rightarrow> nat \<Rightarrow> (int \<times> nat) option" where
  "string_get_fixed_width_digits sp p n = map_option (\<lambda>v. (v, p + n)) (fixed_loop n (drop p sp) 0)"

text \<open>The state is mul and ms; mul becomes 0 after three digits.\<close>

fun ms_loop :: "units \<Rightarrow> nat \<Rightarrow> int \<Rightarrow> int \<Rightarrow> int \<times> nat" where
  "ms_loop [] p mul ms = (ms, p)"
| "ms_loop (c # s) p mul ms =
     (if is_digit_unit c then
        (let ms = (if mul = 1 \<and> 53 \<le> c then ms + 1 else ms); mul = mul sdiv 10 in
         ms_loop s (p + 1) mul (ms + (int c - 48) * mul))
      else (ms, p))"

definition string_get_milliseconds :: "units \<Rightarrow> nat \<Rightarrow> (int \<times> nat) parsed" where
  "string_get_milliseconds sp p =
     (if length sp \<le> p \<or> \<not> is_digit_unit (sp ! p) then Some None
      else Some (Some (ms_loop (drop p sp) p 1000 0)))"

text \<open>The list is not used: the code compares with month_names.\<close>

definition find_abbrev :: "units \<Rightarrow> nat \<Rightarrow> bytes \<Rightarrow> nat \<Rightarrow> int" where
  "find_abbrev sp p names count =
     (if p + 3 \<le> length sp then
        (case filter (\<lambda>n. \<forall>i\<in>{0, 1, 2}. sp ! (p + i) = unat (month_names ! (n * 3 + i))) [0..<count] of
           [] \<Rightarrow> - 1
         | n # _ \<Rightarrow> int n)
      else - 1)"

definition string_get_month :: "units \<Rightarrow> nat \<Rightarrow> (int \<times> nat) parsed" where
  "string_get_month sp p =
     (let p = string_skip_spaces sp p; n = find_abbrev sp p month_names 12 in
      if n < 0 then Some None else Some (Some (n, p + 3)))"

text \<open>The ISO format: fields 1 to 6, each behind its separator; the result is i, the fields and the position.\<close>

definition iso_separator :: "nat \<Rightarrow> nat" where
  "iso_separator i = (if i = 1 \<or> i = 2 then 45 else if i = 3 then 84 else if i = 4 \<or> i = 5 then 58 else 46)"

function iso_fields :: "units \<Rightarrow> nat \<Rightarrow> nat \<Rightarrow> int list \<Rightarrow> (nat \<times> int list \<times> nat) parsed" where
  "iso_fields sp i p fs =
     (if i < 7 then
        (if length sp \<le> p \<or> sp ! p \<noteq> iso_separator i then Some (Some (i, fs, p))
         else pbind (if i = 6 then string_get_milliseconds sp (p + 1) else string_get_digits sp (p + 1))
                (\<lambda>(v, p). iso_fields sp (i + 1) p (fs[i := v])))
      else Some (Some (i, fs, p)))"
  by pat_completeness auto
termination by (relation "measure (\<lambda>(sp, i, p, fs). 7 - i)") auto

declare iso_fields.simps [simp del]

text \<open>The time zone offset in minutes and is_local; everything up to the end of the string belongs to it.\<close>

definition iso_zone :: "units \<Rightarrow> nat \<Rightarrow> bool \<Rightarrow> (int \<times> bool) option" where
  "iso_zone sp p is_local =
     (if length sp \<le> p then Some (0, is_local)
      else
        (let sgn = sp ! p in
         if sgn = 43 \<or> sgn = 45 then
           (let p = p + 1; l = length sp - p in
            if l \<noteq> 4 \<and> l \<noteq> 5 then None
            else do {
              (hh, p) \<leftarrow> string_get_fixed_width_digits sp p 2;
              p \<leftarrow> (if l = 5 then if sp ! p \<noteq> 58 then None else Some (p + 1) else Some p);
              (mm, p) \<leftarrow> string_get_fixed_width_digits sp p 2;
              let tz = hh * 60 + mm;
              if p = length sp then Some (if sgn = 45 then - tz else tz, False) else None })
         else if sgn = 90 then (if p + 1 = length sp then Some (0, False) else None)
         else None))"

definition parse_iso :: "units \<Rightarrow> (int list \<times> bool \<times> int) parsed" where
  "parse_iso sp =
     pbind (string_get_signed_digits sp 0) (\<lambda>(y, p).
     pbind (iso_fields sp 1 p [y, 1, 1, 0, 0, 0, 0]) (\<lambda>(i, fs, p).
       if in_int64 (fs ! 1 - 1) then
         (case iso_zone sp p (3 < i) of
            None \<Rightarrow> Some None
          | Some (tz, is_local) \<Rightarrow> Some (Some (fs[1 := fs ! 1 - 1], is_local, tz)))
       else None))"

text \<open>The other format: hours, minutes, seconds, then a search for a sign.\<close>

definition parse_hms :: "units \<Rightarrow> nat \<Rightarrow> (int list \<times> nat) parsed" where
  "parse_hms sp p =
     pbind (string_get_digits sp p) (\<lambda>(h, p).
     if length sp \<le> p \<or> sp ! p \<noteq> 58 then Some None
     else pbind (string_get_digits sp (p + 1)) (\<lambda>(m, p).
     if length sp \<le> p \<or> sp ! p \<noteq> 58 then Some None
     else pbind (string_get_digits sp (p + 1)) (\<lambda>(s, p). Some (Some ([h, m, s], p)))))"

function text_zone :: "units \<Rightarrow> nat \<Rightarrow> int option" where
  "text_zone sp p =
     (if p < length sp then
        (let sgn = sp ! p in
         if sgn = 43 \<or> sgn = 45 then do {
           (hh, p) \<leftarrow> string_get_fixed_width_digits sp (p + 1) 2;
           (mm, p) \<leftarrow> string_get_fixed_width_digits sp p 2;
           let tz = hh * 60 + mm;
           Some (if sgn = 45 then - tz else tz) }
         else text_zone sp (p + 1))
      else Some 0)"
  by pat_completeness auto
termination by (relation "measure (\<lambda>(sp, p). length sp - p)") auto

declare text_zone.simps [simp del]

definition parse_text :: "units \<Rightarrow> (int list \<times> bool \<times> int) parsed" where
  "parse_text sp =
     (let p = string_skip_spaces sp (string_skip_non_spaces sp 0) in
      if length sp \<le> p then Some None
      else
        pbind (if is_digit_unit (sp ! p) then
                 pbind (string_get_digits sp p) (\<lambda>(d, p).
                 pbind (string_get_month sp p) (\<lambda>(mon, p). Some (Some (mon, d, p))))
               else
                 pbind (string_get_month sp p) (\<lambda>(mon, p).
                 pbind (string_get_digits sp (string_skip_spaces sp p)) (\<lambda>(d, p). Some (Some (mon, d, p)))))
          (\<lambda>(mon, d, p).
        pbind (string_get_signed_digits sp (string_skip_spaces sp p)) (\<lambda>(y, p).
        pbind (parse_hms sp (string_skip_spaces sp p)) (\<lambda>(hms, p).
        case text_zone sp p of
          None \<Rightarrow> Some None
        | Some tz \<Rightarrow> Some (Some ([y, mon, d] @ hms @ [0], False, tz))))))"

definition js_Date_parse :: "(int \<Rightarrow> int) \<Rightarrow> units \<Rightarrow> dbl option" where
  "js_Date_parse tzoff sp =
     (let iso = (sp \<noteq> [] \<and> (is_digit_unit (sp ! 0) \<or> sp ! 0 = 43 \<or> sp ! 0 = 45)) in
      case (if iso then parse_iso sp else parse_text sp) of
        None \<Rightarrow> None
      | Some None \<Rightarrow> Some Dnan
      | Some (Some (fs, is_local, tz)) \<Rightarrow>
          map_option (\<lambda>d. d_sub d (d_round (tz * 60000))) (set_date_fields tzoff (map d_round fs) is_local))"

text \<open>
  The value of a new Date for the arguments of the constructor. Of an argument the code asks whether
  it is a Date object (then for its value), whether its primitive value is a string, and, in the other
  cases, what JS_ToFloat64 and trunc make of it.
\<close>

datatype date_class = Is_date dbl | Is_string units | Is_other

definition js_date_value :: "(int \<Rightarrow> int) \<Rightarrow> (date_class \<times> dbl option) list \<Rightarrow> dbl js_ret option" where
  "js_date_value tzoff argv =
     (case argv of
        [] \<Rightarrow> Some (Value (d_round date_now))
      | [(Is_date v, num)] \<Rightarrow> Some (Value (time_clip v))
      | [(Is_string s, num)] \<Rightarrow> map_option (\<lambda>d. Value (time_clip d)) (js_Date_parse tzoff s)
      | [(Is_other, num)] \<Rightarrow> Some (case num of None \<Rightarrow> Exception | Some d \<Rightarrow> Value (time_clip d))
      | _ \<Rightarrow>
          (case store_args default_fields 0 (map snd (take 7 argv)) of
             Inl True \<Rightarrow> Some Exception
           | Inl False \<Rightarrow> Some (Value Dnan)
           | Inr fs \<Rightarrow> map_option Value (set_date_fields tzoff (add_century fs) True)))"

text \<open>Called as a function, Date prints the date of now.\<close>

definition js_date_constructor ::
    "ftoa \<Rightarrow> bytes \<Rightarrow> (int \<Rightarrow> int) \<Rightarrow> bool \<Rightarrow> (date_class \<times> dbl option) list \<Rightarrow> (bytes js_ret + dbl js_ret) option" where
  "js_date_constructor ftoa junk tzoff new_target argv =
     (if new_target then map_option Inr (js_date_value tzoff argv)
      else
        (case js_date_value tzoff [] of
           Some (Value v) \<Rightarrow> map_option Inl (get_date_string ftoa junk tzoff (Some v) 0x13)
         | _ \<Rightarrow> None))"

end
