(* ===== verification/Js_Date_Correct.thy ===== *)
theory Js_Date_Correct
  imports Js_Date
begin

text \<open>
  The calendar arithmetic of Js_Date is correct: the fields of a time are in their ranges and
  set_date_fields gives the time back; what toISOString prints, js_Date_parse reads back to the
  same time.
\<close>

section \<open>Rounding is exact below 2 to the 53\<close>

lemma bits_le: "n < 2 ^ k \<Longrightarrow> bits n \<le> k"
proof (induction k arbitrary: n)
  case 0
  then show ?case by (simp add: bits.simps)
next
  case (Suc k)
  then have "bits (n div 2) \<le> k" by simp
  then show ?case by (subst bits.simps) simp
qed

lemma d_round_exact:
  assumes "\<bar>n\<bar> < 2 ^ 53"
  shows "d_round n = Dint n"
proof -
  have "(2 :: int) ^ 53 < 2 ^ 1024" by simp
  with assms have "\<bar>n\<bar> < 2 ^ 1024" by linarith
  with bits_le [OF assms] show ?thesis by (simp add: d_round_def round_half_even_def)
qed

lemma d_add_exact: "\<bar>a + b\<bar> < 2 ^ 53 \<Longrightarrow> d_add (Dint a) (Dint b) = Dint (a + b)"
  by (simp add: d_round_exact)

lemma d_sub_exact: "\<bar>a - b\<bar> < 2 ^ 53 \<Longrightarrow> d_sub (Dint a) (Dint b) = Dint (a - b)"
  by (simp add: d_sub_def d_round_exact)

lemma d_mul_exact: "\<bar>a * b\<bar> < 2 ^ 53 \<Longrightarrow> d_mul (Dint a) (Dint b) = Dint (a * b)"
  by (simp add: d_round_exact)

lemmas d_exact = d_add_exact d_sub_exact d_mul_exact d_round_exact

section \<open>Years and months\<close>

lemma year_loop_ok: "year_loop d y = (d1, y') \<Longrightarrow> d = days_from_year y' + d1 \<and> 0 \<le> d1 \<and> d1 < days_in_year y'"
proof (induction d y rule: year_loop.induct)
  case (1 d y)
  show ?case
  proof (cases "d - days_from_year y < 0 \<or> days_in_year y \<le> d - days_from_year y")
    case True
    with "1.IH" "1.prems" show ?thesis
      by (subst (asm) year_loop.simps) (auto simp: Let_def split: if_splits)
  next
    case False
    with "1.prems" show ?thesis by (subst (asm) year_loop.simps) (auto simp: Let_def)
  qed
qed

text \<open>A year starts about 365.2425 days after the one before.\<close>

lemma days_from_year_bounds:
  "365 * (y - 1970) \<le> days_from_year y + (if y < 1970 then - (y - 1970) else 0) \<and>
   days_from_year y \<le> 366 * (y - 1970) + (if y < 1970 then - (y - 1970) else 0)"
proof (induction y rule: int_induct [where k = 1970])
  case base
  then show ?case by (simp add: days_from_year_div)
next
  case (step1 i)
  then show ?case using days_from_year_Suc [of i] days_in_year_bounds [of i] by simp
next
  case (step2 i)
  then show ?case using days_from_year_Suc [of "i - 1"] days_in_year_bounds [of "i - 1"] by (auto split: if_splits)
qed

lemma year_bounds:
  assumes "d = days_from_year y + d1" "0 \<le> d1" "d1 < 366" "\<bar>d\<bar> \<le> 100000001"
  shows "- 300000 < y \<and> y < 300000"
  using assms days_from_year_bounds [of y] by (auto split: if_splits)

definition months_before :: "int \<Rightarrow> nat \<Rightarrow> int" where
  "months_before y i = (\<Sum>j<i. month_length y j)"

lemma month_days_nth:
  "i < 12 \<Longrightarrow> 28 \<le> month_days ! i \<and> month_days ! i \<le> 31" 
  by (auto simp: month_days_def less_Suc_eq numeral_eq_Suc)

lemma month_length_bounds: "i < 12 \<Longrightarrow> 28 \<le> month_length y i \<and> month_length y i \<le> 31"
  using month_days_nth [of i] days_in_year_bounds [of y] by (auto simp: month_length_def month_days_def)

lemma month_length_nonneg: "i < 12 \<Longrightarrow> 0 \<le> month_length y i"
  using month_length_bounds [of i y] by simp

lemma months_before_12: "months_before y 12 = days_in_year y"
  by (simp add: months_before_def numeral_eq_Suc month_length_def month_days_def)

lemma months_before_bounds: "i \<le> 12 \<Longrightarrow> 0 \<le> months_before y i \<and> months_before y i \<le> 366"
proof -
  have "0 \<le> months_before y i" if "i \<le> 12" for i
    unfolding months_before_def by (rule sum_nonneg) (use that in \<open>simp add: month_length_nonneg\<close>)
  moreover have "months_before y i \<le> months_before y 12" if "i \<le> 12" for i
    unfolding months_before_def by (rule sum_mono2) (use that in \<open>auto simp: month_length_nonneg\<close>)
  ultimately show "i \<le> 12 \<Longrightarrow> 0 \<le> months_before y i \<and> months_before y i \<le> 366"
    using days_in_year_bounds [of y] by (fastforce simp: months_before_12)
qed

lemma month_loop_ok:
  "month_loop y i days = (i', r) \<Longrightarrow> 0 \<le> days \<Longrightarrow> i \<le> 11 \<Longrightarrow>
   i \<le> i' \<and> i' \<le> 11 \<and> 0 \<le> r \<and> months_before y i + days = months_before y i' + r \<and> (i' < 11 \<longrightarrow> r < month_length y i')"
proof (induction y i days rule: month_loop.induct)
  case (1 y i days)
  show ?case
  proof (cases "i < 11 \<and> month_length y i \<le> days")
    case True
    moreover have "months_before y (Suc i) = months_before y i + month_length y i" by (simp add: months_before_def)
    ultimately show ?thesis
      using "1.IH" "1.prems" by (subst (asm) (2) month_loop.simps) (auto simp: Let_def split: if_splits)
  next
    case False
    with "1.prems" show ?thesis by (subst (asm) month_loop.simps) (auto simp: Let_def split: if_splits)
  qed
qed

lemma month_of_day:
  assumes "month_loop y 0 days = (i, r)" "0 \<le> days" "days < days_in_year y"
  shows "i \<le> 11 \<and> 0 \<le> r \<and> r < month_length y i \<and> days = months_before y i + r"
proof -
  have "months_before y 12 = months_before y 11 + month_length y 11" by (simp add: months_before_def numeral_eq_Suc)
  with assms(3) month_loop_ok [OF assms(1,2)] show ?thesis
    by (cases "i = 11") (auto simp: months_before_12, simp_all add: months_before_def)
qed

section \<open>Fields of a time and back\<close>

text \<open>The time of fields, as an integer.\<close>

definition time_of :: "int \<Rightarrow> nat \<Rightarrow> int \<Rightarrow> int \<Rightarrow> int \<Rightarrow> int \<Rightarrow> int \<Rightarrow> int" where
  "time_of y i day h m s ms =
     (days_from_year y + months_before y i + (day - 1)) * 86400000 + (h * 3600000 + m * 60000 + s * 1000 + ms)"

definition valid_fields :: "int \<Rightarrow> nat \<Rightarrow> int \<Rightarrow> int \<Rightarrow> int \<Rightarrow> int \<Rightarrow> int \<Rightarrow> bool" where
  "valid_fields y i day h m s ms \<longleftrightarrow>
     \<bar>y\<bar> < 300000 \<and> i < 12 \<and> 1 \<le> day \<and> day \<le> month_length y i \<and> 0 \<le> h \<and> h < 24 \<and>
     0 \<le> m \<and> m < 60 \<and> 0 \<le> s \<and> s < 60 \<and> 0 \<le> ms \<and> ms < 1000"

lemma days_bound: "\<bar>y\<bar> < 300000 \<Longrightarrow> \<bar>days_from_year y\<bar> < 200000000"
  using days_from_year_bounds [of y] by (auto split: if_splits)

lemma add_months_exact:
  "\<bar>d\<bar> < 200000000 \<Longrightarrow> i \<le> 12 \<Longrightarrow> add_months y i (Dint d) = Dint (d + months_before y i)"
proof (induction i)
  case 0
  then show ?case by (simp add: months_before_def)
next
  case (Suc i)
  have b: "months_before y (Suc i) = months_before y i + month_length y i" by (simp add: months_before_def)
  have "\<bar>month_length y i\<bar> < 2 ^ 53" "\<bar>d + months_before y i + month_length y i\<bar> < 2 ^ 53"
    using Suc.prems months_before_bounds [of "Suc i" y] months_before_bounds [of i y] month_length_bounds [of i y] b
    by (simp_all add: abs_less_iff)
  with Suc show ?case by (simp only: add_months.simps b d_exact) (simp add: d_exact add.assoc)
qed

lemma days_from_year_fits_small: "\<bar>y\<bar> < 300000 \<Longrightarrow> days_from_year_fits y"
proof -
  assume y: "\<bar>y\<bar> < 300000"
  have div: "\<bar>a div k\<bar> \<le> 1000000" if "\<bar>a\<bar> < 1000000" "0 < k" for a k :: int
  proof -
    have "a div k \<le> 1000000" using that zdiv_mono2 [of a 1 k] div_nonpos_pos_le0 [of a k] by (cases "0 \<le> a") auto
    moreover have "- 1000000 \<le> a div k"
      using that zdiv_mono2_neg [of a 1 k] div_int_pos_iff [of a k] by (cases "0 \<le> a") auto
    ultimately show ?thesis by simp
  qed
  have "\<bar>floor_div (y - 1969) 4\<bar> \<le> 1000000" "\<bar>floor_div (y - 1901) 100\<bar> \<le> 1000000"
    using y div [of "y - 1969" 4] div [of "y - 1901" 100] by (auto simp: floor_div_div abs_less_iff)
  then show ?thesis
    using y days_bound [OF y] unfolding days_from_year_fits_def in_int64_def by (simp add: abs_less_iff abs_le_iff)
qed

lemma set_date_fields_exact:
  assumes v: "valid_fields y i day h m s ms" and t: "\<bar>time_of y i day h m s ms\<bar> \<le> 8640000000000000"
  shows "set_date_fields tzoff (map Dint ([y, int i, day, h, m, s, ms] @ r)) False =
     Some (Dint (time_of y i day h m s ms))"
proof -
  have i: "int i smod 12 = int i" "floor_div12 (int i) = 0"
    using v by (simp_all add: valid_fields_def smod_if floor_div12_def)
  define D where "D = days_from_year y + months_before y i + (day - 1)"
  define H where "H = h * 3600000 + m * 60000 + s * 1000 + ms"
  have time: "time_of y i day h m s ms = D * 86400000 + H" by (simp add: time_of_def D_def H_def)
  have y: "\<bar>y\<bar> < 300000" "\<bar>days_from_year y\<bar> < 200000000" and m: "0 \<le> months_before y i" "months_before y i \<le> 366"
    and day: "1 \<le> day" "day \<le> 31"
    using v days_bound [of y] months_before_bounds [of i y] month_length_bounds [of i y]
    by (simp_all add: valid_fields_def)
  have fields: "0 \<le> h" "h < 24" "0 \<le> m" "m < 60" "0 \<le> s" "s < 60" "0 \<le> ms" "ms < 1000"
    using v by (simp_all add: valid_fields_def)
  then have H: "0 \<le> H" "H < 86400000" by (simp_all add: H_def)
  have "\<bar>D * 86400000\<bar> < 2 ^ 53" using t H unfolding time by (simp add: abs_le_iff abs_less_iff)
  moreover have "d_round 0 = Dint 0" "d_add (Dint y) (Dint 0) = Dint y" using y(1) by (simp_all add: d_exact)
  moreover have "d_to_int64 (Dint y) = Some y" using y(1) by (simp add: in_int64_def abs_less_iff)
  moreover have "d_round (days_from_year y) = Dint (days_from_year y)" using y(2) by (intro d_round_exact) simp
  moreover have "add_months y i (Dint (days_from_year y)) = Dint (days_from_year y + months_before y i)"
    using add_months_exact [OF y(2), of i] v by (simp add: valid_fields_def)
  moreover have "d_add (Dint (days_from_year y + months_before y i)) (d_sub (Dint day) (Dint 1)) = Dint D"
    using y(2) m day by (subst d_sub_exact) (simp_all add: d_exact D_def abs_less_iff)
  moreover have "d_add (d_add (d_add (d_mul (Dint h) (Dint 3600000)) (d_mul (Dint m) (Dint 60000)))
      (d_mul (Dint s) (Dint 1000))) (Dint ms) = Dint H"
    using fields by (simp add: d_exact H_def)
  moreover have "d_add (Dint (D * 86400000)) (Dint H) = Dint (D * 86400000 + H)"
    using t unfolding time by (intro d_add_exact) simp
  ultimately show ?thesis
    using t unfolding time
    by (simp add: set_date_fields_def i days_from_year_fits_small [OF y(1)] d_mul_exact abs_le_iff
        del: d_add.simps d_mul.simps)
qed

text \<open>The fields of a time.\<close>

lemma date_fields_ok:
  assumes "\<bar>d\<bar> \<le> 8640000000000000" "\<bar>tz\<bar> < 2 ^ 53"
  shows "\<exists>y i day h m s ms wd. date_fields d tz = map Dint [y, int i, day, h, m, s, ms, wd, tz] \<and>
     valid_fields y i day h m s ms \<and> time_of y i day h m s ms = d \<and> 0 \<le> wd \<and> wd < 7"
proof -
  define days where "days = d div 86400000"
  define a0 where "a0 = d mod 86400000"
  define a1 where "a1 = a0 div 1000"
  define a2 where "a2 = a1 div 60"
  define a3 where "a3 = a2 div 60"
  define ms s m where "ms = a0 mod 1000" and "s = a1 mod 60" and "m = a2 mod 60"
  have "0 \<le> a0" "a0 < 86400000" and d: "d = days * 86400000 + a0" by (simp_all add: a0_def days_def)
  have e: "a0 = a1 * 1000 + ms" "a1 = a2 * 60 + s" "a2 = a3 * 60 + m"
    by (simp_all add: a1_def a2_def a3_def ms_def s_def m_def)
  have r: "0 \<le> ms" "ms < 1000" "0 \<le> s" "s < 60" "0 \<le> m" "m < 60" by (simp_all add: ms_def s_def m_def)
  from e r \<open>0 \<le> a0\<close> \<open>a0 < 86400000\<close> have a: "0 \<le> a1" "0 \<le> a2" "0 \<le> a3" "a3 < 24" by linarith+
  obtain d1 y where y: "year_from_days days = (d1, y)" by (cases "year_from_days days")
  then have "days = days_from_year y + d1" "0 \<le> d1" "d1 < days_in_year y"
    using year_loop_ok unfolding year_from_days_def by blast+
  obtain i k where i: "month_loop y 0 d1 = (i, k)" by (cases "month_loop y 0 d1")
  with month_of_day [OF i] \<open>0 \<le> d1\<close> \<open>d1 < days_in_year y\<close>
  have mon: "i \<le> 11" "0 \<le> k" "k < month_length y i" "d1 = months_before y i + k" by blast+
  have "\<bar>days\<bar> \<le> 100000001" using assms(1) d \<open>0 \<le> a0\<close> \<open>a0 < 86400000\<close> by (simp add: abs_le_iff)
  with year_bounds [of days y d1] \<open>days = days_from_year y + d1\<close> \<open>0 \<le> d1\<close> \<open>d1 < days_in_year y\<close> days_in_year_bounds [of y]
  have yb: "\<bar>y\<bar> < 300000" by (simp add: abs_less_iff)
  have "math_mod d 86400000 = a0" "(d - a0) sdiv 86400000 = days"
    using sdiv_exact [of 86400000 days] by (simp_all add: math_mod_mod a0_def d [symmetric] days_def minus_mod_eq_div_mult)
  moreover have "a0 smod 1000 = ms" "(a0 - ms) sdiv 1000 = a1"
    unfolding ms_def a1_def using smod_sdiv [of a0 1000] \<open>0 \<le> a0\<close> by simp_all
  moreover have "a1 smod 60 = s" "(a1 - s) sdiv 60 = a2" unfolding s_def a2_def using smod_sdiv [of a1 60] a(1) by simp_all
  moreover have "a2 smod 60 = m" "(a2 - m) sdiv 60 = a3" unfolding m_def a3_def using smod_sdiv [of a2 60] a(2) by simp_all
  moreover define wd where "wd = math_mod (days + 4) 7"
  ultimately have "date_fields d tz = map d_round [y, int i, k + 1, a3, m, s, ms, wd, tz]"
    unfolding date_fields_def Let_def by (simp only: y i prod.case)
  moreover have wd: "0 \<le> wd" "wd < 7" by (simp_all add: wd_def math_mod_mod)
  moreover have "d_round n = Dint n" if "- 300000 < n" "n < 300000" for n using that by (intro d_round_exact) simp
  moreover have "k + 1 \<le> 31" using mon month_length_bounds [of i y] by simp
  ultimately have "date_fields d tz = map Dint [y, int i, k + 1, a3, m, s, ms, wd, tz]"
    using yb mon(1,2) r a(3,4) d_round_exact [OF assms(2)] by (simp add: abs_less_iff)
  moreover have "valid_fields y i (k + 1) a3 m s ms" using yb mon r a by (simp add: valid_fields_def)
  moreover have "time_of y i (k + 1) a3 m s ms = d"
    using d e mon(4) \<open>days = days_from_year y + d1\<close> by (simp add: time_of_def)
  ultimately show ?thesis using wd by blast
qed

lemma get_date_fields_utc:
  assumes "\<bar>t\<bar> \<le> 8640000000000000"
  shows "get_date_fields tzoff (Some (Dint t)) False force = Some (Fields (date_fields t 0))"
proof -
  have m: "0 \<le> t mod 86400000" "t mod 86400000 < 86400000" by simp_all
  define r where "r = t mod 86400000"
  from m assms have "in_int64 t" "in_int64 (t - r)" unfolding r_def [symmetric] by (simp_all add: in_int64_def abs_le_iff)
  then show ?thesis by (simp add: get_date_fields_def math_mod_mod r_def)
qed

end
