(* ===== verification/Js_Date_Iso.thy ===== *)
theory Js_Date_Iso
  imports Js_Date_Correct
begin

text \<open>What toISOString prints through snprintf, and what js_Date_parse makes of it.\<close>

section \<open>Printing into the buffer\<close>

lemma c_int_small: "n < 2 ^ 31 \<Longrightarrow> c_int n = int n"
proof -
  assume n: "n < 2 ^ 31"
  have "(of_nat n :: u32) = word_of_int (int n)" by simp
  then have "c_int n = signed_take_bit 31 (int n)" unfolding c_int_def by (simp only: signed_of_int) simp
  also have "\<dots> = int n" using n by (intro signed_take_bit_int_eq_self) simp_all
  finally show ?thesis .
qed

lemma buf_printf_text:
  assumes "format_text ftoa (c_format fmt) va = Some t" "length t < length rest" "length rest < 1000"
  shows "\<exists>rest'. buf_printf ftoa fmt va (length pre, pre @ rest) = Some (length (pre @ t), (pre @ t) @ rest') \<and>
    length rest' = length rest - length t"
proof -
  have "rest \<noteq> []" using assms(2) by auto
  have "snprintf ftoa (Some rest) (length rest) (c_format fmt) va =
      Some (int (length t), t @ 0 # drop (Suc (length t)) rest)"
    using assms \<open>rest \<noteq> []\<close> by (simp add: snprintf_text c_int_small min_def)
  with assms(2) \<open>rest \<noteq> []\<close> show ?thesis
    by (intro exI [of _ "0 # drop (Suc (length t)) rest"]) (simp add: buf_printf_def)
qed

lemma va_of_ok: "\<bar>n\<bar> < 300000 \<Longrightarrow> (word_of_int n :: u32) \<noteq> 0x80000000"
proof
  assume n: "\<bar>n\<bar> < 300000" and e: "(word_of_int n :: u32) = 0x80000000"
  have "sint (word_of_int n :: u32) = n" using n by (simp add: signed_of_int signed_take_bit_int_eq_self)
  moreover have "sint (0x80000000 :: u32) = - (2 ^ 31)" by simp
  ultimately show False using n e by simp
qed

text \<open>Digits of a number in a field of a width that it fits in.\<close>

definition digits_of :: "int \<Rightarrow> bytes \<Rightarrow> bool" where
  "digits_of n ds \<longleftrightarrow> ds \<noteq> [] \<and> (\<forall>c\<in>set ds. is_digit c) \<and> int (dec_nat ds) = n"

lemma int_text_field:
  assumes "0 \<le> n" "n < 10 ^ unat w" "0 < unat w" "unat w < 9"
  shows "digits_of n (int_text FLAGS_ZEROPAD w (word_of_int n)) \<and> length (int_text FLAGS_ZEROPAD w (word_of_int n)) = unat w"
proof -
  have "(10 :: int) ^ unat w \<le> 10 ^ 8" using assms(4) by (intro power_increasing) simp_all
  then have "\<bar>n\<bar> < 2 ^ 31" using assms(1,2) by simp
  moreover have f: "\<not> has_flag FLAGS_ZEROPAD FLAGS_PLUS" by (simp add: has_flag_def flag_defs)
  ultimately obtain ds where ds: "int_text FLAGS_ZEROPAD w (word_of_int n) = ds" "ds \<noteq> []" "\<forall>c\<in>set ds. is_digit c"
      "dec_nat ds = nat \<bar>n\<bar>" "unat w \<le> length ds"
      and k: "\<And>k. 0 < k \<Longrightarrow> k < 32 \<Longrightarrow> \<bar>n\<bar> < 10 ^ k \<Longrightarrow> length ds \<le> max k (unat w)"
    using int_text_decimal [of FLAGS_ZEROPAD w n] assms(1,3,4) by (auto simp: flag_defs not_less)
  from k [of "unat w"] assms ds(5) have "length ds = unat w" by simp
  with ds assms(1) show ?thesis by (simp add: digits_of_def)
qed

lemma int_text_signed:
  assumes "\<bar>y\<bar> < 10 ^ 6"
  shows "\<exists>ds. int_text (FLAGS_ZEROPAD OR FLAGS_PLUS) 7 (word_of_int y) = (if y < 0 then 45 else 43) # ds \<and>
     digits_of \<bar>y\<bar> ds \<and> length ds = 6"
proof -
  have p: "has_flag (FLAGS_ZEROPAD OR FLAGS_PLUS) FLAGS_PLUS" by (simp add: has_flag_def flag_defs)
  have nz: "FLAGS_ZEROPAD OR FLAGS_PLUS \<noteq> 0" by (simp add: flag_defs)
  have "\<bar>y\<bar> < 2 ^ 31" using assms by simp
  from int_text_decimal [OF _ _ _ this, of "FLAGS_ZEROPAD OR FLAGS_PLUS" 7]
  obtain ds where ds: "int_text (FLAGS_ZEROPAD OR FLAGS_PLUS) 7 (word_of_int y) = (if y < 0 then [45] else [43]) @ ds"
      "ds \<noteq> []" "\<forall>c\<in>set ds. is_digit c" "dec_nat ds = nat \<bar>y\<bar>" "6 \<le> length ds"
      and k: "\<And>k. 0 < k \<Longrightarrow> k < 32 \<Longrightarrow> \<bar>y\<bar> < 10 ^ k \<Longrightarrow> length ds \<le> max k 6"
    using nz unfolding if_P [OF p] by (auto simp: p)
  from k [of 6] assms ds(5) have "length ds = 6" by simp
  with ds show ?thesis by (intro exI [of _ ds]) (auto simp: digits_of_def)
qed

lemmas iso_format = c_format_def strz_def format_eval out_chars_text va_of_def va_of_ok

lemma iso_date_format:
  "\<bar>a\<bar> < 300000 \<Longrightarrow> \<bar>b\<bar> < 300000 \<Longrightarrow> format_text ftoa (c_format ''-%02d-%02dT'') [va_of a, va_of b] =
   Some (45 # int_text FLAGS_ZEROPAD 2 (word_of_int a) @ 45 # int_text FLAGS_ZEROPAD 2 (word_of_int b) @ [84])"
  by (simp add: iso_format)

lemma iso_time_format:
  "\<bar>h\<bar> < 300000 \<Longrightarrow> \<bar>m\<bar> < 300000 \<Longrightarrow> \<bar>s\<bar> < 300000 \<Longrightarrow> \<bar>ms\<bar> < 300000 \<Longrightarrow>
   format_text ftoa (c_format ''%02d:%02d:%02d.%03dZ'') [va_of h, va_of m, va_of s, va_of ms] =
   Some (int_text FLAGS_ZEROPAD 2 (word_of_int h) @ 58 # int_text FLAGS_ZEROPAD 2 (word_of_int m) @
     58 # int_text FLAGS_ZEROPAD 2 (word_of_int s) @ 46 # int_text FLAGS_ZEROPAD 3 (word_of_int ms) @ [90])"
  by (simp add: iso_format)

lemma iso_year_format:
  "\<bar>y\<bar> < 300000 \<Longrightarrow> format_text ftoa (c_format ''%04d'') [va_of y] = Some (int_text FLAGS_ZEROPAD 4 (word_of_int y))"
  "\<bar>y\<bar> < 300000 \<Longrightarrow> format_text ftoa (c_format ''%+07d'') [va_of y] =
     Some (int_text (FLAGS_ZEROPAD OR FLAGS_PLUS) 7 (word_of_int y))"
  by (simp_all add: iso_format)

text \<open>The text of a year: four digits, or a sign and six digits.\<close>

definition year_text :: "int \<Rightarrow> bytes \<Rightarrow> bool" where
  "year_text y t \<longleftrightarrow> (digits_of y t \<and> length t = 4) \<or>
     (\<exists>ds. t = (if y < 0 then 45 else 43) # ds \<and> digits_of \<bar>y\<bar> ds \<and> length ds = 6)"

definition iso_text :: "int \<Rightarrow> int \<Rightarrow> int \<Rightarrow> int \<Rightarrow> int \<Rightarrow> int \<Rightarrow> int \<Rightarrow> bytes \<Rightarrow> bool" where
  "iso_text y mon day h m s ms t \<longleftrightarrow>
     (\<exists>ty tmon td th tm ts tms. t = ty @ 45 # tmon @ 45 # td @ 84 # th @ 58 # tm @ 58 # ts @ 46 # tms @ [90] \<and>
        year_text y ty \<and> digits_of mon tmon \<and> digits_of day td \<and> digits_of h th \<and> digits_of m tm \<and>
        digits_of s ts \<and> digits_of ms tms \<and> length tms = 3)"

lemma unat_small: "unat (2 :: u32) = 2" "unat (3 :: u32) = 3" "unat (4 :: u32) = 4"
  by simp_all

lemma get_date_string_iso:
  assumes "\<bar>t\<bar> \<le> 8640000000000000" "length junk = 64"
  shows "\<exists>y i day h m s ms b. valid_fields y i day h m s ms \<and> time_of y i day h m s ms = t \<and>
    get_date_string ftoa junk tzoff (Some (Dint t)) 0x23 = Some (Value b) \<and> iso_text y (int i + 1) day h m s ms b"
proof -
  obtain y i day h m s ms wd where f: "date_fields t 0 = map Dint [y, int i, day, h, m, s, ms, wd, 0]"
      and v: "valid_fields y i day h m s ms" "time_of y i day h m s ms = t" and wd: "0 \<le> wd" "wd < 7"
    using date_fields_ok [OF assms(1), of 0] by auto
  have b: "- 300000 < y" "y < 300000" "i < 12" "1 \<le> day" "day \<le> 31" "0 \<le> h" "h < 24" "0 \<le> m" "m < 60"
    "0 \<le> s" "s < 60" "0 \<le> ms" "ms < 1000"
    using v(1) month_length_bounds [of i y] by (auto simp: valid_fields_def abs_less_iff)
  obtain ty where ty: "year_text y ty" "length ty \<le> 7" and date: "\<And>rest. 20 < length rest \<Longrightarrow> length rest < 1000 \<Longrightarrow> \<exists>rest'.
      (if 0 \<le> y \<and> y \<le> 9999 then buf_printf ftoa ''%04d'' [va_of y] (0, rest)
       else buf_printf ftoa ''%+07d'' [va_of y] (0, rest)) = Some (length ty, ty @ rest') \<and> length rest' = length rest - length ty"
  proof (cases "0 \<le> y \<and> y \<le> 9999")
    case True
    let ?t = "int_text FLAGS_ZEROPAD 4 (word_of_int y)"
    have t: "digits_of y ?t \<and> length ?t = 4" using int_text_field [of y 4] True by (simp add: unat_small)
    show ?thesis
    proof (rule that [of ?t])
      fix rest :: bytes assume "20 < length rest" "length rest < 1000"
      with buf_printf_text [OF iso_year_format(1) [of y ftoa], of rest "[]"] True t b
      show "\<exists>rest'. (if 0 \<le> y \<and> y \<le> 9999 then buf_printf ftoa ''%04d'' [va_of y] (0, rest)
         else buf_printf ftoa ''%+07d'' [va_of y] (0, rest)) = Some (length ?t, ?t @ rest') \<and> length rest' = length rest - length ?t"
        by simp
    qed (use t in \<open>simp_all add: year_text_def\<close>)
  next
    case False
    let ?t = "int_text (FLAGS_ZEROPAD OR FLAGS_PLUS) 7 (word_of_int y)"
    obtain ds where t: "?t = (if y < 0 then 45 else 43) # ds" "digits_of \<bar>y\<bar> ds" "length ds = 6"
      using int_text_signed [of y] b by (auto simp: abs_less_iff)
    show ?thesis
    proof (rule that [of ?t])
      fix rest :: bytes assume "20 < length rest" "length rest < 1000"
      with buf_printf_text [OF iso_year_format(2) [of y ftoa], of rest "[]"] t b
      have "\<exists>rest'. buf_printf ftoa ''%+07d'' [va_of y] (0, rest) = Some (length ?t, ?t @ rest') \<and>
        length rest' = length rest - length ?t"
        by (simp add: abs_less_iff)
      then show "\<exists>rest'. (if 0 \<le> y \<and> y \<le> 9999 then buf_printf ftoa ''%04d'' [va_of y] (0, rest)
         else buf_printf ftoa ''%+07d'' [va_of y] (0, rest)) = Some (length ?t, ?t @ rest') \<and> length rest' = length rest - length ?t"
        by (simp only: False if_False)
    qed (use t in \<open>auto simp: year_text_def\<close>)
  qed
  have two: "digits_of n (int_text FLAGS_ZEROPAD 2 (word_of_int n)) \<and> length (int_text FLAGS_ZEROPAD 2 (word_of_int n)) = 2"
    if "0 \<le> n" "n < 100" for n using int_text_field [of n 2] that by (simp add: unat_small)
  define x2 where "x2 = int_text FLAGS_ZEROPAD 2"
  define tms where "tms = int_text FLAGS_ZEROPAD 3 (word_of_int ms)"
  have tms: "digits_of ms tms" "length tms = 3" using int_text_field [of ms 3] b by (simp_all add: unat_small tms_def)
  have x2: "digits_of n (x2 (word_of_int n))" "length (x2 (word_of_int n)) = 2" if "0 \<le> n" "n < 100" for n
    using two [OF that] by (simp_all add: x2_def)
  define mon where "mon = int i + 1"
  have mon: "1 \<le> mon" "mon < 13" using b by (simp_all add: mon_def)
  define d1 where "d1 = 45 # x2 (word_of_int mon) @ 45 # x2 (word_of_int day) @ [84]"
  define d2 where "d2 = x2 (word_of_int h) @ 58 # x2 (word_of_int m) @ 58 # x2 (word_of_int s) @ 46 # tms @ [90]"
  have len: "length d1 = 7" "length d2 = 13" using b mon x2 tms by (simp_all add: d1_def d2_def)
  have f1: "format_text ftoa (c_format ''-%02d-%02dT'') [va_of mon, va_of day] = Some d1"
    using iso_date_format [of mon day] b mon by (simp add: d1_def x2_def)
  have f2: "format_text ftoa (c_format ''%02d:%02d:%02d.%03dZ'') [va_of h, va_of m, va_of s, va_of ms] = Some d2"
    using iso_time_format [of h m s ms] b by (simp add: d2_def x2_def tms_def)
  obtain r0 where r0: "(if 0 \<le> y \<and> y \<le> 9999 then buf_printf ftoa ''%04d'' [va_of y] (0, junk)
       else buf_printf ftoa ''%+07d'' [va_of y] (0, junk)) = Some (length ty, ty @ r0)" "length r0 = 64 - length ty"
    using date [of junk] assms(2) by auto
  obtain r1 where r1: "buf_printf ftoa ''-%02d-%02dT'' [va_of mon, va_of day] (length ty, ty @ r0) =
      Some (length (ty @ d1), (ty @ d1) @ r1)" "length r1 = length r0 - length d1"
  proof -
    have "length d1 < length r0" "length r0 < 1000" using ty(2) r0(2) len by linarith+
    from buf_printf_text [OF f1 this, of ty] that show thesis by blast
  qed
  obtain r2 where r2: "buf_printf ftoa ''%02d:%02d:%02d.%03dZ'' [va_of h, va_of m, va_of s, va_of ms] (length (ty @ d1), (ty @ d1) @ r1) =
      Some (length ((ty @ d1) @ d2), ((ty @ d1) @ d2) @ r2)" "length r2 = length r1 - length d2"
  proof -
    have "length d2 < length r1" "length r1 < 1000" using ty(2) r0(2) r1(2) len by linarith+
    from buf_printf_text [OF f2 this, of "ty @ d1"] that show thesis by blast
  qed
  have date_p: "date_part ftoa 2 3 y (int i) day wd (0, junk) = Some (length (ty @ d1), (ty @ d1) @ r1)"
    using r0(1) r1(1) by (simp add: date_part_def mon_def)
  have time_p: "time_part ftoa 2 h m s ms 0 (length (ty @ d1), (ty @ d1) @ r1) = Some (length (ty @ d1 @ d2), (ty @ d1 @ d2) @ r2)"
    using r2(1) by (simp add: time_part_def)
  have ints: "d_to_int (Dint n) = Some n" if "- 300000 < n" "n < 300000" for n using that by simp
  have "get_date_string ftoa junk tzoff (Some (Dint t)) 0x23 = Some (Value (ty @ d1 @ d2))"
    using date_p time_p b wd rd_bytes_prefix [of "ty @ d1 @ d2" r2]
    by (simp add: get_date_string_def Let_def get_date_fields_utc [OF assms(1)] f ints del: d_to_int.simps)
  moreover have "ty @ d1 @ d2 = ty @ 45 # x2 (word_of_int mon) @ 45 # x2 (word_of_int day) @ 84 # x2 (word_of_int h) @
      58 # x2 (word_of_int m) @ 58 # x2 (word_of_int s) @ 46 # tms @ [90]"
    by (simp add: d1_def d2_def)
  moreover have "digits_of mon (x2 (word_of_int mon))" "digits_of day (x2 (word_of_int day))" "digits_of h (x2 (word_of_int h))"
    "digits_of m (x2 (word_of_int m))" "digits_of s (x2 (word_of_int s))"
    by (rule x2(1); use b mon in simp)+
  ultimately have "get_date_string ftoa junk tzoff (Some (Dint t)) 0x23 = Some (Value (ty @ d1 @ d2)) \<and>
      iso_text y mon day h m s ms (ty @ d1 @ d2)"
    unfolding iso_text_def using ty(1) tms by blast
  then show ?thesis using v unfolding mon_def by blast
qed

section \<open>Reading it back\<close>

abbreviation units_of :: "bytes \<Rightarrow> units" where "units_of \<equiv> map unat"

lemma digit_unit: "is_digit c \<Longrightarrow> is_digit_unit (unat c) \<and> 48 \<le> unat c \<and> unat c \<le> 57"
  by (simp add: is_digit_def is_digit_unit_def word_le_nat_alt)

lemma fold_digits_mono: "n \<le> foldl (\<lambda>n c. n * 10 + (unat c - 48)) n (ds :: bytes)"
proof (induction ds arbitrary: n)
  case Nil
  then show ?case by simp
next
  case (Cons c ds)
  have "n \<le> n * 10 + (unat c - 48)" by simp
  with Cons [of "n * 10 + (unat c - 48)"] show ?case by simp
qed

lemma digits_loop_digits:
  assumes "r = [] \<or> \<not> is_digit_unit (hd r)" "\<forall>c\<in>set ds. is_digit c"
    and "foldl (\<lambda>n c. n * 10 + (unat c - 48)) n ds < 10 ^ 9"
  shows "digits_loop (units_of ds @ r) p (int n) =
    Some (int (foldl (\<lambda>n c. n * 10 + (unat c - 48)) n ds), p + length ds)"
  using assms(2,3)
proof (induction ds arbitrary: n p)
  case Nil
  with assms(1) show ?case by (cases r) simp_all
next
  case (Cons c ds)
  let ?n = "n * 10 + (unat c - 48)"
  have c: "is_digit_unit (unat c)" "48 \<le> unat c" "unat c \<le> 57" using digit_unit [of c] Cons.prems(1) by simp_all
  have "?n < 10 ^ 9" using fold_digits_mono [of ?n ds] Cons.prems(2) by simp
  moreover obtain k where k: "unat c = k" by simp
  ultimately have "in_int64 (int n * 10)" "in_int64 (int n * 10 + int k)" using c by (simp_all add: in_int64_def)
  moreover have "int n * 10 + int k - 48 = int ?n" using c by (simp add: k)
  ultimately show ?case using Cons.IH [of ?n "p + 1"] Cons.prems c by (simp add: k)
qed

lemma drop_nth: "drop p sp = x # r \<Longrightarrow> p < length sp \<and> sp ! p = x \<and> drop (p + 1) sp = r"
  by (metis Cons_nth_drop_Suc Suc_eq_plus1 drop_eq_Nil2 list.inject list.simps(3) not_le)

lemma get_digits_ok:
  assumes "drop p sp = units_of ds @ r" "r = [] \<or> \<not> is_digit_unit (hd r)" "digits_of n ds" "n < 10 ^ 9"
  shows "string_get_digits sp p = Some (Some (n, p + length ds)) \<and> drop (p + length ds) sp = r"
proof -
  obtain c ds' where ds: "ds = c # ds'" using assms(3) by (cases ds) (simp_all add: digits_of_def)
  from assms(1) drop_nth [of p sp "unat c"] ds have "p < length sp" "sp ! p = unat c" by auto
  moreover have "is_digit_unit (unat c)" using assms(3) ds digit_unit [of c] by (simp add: digits_of_def)
  moreover have "digits_loop (drop p sp) p 0 = Some (n, p + length ds)"
    using digits_loop_digits [OF assms(2), of ds 0 p] assms(3,4) unfolding assms(1) by (simp add: digits_of_def dec_nat_def)
  moreover have "drop (p + length ds) sp = drop (length ds) (drop p sp)" by (simp add: add.commute)
  ultimately show ?thesis by (simp add: string_get_digits_def assms(1))
qed

lemma iso_field_step:
  assumes "drop p sp = x # units_of ds @ c # r" "\<not> is_digit_unit c"
    and "digits_of n ds" "n < 10 ^ 9" "i < 6" "iso_separator i = x" "j = i + 1"
  obtains p' where "iso_fields sp i p fs = iso_fields sp j p' (fs[i := n])" "drop p' sp = c # r"
proof -
  have p: "p < length sp" "sp ! p = iso_separator i" "drop (p + 1) sp = units_of ds @ c # r"
    using drop_nth [OF assms(1)] unfolding assms(6) by simp_all
  from get_digits_ok [OF p(3) _ assms(3,4)] assms(2)
  have "string_get_digits sp (p + 1) = Some (Some (n, p + 1 + length ds))" "drop (p + 1 + length ds) sp = c # r" by simp_all
  then show thesis using p(1,2) assms(5,7)
    by (intro that [of "p + 1 + length ds"]) (simp_all add: iso_fields.simps [of sp i p fs] pbind_def)
qed

lemma iso_ms_step:
  assumes "drop p sp = 46 # units_of ds @ r" "r \<noteq> []" "\<not> is_digit_unit (hd r)" "digits_of n ds" "length ds = 3"
  shows "\<exists>p'. iso_fields sp 6 p fs = Some (Some (7, fs[6 := n], p')) \<and> drop p' sp = r"
proof -
  have p: "p < length sp" "sp ! p = 46" "drop (p + 1) sp = units_of ds @ r" using drop_nth [OF assms(1)] by blast+
  obtain a b c where ds: "ds = [a, b, c]" using assms(5) by (auto simp: length_Suc_conv numeral_eq_Suc)
  obtain x r' where r: "r = x # r'" "\<not> is_digit_unit x" using assms(2,3) by (cases r) auto
  have d: "is_digit_unit (unat a)" "is_digit_unit (unat b)" "is_digit_unit (unat c)" "48 \<le> unat a" "48 \<le> unat b" "48 \<le> unat c"
    using assms(4) digit_unit [of a] digit_unit [of b] digit_unit [of c] unfolding digits_of_def ds by simp_all
  have e: "drop (p + 1) sp = unat a # unat b # unat c # x # r'" using p(3) by (simp add: ds r)
  then have q: "p + 1 < length sp" "sp ! (p + 1) = unat a" using drop_nth [OF e] by simp_all
  have div: "(1000 :: int) sdiv 10 = 100" "(100 :: int) sdiv 10 = 10" "(10 :: int) sdiv 10 = 1"
    by (simp_all add: signed_divide_int_def)
  obtain A B C where u: "unat a = A" "unat b = B" "unat c = C" by simp
  have n: "n = (int A - 48) * 100 + (int B - 48) * 10 + (int C - 48)"
    using assms(4) d unfolding digits_of_def ds dec_nat_def by (auto simp: u)
  have "ms_loop (drop (p + 1) sp) (p + 1) 1000 0 = (n, p + 4)"
    unfolding e n using d by (simp add: u r(2) div Let_def)
  then have "string_get_milliseconds sp (p + 1) = Some (Some (n, p + 4))"
    using q d by (simp add: string_get_milliseconds_def)
  moreover have "drop (p + 4) sp = drop 3 (drop (p + 1) sp)" by (simp add: add.commute)
  then have "drop (p + 4) sp = r" unfolding e r by simp
  moreover have "iso_separator 6 = 46" by (simp add: iso_separator_def)
  moreover have "iso_fields sp 7 (p + 4) (fs[6 := n]) = Some (Some (7, fs[6 := n], p + 4))" by (simp add: iso_fields.simps)
  ultimately show ?thesis using p(1,2) by (subst iso_fields.simps) (simp add: pbind_def)
qed

lemma iso_year_ok:
  assumes "year_text y ty" "sp = units_of ty @ r" "r \<noteq> []" "\<not> is_digit_unit (hd r)" "\<bar>y\<bar> < 300000"
  shows "(is_digit_unit (sp ! 0) \<or> sp ! 0 = 43 \<or> sp ! 0 = 45) \<and>
    (\<exists>p. string_get_signed_digits sp 0 = Some (Some (y, p)) \<and> drop p sp = r)"
proof (cases "digits_of y ty")
  case True
  then obtain c cs where "ty = c # cs" "is_digit_unit (unat c)" "unat c \<noteq> 43" "unat c \<noteq> 45"
    using digit_unit by (cases ty) (fastforce simp: digits_of_def)+
  with get_digits_ok [of 0 sp ty r y] True assms show ?thesis
    by (auto simp: string_get_signed_digits_def pbind_def abs_less_iff)
next
  case False
  with assms(1) obtain ds where ds: "ty = (if y < 0 then 45 else 43) # ds" "digits_of \<bar>y\<bar> ds" by (auto simp: year_text_def)
  have "drop 1 sp = units_of ds @ r" using assms(2) ds by simp
  from get_digits_ok [OF this _ ds(2)] assms have g: "string_get_digits sp 1 = Some (Some (\<bar>y\<bar>, 1 + length ds))"
    "drop (1 + length ds) sp = r" by auto
  moreover have "sp ! 0 = (if y < 0 then 45 else 43)" "sp \<noteq> []" using assms(2) ds by auto
  ultimately show ?thesis by (auto simp: string_get_signed_digits_def pbind_def)
qed

lemma parse_iso_text:
  assumes "iso_text y mon day h m s ms b" "\<bar>y\<bar> < 300000" "1 \<le> mon" "mon \<le> 12" "day < 100" "h < 100" "m < 100" "s < 100"
  shows "js_Date_parse tzoff (units_of b) =
    map_option (\<lambda>d. d_sub d (d_round 0)) (set_date_fields tzoff (map d_round [y, mon - 1, day, h, m, s, ms]) False)"
proof -
  obtain ty tmon td th tm ts tms where b: "b = ty @ 45 # tmon @ 45 # td @ 84 # th @ 58 # tm @ 58 # ts @ 46 # tms @ [90]"
    and d: "year_text y ty" "digits_of mon tmon" "digits_of day td" "digits_of h th" "digits_of m tm"
      "digits_of s ts" "digits_of ms tms" "length tms = 3"
    using assms(1) unfolding iso_text_def by blast
  have nd: "\<not> is_digit_unit 45" "\<not> is_digit_unit 84" "\<not> is_digit_unit 58" "\<not> is_digit_unit 46" "\<not> is_digit_unit 90"
    by (simp_all add: is_digit_unit_def)
  have sep: "iso_separator 1 = 45" "iso_separator 2 = 45" "iso_separator 3 = 84" "iso_separator 4 = 58" "iso_separator 5 = 58"
    by (simp_all add: iso_separator_def)
  let ?sp = "units_of b"
  have sp: "?sp = units_of ty @ 45 # units_of tmon @ 45 # units_of td @ 84 # units_of th @ 58 # units_of tm @
      58 # units_of ts @ 46 # units_of tms @ [90]"
    by (simp add: b)
  from iso_year_ok [OF d(1) sp _ _ assms(2)] nd obtain p1 where
    iso: "is_digit_unit (?sp ! 0) \<or> ?sp ! 0 = 43 \<or> ?sp ! 0 = 45" and y: "string_get_signed_digits ?sp 0 = Some (Some (y, p1))"
    and p1: "drop p1 ?sp = 45 # units_of tmon @ 45 # units_of td @ 84 # units_of th @ 58 # units_of tm @
      58 # units_of ts @ 46 # units_of tms @ [90]"
    by auto
  let ?f = "[y, 1, 1, 0, 0, 0, 0]"
  let ?at = "\<lambda>p r. drop p ?sp = r"
  have small: "mon < 10 ^ 9" "day < 10 ^ 9" "h < 10 ^ 9" "m < 10 ^ 9" "s < 10 ^ 9" using assms by simp_all
  obtain p2 where s1: "iso_fields ?sp 1 p1 ?f = iso_fields ?sp 2 p2 (?f[1 := mon])"
    and p2: "?at p2 (45 # units_of td @ 84 # units_of th @ 58 # units_of tm @ 58 # units_of ts @ 46 # units_of tms @ [90])"
    by (rule iso_field_step [where fs = "?f" and i = 1 and j = 2, OF p1 nd(1) d(2) small(1) _ sep(1)]) simp_all
  obtain p3 where s2: "iso_fields ?sp 2 p2 (?f[1 := mon]) = iso_fields ?sp 3 p3 (?f[1 := mon, 2 := day])"
    and p3: "?at p3 (84 # units_of th @ 58 # units_of tm @ 58 # units_of ts @ 46 # units_of tms @ [90])"
    by (rule iso_field_step [where fs = "?f[1 := mon]" and i = 2 and j = 3, OF p2 nd(2) d(3) small(2) _ sep(2)]) simp_all
  obtain p4 where s3: "iso_fields ?sp 3 p3 (?f[1 := mon, 2 := day]) = iso_fields ?sp 4 p4 (?f[1 := mon, 2 := day, 3 := h])"
    and p4: "?at p4 (58 # units_of tm @ 58 # units_of ts @ 46 # units_of tms @ [90])"
    by (rule iso_field_step [where fs = "?f[1 := mon, 2 := day]" and i = 3 and j = 4, OF p3 nd(3) d(4) small(3) _ sep(3)]) simp_all
  obtain p5 where s4: "iso_fields ?sp 4 p4 (?f[1 := mon, 2 := day, 3 := h]) =
      iso_fields ?sp 5 p5 (?f[1 := mon, 2 := day, 3 := h, 4 := m])"
    and p5: "?at p5 (58 # units_of ts @ 46 # units_of tms @ [90])"
    by (rule iso_field_step [where fs = "?f[1 := mon, 2 := day, 3 := h]" and i = 4 and j = 5, OF p4 nd(3) d(5) small(4) _ sep(4)]) simp_all
  obtain p6 where s5: "iso_fields ?sp 5 p5 (?f[1 := mon, 2 := day, 3 := h, 4 := m]) =
      iso_fields ?sp 6 p6 (?f[1 := mon, 2 := day, 3 := h, 4 := m, 5 := s])"
    and p6: "?at p6 (46 # units_of tms @ [90])"
    by (rule iso_field_step [where fs = "?f[1 := mon, 2 := day, 3 := h, 4 := m]" and i = 5 and j = 6, OF p5 nd(4) d(6) small(5) _ sep(5)]) simp_all
  obtain p7 where s6: "iso_fields ?sp 6 p6 (?f[1 := mon, 2 := day, 3 := h, 4 := m, 5 := s]) =
      Some (Some (7, ?f[1 := mon, 2 := day, 3 := h, 4 := m, 5 := s, 6 := ms], p7))"
    and p7: "?at p7 [90]"
    using iso_ms_step [OF p6 _ _ d(7,8), of "?f[1 := mon, 2 := day, 3 := h, 4 := m, 5 := s]"] nd(5) by auto
  have "iso_fields ?sp 1 p1 ?f = Some (Some (7, [y, mon, day, h, m, s, ms], p7))"
    using s1 s2 s3 s4 s5 s6 by simp
  moreover have "iso_zone ?sp p7 True = Some (0, False)"
    using drop_nth [OF p7] by (auto simp: iso_zone_def Let_def)
  moreover have "?sp \<noteq> []" "in_int64 (mon - 1)" using b assms by (auto simp: in_int64_def)
  ultimately show ?thesis
    using iso y by (simp add: js_Date_parse_def parse_iso_def pbind_def)
qed

section \<open>Properties\<close>

text \<open>
  C35. Every time that a Date can hold, to 8.64e15 milliseconds on both sides of 1970, has fields in their
  ranges - a month of the year, a day of that month in that year, an hour, minute, second and
  millisecond - and set_date_fields computes from these fields, in doubles, exactly the time they came from.
\<close>

theorem date_fields_round_trip:
  assumes "\<bar>t\<bar> \<le> 8640000000000000"
  shows "\<exists>y i day h m s ms wd.
    get_date_fields tzoff (Some (Dint t)) False force = Some (Fields (map Dint [y, int i, day, h, m, s, ms, wd, 0])) \<and>
    valid_fields y i day h m s ms \<and> 0 \<le> wd \<and> wd < 7 \<and>
    set_date_fields tzoff (map Dint [y, int i, day, h, m, s, ms, wd, 0]) False = Some (Dint t)"
proof -
  obtain y i day h m s ms wd where f: "date_fields t 0 = map Dint [y, int i, day, h, m, s, ms, wd, 0]"
      "valid_fields y i day h m s ms" "time_of y i day h m s ms = t" "0 \<le> wd" "wd < 7"
    using date_fields_ok [OF assms, of 0] by auto
  with set_date_fields_exact [of y i day h m s ms tzoff "[wd, 0]"] assms
  have "set_date_fields tzoff (map Dint [y, int i, day, h, m, s, ms, wd, 0]) False = Some (Dint t)" by simp
  with f get_date_fields_utc [OF assms] show ?thesis by metis
qed

lemma date_fields_round_trip_witness:
  "\<exists>y i day h m s ms wd. valid_fields y i day h m s ms \<and>
     set_date_fields (\<lambda>_. 0) (map Dint [y, int i, day, h, m, s, ms, wd, 0]) False = Some (Dint (- 1))"
proof -
  have "\<bar>- 1 :: int\<bar> \<le> 8640000000000000" by simp
  from date_fields_round_trip [OF this, of "\<lambda>_. 0" False] show ?thesis by blast
qed

text \<open>
  C36. toISOString of every time that a Date can hold prints, through snprintf into its 64 bytes, a text that
  js_Date_parse reads back to the same time, years before 0 and after 9999 included.
\<close>

theorem iso_string_round_trip:
  assumes "\<bar>t\<bar> \<le> 8640000000000000" "length junk = 64"
  shows "\<exists>b. get_date_string ftoa junk tzoff (Some (Dint t)) 0x23 = Some (Value b) \<and>
     js_Date_parse tzoff (units_of b) = Some (Dint t)"
proof -
  obtain y i day h m s ms b where v: "valid_fields y i day h m s ms" "time_of y i day h m s ms = t"
      and g: "get_date_string ftoa junk tzoff (Some (Dint t)) 0x23 = Some (Value b)" "iso_text y (int i + 1) day h m s ms b"
    using get_date_string_iso [OF assms] by blast
  have r: "\<bar>y\<bar> < 300000" "i < 12" "1 \<le> day" "day < 100" "0 \<le> h" "h < 24" "0 \<le> m" "m < 60" "0 \<le> s" "s < 60" "0 \<le> ms" "ms < 1000"
    using v(1) month_length_bounds [of i y] by (auto simp: valid_fields_def)
  have "map d_round [y, int i, day, h, m, s, ms] = map Dint [y, int i, day, h, m, s, ms]"
    using r by (simp add: d_round_exact)
  moreover have "d_sub (Dint t) (d_round 0) = Dint t" using assms(1) by (simp add: d_exact)
  moreover have "js_Date_parse tzoff (units_of b) =
    map_option (\<lambda>d. d_sub d (d_round 0)) (set_date_fields tzoff (map d_round [y, int i, day, h, m, s, ms]) False)"
    using parse_iso_text [OF g(2), of tzoff] r by simp
  moreover have "set_date_fields tzoff (map Dint [y, int i, day, h, m, s, ms]) False = Some (Dint t)"
    using set_date_fields_exact [of y i day h m s ms tzoff "[]"] v assms(1) by simp
  ultimately have "js_Date_parse tzoff (units_of b) = Some (Dint t)" by (simp only:) simp
  with g(1) show ?thesis by blast
qed

lemma iso_string_round_trip_witness:
  "\<exists>b. get_date_string (\<lambda>c d p w f. []) (replicate 64 7) (\<lambda>_. 60) (Some (Dint 1514934176927)) 0x23 = Some (Value b) \<and>
     js_Date_parse (\<lambda>_. 60) (units_of b) = Some (Dint 1514934176927)"
  using iso_string_round_trip [of 1514934176927 "replicate 64 7" "\<lambda>c d p w f. []" "\<lambda>_. 60"] by simp

text \<open>The values that a Date object may hold: NaN and the integers in the range of time values.\<close>

definition date_ok :: "dbl \<Rightarrow> bool" where
  "date_ok v \<longleftrightarrow> v = Dnan \<or> (\<exists>t. v = Dint t \<and> \<bar>t\<bar> \<le> 8640000000000000)"

lemma time_clip_ok: "date_ok (time_clip v)"
  by (cases v) (auto simp: date_ok_def)

lemma set_date_fields_ok: "set_date_fields tzoff fs is_local = Some v \<Longrightarrow> date_ok v"
  by (auto simp: set_date_fields_def Let_def time_clip_ok split: dbl.splits option.splits if_splits)

lemma set_this_ok: "date_ok v \<Longrightarrow> JS_SetThisTimeValue this v = (r, this') \<Longrightarrow> pred_option date_ok this'"
  by (auto simp: JS_SetThisTimeValue_def split: option.splits)

lemma nan_ok: "date_ok Dnan" by (simp add: date_ok_def)

lemma set_date_field_ok:
  assumes "pred_option date_ok this" "set_date_field tzoff this args magic = Some (r, this')"
  shows "pred_option date_ok this'"
  using assms
  by (auto simp: set_date_field_def Let_def split: option.splits fields_result.splits if_splits sum.splits bool.splits
      dest: set_this_ok [OF nan_ok] set_this_ok [OF set_date_fields_ok])

lemma js_date_value_ok:
  assumes "js_date_value tzoff argv = Some (Value v)"
  shows "date_ok v"
proof -
  have "d_round 0 = Dint 0" by (simp add: d_round_exact)
  then have now: "date_ok (d_round date_now)" by (simp add: date_now_def date_ok_def)
  have "date_ok w" if "(case store_args default_fields 0 (map snd (take 7 argv)) of
             Inl True \<Rightarrow> Some Exception | Inl False \<Rightarrow> Some (Value Dnan)
           | Inr fs \<Rightarrow> map_option Value (set_date_fields tzoff (add_century fs) True)) = Some (Value w)" for w
    using that by (auto simp: nan_ok split: sum.splits bool.splits dest: set_date_fields_ok)
  with assms now show ?thesis
    unfolding js_date_value_def by (auto simp: time_clip_ok split: list.splits prod.splits date_class.splits option.splits)
qed



end
