(* ===== verification/Regexp.thy ===== *)
theory Regexp
  imports Cutils Uni_Case
begin

text \<open>
  quickjs/libregexp.c, the executor of the bytecode of regular expressions: the instructions
  (\<open>exec_op\<close>), the explicit stack of saved states that backtracking and lookahead use
  (\<open>push_state\<close>, \<open>re_resume\<close>) and the loop of lre_exec_backtrack with its recursive
  call for simple quantifiers.

  A pointer into the subject is its byte offset, a pointer into the bytecode is an index into bc_buf.
  The memory of saved states is a state of its own; \<open>ra\<close> reallocates in it and says whether
  it succeeded. The outer option of the executor is termination, the inner one undefined behaviour
  (an access outside the subject, the bytecode, the captures or the stack; a failing assert).
\<close>

section \<open>Opcodes\<close>

datatype REOPCodeEnum =
    REOP_invalid | REOP_char | REOP_char32 | REOP_dot | REOP_any | REOP_line_start | REOP_line_end | REOP_goto
  | REOP_split_goto_first | REOP_split_next_first | REOP_match | REOP_save_start | REOP_save_end | REOP_save_reset
  | REOP_loop | REOP_push_i32 | REOP_drop | REOP_word_boundary | REOP_not_word_boundary | REOP_back_reference
  | REOP_backward_back_reference | REOP_range | REOP_range32 | REOP_lookahead | REOP_negative_lookahead
  | REOP_push_char_pos | REOP_bne_char_pos | REOP_prev | REOP_simple_greedy_quant

text \<open>The table of libregexp-opcode.h: the opcodes in the order of their numbers, with their sizes.\<close>

definition reopcode_info :: "(REOPCodeEnum \<times> nat) list" where
  "reopcode_info =
     [(REOP_invalid, 1), (REOP_char, 3), (REOP_char32, 5), (REOP_dot, 1), (REOP_any, 1), (REOP_line_start, 1),
      (REOP_line_end, 1), (REOP_goto, 5), (REOP_split_goto_first, 5), (REOP_split_next_first, 5), (REOP_match, 1),
      (REOP_save_start, 2), (REOP_save_end, 2), (REOP_save_reset, 3), (REOP_loop, 5), (REOP_push_i32, 5),
      (REOP_drop, 1), (REOP_word_boundary, 1), (REOP_not_word_boundary, 1), (REOP_back_reference, 2),
      (REOP_backward_back_reference, 2), (REOP_range, 3), (REOP_range32, 3), (REOP_lookahead, 5),
      (REOP_negative_lookahead, 5), (REOP_push_char_pos, 1), (REOP_bne_char_pos, 5), (REOP_prev, 1),
      (REOP_simple_greedy_quant, 17)]"

definition REOP_COUNT :: nat where "REOP_COUNT = length reopcode_info"

definition reop_of :: "u8 \<Rightarrow> REOPCodeEnum option" where
  "reop_of b = (if unat b < REOP_COUNT then Some (fst (reopcode_info ! unat b)) else None)"

definition RE_HEADER_LEN :: nat where "RE_HEADER_LEN = 7"

section \<open>Characters\<close>

record REExecContext =
  cbuf :: bytes
  cbuf_end :: nat
  cbuf_type :: nat
  capture_count :: nat
  stack_size_max :: nat
  multi_line :: bool
  ignore_case :: bool
  is_utf16 :: bool
  bc_buf :: bytes
  cbuf_addr :: u64

definition surrogate_pair :: "u32 \<Rightarrow> u32 \<Rightarrow> u32" where
  "surrogate_pair c c1 = ((push_bit 10 (c AND 0x3ff)) OR (c1 AND 0x3ff)) + 0x10000"

definition unit_at :: "bytes \<Rightarrow> nat \<Rightarrow> u32 option" where
  "unit_at b p = get_u16 (drop p b)"

definition GET_CHAR :: "REExecContext \<Rightarrow> nat \<Rightarrow> nat \<Rightarrow> (u32 \<times> nat) option" where
  "GET_CHAR s cptr cend =
     (if cbuf_type s = 0 then do { c \<leftarrow> rd (cbuf s) cptr; Some (ucast c, cptr + 1) }
      else do {
        c \<leftarrow> unit_at (cbuf s) cptr;
        if c \<ge> 0xd800 \<and> c < 0xdc00 \<and> cbuf_type s = 2 \<and> cptr + 2 < cend
        then do { c1 \<leftarrow> unit_at (cbuf s) (cptr + 2);
                  if c1 \<ge> 0xdc00 \<and> c1 < 0xe000 then Some (surrogate_pair c c1, cptr + 4) else Some (c, cptr + 2) }
        else Some (c, cptr + 2) })"

definition PEEK_CHAR :: "REExecContext \<Rightarrow> nat \<Rightarrow> nat \<Rightarrow> u32 option" where
  "PEEK_CHAR s cptr cend =
     (if cbuf_type s = 0 then map_option ucast (rd (cbuf s) cptr)
      else do {
        c \<leftarrow> unit_at (cbuf s) cptr;
        if c \<ge> 0xd800 \<and> c < 0xdc00 \<and> cbuf_type s = 2 \<and> cptr + 2 < cend
        then do { c1 \<leftarrow> unit_at (cbuf s) (cptr + 2);
                  Some (if c1 \<ge> 0xdc00 \<and> c1 < 0xe000 then surrogate_pair c c1 else c) }
        else Some c })"

definition PEEK_PREV_CHAR :: "REExecContext \<Rightarrow> nat \<Rightarrow> nat \<Rightarrow> u32 option" where
  "PEEK_PREV_CHAR s cptr cstart =
     (if cbuf_type s = 0 then if cptr < 1 then None else map_option ucast (rd (cbuf s) (cptr - 1))
      else if cptr < 2 then None
      else do {
        c \<leftarrow> unit_at (cbuf s) (cptr - 2);
        if c \<ge> 0xdc00 \<and> c < 0xe000 \<and> cbuf_type s = 2 \<and> cptr \<ge> cstart + 4
        then do { c1 \<leftarrow> unit_at (cbuf s) (cptr - 4);
                  Some (if c1 \<ge> 0xd800 \<and> c1 < 0xdc00 then surrogate_pair c1 c else c) }
        else Some c })"

definition GET_PREV_CHAR :: "REExecContext \<Rightarrow> nat \<Rightarrow> nat \<Rightarrow> (u32 \<times> nat) option" where
  "GET_PREV_CHAR s cptr cstart =
     (if cbuf_type s = 0 then if cptr < 1 then None else do { c \<leftarrow> rd (cbuf s) (cptr - 1); Some (ucast c, cptr - 1) }
      else if cptr < 2 then None
      else do {
        c \<leftarrow> unit_at (cbuf s) (cptr - 2);
        if c \<ge> 0xdc00 \<and> c < 0xe000 \<and> cbuf_type s = 2 \<and> cptr - 2 > cstart
        then if cptr < 4 then None
             else do { c1 \<leftarrow> unit_at (cbuf s) (cptr - 4);
                       if c1 \<ge> 0xd800 \<and> c1 < 0xdc00 then Some (surrogate_pair c1 c, cptr - 4) else Some (c, cptr - 2) }
        else Some (c, cptr - 2) })"

definition PREV_CHAR :: "REExecContext \<Rightarrow> nat \<Rightarrow> nat \<Rightarrow> nat option" where
  "PREV_CHAR s cptr cstart =
     (if cbuf_type s = 0 then if cptr < 1 then None else Some (cptr - 1)
      else if cptr < 2 then None
      else if cbuf_type s = 2
      then do {
        c \<leftarrow> unit_at (cbuf s) (cptr - 2);
        if c \<ge> 0xdc00 \<and> c < 0xe000 \<and> cptr - 2 > cstart
        then if cptr < 4 then None
             else do { c1 \<leftarrow> unit_at (cbuf s) (cptr - 4);
                       Some (if c1 \<ge> 0xd800 \<and> c1 < 0xdc00 then cptr - 4 else cptr - 2) }
        else Some (cptr - 2) }
      else Some (cptr - 2))"

definition is_line_terminator :: "u32 \<Rightarrow> bool" where
  "is_line_terminator c = (c = 0x0a \<or> c = 0x0d \<or> c = 0x2028 \<or> c = 0x2029)"

definition is_word_char :: "u32 \<Rightarrow> bool" where
  "is_word_char c = (c \<ge> 0x30 \<and> c \<le> 0x39 \<or> c \<ge> 0x61 \<and> c \<le> 0x7a \<or> c \<ge> 0x41 \<and> c \<le> 0x5a \<or> c = 0x5f)"

definition lre_canonicalize :: "u32 \<Rightarrow> bool \<Rightarrow> u32 option" where
  "lre_canonicalize c utf16 =
     (if utf16
      then if c < 128 then Some (if c \<ge> 0x41 \<and> c \<le> 0x5a then c - 0x41 + 0x61 else c)
           else do { res \<leftarrow> lre_case_conv c 2; if res = [] then None else Some (res ! 0) }
      else if c < 128 then Some (if c \<ge> 0x61 \<and> c \<le> 0x7a then c - 0x61 + 0x41 else c)
           else do { res \<leftarrow> lre_case_conv c 0; if res = [] then None else Some (if length res = 1 \<and> res ! 0 \<ge> 128 then res ! 0 else c) })"

definition canonical :: "REExecContext \<Rightarrow> u32 \<Rightarrow> u32 option" where
  "canonical s c = (if ignore_case s then lre_canonicalize c (is_utf16 s) else Some c)"

section \<open>One instruction\<close>

record re_regs =
  r_pc :: nat
  r_cptr :: nat
  r_capture :: "nat option list"
  r_stack :: "u64 list"
  r_stack_len :: nat

datatype REExecStateEnum = RE_EXEC_STATE_SPLIT | RE_EXEC_STATE_LOOKAHEAD | RE_EXEC_STATE_NEGATIVE_LOOKAHEAD
  | RE_EXEC_STATE_GREEDY_QUANT

text \<open>
  What an instruction asks the loop to do: go on, go to no_match, go to the code of REOP_match,
  save a state that continues at another place and go on, or run the body of a simple quantifier.
\<close>

datatype re_action =
    Next re_regs | No_match | Matched re_regs
  | Save REExecStateEnum nat re_regs
  | Quant nat u32 u32 re_regs

definition code_u32 :: "REExecContext \<Rightarrow> nat \<Rightarrow> u32 option" where "code_u32 s p = get_u32 (drop p (bc_buf s))"
definition code_u16 :: "REExecContext \<Rightarrow> nat \<Rightarrow> u32 option" where "code_u16 s p = get_u16 (drop p (bc_buf s))"

text \<open>The pointer \<open>pc + (int)val\<close>, which has to stay in the bytecode.\<close>

definition pc_plus :: "REExecContext \<Rightarrow> nat \<Rightarrow> u32 \<Rightarrow> nat option" where
  "pc_plus s p v = (let t = int p + sint v in if 0 \<le> t \<and> t \<le> int (length (bc_buf s)) then Some (nat t) else None)"

definition test_char :: "REExecContext \<Rightarrow> u32 \<Rightarrow> re_regs \<Rightarrow> re_action option" where
  "test_char s v r =
     (if r_cptr r \<ge> cbuf_end s then Some No_match
      else do { (c, p) \<leftarrow> GET_CHAR s (r_cptr r) (cbuf_end s);
                c \<leftarrow> canonical s c;
                Some (if v \<noteq> c then No_match else Next (r\<lparr>r_cptr := p\<rparr>)) })"

definition op_split :: "REExecContext \<Rightarrow> bool \<Rightarrow> re_regs \<Rightarrow> re_action option" where
  "op_split s next_first r = do {
     v \<leftarrow> code_u32 s (r_pc r);
     let pc = r_pc r + 4;
     target \<leftarrow> pc_plus s pc v;
     Some (if next_first then Save RE_EXEC_STATE_SPLIT target (r\<lparr>r_pc := pc\<rparr>)
           else Save RE_EXEC_STATE_SPLIT pc (r\<lparr>r_pc := target\<rparr>)) }"

definition op_lookahead :: "REExecContext \<Rightarrow> REExecStateEnum \<Rightarrow> re_regs \<Rightarrow> re_action option" where
  "op_lookahead s ty r = do {
     v \<leftarrow> code_u32 s (r_pc r);
     let pc = r_pc r + 4;
     target \<leftarrow> pc_plus s pc v;
     Some (Save ty target (r\<lparr>r_pc := pc\<rparr>)) }"

definition op_line_start :: "REExecContext \<Rightarrow> re_regs \<Rightarrow> re_action option" where
  "op_line_start s r =
     (if r_cptr r = 0 then Some (Next r)
      else if \<not> multi_line s then Some No_match
      else do { c \<leftarrow> PEEK_PREV_CHAR s (r_cptr r) 0; Some (if \<not> is_line_terminator c then No_match else Next r) })"

definition op_line_end :: "REExecContext \<Rightarrow> re_regs \<Rightarrow> re_action option" where
  "op_line_end s r =
     (if r_cptr r = cbuf_end s then Some (Next r)
      else if \<not> multi_line s then Some No_match
      else do { c \<leftarrow> PEEK_CHAR s (r_cptr r) (cbuf_end s); Some (if \<not> is_line_terminator c then No_match else Next r) })"

definition op_any :: "REExecContext \<Rightarrow> bool \<Rightarrow> re_regs \<Rightarrow> re_action option" where
  "op_any s dot r =
     (if r_cptr r = cbuf_end s then Some No_match
      else do { (c, p) \<leftarrow> GET_CHAR s (r_cptr r) (cbuf_end s);
                Some (if dot \<and> is_line_terminator c then No_match else Next (r\<lparr>r_cptr := p\<rparr>)) })"

definition op_save :: "REExecContext \<Rightarrow> nat \<Rightarrow> re_regs \<Rightarrow> re_action option" where
  "op_save s which r = do {
     v \<leftarrow> rd (bc_buf s) (r_pc r);
     let i = 2 * unat v + which;
     if unat v < capture_count s \<and> i < length (r_capture r)
     then Some (Next (r\<lparr>r_pc := r_pc r + 1, r_capture := (r_capture r)[i := Some (r_cptr r)]\<rparr>))
     else None }"

fun reset_captures :: "nat option list \<Rightarrow> nat \<Rightarrow> nat \<Rightarrow> nat option list" where
  "reset_captures cap v 0 = cap"
| "reset_captures cap v (Suc n) = reset_captures (cap[2 * v := None, 2 * v + 1 := None]) (v + 1) n"

lemma length_reset_captures [simp]: "length (reset_captures cap v n) = length cap"
  by (induction cap v n rule: reset_captures.induct) simp_all

definition op_save_reset :: "REExecContext \<Rightarrow> re_regs \<Rightarrow> re_action option" where
  "op_save_reset s r = do {
     v \<leftarrow> rd (bc_buf s) (r_pc r);
     v2 \<leftarrow> rd (bc_buf s) (r_pc r + 1);
     if unat v2 < capture_count s \<and> 2 * unat v2 + 1 < length (r_capture r)
     then Some (Next (r\<lparr>r_pc := r_pc r + 2, r_capture := reset_captures (r_capture r) (unat v) (unat v2 + 1 - unat v)\<rparr>))
     else None }"

definition push_int :: "u64 \<Rightarrow> re_regs \<Rightarrow> re_action option" where
  "push_int x r =
     (if r_stack_len r < length (r_stack r)
      then Some (Next (r\<lparr>r_stack := (r_stack r)[r_stack_len r := x], r_stack_len := r_stack_len r + 1\<rparr>)) else None)"

definition op_loop :: "REExecContext \<Rightarrow> re_regs \<Rightarrow> re_action option" where
  "op_loop s r = do {
     v \<leftarrow> code_u32 s (r_pc r);
     let pc = r_pc r + 4;
     if r_stack_len r = 0 \<or> r_stack_len r > length (r_stack r) then None
     else do {
       let x = r_stack r ! (r_stack_len r - 1) - 1;
       pc \<leftarrow> (if x \<noteq> 0 then pc_plus s pc v else Some pc);
       Some (Next (r\<lparr>r_pc := pc, r_stack := (r_stack r)[r_stack_len r - 1 := x]\<rparr>)) } }"

definition char_pos :: "REExecContext \<Rightarrow> nat \<Rightarrow> u64" where "char_pos s p = cbuf_addr s + of_nat p"

definition op_bne_char_pos :: "REExecContext \<Rightarrow> re_regs \<Rightarrow> re_action option" where
  "op_bne_char_pos s r = do {
     v \<leftarrow> code_u32 s (r_pc r);
     let pc = r_pc r + 4;
     if r_stack_len r = 0 \<or> r_stack_len r > length (r_stack r) then None
     else do {
       pc \<leftarrow> (if r_stack r ! (r_stack_len r - 1) \<noteq> char_pos s (r_cptr r) then pc_plus s pc v else Some pc);
       Some (Next (r\<lparr>r_pc := pc, r_stack_len := r_stack_len r - 1\<rparr>)) } }"

definition op_word_boundary :: "REExecContext \<Rightarrow> bool \<Rightarrow> re_regs \<Rightarrow> re_action option" where
  "op_word_boundary s negated r = do {
     v1 \<leftarrow> (if r_cptr r = 0 then Some False else map_option is_word_char (PEEK_PREV_CHAR s (r_cptr r) 0));
     v2 \<leftarrow> (if r_cptr r \<ge> cbuf_end s then Some False else map_option is_word_char (PEEK_CHAR s (r_cptr r) (cbuf_end s)));
     Some (if (v1 \<noteq> v2) \<noteq> (\<not> negated) then No_match else Next r) }"

lemma GET_CHAR_advances: "GET_CHAR s p e = Some (c, p') \<Longrightarrow> p < p'"
  by (auto simp: GET_CHAR_def bind_eq_Some_iff Let_def split: if_splits)

lemma GET_PREV_CHAR_retreats: "GET_PREV_CHAR s p e = Some (c, p') \<Longrightarrow> p' < p"
  by (auto simp: GET_PREV_CHAR_def bind_eq_Some_iff Let_def split: if_splits)

text \<open>
  The two loops of a back reference: compare the captured text with the subject, forward or
  backward. The inner option is no_match, its value the new cptr.
\<close>

function back_forward :: "REExecContext \<Rightarrow> nat \<Rightarrow> nat \<Rightarrow> nat \<Rightarrow> nat option option" where
  "back_forward s cptr1 cend1 cptr =
     (if \<not> cptr1 < cend1 then Some (Some cptr)
      else if cptr \<ge> cbuf_end s then Some None
      else case GET_CHAR s cptr1 cend1 of
        None \<Rightarrow> None
      | Some (c1, cptr1') \<Rightarrow> do {
          (c2, cptr') \<leftarrow> GET_CHAR s cptr (cbuf_end s);
          c1 \<leftarrow> canonical s c1;
          c2 \<leftarrow> canonical s c2;
          if c1 \<noteq> c2 then Some None else back_forward s cptr1' cend1 cptr' })"
  by auto
termination
  by (relation "measure (\<lambda>(s, cptr1, cend1, cptr). cend1 - cptr1)") (auto dest!: GET_CHAR_advances)

function back_backward :: "REExecContext \<Rightarrow> nat \<Rightarrow> nat \<Rightarrow> nat \<Rightarrow> nat option option" where
  "back_backward s cptr1 cstart1 cptr =
     (if \<not> cptr1 > cstart1 then Some (Some cptr)
      else if cptr = 0 then Some None
      else case GET_PREV_CHAR s cptr1 cstart1 of
        None \<Rightarrow> None
      | Some (c1, cptr1') \<Rightarrow> do {
          (c2, cptr') \<leftarrow> GET_PREV_CHAR s cptr 0;
          c1 \<leftarrow> canonical s c1;
          c2 \<leftarrow> canonical s c2;
          if c1 \<noteq> c2 then Some None else back_backward s cptr1' cstart1 cptr' })"
  by auto
termination
  by (relation "measure (\<lambda>(s, cptr1, cstart1, cptr). cptr1)") (auto dest!: GET_PREV_CHAR_retreats)

declare back_forward.simps [simp del] back_backward.simps [simp del]

definition op_back_reference :: "REExecContext \<Rightarrow> bool \<Rightarrow> re_regs \<Rightarrow> re_action option" where
  "op_back_reference s backward r = do {
     v \<leftarrow> rd (bc_buf s) (r_pc r);
     let r = r\<lparr>r_pc := r_pc r + 1\<rparr>;
     if unat v \<ge> capture_count s then Some No_match
     else if 2 * unat v + 1 \<ge> length (r_capture r) then None
     else case (r_capture r ! (2 * unat v), r_capture r ! (2 * unat v + 1)) of
       (Some p, Some q) \<Rightarrow> do {
         res \<leftarrow> (if backward then back_backward s q p (r_cptr r) else back_forward s p q (r_cptr r));
         Some (case res of None \<Rightarrow> No_match | Some cptr \<Rightarrow> Next (r\<lparr>r_cptr := cptr\<rparr>)) }
     | _ \<Rightarrow> Some (Next r) }"

text \<open>
  REOP_range and REOP_range32 search a sorted table of n pairs of numbers of w bytes; the
  indexes are 32-bit integers, as in the code.
\<close>

definition range_read :: "REExecContext \<Rightarrow> nat \<Rightarrow> nat \<Rightarrow> u32 \<Rightarrow> u32 option" where
  "range_read s w pc off = (if w = 2 then code_u16 s (pc + unat off) else code_u32 s (pc + unat off))"

partial_function (option) range_search :: "REExecContext \<Rightarrow> nat \<Rightarrow> nat \<Rightarrow> u32 \<Rightarrow> u32 \<Rightarrow> u32 \<Rightarrow> bool option" where
  "range_search s w pc c idx_min idx_max =
     (if idx_min \<le> idx_max
      then do {
        let idx = (idx_min + idx_max) div 2;
        low \<leftarrow> range_read s w pc (idx * of_nat (2 * w));
        high \<leftarrow> range_read s w pc (idx * of_nat (2 * w) + of_nat w);
        if c < low then range_search s w pc c idx_min (idx - 1)
        else if c > high then range_search s w pc c (idx + 1) idx_max
        else Some True }
      else Some False)"

definition range_test :: "REExecContext \<Rightarrow> nat \<Rightarrow> nat \<Rightarrow> u32 \<Rightarrow> u32 \<Rightarrow> bool option" where
  "range_test s w pc n c = do {
     low \<leftarrow> range_read s w pc 0;
     if c < low then Some False
     else do {
       let idx_max = n - 1;
       high \<leftarrow> range_read s w pc (idx_max * of_nat (2 * w) + of_nat w);
       if w = 2 \<and> c \<ge> 0xffff \<and> high = 0xffff then Some True
       else if c > high then Some False
       else range_search s w pc c 0 idx_max } }"

definition op_range :: "REExecContext \<Rightarrow> nat \<Rightarrow> re_regs \<Rightarrow> re_action option" where
  "op_range s w r = do {
     n \<leftarrow> code_u16 s (r_pc r);
     let pc = r_pc r + 2;
     if r_cptr r \<ge> cbuf_end s then Some No_match
     else do {
       (c, p) \<leftarrow> GET_CHAR s (r_cptr r) (cbuf_end s);
       c \<leftarrow> canonical s c;
       found \<leftarrow> range_test s w pc n c;
       Some (if found then Next (r\<lparr>r_pc := pc + 2 * w * unat n, r_cptr := p\<rparr>) else No_match) } }"

definition op_prev :: "REExecContext \<Rightarrow> re_regs \<Rightarrow> re_action option" where
  "op_prev s r =
     (if r_cptr r = 0 then Some No_match
      else do { p \<leftarrow> PREV_CHAR s (r_cptr r) 0; Some (Next (r\<lparr>r_cptr := p\<rparr>)) })"

definition op_greedy_quant :: "REExecContext \<Rightarrow> re_regs \<Rightarrow> re_action option" where
  "op_greedy_quant s r = do {
     next_pos \<leftarrow> code_u32 s (r_pc r);
     quant_min \<leftarrow> code_u32 s (r_pc r + 4);
     quant_max \<leftarrow> code_u32 s (r_pc r + 8);
     let pc1 = r_pc r + 16;
     pc \<leftarrow> pc_plus s pc1 next_pos;
     Some (Quant pc1 quant_min quant_max (r\<lparr>r_pc := pc\<rparr>)) }"

definition exec_opcode :: "REExecContext \<Rightarrow> REOPCodeEnum \<Rightarrow> re_regs \<Rightarrow> re_action option" where
  "exec_opcode s op r =
    (case op of
       REOP_match \<Rightarrow> Some (Matched r)
     | REOP_char32 \<Rightarrow> do { v \<leftarrow> code_u32 s (r_pc r); test_char s v (r\<lparr>r_pc := r_pc r + 4\<rparr>) }
     | REOP_char \<Rightarrow> do { v \<leftarrow> code_u16 s (r_pc r); test_char s v (r\<lparr>r_pc := r_pc r + 2\<rparr>) }
     | REOP_split_goto_first \<Rightarrow> op_split s False r
     | REOP_split_next_first \<Rightarrow> op_split s True r
     | REOP_lookahead \<Rightarrow> op_lookahead s RE_EXEC_STATE_LOOKAHEAD r
     | REOP_negative_lookahead \<Rightarrow> op_lookahead s RE_EXEC_STATE_NEGATIVE_LOOKAHEAD r
     | REOP_goto \<Rightarrow> do { v \<leftarrow> code_u32 s (r_pc r); pc \<leftarrow> pc_plus s (r_pc r + 4) v; Some (Next (r\<lparr>r_pc := pc\<rparr>)) }
     | REOP_line_start \<Rightarrow> op_line_start s r
     | REOP_line_end \<Rightarrow> op_line_end s r
     | REOP_dot \<Rightarrow> op_any s True r
     | REOP_any \<Rightarrow> op_any s False r
     | REOP_save_start \<Rightarrow> op_save s 0 r
     | REOP_save_end \<Rightarrow> op_save s 1 r
     | REOP_save_reset \<Rightarrow> op_save_reset s r
     | REOP_push_i32 \<Rightarrow> do { v \<leftarrow> code_u32 s (r_pc r); push_int (ucast v) (r\<lparr>r_pc := r_pc r + 4\<rparr>) }
     | REOP_drop \<Rightarrow> if r_stack_len r = 0 then None else Some (Next (r\<lparr>r_stack_len := r_stack_len r - 1\<rparr>))
     | REOP_loop \<Rightarrow> op_loop s r
     | REOP_push_char_pos \<Rightarrow> push_int (char_pos s (r_cptr r)) r
     | REOP_bne_char_pos \<Rightarrow> op_bne_char_pos s r
     | REOP_word_boundary \<Rightarrow> op_word_boundary s False r
     | REOP_not_word_boundary \<Rightarrow> op_word_boundary s True r
     | REOP_back_reference \<Rightarrow> op_back_reference s False r
     | REOP_backward_back_reference \<Rightarrow> op_back_reference s True r
     | REOP_range \<Rightarrow> op_range s 2 r
     | REOP_range32 \<Rightarrow> op_range s 4 r
     | REOP_prev \<Rightarrow> op_prev s r
     | REOP_simple_greedy_quant \<Rightarrow> op_greedy_quant s r
     | REOP_invalid \<Rightarrow> None)"

definition exec_op :: "REExecContext \<Rightarrow> re_regs \<Rightarrow> re_action option" where
  "exec_op s r = do {
     opcode \<leftarrow> rd (bc_buf s) (r_pc r);
     op \<leftarrow> reop_of opcode;
     exec_opcode s op (r\<lparr>r_pc := r_pc r + 1\<rparr>) }"

section \<open>Saved states\<close>

record REExecState =
  rs_type :: REExecStateEnum
  rs_stack_len :: u8
  rs_count :: u64
  rs_cptr :: nat
  rs_pc :: nat
  rs_capture :: "nat option list"
  rs_stack :: "u64 list"

record 'm re_vm =
  v_states :: "REExecState list"
  v_size :: nat
  v_mem :: 'm

text \<open>sizeof(REExecState) is 32.\<close>

definition state_size :: "REExecContext \<Rightarrow> nat" where
  "state_size s = 32 + capture_count s * 8 * 2 + stack_size_max s * 8"

definition grow_states :: "('m \<Rightarrow> nat \<Rightarrow> 'm \<times> bool) \<Rightarrow> REExecContext \<Rightarrow> 'm re_vm \<Rightarrow> 'm re_vm \<times> bool" where
  "grow_states ra s v =
     (if length (v_states v) + 1 > v_size v
      then let n = v_size v * 3 div 2; new_size = (if n < 8 then 8 else n); (m, ok) = ra (v_mem v) (new_size * state_size s)
           in (if ok then v\<lparr>v_size := new_size, v_mem := m\<rparr> else v\<lparr>v_mem := m\<rparr>, ok)
      else (v, True))"

definition push_state :: "('m \<Rightarrow> nat \<Rightarrow> 'm \<times> bool) \<Rightarrow> REExecContext \<Rightarrow> 'm re_vm \<Rightarrow> re_regs \<Rightarrow> nat \<Rightarrow> REExecStateEnum \<Rightarrow> u64
    \<Rightarrow> (int \<times> 'm re_vm) option" where
  "push_state ra s v r pc ty count =
     (case grow_states ra s v of
        (v, ok) \<Rightarrow>
          if \<not> ok then Some (- 1, v)
          else if 2 * capture_count s > length (r_capture r) \<or> r_stack_len r > length (r_stack r)
                  \<or> r_stack_len r > stack_size_max s then None
          else Some (0, v\<lparr>v_states := \<lparr>rs_type = ty, rs_stack_len = of_nat (r_stack_len r), rs_count = count,
                   rs_cptr = r_cptr r, rs_pc = pc, rs_capture = take (2 * capture_count s) (r_capture r),
                   rs_stack = take (r_stack_len r) (r_stack r)\<rparr> # v_states v\<rparr>))"

text \<open>memcpy of the saved captures, and of the saved stack (pop_state, pop_state1).\<close>

definition restore_capture :: "REExecState \<Rightarrow> re_regs \<Rightarrow> re_regs" where
  "restore_capture rs r = r\<lparr>r_capture := rs_capture rs @ drop (length (rs_capture rs)) (r_capture r)\<rparr>"

definition restore_stack :: "REExecState \<Rightarrow> re_regs \<Rightarrow> re_regs" where
  "restore_stack rs r =
     (let n = unat (rs_stack_len rs)
      in r\<lparr>r_stack_len := n, r_stack := take n (rs_stack rs) @ drop n (r_stack r)\<rparr>)"

definition pop_state1 :: "REExecState \<Rightarrow> re_regs \<Rightarrow> re_regs" where
  "pop_state1 rs r = restore_stack rs (r\<lparr>r_pc := rs_pc rs, r_cptr := rs_cptr rs\<rparr>)"

definition pop_state :: "REExecState \<Rightarrow> re_regs \<Rightarrow> re_regs" where
  "pop_state rs r = pop_state1 rs (restore_capture rs r)"

fun prev_chars :: "REExecContext \<Rightarrow> nat \<Rightarrow> nat \<Rightarrow> nat option" where
  "prev_chars s 0 p = Some p"
| "prev_chars s (Suc n) p = do { p \<leftarrow> PREV_CHAR s p 0; prev_chars s n p }"

text \<open>The code at recurse: what the loop goes on with, or the result when no state is left.\<close>

datatype re_resumed = Ended bool | Resumed re_regs "REExecState list"

definition resume_greedy :: "REExecContext \<Rightarrow> REExecState \<Rightarrow> re_regs \<Rightarrow> REExecState list \<Rightarrow> re_resumed option" where
  "resume_greedy s rs r rest = do {
     let r = restore_stack rs (restore_capture rs r);
     char_count \<leftarrow> code_u32 s (rs_pc rs + 12);
     cptr \<leftarrow> prev_chars s (unat char_count) (rs_cptr rs);
     next_pos \<leftarrow> code_u32 s (rs_pc rs);
     pc \<leftarrow> pc_plus s (rs_pc rs + 16) next_pos;
     let rs = rs\<lparr>rs_cptr := cptr, rs_count := rs_count rs - 1\<rparr>;
     Some (Resumed (r\<lparr>r_pc := pc, r_cptr := cptr\<rparr>) (if rs_count rs = 0 then rest else rs # rest)) }"

fun re_resume :: "REExecContext \<Rightarrow> bool \<Rightarrow> re_regs \<Rightarrow> REExecState list \<Rightarrow> re_resumed option" where
  "re_resume s ret r [] = Some (Ended ret)"
| "re_resume s ret r (rs # rest) =
     (case rs_type rs of
        RE_EXEC_STATE_SPLIT \<Rightarrow> if \<not> ret then Some (Resumed (pop_state rs r) rest) else re_resume s ret r rest
      | RE_EXEC_STATE_GREEDY_QUANT \<Rightarrow> if \<not> ret then resume_greedy s rs r rest else re_resume s ret r rest
      | RE_EXEC_STATE_LOOKAHEAD \<Rightarrow> if ret then Some (Resumed (pop_state1 rs r) rest) else re_resume s False r rest
      | RE_EXEC_STATE_NEGATIVE_LOOKAHEAD \<Rightarrow>
          if \<not> ret then Some (Resumed (pop_state rs r) rest) else re_resume s False r rest)"

section \<open>The loop\<close>

text \<open>
  The value of lre_exec_backtrack is -1, 0, 1 or, in the recursive call for the body of a
  quantifier (no_recurse), a pointer into the subject.
\<close>

datatype re_ret = Ret int | Ret_ptr nat

text \<open>
  What is left to do: run instructions, or go on with the loop of REOP_simple_greedy_quant
  whose body is at pc1 and has matched q times (the registers are those of the instruction behind it).
\<close>

datatype re_job = Run bool re_regs | Iterate bool nat u32 u32 u64 re_regs

datatype 'm re_turn = Stop re_ret re_regs "'m re_vm" | Continue re_job "'m re_vm"

definition re_end :: "REExecContext \<Rightarrow> bool \<Rightarrow> bool \<Rightarrow> re_regs \<Rightarrow> 'm re_vm \<Rightarrow> 'm re_turn option" where
  "re_end s no_recurse ret r v =
     (if no_recurse then Some (Stop (if ret then Ret_ptr (r_cptr r) else Ret 0) r v)
      else do {
        x \<leftarrow> re_resume s ret r (v_states v);
        Some (case x of
            Ended b \<Rightarrow> Stop (Ret (of_bool b)) r (v\<lparr>v_states := []\<rparr>)
          | Resumed r st \<Rightarrow> Continue (Run no_recurse r) (v\<lparr>v_states := st\<rparr>)) })"

definition re_push :: "('m \<Rightarrow> nat \<Rightarrow> 'm \<times> bool) \<Rightarrow> REExecContext \<Rightarrow> bool \<Rightarrow> REExecStateEnum \<Rightarrow> nat \<Rightarrow> u64 \<Rightarrow> re_regs \<Rightarrow> 'm re_vm
    \<Rightarrow> 'm re_turn option" where
  "re_push ra s no_recurse ty pc count r v = do {
     (ret, v) \<leftarrow> push_state ra s v r pc ty count;
     Some (if ret < 0 then Stop (Ret (- 1)) r v else Continue (Run no_recurse r) v) }"

definition re_step :: "('m \<Rightarrow> nat \<Rightarrow> 'm \<times> bool) \<Rightarrow> REExecContext \<Rightarrow> bool \<Rightarrow> re_regs \<Rightarrow> 'm re_vm \<Rightarrow> 'm re_turn option" where
  "re_step ra s no_recurse r v = do {
     a \<leftarrow> exec_op s r;
     case a of
       Next r \<Rightarrow> Some (Continue (Run no_recurse r) v)
     | No_match \<Rightarrow> re_end s no_recurse False r v
     | Matched r \<Rightarrow> re_end s no_recurse True r v
     | Save ty pc r \<Rightarrow> re_push ra s no_recurse ty pc 0 r v
     | Quant pc1 quant_min quant_max r \<Rightarrow> Some (Continue (Iterate no_recurse pc1 quant_min quant_max 0 r) v) }"

definition quant_end :: "('m \<Rightarrow> nat \<Rightarrow> 'm \<times> bool) \<Rightarrow> REExecContext \<Rightarrow> bool \<Rightarrow> nat \<Rightarrow> u32 \<Rightarrow> u64 \<Rightarrow> re_regs \<Rightarrow> 'm re_vm
    \<Rightarrow> 'm re_turn option" where
  "quant_end ra s no_recurse pc1 quant_min q r v =
     (if q < ucast quant_min then re_end s no_recurse False r v
      else if q > ucast quant_min
      then re_push ra s no_recurse RE_EXEC_STATE_GREEDY_QUANT (pc1 - 16) (q - ucast quant_min) r v
      else Some (Continue (Run no_recurse r) v))"

definition quant_turn :: "('m \<Rightarrow> nat \<Rightarrow> 'm \<times> bool) \<Rightarrow> REExecContext \<Rightarrow> bool \<Rightarrow> nat \<Rightarrow> u32 \<Rightarrow> u32 \<Rightarrow> u64 \<Rightarrow> re_regs
    \<Rightarrow> re_ret \<Rightarrow> re_regs \<Rightarrow> 'm re_vm \<Rightarrow> 'm re_turn option" where
  "quant_turn ra s no_recurse pc1 quant_min quant_max q r res body v =
     (let r = r\<lparr>r_capture := r_capture body, r_stack := r_stack body\<rparr>
      in case res of
           Ret i \<Rightarrow> if i = - 1 then Some (Stop res r v) else quant_end ra s no_recurse pc1 quant_min q r v
         | Ret_ptr p \<Rightarrow>
             (let r = r\<lparr>r_cptr := p\<rparr>; q = q + 1
              in if q \<ge> ucast quant_max \<and> quant_max \<noteq> 0x7fffffff then quant_end ra s no_recurse pc1 quant_min q r v
                 else Some (Continue (Iterate no_recurse pc1 quant_min quant_max q r) v)))"

partial_function (option) lre_exec_backtrack ::
    "('m \<Rightarrow> nat \<Rightarrow> 'm \<times> bool) \<Rightarrow> REExecContext \<Rightarrow> re_job \<Rightarrow> 'm re_vm \<Rightarrow> (re_ret \<times> re_regs \<times> 'm re_vm) option option" where
  "lre_exec_backtrack ra s j v =
     (case j of
        Run no_recurse r \<Rightarrow>
          (case re_step ra s no_recurse r v of
             None \<Rightarrow> Some None
           | Some (Stop res r v) \<Rightarrow> Some (Some (res, r, v))
           | Some (Continue j v) \<Rightarrow> lre_exec_backtrack ra s j v)
      | Iterate no_recurse pc1 quant_min quant_max q r \<Rightarrow>
          do {
            x \<leftarrow> lre_exec_backtrack ra s (Run True (r\<lparr>r_pc := pc1\<rparr>)) v;
            case x of
              None \<Rightarrow> Some None
            | Some (res, body, v) \<Rightarrow>
                (case quant_turn ra s no_recurse pc1 quant_min quant_max q r res body v of
                   None \<Rightarrow> Some None
                 | Some (Stop res r v) \<Rightarrow> Some (Some (res, r, v))
                 | Some (Continue j v) \<Rightarrow> lre_exec_backtrack ra s j v) })"

text \<open>The loop, one turn at a time.\<close>

definition continue_with :: "('m \<Rightarrow> nat \<Rightarrow> 'm \<times> bool) \<Rightarrow> REExecContext \<Rightarrow> 'm re_turn option \<Rightarrow> (re_ret \<times> re_regs \<times> 'm re_vm) option option" where
  "continue_with ra s t =
     (case t of None \<Rightarrow> Some None | Some (Stop res r v) \<Rightarrow> Some (Some (res, r, v)) | Some (Continue j v) \<Rightarrow> lre_exec_backtrack ra s j v)"

lemma exec_run: "lre_exec_backtrack ra s (Run nr r) v = continue_with ra s (re_step ra s nr r v)"
  by (subst lre_exec_backtrack.simps) (simp add: continue_with_def)

lemma exec_iterate:
  "lre_exec_backtrack ra s (Iterate nr pc1 mn mx q r) v =
     do { x \<leftarrow> lre_exec_backtrack ra s (Run True (r\<lparr>r_pc := pc1\<rparr>)) v;
          case x of None \<Rightarrow> Some None
          | Some (res, body, v) \<Rightarrow> continue_with ra s (quant_turn ra s nr pc1 mn mx q r res body v) }"
  by (subst lre_exec_backtrack.simps) (simp add: continue_with_def)

lemma continue_with_simps [simp]:
  "continue_with ra s None = Some None" "continue_with ra s (Some (Stop res r v)) = Some (Some (res, r, v))"
  "continue_with ra s (Some (Continue j v)) = lre_exec_backtrack ra s j v"
  by (simp_all add: continue_with_def)

definition LRE_FLAG_IGNORECASE :: u8 where "LRE_FLAG_IGNORECASE = push_bit 1 1"
definition LRE_FLAG_MULTILINE :: u8 where "LRE_FLAG_MULTILINE = push_bit 2 1"
definition LRE_FLAG_DOTALL :: u8 where "LRE_FLAG_DOTALL = push_bit 3 1"
definition LRE_FLAG_UTF16 :: u8 where "LRE_FLAG_UTF16 = push_bit 4 1"
definition LRE_FLAG_STICKY :: u8 where "LRE_FLAG_STICKY = push_bit 5 1"
definition LRE_FLAG_NAMED_GROUPS :: u8 where "LRE_FLAG_NAMED_GROUPS = push_bit 7 1"

text \<open>
  \<open>junk\<close> is what the stack holds before it is written, \<open>addr\<close> the address of the subject. The
  result has the captures and the memory after the states were given back.
\<close>

definition exec_context :: "bytes \<Rightarrow> bytes \<Rightarrow> u64 \<Rightarrow> nat \<Rightarrow> nat \<Rightarrow> u8 \<Rightarrow> u8 \<Rightarrow> u8 \<Rightarrow> REExecContext" where
  "exec_context bc buf addr clen type re_flags cc sz =
     \<lparr>cbuf = buf, cbuf_end = clen * 2 ^ type,
      cbuf_type = (if type = 1 \<and> re_flags AND LRE_FLAG_UTF16 \<noteq> 0 then 2 else type),
      capture_count = unat cc, stack_size_max = unat sz, multi_line = (re_flags AND LRE_FLAG_MULTILINE \<noteq> 0),
      ignore_case = (re_flags AND LRE_FLAG_IGNORECASE \<noteq> 0), is_utf16 = (re_flags AND LRE_FLAG_UTF16 \<noteq> 0),
      bc_buf = bc, cbuf_addr = addr\<rparr>"

definition lre_exec :: "('m \<Rightarrow> nat \<Rightarrow> 'm \<times> bool) \<Rightarrow> 'm \<Rightarrow> u64 list \<Rightarrow> u64 \<Rightarrow> nat option list \<Rightarrow> bytes \<Rightarrow> bytes \<Rightarrow> nat \<Rightarrow> nat \<Rightarrow> nat
    \<Rightarrow> (int \<times> nat option list \<times> 'm) option option" where
  "lre_exec ra m junk addr capture bc buf cindex clen type =
     (case (rd bc 0, rd bc 1, rd bc 2) of
        (Some re_flags, Some cc, Some sz) \<Rightarrow>
          if 2 * unat cc > length capture then Some None
          else do {
            x \<leftarrow> lre_exec_backtrack ra (exec_context bc buf addr clen type re_flags cc sz)
                   (Run False \<lparr>r_pc = RE_HEADER_LEN, r_cptr = cindex * 2 ^ type,
                     r_capture = replicate (2 * unat cc) None @ drop (2 * unat cc) capture,
                     r_stack = take (unat sz) junk, r_stack_len = 0\<rparr>)
                   \<lparr>v_states = [], v_size = 0, v_mem = m\<rparr>;
            Some (case x of
                Some (Ret ret, r, v) \<Rightarrow> Some (ret, r_capture r, fst (ra (v_mem v) 0))
              | _ \<Rightarrow> None) }
      | _ \<Rightarrow> Some None)"

definition lre_get_capture_count :: "bytes \<Rightarrow> u8 option" where "lre_get_capture_count bc = rd bc 1"
definition lre_get_flags :: "bytes \<Rightarrow> u8 option" where "lre_get_flags bc = rd bc 0"

definition lre_get_groupnames :: "bytes \<Rightarrow> bytes option option" where
  "lre_get_groupnames bc = do {
     flags \<leftarrow> lre_get_flags bc;
     if flags AND LRE_FLAG_NAMED_GROUPS = 0 then Some None
     else do {
       re_bytecode_len \<leftarrow> get_u32 (drop 3 bc);
       if 7 + unat re_bytecode_len \<le> length bc then Some (Some (drop (7 + unat re_bytecode_len) bc)) else None } }"

text \<open>The code of /a{0,5}a/ (sticky): the quantifier takes both letters, then has to give one back.\<close>

definition demo_code :: bytes where
  "demo_code = [32, 1, 0, 31, 0, 0, 0,  11, 0,
     28, 4, 0, 0, 0, 0, 0, 0, 0, 5, 0, 0, 0, 1, 0, 0, 0, 1, 97, 0, 10,  1, 97, 0,  12, 0, 10]"

declare range_search.simps [code] lre_exec_backtrack.simps [code]

end
