(* ===== verification/Regexp_Match.thy ===== *)
theory Regexp_Match
  imports Regexp
begin

text \<open>
  The executor of regular expressions against a recursive matcher over the same instructions: a choice is
  tried, and when it fails the other one is tried from the registers as they were; a lookahead is a
  match of its own; a simple quantifier tries the lengths from the longest to the shortest. Registers are
  values here and nothing is saved or restored. The executor, with its one array of captures, its stack and
  its saved states, computes what the matcher says.
\<close>

section \<open>The recursive matcher\<close>

datatype re_result = Re_match "nat option list" | Re_fail

text \<open>The body of a simple quantifier moves through the subject and changes no capture and no stack.\<close>

partial_function (option) re_body :: "REExecContext \<Rightarrow> re_regs \<Rightarrow> nat option option" where
  "re_body s r = do {
     a \<leftarrow> exec_op s r;
     case a of
       Next r' \<Rightarrow> if r_capture r' = r_capture r \<and> r_stack r' = r_stack r \<and> r_stack_len r' = r_stack_len r
                  then re_body s r' else None
     | No_match \<Rightarrow> Some None
     | Matched r' \<Rightarrow> Some (Some (r_cptr r'))
     | _ \<Rightarrow> None }"

partial_function (option) re_repeat :: "REExecContext \<Rightarrow> nat \<Rightarrow> u32 \<Rightarrow> u64 \<Rightarrow> re_regs \<Rightarrow> (u64 \<times> nat) option" where
  "re_repeat s pc1 quant_max q r = do {
     x \<leftarrow> re_body s (r\<lparr>r_pc := pc1\<rparr>);
     case x of
       None \<Rightarrow> Some (q, r_cptr r)
     | Some p \<Rightarrow> if q + 1 \<ge> ucast quant_max \<and> quant_max \<noteq> 0x7fffffff then Some (q + 1, p)
                 else re_repeat s pc1 quant_max (q + 1) (r\<lparr>r_cptr := p\<rparr>) }"

datatype re_goal = Goal re_regs | Down nat u64 re_regs

partial_function (option) re_match :: "REExecContext \<Rightarrow> re_goal \<Rightarrow> re_result option" where
  "re_match s g =
     (case g of
        Goal r \<Rightarrow> do {
          a \<leftarrow> exec_op s r;
          case a of
            Next r' \<Rightarrow> re_match s (Goal r')
          | No_match \<Rightarrow> Some Re_fail
          | Matched r' \<Rightarrow> Some (Re_match (r_capture r'))
          | Save ty pc r' \<Rightarrow> do {
              x \<leftarrow> re_match s (Goal r');
              case ty of
                RE_EXEC_STATE_SPLIT \<Rightarrow> (case x of Re_match c \<Rightarrow> Some x | Re_fail \<Rightarrow> re_match s (Goal (r'\<lparr>r_pc := pc\<rparr>)))
              | RE_EXEC_STATE_LOOKAHEAD \<Rightarrow>
                  (case x of Re_match c \<Rightarrow> re_match s (Goal (r'\<lparr>r_pc := pc, r_capture := c\<rparr>)) | Re_fail \<Rightarrow> Some Re_fail)
              | RE_EXEC_STATE_NEGATIVE_LOOKAHEAD \<Rightarrow>
                  (case x of Re_match c \<Rightarrow> Some Re_fail | Re_fail \<Rightarrow> re_match s (Goal (r'\<lparr>r_pc := pc\<rparr>)))
              | RE_EXEC_STATE_GREEDY_QUANT \<Rightarrow> None }
          | Quant pc1 quant_min quant_max r' \<Rightarrow> do {
              (q, p) \<leftarrow> re_repeat s pc1 quant_max 0 r';
              if q < ucast quant_min then Some Re_fail
              else do {
                char_count \<leftarrow> code_u32 s (pc1 - 16 + 12);
                re_match s (Down (unat char_count) (q - ucast quant_min) (r'\<lparr>r_cptr := p\<rparr>)) } } }
      | Down char_count n r \<Rightarrow> do {
          x \<leftarrow> re_match s (Goal r);
          case x of
            Re_match c \<Rightarrow> Some x
          | Re_fail \<Rightarrow> if n = 0 then Some Re_fail
                       else do { p \<leftarrow> prev_chars s char_count (r_cptr r);
                                 re_match s (Down char_count (n - 1) (r\<lparr>r_cptr := p\<rparr>)) } })"

section \<open>Registers that agree\<close>

text \<open>The two stacks may differ above stack_len.\<close>

definition agree :: "re_regs \<Rightarrow> re_regs \<Rightarrow> bool" where
  "agree r1 r2 \<longleftrightarrow> r_pc r1 = r_pc r2 \<and> r_cptr r1 = r_cptr r2 \<and> r_capture r1 = r_capture r2 \<and>
     r_stack_len r1 = r_stack_len r2 \<and> length (r_stack r1) = length (r_stack r2) \<and>
     take (r_stack_len r2) (r_stack r1) = take (r_stack_len r2) (r_stack r2)"

definition good :: "REExecContext \<Rightarrow> re_regs \<Rightarrow> bool" where
  "good s r \<longleftrightarrow> length (r_capture r) = 2 * capture_count s \<and> length (r_stack r) = stack_size_max s \<and>
     r_stack_len r \<le> stack_size_max s \<and> stack_size_max s < 256"

definition act_agree :: "re_action \<Rightarrow> re_action \<Rightarrow> bool" where
  "act_agree a b =
     (case (a, b) of
        (Next r, Next r') \<Rightarrow> agree r r' | (No_match, No_match) \<Rightarrow> True | (Matched r, Matched r') \<Rightarrow> agree r r'
      | (Save t p r, Save t' p' r') \<Rightarrow> t = t' \<and> p = p' \<and> agree r r'
      | (Quant p m n r, Quant p' m' n' r') \<Rightarrow> p = p' \<and> m = m' \<and> n = n' \<and> agree r r' | _ \<Rightarrow> False)"

fun act_good :: "REExecContext \<Rightarrow> re_action \<Rightarrow> bool" where
  "act_good s (Next r) = good s r" | "act_good s No_match = True" | "act_good s (Matched r) = good s r"
| "act_good s (Save t p r) = good s r" | "act_good s (Quant p m n r) = good s r"

lemmas op_defs = test_char_def op_split_def op_lookahead_def op_line_start_def op_line_end_def op_any_def op_save_def
  op_save_reset_def push_int_def op_loop_def op_bne_char_pos_def op_word_boundary_def op_back_reference_def op_range_def
  op_prev_def op_greedy_quant_def

lemma good_simps [simp]:
  "good s (r\<lparr>r_pc := p\<rparr>) = good s r" "good s (r\<lparr>r_cptr := c\<rparr>) = good s r"
  "length cap = length (r_capture r) \<Longrightarrow> good s (r\<lparr>r_capture := cap\<rparr>) = good s r"
  by (simp_all add: good_def)

lemma op_good:
  "test_char s v r = Some a \<Longrightarrow> good s r \<Longrightarrow> act_good s a"
  "op_split s b r = Some a \<Longrightarrow> good s r \<Longrightarrow> act_good s a"
  "op_lookahead s ty r = Some a \<Longrightarrow> good s r \<Longrightarrow> act_good s a"
  "op_line_start s r = Some a \<Longrightarrow> good s r \<Longrightarrow> act_good s a"
  "op_line_end s r = Some a \<Longrightarrow> good s r \<Longrightarrow> act_good s a"
  "op_any s b r = Some a \<Longrightarrow> good s r \<Longrightarrow> act_good s a"
  "op_save s k r = Some a \<Longrightarrow> good s r \<Longrightarrow> act_good s a"
  "op_save_reset s r = Some a \<Longrightarrow> good s r \<Longrightarrow> act_good s a"
  "push_int x r = Some a \<Longrightarrow> good s r \<Longrightarrow> act_good s a"
  "op_loop s r = Some a \<Longrightarrow> good s r \<Longrightarrow> act_good s a"
  "op_bne_char_pos s r = Some a \<Longrightarrow> good s r \<Longrightarrow> act_good s a"
  "op_word_boundary s b r = Some a \<Longrightarrow> good s r \<Longrightarrow> act_good s a"
  "op_back_reference s b r = Some a \<Longrightarrow> good s r \<Longrightarrow> act_good s a"
  "op_range s w r = Some a \<Longrightarrow> good s r \<Longrightarrow> act_good s a"
  "op_prev s r = Some a \<Longrightarrow> good s r \<Longrightarrow> act_good s a"
  "op_greedy_quant s r = Some a \<Longrightarrow> good s r \<Longrightarrow> act_good s a"
  by (auto simp: op_defs bind_eq_Some_iff Let_def split: if_splits option.splits) (auto simp: good_def)

lemma exec_opcode_good: "exec_opcode s op r = Some a \<Longrightarrow> good s r \<Longrightarrow> act_good s a"
  by (cases op) (auto simp: exec_opcode_def bind_eq_Some_iff split: if_splits dest: op_good, (auto simp: good_def)?)

lemma exec_op_good: "exec_op s r = Some a \<Longrightarrow> good s r \<Longrightarrow> act_good s a"
  by (auto simp: exec_op_def bind_eq_Some_iff intro: exec_opcode_good)

lemma agree_stack:
  assumes "length xs = length ys" "take n xs = take n ys"
  shows "take (Suc n) (xs[n := x]) = take (Suc n) (ys[n := x])"
    "0 < n \<Longrightarrow> n \<le> length xs \<Longrightarrow> xs ! (n - Suc 0) = ys ! (n - Suc 0)"
    "take n (xs[n - Suc 0 := x]) = take n (ys[n - Suc 0 := x])"
    "take (n - Suc 0) xs = take (n - Suc 0) ys"
proof -
  show "take (Suc n) (xs[n := x]) = take (Suc n) (ys[n := x])"
    using assms by (cases "n < length xs") (simp_all add: take_Suc_conv_app_nth list_update_append)
  show "0 < n \<Longrightarrow> n \<le> length xs \<Longrightarrow> xs ! (n - Suc 0) = ys ! (n - Suc 0)"
    using assms(2) by (metis Suc_pred lessI nth_take)
  show "take n (xs[n - Suc 0 := x]) = take n (ys[n - Suc 0 := x])"
    using assms(2) by (simp add: take_update_swap)
  show "take (n - Suc 0) xs = take (n - Suc 0) ys"
    using assms(2) by (metis diff_le_self min.absorb1 take_take)
qed

lemma agree_elim:
  assumes "agree r1 r2"
  obtains xs where "r1 = r2\<lparr>r_stack := xs\<rparr>" "length xs = length (r_stack r2)"
    "take (r_stack_len r2) xs = take (r_stack_len r2) (r_stack r2)"
  using assms by (cases r1; cases r2) (auto simp: agree_def)

lemma agree_intro:
  assumes "length xs = length (r_stack r2)" "take (r_stack_len r2) xs = take (r_stack_len r2) (r_stack r2)"
  shows "agree (r2\<lparr>r_stack := xs\<rparr>) r2"
  using assms by (simp add: agree_def)

abbreviation opt_agree :: "re_action option \<Rightarrow> re_action option \<Rightarrow> bool" where
  "opt_agree \<equiv> rel_option act_agree"

lemma opt_agree_bind:
  "m = m' \<Longrightarrow> (\<And>x. m' = Some x \<Longrightarrow> opt_agree (f x) (g x)) \<Longrightarrow> opt_agree (m \<bind> f) (m' \<bind> g)"
  by (cases m') simp_all

lemma opt_agree_if:
  "b = b' \<Longrightarrow> (b' \<Longrightarrow> opt_agree x x') \<Longrightarrow> (\<not> b' \<Longrightarrow> opt_agree y y') \<Longrightarrow> opt_agree (if b then x else y) (if b' then x' else y')"
  by simp

lemma act_agree_simps [simp]:
  "act_agree (Next r) (Next r') = agree r r'" "act_agree No_match No_match" "act_agree (Matched r) (Matched r') = agree r r'"
  "act_agree (Save t p r) (Save t' p' r') = (t = t' \<and> p = p' \<and> agree r r')"
  "act_agree (Quant p m n r) (Quant p' m' n' r') = (p = p' \<and> m = m' \<and> n = n' \<and> agree r r')"
  by (simp_all add: act_agree_def)

lemma agree_simps:
  assumes "agree r1 r"
  shows "r_pc r1 = r_pc r" "r_cptr r1 = r_cptr r" "r_capture r1 = r_capture r" "r_stack_len r1 = r_stack_len r"
    "length (r_stack r1) = length (r_stack r)"
    "agree (r1\<lparr>r_pc := p\<rparr>) (r\<lparr>r_pc := p\<rparr>)" "agree (r1\<lparr>r_cptr := p\<rparr>) (r\<lparr>r_cptr := p\<rparr>)"
    "agree (r1\<lparr>r_capture := c\<rparr>) (r\<lparr>r_capture := c\<rparr>)"
    "agree (r1\<lparr>r_pc := p, r_cptr := n\<rparr>) (r\<lparr>r_pc := p, r_cptr := n\<rparr>)"
    "agree (r1\<lparr>r_pc := p, r_capture := c\<rparr>) (r\<lparr>r_pc := p, r_capture := c\<rparr>)"
  using assms by (simp_all add: agree_def)

lemma agree_stack_simps:
  assumes "agree r1 r"
  shows "agree (r1\<lparr>r_stack_len := r_stack_len r - Suc 0\<rparr>) (r\<lparr>r_stack_len := r_stack_len r - Suc 0\<rparr>)"
    "agree (r1\<lparr>r_pc := p, r_stack_len := r_stack_len r - Suc 0\<rparr>) (r\<lparr>r_pc := p, r_stack_len := r_stack_len r - Suc 0\<rparr>)"
    "agree (r1\<lparr>r_stack := (r_stack r1)[r_stack_len r := x], r_stack_len := Suc (r_stack_len r)\<rparr>)
       (r\<lparr>r_stack := (r_stack r)[r_stack_len r := x], r_stack_len := Suc (r_stack_len r)\<rparr>)"
    "agree (r1\<lparr>r_pc := p, r_stack := (r_stack r1)[r_stack_len r - Suc 0 := x]\<rparr>)
       (r\<lparr>r_pc := p, r_stack := (r_stack r)[r_stack_len r - Suc 0 := x]\<rparr>)"
    "0 < r_stack_len r \<Longrightarrow> r_stack_len r \<le> length (r_stack r) \<Longrightarrow>
       r_stack r1 ! (r_stack_len r - Suc 0) = r_stack r ! (r_stack_len r - Suc 0)"
proof -
  have l: "length (r_stack r1) = length (r_stack r)" and t: "take (r_stack_len r) (r_stack r1) = take (r_stack_len r) (r_stack r)"
    using assms by (auto simp: agree_def)
  note s = agree_stack [OF l t]
  show "agree (r1\<lparr>r_stack_len := r_stack_len r - Suc 0\<rparr>) (r\<lparr>r_stack_len := r_stack_len r - Suc 0\<rparr>)"
    "agree (r1\<lparr>r_pc := p, r_stack_len := r_stack_len r - Suc 0\<rparr>) (r\<lparr>r_pc := p, r_stack_len := r_stack_len r - Suc 0\<rparr>)"
    using assms s(4) unfolding agree_def by simp_all
  show "agree (r1\<lparr>r_stack := (r_stack r1)[r_stack_len r := x], r_stack_len := Suc (r_stack_len r)\<rparr>)
       (r\<lparr>r_stack := (r_stack r)[r_stack_len r := x], r_stack_len := Suc (r_stack_len r)\<rparr>)"
    using assms s(1) unfolding agree_def by simp
  show "agree (r1\<lparr>r_pc := p, r_stack := (r_stack r1)[r_stack_len r - Suc 0 := x]\<rparr>)
       (r\<lparr>r_pc := p, r_stack := (r_stack r)[r_stack_len r - Suc 0 := x]\<rparr>)"
    using assms s(3) unfolding agree_def by simp
  show "0 < r_stack_len r \<Longrightarrow> r_stack_len r \<le> length (r_stack r) \<Longrightarrow>
       r_stack r1 ! (r_stack_len r - Suc 0) = r_stack r ! (r_stack_len r - Suc 0)"
    using s(2) l by simp
qed

lemmas all_agree_simps = agree_simps agree_stack_simps

lemma op_agree:
  assumes a: "agree r1 r"
  shows "opt_agree (test_char s v r1) (test_char s v r)" "opt_agree (op_split s b r1) (op_split s b r)"
    "opt_agree (op_lookahead s ty r1) (op_lookahead s ty r)"
    "opt_agree (op_line_start s r1) (op_line_start s r)" "opt_agree (op_line_end s r1) (op_line_end s r)"
    "opt_agree (op_any s b r1) (op_any s b r)" "opt_agree (op_save s k r1) (op_save s k r)"
    "opt_agree (op_save_reset s r1) (op_save_reset s r)" "opt_agree (push_int x r1) (push_int x r)"
    "opt_agree (op_word_boundary s b r1) (op_word_boundary s b r)"
    "opt_agree (op_range s w r1) (op_range s w r)" "opt_agree (op_prev s r1) (op_prev s r)"
    "opt_agree (op_greedy_quant s r1) (op_greedy_quant s r)"
  using a unfolding op_defs Let_def agree_simps [OF a]
  by (auto simp: all_agree_simps [OF a] intro!: opt_agree_bind opt_agree_if)

lemma op_loop_agree:
  assumes a: "agree r1 r"
  shows "opt_agree (op_loop s r1) (op_loop s r)"
  using a by (cases "r_stack_len r = 0 \<or> r_stack_len r > length (r_stack r)")
    (auto simp: op_loop_def Let_def all_agree_simps [OF a] intro!: opt_agree_bind)

lemma op_bne_char_pos_agree:
  assumes a: "agree r1 r"
  shows "opt_agree (op_bne_char_pos s r1) (op_bne_char_pos s r)"
  using a by (cases "r_stack_len r = 0 \<or> r_stack_len r > length (r_stack r)")
    (auto simp: op_bne_char_pos_def Let_def all_agree_simps [OF a] intro!: opt_agree_bind)

lemma op_back_reference_agree:
  assumes a: "agree r1 r"
  shows "opt_agree (op_back_reference s b r1) (op_back_reference s b r)"
  using a by (auto simp: op_back_reference_def Let_def all_agree_simps [OF a] intro!: opt_agree_bind split: option.splits)

lemmas all_op_agree = op_agree op_loop_agree op_bne_char_pos_agree op_back_reference_agree

lemma exec_opcode_agree:
  assumes a: "agree r1 r"
  shows "opt_agree (exec_opcode s op r1) (exec_opcode s op r)"
  using a by (cases op) (auto simp: exec_opcode_def all_agree_simps [OF a] intro!: opt_agree_bind all_op_agree)

lemma exec_op_agree:
  assumes a: "agree r1 r"
  shows "opt_agree (exec_op s r1) (exec_op s r)"
  by (auto simp: exec_op_def all_agree_simps [OF a] intro!: opt_agree_bind exec_opcode_agree)

section \<open>The executor computes the match\<close>

lemma exec_op_matched:
  assumes "exec_op s r = Some (Matched r')"
  shows "r' = r\<lparr>r_pc := r_pc r + 1\<rparr>"
proof -
  from assms obtain op where op: "exec_opcode s op (r\<lparr>r_pc := r_pc r + 1\<rparr>) = Some (Matched r')"
    by (auto simp: exec_op_def bind_eq_Some_iff)
  then show ?thesis
    by (cases op) (auto simp: exec_opcode_def op_defs Let_def bind_eq_Some_iff split: if_splits option.splits)
qed

lemma body_runs:
  assumes "re_body s r = Some res"
  shows "agree rv r \<Longrightarrow> \<exists>rb. lre_exec_backtrack ra s (Run True rv) v =
           Some (Some (case res of None \<Rightarrow> Ret 0 | Some p \<Rightarrow> Ret_ptr p, rb, v)) \<and>
         r_capture rb = r_capture r \<and> length (r_stack rb) = length (r_stack r) \<and>
         take (r_stack_len r) (r_stack rb) = take (r_stack_len r) (r_stack r)"
  using assms
proof (induction s r res arbitrary: rv rule: re_body.raw_induct [rotated, consumes 1])
  case (1 f s r res)
  note IH = 1(1) and eq = 1(2) and ag = 1(3)
  from eq obtain a where a: "exec_op s r = Some a" by (auto simp: bind_eq_Some_iff)
  with exec_op_agree [OF ag, of s] obtain a' where a': "exec_op s rv = Some a'" "act_agree a' a"
    by (cases "exec_op s rv") auto
  show ?case
  proof (cases a)
    case (Next r1)
    with a' obtain r2 where n: "a' = Next r2" "agree r2 r1" by (cases a') (auto simp: act_agree_def)
    from eq a Next have e: "f s r1 = Some res" "r_capture r1 = r_capture r" "r_stack r1 = r_stack r"
      "r_stack_len r1 = r_stack_len r" by (auto split: if_splits)
    from IH [OF e(1) n(2)] show ?thesis
      using n(1) a' e(2-4) by (simp add: exec_run [of _ _ _ rv] re_step_def)
  next
    case No_match
    with a' a eq ag show ?thesis
      by (cases a') (auto simp: act_agree_def exec_run re_step_def re_end_def agree_def)
  next
    case (Matched r1)
    with a' obtain r2 where n: "a' = Matched r2" "agree r2 r1" by (cases a') (auto simp: act_agree_def)
    then show ?thesis
      using a a' Matched eq ag exec_op_matched [of s r r1] by (auto simp: exec_run re_step_def re_end_def agree_def)
  qed (use a eq ag in auto)
qed

lemma repeat_runs:
  assumes "re_repeat s pc1 mx q r = Some res"
  shows "agree rv r \<Longrightarrow> \<exists>rv'. lre_exec_backtrack ra s (Iterate False pc1 mn mx q rv) v =
           continue_with ra s (quant_end ra s False pc1 mn (fst res) rv' v) \<and> agree rv' (r\<lparr>r_cptr := snd res\<rparr>)"
  using assms
proof (induction s pc1 mx q r res arbitrary: rv rule: re_repeat.raw_induct [rotated, consumes 1])
  case (1 f s pc1 mx q r res)
  note IH = 1(1) and eq = 1(2) and ag = 1(3)
  from eq obtain x where x: "re_body s (r\<lparr>r_pc := pc1\<rparr>) = Some x" by (auto simp: bind_eq_Some_iff)
  from body_runs [OF x agree_simps(6) [OF ag], of ra v] obtain rb where
    rb: "lre_exec_backtrack ra s (Run True (rv\<lparr>r_pc := pc1\<rparr>)) v =
           Some (Some (case x of None \<Rightarrow> Ret 0 | Some p \<Rightarrow> Ret_ptr p, rb, v))"
      "r_capture rb = r_capture r" "length (r_stack rb) = length (r_stack r)"
      "take (r_stack_len r) (r_stack rb) = take (r_stack_len r) (r_stack r)"
    by auto
  define rv1 where "rv1 = rv\<lparr>r_capture := r_capture rb, r_stack := r_stack rb\<rparr>"
  have ag1: "agree (rv1\<lparr>r_cptr := p\<rparr>) (r\<lparr>r_cptr := p\<rparr>)" for p
    using ag rb by (simp add: rv1_def agree_def)
  show ?case
  proof (cases x)
    case None
    with eq x have "res = (q, r_cptr r)" by simp
    with None rb(1) ag1 [of "r_cptr r"] ag show ?thesis
      by (intro exI [of _ rv1]) (simp add: exec_iterate quant_turn_def rv1_def agree_def)
  next
    case (Some p)
    show ?thesis
    proof (cases "q + 1 \<ge> ucast mx \<and> mx \<noteq> 0x7fffffff")
      case True
      with eq x Some have "res = (q + 1, p)" by simp
      with True Some rb(1) ag1 [of p] show ?thesis
        by (intro exI [of _ "rv1\<lparr>r_cptr := p\<rparr>"]) (simp add: exec_iterate quant_turn_def rv1_def)
    next
      case False
      with eq x Some have f: "f s pc1 mx (q + 1) (r\<lparr>r_cptr := p\<rparr>) = Some res" by auto
      have "quant_turn ra s False pc1 mn mx q rv (Ret_ptr p) rb v = Some (Continue (Iterate False pc1 mn mx (q + 1) (rv1\<lparr>r_cptr := p\<rparr>)) v)"
        using False by (auto simp: quant_turn_def rv1_def Let_def)
      then have "lre_exec_backtrack ra s (Iterate False pc1 mn mx q rv) v =
          lre_exec_backtrack ra s (Iterate False pc1 mn mx (q + 1) (rv1\<lparr>r_cptr := p\<rparr>)) v"
        using rb(1) Some by (simp add: exec_iterate)
      with IH [OF f ag1] show ?thesis by simp
    qed
  qed
qed

definition saved :: "REExecContext \<Rightarrow> re_regs \<Rightarrow> REExecStateEnum \<Rightarrow> nat \<Rightarrow> u64 \<Rightarrow> REExecState" where
  "saved s r ty pc count =
     \<lparr>rs_type = ty, rs_stack_len = of_nat (r_stack_len r), rs_count = count, rs_cptr = r_cptr r, rs_pc = pc,
      rs_capture = r_capture r, rs_stack = take (r_stack_len r) (r_stack r)\<rparr>"

lemma saved_simps [simp]:
  "rs_type (saved s r ty pc count) = ty" "rs_count (saved s r ty pc count) = count" "rs_cptr (saved s r ty pc count) = r_cptr r"
  "rs_pc (saved s r ty pc count) = pc"
  by (simp_all add: saved_def)

lemma good_agree: "agree rv r \<Longrightarrow> good s r \<Longrightarrow> good s rv"
  by (simp add: agree_def good_def)

lemma re_push_saves:
  assumes "agree rv r" "good s r"
  shows "(\<exists>v'. re_push ra s False ty pc count rv v = Some (Stop (Ret (- 1)) rv v') \<and> (\<exists>m n. \<not> snd (ra m n))) \<or>
    (\<exists>v'. re_push ra s False ty pc count rv v = Some (Continue (Run False rv) v') \<and>
       v_states v' = saved s r ty pc count # v_states v)"
proof (cases "grow_states ra s v")
  case (Pair v1 ok)
  note gr = good_agree [OF assms]
  have st: "v_states v1 = v_states v" and fl: "ok \<or> (\<exists>m n. \<not> snd (ra m n))"
    using Pair by (auto simp: grow_states_def Let_def split: if_splits prod.splits) (metis snd_conv)+
  have sv: "saved s r ty pc count = saved s rv ty pc count"
    using assms(1) by (simp add: saved_def agree_def)
  show ?thesis
    using Pair fl gr st unfolding sv
    by (cases ok) (auto simp: re_push_def push_state_def good_def saved_def)
qed

definition lens :: "REExecContext \<Rightarrow> re_regs \<Rightarrow> bool" where
  "lens s r \<longleftrightarrow> length (r_capture r) = 2 * capture_count s \<and> length (r_stack r) = stack_size_max s"

lemma good_lens: "good s r \<Longrightarrow> lens s r"
  by (simp add: good_def lens_def)

lemma unat_stack_len: "good s r \<Longrightarrow> unat (of_nat (r_stack_len r) :: u8) = r_stack_len r"
  by (simp add: good_def unat_of_nat_u8)

lemma pop_saved:
  assumes "good s r" "lens s rf"
  shows "agree (pop_state (saved s r ty pc count) rf) (r\<lparr>r_pc := pc\<rparr>)"
    "agree (pop_state1 (saved s r ty pc count) rf) (r\<lparr>r_pc := pc, r_capture := r_capture rf\<rparr>)"
    "agree (restore_stack (saved s r ty pc count) (restore_capture (saved s r ty pc count) rf)\<lparr>r_pc := p, r_cptr := c\<rparr>)
       (r\<lparr>r_pc := p, r_cptr := c\<rparr>)"
  using assms unat_stack_len [OF assms(1)]
  by (auto simp: pop_state_def pop_state1_def restore_stack_def restore_capture_def agree_def lens_def good_def saved_def
      Let_def)

definition runs :: "('m \<Rightarrow> nat \<Rightarrow> 'm \<times> bool) \<Rightarrow> REExecContext \<Rightarrow> re_regs \<Rightarrow> 'm re_vm \<Rightarrow> re_result \<Rightarrow> REExecState list \<Rightarrow> bool" where
  "runs ra s rv v x st \<longleftrightarrow>
     (\<exists>rf vf. lre_exec_backtrack ra s (Run False rv) v = Some (Some (Ret (- 1), rf, vf)) \<and> (\<exists>m n. \<not> snd (ra m n))) \<or>
     (\<exists>rf vf. lre_exec_backtrack ra s (Run False rv) v = continue_with ra s (re_end s False (x \<noteq> Re_fail) rf vf) \<and>
        v_states vf = st \<and> lens s rf \<and> (\<forall>c. x = Re_match c \<longrightarrow> r_capture rf = c))"

lemma runs_same:
  "lre_exec_backtrack ra s (Run False rv) v = lre_exec_backtrack ra s (Run False rv') v' \<Longrightarrow>
   runs ra s rv' v' x st \<Longrightarrow> runs ra s rv v x st"
  by (simp add: runs_def)

text \<open>
  What happens when the inner match is over: with a saved state on top, re_end goes on with the
  state below, or with the registers that were saved.
\<close>

lemma runs_popped:
  assumes run: "runs ra s rv v x (rs # st)"
    and pass: "\<And>rf vf. v_states vf = rs # st \<Longrightarrow> lens s rf \<Longrightarrow> (\<And>c. x = Re_match c \<Longrightarrow> r_capture rf = c) \<Longrightarrow>
      (\<exists>vf'. re_end s False (x \<noteq> Re_fail) rf vf = re_end s False (y \<noteq> Re_fail) rf vf' \<and> v_states vf' = st \<and>
         (\<forall>c. y = Re_match c \<longrightarrow> r_capture rf = c)) \<or>
      (\<exists>r' v'. re_end s False (x \<noteq> Re_fail) rf vf = Some (Continue (Run False r') v') \<and> runs ra s r' v' y st)"
  shows "runs ra s rv v y st"
proof (cases "\<exists>rf vf. lre_exec_backtrack ra s (Run False rv) v = Some (Some (Ret (- 1), rf, vf)) \<and> (\<exists>m n. \<not> snd (ra m n))")
  case True
  then show ?thesis by (auto simp: runs_def)
next
  case False
  with run obtain rf vf where e: "lre_exec_backtrack ra s (Run False rv) v = continue_with ra s (re_end s False (x \<noteq> Re_fail) rf vf)"
    "v_states vf = rs # st" "lens s rf" "\<And>c. x = Re_match c \<Longrightarrow> r_capture rf = c"
    by (auto simp: runs_def)
  have "(\<exists>vf'. re_end s False (x \<noteq> Re_fail) rf vf = re_end s False (y \<noteq> Re_fail) rf vf' \<and> v_states vf' = st \<and>
         (\<forall>c. y = Re_match c \<longrightarrow> r_capture rf = c)) \<or>
      (\<exists>r' v'. re_end s False (x \<noteq> Re_fail) rf vf = Some (Continue (Run False r') v') \<and> runs ra s r' v' y st)"
    using e(2-4) by (rule pass)
  then show ?thesis
  proof (elim disjE exE conjE)
    fix r' v' assume "re_end s False (x \<noteq> Re_fail) rf vf = Some (Continue (Run False r') v')" "runs ra s r' v' y st"
    with e(1) show ?thesis by (intro runs_same [of ra s rv v r' v']) simp_all
  next
    fix vf' assume "re_end s False (x \<noteq> Re_fail) rf vf = re_end s False (y \<noteq> Re_fail) rf vf'" "v_states vf' = st"
      "\<forall>c. y = Re_match c \<longrightarrow> r_capture rf = c"
    with e(1,3) show ?thesis unfolding runs_def by (metis (no_types))
  qed
qed

lemma re_end_states:
  assumes "re_resume s b rf (v_states vf) = re_resume s b' rf st"
  shows "re_end s False b rf vf = re_end s False b' rf (vf\<lparr>v_states := st\<rparr>)"
proof (cases "re_resume s b' rf st")
  case (Some x)
  with assms show ?thesis by (cases x) (simp_all add: re_end_def)
qed (use assms in \<open>simp add: re_end_def\<close>)

lemma re_end_skip:
  assumes "v_states vf = rs # st"
  shows "rs_type rs \<in> {RE_EXEC_STATE_SPLIT, RE_EXEC_STATE_GREEDY_QUANT} \<Longrightarrow>
      re_end s False True rf vf = re_end s False True rf (vf\<lparr>v_states := st\<rparr>)"
    "rs_type rs = RE_EXEC_STATE_LOOKAHEAD \<Longrightarrow> re_end s False False rf vf = re_end s False False rf (vf\<lparr>v_states := st\<rparr>)"
    "rs_type rs = RE_EXEC_STATE_NEGATIVE_LOOKAHEAD \<Longrightarrow> re_end s False True rf vf = re_end s False False rf (vf\<lparr>v_states := st\<rparr>)"
  by (rule re_end_states; use assms in auto)+

lemma re_end_pop:
  assumes "v_states vf = rs # st"
  shows "rs_type rs \<in> {RE_EXEC_STATE_SPLIT, RE_EXEC_STATE_NEGATIVE_LOOKAHEAD} \<Longrightarrow>
      re_end s False False rf vf = Some (Continue (Run False (pop_state rs rf)) (vf\<lparr>v_states := st\<rparr>))"
    "rs_type rs = RE_EXEC_STATE_LOOKAHEAD \<Longrightarrow>
      re_end s False True rf vf = Some (Continue (Run False (pop_state1 rs rf)) (vf\<lparr>v_states := st\<rparr>))"
  using assms by (auto simp: re_end_def)

text \<open>The saved state of a quantifier that still has n shorter lengths to try.\<close>

definition down_states :: "REExecContext \<Rightarrow> nat \<Rightarrow> u64 \<Rightarrow> re_regs \<Rightarrow> REExecState list \<Rightarrow> REExecState list \<Rightarrow> bool" where
  "down_states s char_count n r st st' \<longleftrightarrow>
     (if n = 0 then st' = st
      else \<exists>pc cc nx. st' = saved s r RE_EXEC_STATE_GREEDY_QUANT pc n # st \<and> code_u32 s (pc + 12) = Some cc \<and>
             unat cc = char_count \<and> code_u32 s pc = Some nx \<and> pc_plus s (pc + 16) nx = Some (r_pc r))"

definition match_runs :: "('m \<Rightarrow> nat \<Rightarrow> 'm \<times> bool) \<Rightarrow> REExecContext \<Rightarrow> re_goal \<Rightarrow> re_result \<Rightarrow> bool" where
  "match_runs ra s g x =
     (case g of
        Goal r \<Rightarrow> \<forall>rv v. agree rv r \<longrightarrow> good s r \<longrightarrow> runs ra s rv v x (v_states v)
      | Down k n r \<Rightarrow> \<forall>rv v st. agree rv r \<longrightarrow> good s r \<longrightarrow> down_states s k n r st (v_states v) \<longrightarrow> runs ra s rv v x st)"

lemma down_runs:
  assumes goal: "match_runs ra s (Goal r) x"
    and x: "case x of Re_match c \<Rightarrow> y = x
      | Re_fail \<Rightarrow> if n = 0 then y = Re_fail else \<exists>p. prev_chars s k (r_cptr r) = Some p \<and> match_runs ra s (Down k (n - 1) (r\<lparr>r_cptr := p\<rparr>)) y"
  shows "match_runs ra s (Down k n r) y"
proof -
  have "runs ra s rv v y st" if ag: "agree rv r" and gr: "good s r" and ds: "down_states s k n r st (v_states v)" for rv v st
  proof -
    have run: "runs ra s rv v x (v_states v)" using goal ag gr by (simp add: match_runs_def)
    show ?thesis
    proof (cases "n = 0")
      case True
      then have "v_states v = st" "y = x" using ds x by (auto simp: down_states_def split: re_result.splits)
      with run show ?thesis by simp
    next
      case False
      with ds obtain pc cc nx where st: "v_states v = saved s r RE_EXEC_STATE_GREEDY_QUANT pc n # st"
        and pc: "code_u32 s (pc + 12) = Some cc" "unat cc = k" "code_u32 s pc = Some nx" "pc_plus s (pc + 16) nx = Some (r_pc r)"
        by (auto simp: down_states_def)
      show ?thesis
      proof (rule runs_popped [OF run [unfolded st]])
        fix rf and vf :: "'a re_vm"
        assume vf: "v_states vf = saved s r RE_EXEC_STATE_GREEDY_QUANT pc n # st" and rf: "lens s rf"
          and c: "\<And>c. x = Re_match c \<Longrightarrow> r_capture rf = c"
        show "(\<exists>vf'. re_end s False (x \<noteq> Re_fail) rf vf = re_end s False (y \<noteq> Re_fail) rf vf' \<and> v_states vf' = st \<and>
            (\<forall>c. y = Re_match c \<longrightarrow> r_capture rf = c)) \<or>
          (\<exists>r' v'. re_end s False (x \<noteq> Re_fail) rf vf = Some (Continue (Run False r') v') \<and> runs ra s r' v' y st)"
        proof (cases x)
          case (Re_match cap)
          with x c have "y = x" "\<forall>c. y = Re_match c \<longrightarrow> r_capture rf = c" by auto
          with re_end_skip(1) [OF vf, of s rf] Re_match show ?thesis
            by (intro disjI1 exI [of _ "vf\<lparr>v_states := st\<rparr>"]) simp
        next
          case Re_fail
          with x False obtain p where p: "prev_chars s k (r_cptr r) = Some p"
            "match_runs ra s (Down k (n - 1) (r\<lparr>r_cptr := p\<rparr>)) y" by auto
          define r' where "r' = restore_stack (saved s r RE_EXEC_STATE_GREEDY_QUANT pc n)
            (restore_capture (saved s r RE_EXEC_STATE_GREEDY_QUANT pc n) rf)\<lparr>r_pc := r_pc r, r_cptr := p\<rparr>"
          define st' where "st' = (if n - 1 = 0 then st
            else saved s r RE_EXEC_STATE_GREEDY_QUANT pc n\<lparr>rs_cptr := p, rs_count := n - 1\<rparr> # st)"
          have e: "re_end s False False rf vf = Some (Continue (Run False r') (vf\<lparr>v_states := st'\<rparr>))"
            using vf pc p(1) by (simp add: re_end_def resume_greedy_def r'_def st'_def Let_def)
          have "agree r' (r\<lparr>r_cptr := p\<rparr>)"
            using pop_saved(3) [OF gr rf, where ty = RE_EXEC_STATE_GREEDY_QUANT and pc = pc and count = n and p = "r_pc r" and c = p] by (simp add: r'_def)
          moreover have "down_states s k (n - 1) (r\<lparr>r_cptr := p\<rparr>) st (v_states (vf\<lparr>v_states := st'\<rparr>))"
            using pc by (auto simp: down_states_def st'_def saved_def)
          ultimately have "runs ra s r' (vf\<lparr>v_states := st'\<rparr>) y st"
            using p(2) gr unfolding match_runs_def by simp
          with e Re_fail show ?thesis by auto
        qed
      qed
    qed
  qed
  then show ?thesis by (simp add: match_runs_def)
qed

text \<open>One step of the executor from registers that agree.\<close>

lemma exec_agree:
  assumes "agree rv r" "exec_op s r = Some a"
  obtains a' where "exec_op s rv = Some a'" "act_agree a' a"
  using exec_op_agree [OF assms(1), of s] assms(2) by (cases "exec_op s rv") auto

lemma save_runs:
  assumes a: "exec_op s r = Some (Save ty pc r')" and ag: "agree rv r" and gr: "good s r"
    and inner: "match_runs ra s (Goal r') x" and ty: "ty \<noteq> RE_EXEC_STATE_GREEDY_QUANT"
    and rest: "\<And>rv1 v1. runs ra s rv1 v1 x (saved s r' ty pc 0 # v_states v) \<Longrightarrow> runs ra s rv1 v1 y (v_states v)"
  shows "runs ra s rv v y (v_states v)"
proof -
  obtain a1 where a1: "exec_op s rv = Some a1" "act_agree a1 (Save ty pc r')" by (rule exec_agree [OF ag a])
  then obtain r2 where a': "exec_op s rv = Some (Save ty pc r2)" "agree r2 r'"
    by (cases a1) (auto simp: act_agree_def)
  have gr': "good s r'" using exec_op_good [OF a gr] by simp
  from re_push_saves [OF a'(2) gr', of ra ty pc 0 v] show ?thesis
  proof (elim disjE exE conjE)
    fix v' m n assume "re_push ra s False ty pc 0 r2 v = Some (Stop (Ret (- 1)) r2 v')" "\<not> snd (ra m n)"
    then show ?thesis using a' by (auto simp: runs_def exec_run re_step_def)
  next
    fix v' assume p: "re_push ra s False ty pc 0 r2 v = Some (Continue (Run False r2) v')"
      "v_states v' = saved s r' ty pc 0 # v_states v"
    have "runs ra s r2 v' x (v_states v')" using inner a'(2) gr' by (simp add: match_runs_def)
    then have "runs ra s r2 v' y (v_states v)" unfolding p(2) by (rule rest)
    moreover have "lre_exec_backtrack ra s (Run False rv) v = lre_exec_backtrack ra s (Run False r2) v'"
      using a' p(1) by (simp add: exec_run [of _ _ _ rv] re_step_def)
    ultimately show ?thesis by (rule runs_same [rotated])
  qed
qed

lemma goal_runsI:
  assumes "\<And>rv v. agree rv r \<Longrightarrow> good s r \<Longrightarrow> runs ra s rv v x (v_states v)"
  shows "match_runs ra s (Goal r) x"
  using assms by (simp add: match_runs_def)

lemma goalD: "match_runs ra s (Goal r) x \<Longrightarrow> agree rv r \<Longrightarrow> good s r \<Longrightarrow> runs ra s rv v x (v_states v)"
  by (simp add: match_runs_def)

lemma split_runs:
  assumes a: "exec_op s r = Some (Save RE_EXEC_STATE_SPLIT pc r')" and x: "match_runs ra s (Goal r') x"
    and y: "case x of Re_match c \<Rightarrow> y = x | Re_fail \<Rightarrow> match_runs ra s (Goal (r'\<lparr>r_pc := pc\<rparr>)) y"
  shows "match_runs ra s (Goal r) y"
proof (rule goal_runsI, rule save_runs [OF a _ _ x])
  fix rv rv1 :: re_regs and v v1 :: "'a re_vm"
  assume ag: "agree rv r" and gr: "good s r"
    and run: "runs ra s rv1 v1 x (saved s r' RE_EXEC_STATE_SPLIT pc 0 # v_states v)"
  have gr': "good s r'" using exec_op_good [OF a gr] by simp
  show "runs ra s rv1 v1 y (v_states v)"
  proof (rule runs_popped [OF run])
    fix rf and vf :: "'a re_vm"
    assume vf: "v_states vf = saved s r' RE_EXEC_STATE_SPLIT pc 0 # v_states v" and rf: "lens s rf"
      and c: "\<And>c. x = Re_match c \<Longrightarrow> r_capture rf = c"
    show "(\<exists>vf'. re_end s False (x \<noteq> Re_fail) rf vf = re_end s False (y \<noteq> Re_fail) rf vf' \<and> v_states vf' = v_states v \<and>
            (\<forall>c. y = Re_match c \<longrightarrow> r_capture rf = c)) \<or>
          (\<exists>r' v'. re_end s False (x \<noteq> Re_fail) rf vf = Some (Continue (Run False r') v') \<and> runs ra s r' v' y (v_states v))"
    proof (cases x)
      case (Re_match cap)
      with y c have "y = x" "\<forall>c. y = Re_match c \<longrightarrow> r_capture rf = c" by auto
      with re_end_skip(1) [OF vf, of s rf] Re_match show ?thesis
        by (intro disjI1 exI [of _ "vf\<lparr>v_states := v_states v\<rparr>"]) simp
    next
      case Re_fail
      let ?v = "vf\<lparr>v_states := v_states v\<rparr>"
      have "runs ra s (pop_state (saved s r' RE_EXEC_STATE_SPLIT pc 0) rf) ?v y (v_states ?v)"
        using y Re_fail gr' by (intro goalD [OF _ pop_saved(1) [OF gr' rf]]) simp_all
      with re_end_pop(1) [OF vf, of s rf] Re_fail show ?thesis by auto
    qed
  qed
qed simp_all

lemma lookahead_runs:
  assumes a: "exec_op s r = Some (Save RE_EXEC_STATE_LOOKAHEAD pc r')" and x: "match_runs ra s (Goal r') x"
    and y: "case x of Re_match c \<Rightarrow> match_runs ra s (Goal (r'\<lparr>r_pc := pc, r_capture := c\<rparr>)) y | Re_fail \<Rightarrow> y = Re_fail"
  shows "match_runs ra s (Goal r) y"
proof (rule goal_runsI, rule save_runs [OF a _ _ x])
  fix rv rv1 :: re_regs and v v1 :: "'a re_vm"
  assume ag: "agree rv r" and gr: "good s r"
    and run: "runs ra s rv1 v1 x (saved s r' RE_EXEC_STATE_LOOKAHEAD pc 0 # v_states v)"
  have gr': "good s r'" using exec_op_good [OF a gr] by simp
  show "runs ra s rv1 v1 y (v_states v)"
  proof (rule runs_popped [OF run])
    fix rf and vf :: "'a re_vm"
    assume vf: "v_states vf = saved s r' RE_EXEC_STATE_LOOKAHEAD pc 0 # v_states v" and rf: "lens s rf"
      and c: "\<And>c. x = Re_match c \<Longrightarrow> r_capture rf = c"
    show "(\<exists>vf'. re_end s False (x \<noteq> Re_fail) rf vf = re_end s False (y \<noteq> Re_fail) rf vf' \<and> v_states vf' = v_states v \<and>
            (\<forall>c. y = Re_match c \<longrightarrow> r_capture rf = c)) \<or>
          (\<exists>r' v'. re_end s False (x \<noteq> Re_fail) rf vf = Some (Continue (Run False r') v') \<and> runs ra s r' v' y (v_states v))"
    proof (cases x)
      case (Re_match cap)
      let ?v = "vf\<lparr>v_states := v_states v\<rparr>"
      have "r_capture rf = cap" using c Re_match by simp
      moreover have "length (r_capture rf) = length (r_capture r')" using rf gr' by (simp add: lens_def good_def)
      ultimately have "runs ra s (pop_state1 (saved s r' RE_EXEC_STATE_LOOKAHEAD pc 0) rf) ?v y (v_states ?v)"
        using y Re_match gr' by (intro goalD [OF _ pop_saved(2) [OF gr' rf]]) (simp_all add: good_def)
      with re_end_pop(2) [OF vf, of s rf] Re_match show ?thesis by auto
    next
      case Re_fail
      with y re_end_skip(2) [OF vf, of s rf] show ?thesis
        by (intro disjI1 exI [of _ "vf\<lparr>v_states := v_states v\<rparr>"]) simp
    qed
  qed
qed simp_all

lemma negative_lookahead_runs:
  assumes a: "exec_op s r = Some (Save RE_EXEC_STATE_NEGATIVE_LOOKAHEAD pc r')" and x: "match_runs ra s (Goal r') x"
    and y: "case x of Re_match c \<Rightarrow> y = Re_fail | Re_fail \<Rightarrow> match_runs ra s (Goal (r'\<lparr>r_pc := pc\<rparr>)) y"
  shows "match_runs ra s (Goal r) y"
proof (rule goal_runsI, rule save_runs [OF a _ _ x])
  fix rv rv1 :: re_regs and v v1 :: "'a re_vm"
  assume ag: "agree rv r" and gr: "good s r"
    and run: "runs ra s rv1 v1 x (saved s r' RE_EXEC_STATE_NEGATIVE_LOOKAHEAD pc 0 # v_states v)"
  have gr': "good s r'" using exec_op_good [OF a gr] by simp
  show "runs ra s rv1 v1 y (v_states v)"
  proof (rule runs_popped [OF run])
    fix rf and vf :: "'a re_vm"
    assume vf: "v_states vf = saved s r' RE_EXEC_STATE_NEGATIVE_LOOKAHEAD pc 0 # v_states v" and rf: "lens s rf"
    show "(\<exists>vf'. re_end s False (x \<noteq> Re_fail) rf vf = re_end s False (y \<noteq> Re_fail) rf vf' \<and> v_states vf' = v_states v \<and>
            (\<forall>c. y = Re_match c \<longrightarrow> r_capture rf = c)) \<or>
          (\<exists>r' v'. re_end s False (x \<noteq> Re_fail) rf vf = Some (Continue (Run False r') v') \<and> runs ra s r' v' y (v_states v))"
    proof (cases x)
      case (Re_match cap)
      with y re_end_skip(3) [OF vf, of s rf] show ?thesis
        by (intro disjI1 exI [of _ "vf\<lparr>v_states := v_states v\<rparr>"]) simp
    next
      case Re_fail
      let ?v = "vf\<lparr>v_states := v_states v\<rparr>"
      have "runs ra s (pop_state (saved s r' RE_EXEC_STATE_NEGATIVE_LOOKAHEAD pc 0) rf) ?v y (v_states ?v)"
        using y Re_fail gr' by (intro goalD [OF _ pop_saved(1) [OF gr' rf]]) simp_all
      with re_end_pop(1) [OF vf, of s rf] Re_fail show ?thesis by auto
    qed
  qed
qed simp_all

lemma exec_op_quant:
  assumes "exec_op s r = Some (Quant pc1 mn mx r')"
  obtains nx where "code_u32 s (pc1 - 16) = Some nx" "pc_plus s (pc1 - 16 + 16) nx = Some (r_pc r')"
proof -
  from assms obtain op where op: "exec_opcode s op (r\<lparr>r_pc := r_pc r + 1\<rparr>) = Some (Quant pc1 mn mx r')"
    by (auto simp: exec_op_def bind_eq_Some_iff)
  then show ?thesis
    by (cases op) (auto simp: exec_opcode_def op_defs Let_def bind_eq_Some_iff intro: that split: if_splits option.splits)
qed

lemma quant_runs:
  assumes a: "exec_op s r = Some (Quant pc1 mn mx r')" and rep: "re_repeat s pc1 mx 0 r' = Some (q, p)"
    and y: "if q < ucast mn then y = Re_fail
      else \<exists>cc. code_u32 s (pc1 - 16 + 12) = Some cc \<and> match_runs ra s (Down (unat cc) (q - ucast mn) (r'\<lparr>r_cptr := p\<rparr>)) y"
  shows "match_runs ra s (Goal r) y"
proof (rule goal_runsI)
  fix rv :: re_regs and v :: "'a re_vm"
  assume ag: "agree rv r" and gr: "good s r"
  have gr': "good s r'" using exec_op_good [OF a gr] by simp
  obtain a1 where a1: "exec_op s rv = Some a1" "act_agree a1 (Quant pc1 mn mx r')" by (rule exec_agree [OF ag a])
  then obtain r2 where a': "exec_op s rv = Some (Quant pc1 mn mx r2)" "agree r2 r'"
    by (cases a1) (auto simp: act_agree_def)
  from repeat_runs [OF rep a'(2), of ra mn v] obtain rv' where rv':
    "lre_exec_backtrack ra s (Iterate False pc1 mn mx 0 r2) v = continue_with ra s (quant_end ra s False pc1 mn q rv' v)"
    "agree rv' (r'\<lparr>r_cptr := p\<rparr>)" by auto
  then have e: "lre_exec_backtrack ra s (Run False rv) v = continue_with ra s (quant_end ra s False pc1 mn q rv' v)"
    using a' by (simp add: exec_run re_step_def)
  have gp: "good s (r'\<lparr>r_cptr := p\<rparr>)" using gr' by simp
  show "runs ra s rv v y (v_states v)"
  proof (cases "q < ucast mn")
    case True
    with y e good_lens [OF good_agree [OF rv'(2) gp]] show ?thesis
      unfolding runs_def by (intro disjI2 exI [of _ rv'] exI [of _ v]) (simp add: quant_end_def)
  next
    case False
    with y obtain cc where cc: "code_u32 s (pc1 - 16 + 12) = Some cc"
      "match_runs ra s (Down (unat cc) (q - ucast mn) (r'\<lparr>r_cptr := p\<rparr>)) y" by auto
    have dn: "runs ra s rv' v' y st" if "down_states s (unat cc) (q - ucast mn) (r'\<lparr>r_cptr := p\<rparr>) st (v_states v')" for v' st
      using cc(2) rv'(2) gp that by (simp add: match_runs_def)
    show ?thesis
    proof (cases "q = ucast mn")
      case True
      with e have "lre_exec_backtrack ra s (Run False rv) v = lre_exec_backtrack ra s (Run False rv') v"
        by (simp add: quant_end_def)
      moreover have "runs ra s rv' v y (v_states v)" by (rule dn) (simp add: down_states_def True)
      ultimately show ?thesis by (rule runs_same)
    next
      case neq: False
      from re_push_saves [OF rv'(2) gp, of ra RE_EXEC_STATE_GREEDY_QUANT "pc1 - 16" "q - ucast mn" v] show ?thesis
      proof (elim disjE exE conjE)
        fix v' m n assume "re_push ra s False RE_EXEC_STATE_GREEDY_QUANT (pc1 - 16) (q - ucast mn) rv' v = Some (Stop (Ret (- 1)) rv' v')"
          "\<not> snd (ra m n)"
        with e False neq show ?thesis by (auto simp: runs_def quant_end_def)
      next
        fix v' assume v': "re_push ra s False RE_EXEC_STATE_GREEDY_QUANT (pc1 - 16) (q - ucast mn) rv' v = Some (Continue (Run False rv') v')"
          "v_states v' = saved s (r'\<lparr>r_cptr := p\<rparr>) RE_EXEC_STATE_GREEDY_QUANT (pc1 - 16) (q - ucast mn) # v_states v"
        obtain nx where "code_u32 s (pc1 - 16) = Some nx" "pc_plus s (pc1 - 16 + 16) nx = Some (r_pc r')"
          using a by (cases rule: exec_op_quant)
        then have "runs ra s rv' v' y (v_states v)"
          using v'(2) cc(1) neq by (intro dn) (auto simp: down_states_def)
        moreover have "lre_exec_backtrack ra s (Run False rv) v = lre_exec_backtrack ra s (Run False rv') v'"
          using e v'(1) False neq by (simp add: quant_end_def)
        ultimately show ?thesis by (rule runs_same [rotated])
      qed
    qed
  qed
qed

lemma next_runs:
  assumes a: "exec_op s r = Some (Next r1)" and x: "match_runs ra s (Goal r1) y" and ag: "agree rv r" and gr: "good s r"
  shows "runs ra s rv v y (v_states v)"
proof -
  have gr': "good s r1" using exec_op_good [OF a gr] by simp
  obtain a1 where a1: "exec_op s rv = Some a1" "act_agree a1 (Next r1)" by (rule exec_agree [OF ag a])
  then obtain r2 where a': "exec_op s rv = Some (Next r2)" "agree r2 r1"
    by (cases a1) (auto simp: act_agree_def)
  have "lre_exec_backtrack ra s (Run False rv) v = lre_exec_backtrack ra s (Run False r2) v"
    using a'(1) by (simp add: exec_run [of _ _ _ rv] re_step_def)
  from this goalD [OF x a'(2) gr'] show ?thesis by (rule runs_same)
qed

lemma end_runs:
  assumes ag: "agree rv r" and gr: "good s r"
  shows "exec_op s r = Some No_match \<Longrightarrow> runs ra s rv v Re_fail (v_states v)"
    "exec_op s r = Some (Matched r1) \<Longrightarrow> runs ra s rv v (Re_match (r_capture r1)) (v_states v)"
proof -
  have l: "lens s rv" using good_lens [OF good_agree [OF ag gr]] .
  show "runs ra s rv v Re_fail (v_states v)" if n: "exec_op s r = Some No_match"
  proof -
    obtain a1 where a1: "exec_op s rv = Some a1" "act_agree a1 No_match" by (rule exec_agree [OF ag n])
    then have "exec_op s rv = Some No_match" by (cases a1) (auto simp: act_agree_def)
    with l show ?thesis unfolding runs_def by (intro disjI2 exI [of _ rv] exI [of _ v]) (simp add: exec_run re_step_def)
  qed
  show "runs ra s rv v (Re_match (r_capture r1)) (v_states v)" if m: "exec_op s r = Some (Matched r1)"
  proof -
    obtain a1 where a1: "exec_op s rv = Some a1" "act_agree a1 (Matched r1)" by (rule exec_agree [OF ag m])
    then obtain r2 where a': "exec_op s rv = Some (Matched r2)" "agree r2 r1"
      by (cases a1) (auto simp: act_agree_def)
    have "good s r1" using exec_op_good [OF m gr] by simp
    from good_lens [OF good_agree [OF a'(2) this]] a' show ?thesis
      unfolding runs_def by (intro disjI2 exI [of _ r2] exI [of _ v]) (simp add: exec_run re_step_def agree_def)
  qed
qed

lemma match_runs_match:
  assumes "re_match s g = Some y"
  shows "match_runs ra s g y"
  using assms
proof (induction s g y rule: re_match.raw_induct [rotated, consumes 1])
  case (1 f s g y)
  note IH = 1(1) and eq = 1(2)
  show ?case
  proof (cases g)
    case (Down k n r)
    with eq obtain x where x: "f s (Goal r) = Some x" by (auto simp: bind_eq_Some_iff)
    show ?thesis
      unfolding Down
      by (rule down_runs [OF IH [OF x]])
        (use eq x Down IH in \<open>auto simp: bind_eq_Some_iff split: re_result.splits if_splits\<close>)
  next
    case (Goal r)
    with eq obtain a where a: "exec_op s r = Some a" by (auto simp: bind_eq_Some_iff)
    show ?thesis
      unfolding Goal
    proof (cases a)
      case (Next r1)
      have "f s (Goal r1) = Some y" using eq a Goal Next by simp
      from IH [OF this] show "match_runs ra s (Goal r) y" by (rule goal_runsI [OF next_runs [OF a [unfolded Next]]])
    next
      case No_match
      then show "match_runs ra s (Goal r) y" using eq a Goal by (intro goal_runsI) (auto intro!: end_runs)
    next
      case (Matched r1)
      then show "match_runs ra s (Goal r) y" using eq a Goal by (intro goal_runsI) (auto intro!: end_runs)
    next
      case (Save ty pc r1)
      then obtain x where x: "f s (Goal r1) = Some x" using eq a Goal by (auto simp: bind_eq_Some_iff)
      show "match_runs ra s (Goal r) y"
      proof (cases ty)
        case RE_EXEC_STATE_SPLIT
        show ?thesis
          by (rule split_runs [OF a [unfolded Save RE_EXEC_STATE_SPLIT] IH [OF x]])
            (use eq x Save RE_EXEC_STATE_SPLIT a Goal IH in \<open>auto split: re_result.splits\<close>)
      next
        case RE_EXEC_STATE_LOOKAHEAD
        show ?thesis
          by (rule lookahead_runs [OF a [unfolded Save RE_EXEC_STATE_LOOKAHEAD] IH [OF x]])
            (use eq x Save RE_EXEC_STATE_LOOKAHEAD a Goal IH in \<open>auto split: re_result.splits\<close>)
      next
        case RE_EXEC_STATE_NEGATIVE_LOOKAHEAD
        show ?thesis
          by (rule negative_lookahead_runs [OF a [unfolded Save RE_EXEC_STATE_NEGATIVE_LOOKAHEAD] IH [OF x]])
            (use eq x Save RE_EXEC_STATE_NEGATIVE_LOOKAHEAD a Goal IH in \<open>auto split: re_result.splits\<close>)
      qed (use eq x Save a Goal in auto)
    next
      case (Quant pc1 mn mx r1)
      then obtain q p where rep: "re_repeat s pc1 mx 0 r1 = Some (q, p)" using eq a Goal by (auto simp: bind_eq_Some_iff)
      show "match_runs ra s (Goal r) y"
        by (rule quant_runs [OF a [unfolded Quant] rep])
          (use eq rep Quant a Goal IH in \<open>auto simp: bind_eq_Some_iff\<close>)
    qed
  qed
qed

text \<open>The match of a whole regular expression, from the start of its code.\<close>

definition lre_match :: "u64 list \<Rightarrow> u64 \<Rightarrow> bytes \<Rightarrow> bytes \<Rightarrow> nat \<Rightarrow> nat \<Rightarrow> nat \<Rightarrow> re_result option" where
  "lre_match junk addr bc buf cindex clen type = do {
     re_flags \<leftarrow> rd bc 0;
     cc \<leftarrow> rd bc 1;
     sz \<leftarrow> rd bc 2;
     re_match (exec_context bc buf addr clen type re_flags cc sz)
       (Goal \<lparr>r_pc = RE_HEADER_LEN, r_cptr = cindex * 2 ^ type, r_capture = replicate (2 * unat cc) None,
              r_stack = take (unat sz) junk, r_stack_len = 0\<rparr>) }"

text \<open>
  C40. The executor of regular expressions, which keeps one array of captures, a stack and a growing
  stack of saved states, computes the match of the recursive matcher: it returns 1 with its captures, or
  0 when there is none; it returns -1 only when memory for the saved states could not be allocated.
\<close>

theorem lre_exec_matches:
  assumes "lre_match junk addr bc buf cindex clen type = Some x"
    and "rd bc 1 = Some cc" "rd bc 2 = Some sz" "length capture = 2 * unat cc" "length junk = unat sz"
  shows "\<exists>ret cap m'. lre_exec ra m junk addr capture bc buf cindex clen type = Some (Some (ret, cap, m')) \<and>
    (ret = - 1 \<and> (\<exists>m n. \<not> snd (ra m n)) \<or> (case x of Re_match c \<Rightarrow> ret = 1 \<and> cap = c | Re_fail \<Rightarrow> ret = 0))"
proof -
  from assms obtain fl where fl: "rd bc 0 = Some fl" by (auto simp: lre_match_def bind_eq_Some_iff)
  define s where "s = exec_context bc buf addr clen type fl cc sz"
  define r where "r = \<lparr>r_pc = RE_HEADER_LEN, r_cptr = cindex * 2 ^ type, r_capture = replicate (2 * unat cc) None,
    r_stack = take (unat sz) junk, r_stack_len = 0\<rparr>"
  have mr: "match_runs ra s (Goal r) x"
    using assms fl by (intro match_runs_match) (simp add: lre_match_def s_def r_def)
  have g: "good s r" using assms unat_u8_bound [of sz] by (simp add: good_def s_def r_def exec_context_def)
  have exe: "lre_exec ra m junk addr capture bc buf cindex clen type =
      do { y \<leftarrow> lre_exec_backtrack ra s (Run False r) \<lparr>v_states = [], v_size = 0, v_mem = m\<rparr>;
           Some (case y of Some (Ret ret, r, v) \<Rightarrow> Some (ret, r_capture r, fst (ra (v_mem v) 0)) | _ \<Rightarrow> None) }"
    using assms fl by (simp add: lre_exec_def s_def r_def)
  have "agree r r" by (simp add: agree_def)
  from goalD [OF mr this g, of "\<lparr>v_states = [], v_size = 0, v_mem = m\<rparr>"] show ?thesis
    unfolding runs_def exe by (cases x) (auto simp: re_end_def, blast+)
qed

declare re_body.simps [code] re_repeat.simps [code] re_match.simps [code]

lemma demo_match: "lre_match [] 0 demo_code [97, 97] 0 2 0 = Some (Re_match [Some 0, Some 2])"
  by code_simp

lemma lre_exec_matches_witness:
  "\<exists>m'. lre_exec (\<lambda>m n. (m + 1 :: nat, True)) 0 [] 0 [None, None] demo_code [97, 97] 0 2 0 =
     Some (Some (1, [Some 0, Some 2], m'))"
  using lre_exec_matches [OF demo_match, of 1 0 "[None, None]" "\<lambda>m n. (m + 1 :: nat, True)" 0]
  by (simp add: demo_code_def rd_def)

end
