(* ===== verification/Regexp_Safe.thy ===== *)
theory Regexp_Safe
  imports Regexp
begin

text \<open>
  Memory safety of the executor of regular expressions: a checker of bytecode (every operand inside the
  code, every jump to an instruction that expects the same stack, captures and stack in range, bodies of simple
  quantifiers as the compiler emits them), and the proof that the executor never leaves the bytecode, the
  subject, the captures or the stack when it runs code that passes.
\<close>

section \<open>The checker\<close>

definition instr_len :: "bytes \<Rightarrow> nat option" where
  "instr_len b = do {
     opcode \<leftarrow> rd b 0;
     op \<leftarrow> reop_of opcode;
     let len = snd (reopcode_info ! unat opcode);
     case op of
       REOP_range \<Rightarrow> do { n \<leftarrow> get_u16 (drop 1 b); Some (len + unat n * 4) }
     | REOP_range32 \<Rightarrow> do { n \<leftarrow> get_u16 (drop 1 b); Some (len + unat n * 8) }
     | _ \<Rightarrow> Some len }"

definition is_char_op :: "REOPCodeEnum \<Rightarrow> bool" where
  "is_char_op op \<longleftrightarrow> op \<in> {REOP_char, REOP_char32, REOP_dot, REOP_any, REOP_range, REOP_range32}"

definition is_test_op :: "REOPCodeEnum \<Rightarrow> bool" where
  "is_test_op op \<longleftrightarrow> op \<in> {REOP_line_start, REOP_line_end, REOP_word_boundary, REOP_not_word_boundary}"

lemma instr_len_pos: "instr_len b = Some n \<Longrightarrow> 0 < n"
proof -
  assume "instr_len b = Some n"
  then obtain c m where "rd b 0 = Some c" "unat c < REOP_COUNT" "n = snd (reopcode_info ! unat c) + m"
    by (auto simp: instr_len_def bind_eq_Some_iff reop_of_def Let_def split: if_splits REOPCodeEnum.splits)
  moreover have "\<forall>i < REOP_COUNT. 0 < snd (reopcode_info ! i)" by code_simp
  ultimately show ?thesis by simp
qed

text \<open>The number of characters that the body of a simple quantifier matches.\<close>

function simple_chars :: "bytes \<Rightarrow> nat option" where
  "simple_chars b =
     (if b = [] then Some 0
      else case (Option.bind (rd b 0) reop_of, instr_len b) of
        (Some op, Some len) \<Rightarrow>
          if length b < len then None
          else if is_char_op op then map_option Suc (simple_chars (drop len b))
          else if is_test_op op then simple_chars (drop len b) else None
      | _ \<Rightarrow> None)"
  by auto
termination
  by (relation "measure length") (auto dest!: instr_len_pos [OF sym])

declare simple_chars.simps [simp del]

definition jumps_to :: "(nat \<Rightarrow> nat option) \<Rightarrow> bytes \<Rightarrow> nat \<Rightarrow> nat \<Rightarrow> bool" where
  "jumps_to L b pos d =
     (case get_u32 (drop 1 b) of None \<Rightarrow> False
      | Some v \<Rightarrow> 0 \<le> int (pos + 5) + sint v \<and> L (nat (int (pos + 5) + sint v)) = Some d)"

definition quant_ok :: "(nat \<Rightarrow> nat option) \<Rightarrow> bytes \<Rightarrow> nat \<Rightarrow> nat \<Rightarrow> bool" where
  "quant_ok L b pos d =
     (case (get_u32 (drop 1 b), get_u32 (drop 13 b)) of
        (Some next, Some cc) \<Rightarrow>
          0 < sint next \<and> L (pos + 17) = Some d \<and> L (pos + 17 + nat (sint next)) = Some d \<and>
          rd b (16 + nat (sint next)) = Some 10 \<and>
          simple_chars (take (nat (sint next) - 1) (drop 17 b)) = Some (unat cc)
      | _ \<Rightarrow> False)"

text \<open>One instruction, the bytes b from its place pos on, that runs with d entries on the stack.\<close>

definition op_ok :: "nat \<Rightarrow> nat \<Rightarrow> (nat \<Rightarrow> nat option) \<Rightarrow> bytes \<Rightarrow> nat \<Rightarrow> nat \<Rightarrow> nat \<Rightarrow> REOPCodeEnum \<Rightarrow> bool" where
  "op_ok cc sz L b pos d len op =
     (case op of
        REOP_invalid \<Rightarrow> False
      | REOP_match \<Rightarrow> True
      | REOP_goto \<Rightarrow> jumps_to L b pos d
      | REOP_split_goto_first \<Rightarrow> jumps_to L b pos d \<and> L (pos + len) = Some d
      | REOP_split_next_first \<Rightarrow> jumps_to L b pos d \<and> L (pos + len) = Some d
      | REOP_lookahead \<Rightarrow> jumps_to L b pos d \<and> L (pos + len) = Some d
      | REOP_negative_lookahead \<Rightarrow> jumps_to L b pos d \<and> L (pos + len) = Some d
      | REOP_loop \<Rightarrow> 0 < d \<and> jumps_to L b pos d \<and> L (pos + len) = Some d
      | REOP_bne_char_pos \<Rightarrow> 0 < d \<and> jumps_to L b pos (d - 1) \<and> L (pos + len) = Some (d - 1)
      | REOP_push_i32 \<Rightarrow> d < sz \<and> L (pos + len) = Some (d + 1)
      | REOP_push_char_pos \<Rightarrow> d < sz \<and> L (pos + len) = Some (d + 1)
      | REOP_drop \<Rightarrow> 0 < d \<and> L (pos + len) = Some (d - 1)
      | REOP_save_start \<Rightarrow> (case rd b 1 of None \<Rightarrow> False | Some v \<Rightarrow> unat v < cc) \<and> L (pos + len) = Some d
      | REOP_save_end \<Rightarrow> (case rd b 1 of None \<Rightarrow> False | Some v \<Rightarrow> unat v < cc) \<and> L (pos + len) = Some d
      | REOP_save_reset \<Rightarrow> (case rd b 2 of None \<Rightarrow> False | Some v \<Rightarrow> unat v < cc) \<and> L (pos + len) = Some d
      | REOP_range \<Rightarrow> get_u16 (drop 1 b) \<noteq> Some 0 \<and> L (pos + len) = Some d
      | REOP_range32 \<Rightarrow> get_u16 (drop 1 b) \<noteq> Some 0 \<and> L (pos + len) = Some d
      | REOP_simple_greedy_quant \<Rightarrow> quant_ok L b pos d
      | _ \<Rightarrow> L (pos + len) = Some d)"

definition instr_ok :: "nat \<Rightarrow> nat \<Rightarrow> (nat \<Rightarrow> nat option) \<Rightarrow> bytes \<Rightarrow> nat \<Rightarrow> nat \<Rightarrow> bool" where
  "instr_ok cc sz L b pos d =
     (case (Option.bind (rd b 0) reop_of, instr_len b) of
        (Some op, Some len) \<Rightarrow> len \<le> length b \<and> d \<le> sz \<and> op_ok cc sz L b pos d len op
      | _ \<Rightarrow> False)"

text \<open>The places of the instructions with the depth of the stack there; the control flow is nested, so that it is linear.\<close>

function code_layout :: "bytes \<Rightarrow> nat \<Rightarrow> nat \<Rightarrow> (nat \<times> nat) list option" where
  "code_layout b pos d =
     (if b = [] then Some []
      else case (Option.bind (rd b 0) reop_of, instr_len b) of
        (Some op, Some len) \<Rightarrow>
          map_option ((#) (pos, d))
            (code_layout (drop len b) (pos + len)
               (if op = REOP_push_i32 \<or> op = REOP_push_char_pos then d + 1
                else if op = REOP_drop \<or> op = REOP_bne_char_pos then d - 1 else d))
      | _ \<Rightarrow> None)"
  by auto
termination
  by (relation "measure (length \<circ> fst)") (auto dest!: instr_len_pos [OF sym])

declare code_layout.simps [simp del]

definition code_typed :: "bytes \<Rightarrow> nat \<Rightarrow> nat \<Rightarrow> (nat \<Rightarrow> nat option) \<Rightarrow> bool" where
  "code_typed bc cc sz L \<longleftrightarrow>
     L RE_HEADER_LEN = Some 0 \<and> (\<forall>pos d. L pos = Some d \<longrightarrow> instr_ok cc sz L (drop pos bc) pos d)"

definition re_code_ok :: "bytes \<Rightarrow> bool" where
  "re_code_ok bc =
     (case (rd bc 0, rd bc 1, rd bc 2, get_u32 (drop 3 bc)) of
        (Some _, Some cc, Some sz, Some n) \<Rightarrow>
          (case code_layout (take (unat n) (drop RE_HEADER_LEN bc)) RE_HEADER_LEN 0 of
             None \<Rightarrow> False
           | Some l \<Rightarrow> l \<noteq> [] \<and> (\<forall>(pos, d) \<in> set l. instr_ok (unat cc) (unat sz) (map_of l) (drop pos bc) pos d))
      | _ \<Rightarrow> False)"

lemma re_code_typed:
  assumes "re_code_ok bc"
  obtains fl cc sz L where "rd bc 0 = Some fl" "rd bc 1 = Some cc" "rd bc 2 = Some sz" "code_typed bc (unat cc) (unat sz) L"
proof -
  from assms obtain fl cc sz n where h: "rd bc 0 = Some fl" "rd bc 1 = Some cc" "rd bc 2 = Some sz" "get_u32 (drop 3 bc) = Some n"
    unfolding re_code_ok_def by (cases "rd bc 0"; cases "rd bc 1"; cases "rd bc 2"; cases "get_u32 (drop 3 bc)") auto
  with assms obtain l where l: "code_layout (take (unat n) (drop RE_HEADER_LEN bc)) RE_HEADER_LEN 0 = Some l" "l \<noteq> []"
    and ok: "\<forall>(pos, d) \<in> set l. instr_ok (unat cc) (unat sz) (map_of l) (drop pos bc) pos d"
    unfolding re_code_ok_def by (cases "code_layout (take (unat n) (drop RE_HEADER_LEN bc)) RE_HEADER_LEN 0") auto
  have "map_of l RE_HEADER_LEN = Some 0"
    using l by (subst (asm) code_layout.simps) (auto split: if_splits option.splits)
  moreover have "instr_ok (unat cc) (unat sz) (map_of l) (drop pos bc) pos d" if "map_of l pos = Some d" for pos d
    using ok map_of_SomeD [OF that] by auto
  ultimately have "code_typed bc (unat cc) (unat sz) (map_of l)" by (simp add: code_typed_def)
  with h(1-3) show ?thesis by (rule that)
qed

section \<open>Characters stay in the subject\<close>

definition subject_ok :: "REExecContext \<Rightarrow> bool" where
  "subject_ok s \<longleftrightarrow> cbuf_end s \<le> length (cbuf s) \<and> (cbuf_type s \<noteq> 0 \<longrightarrow> even (cbuf_end s)) \<and> cbuf_end s < 2 ^ 63"

definition pos_ok :: "REExecContext \<Rightarrow> nat \<Rightarrow> bool" where
  "pos_ok s p \<longleftrightarrow> p \<le> cbuf_end s \<and> (cbuf_type s \<noteq> 0 \<longrightarrow> even p)"

lemma get_u16_some: "p + 2 \<le> length b \<Longrightarrow> \<exists>v. get_u16 (drop p b) = Some v"
  by (simp add: get_u16_def rd_bytes_def)

lemma get_u32_some: "p + 4 \<le> length b \<Longrightarrow> \<exists>v. get_u32 (drop p b) = Some v"
  by (simp add: get_u32_def rd_bytes_def)

lemma unit_at_some: "subject_ok s \<Longrightarrow> p + 2 \<le> cbuf_end s \<Longrightarrow> \<exists>v. unit_at (cbuf s) p = Some v"
  unfolding unit_at_def by (rule get_u16_some) (simp add: subject_ok_def)

lemma rd_some: "subject_ok s \<Longrightarrow> p < cbuf_end s \<Longrightarrow> rd (cbuf s) p = Some (cbuf s ! p)"
  by (simp add: subject_ok_def rd_def)

lemma even_less: "even p \<Longrightarrow> even e \<Longrightarrow> p < e \<Longrightarrow> p + 2 \<le> (e :: nat)"
  by (elim evenE) simp

lemma GET_CHAR_ok:
  assumes "subject_ok s" "pos_ok s p" "pos_ok s e" "p < e"
  obtains c p' where "GET_CHAR s p e = Some (c, p')" "pos_ok s p'" "p' \<le> e"
proof (cases "cbuf_type s = 0")
  case True
  then show ?thesis using assms rd_some [of s p] that [of "ucast (cbuf s ! p)" "p + 1"] by (auto simp: GET_CHAR_def pos_ok_def)
next
  case False
  then have ev: "even p" "even e" using assms by (auto simp: pos_ok_def)
  note p2 = even_less [OF ev assms(4)]
  from assms p2 obtain c where c: "unit_at (cbuf s) p = Some c" using unit_at_some [of s p] by (auto simp: pos_ok_def)
  show ?thesis
  proof (cases "c \<ge> 0xd800 \<and> c < 0xdc00 \<and> cbuf_type s = 2 \<and> p + 2 < e")
    case True
    then have p4: "p + 4 \<le> e" using even_less [of "p + 2" e] ev by simp
    with assms obtain c1 where "unit_at (cbuf s) (p + 2) = Some c1" using unit_at_some [of s "p + 2"] by (auto simp: pos_ok_def)
    with False True c p2 p4 ev assms(3) show ?thesis
      by (intro that [of "if c1 \<ge> 0xdc00 \<and> c1 < 0xe000 then surrogate_pair c c1 else c" "if c1 \<ge> 0xdc00 \<and> c1 < 0xe000 then p + 4 else p + 2"])
        (auto simp: GET_CHAR_def pos_ok_def)
  next
    case n: False
    with False c p2 ev assms(3) show ?thesis
      by (intro that [of c "p + 2"]) (auto simp: GET_CHAR_def pos_ok_def)
  qed
qed

lemma PEEK_CHAR_ok:
  assumes "subject_ok s" "pos_ok s p" "p < cbuf_end s"
  obtains c where "PEEK_CHAR s p (cbuf_end s) = Some c"
proof -
  have e: "pos_ok s (cbuf_end s)" using assms(1) by (simp add: pos_ok_def subject_ok_def)
  obtain c p' where "GET_CHAR s p (cbuf_end s) = Some (c, p')" by (rule GET_CHAR_ok [OF assms(1,2) e assms(3)])
  then have "PEEK_CHAR s p (cbuf_end s) = Some c"
    by (auto simp: GET_CHAR_def PEEK_CHAR_def bind_eq_Some_iff split: if_splits)
  then show ?thesis by (rule that)
qed

lemma GET_PREV_CHAR_ok:
  assumes "subject_ok s" "pos_ok s p" "pos_ok s b" "b < p"
  obtains c p' where "GET_PREV_CHAR s p b = Some (c, p')" "pos_ok s p'"
proof (cases "cbuf_type s = 0")
  case True
  then show ?thesis using assms rd_some [of s "p - 1"] that [of "ucast (cbuf s ! (p - 1))" "p - 1"]
    by (auto simp: GET_PREV_CHAR_def pos_ok_def)
next
  case False
  then have ev: "even p" "even b" using assms by (auto simp: pos_ok_def)
  note p2 = even_less [OF ev(2,1) assms(4)]
  have le: "p - 2 + 2 \<le> cbuf_end s" "4 \<le> p \<Longrightarrow> p - 4 + 2 \<le> cbuf_end s" using assms(2) p2 by (auto simp: pos_ok_def)
  obtain c where c: "unit_at (cbuf s) (p - 2) = Some c" using unit_at_some [OF assms(1) le(1)] by blast
  show ?thesis
  proof (cases "c \<ge> 0xdc00 \<and> c < 0xe000 \<and> cbuf_type s = 2 \<and> p - 2 > b")
    case True
    then have p4: "b + 4 \<le> p" using even_less [of b "p - 2"] ev p2 by simp
    then obtain c1 where "unit_at (cbuf s) (p - 4) = Some c1" using unit_at_some [OF assms(1) le(2)] by auto
    with False True c p2 p4 ev assms(2) show ?thesis
      by (intro that [of "if c1 \<ge> 0xd800 \<and> c1 < 0xdc00 then surrogate_pair c1 c else c" "if c1 \<ge> 0xd800 \<and> c1 < 0xdc00 then p - 4 else p - 2"])
        (auto simp: GET_PREV_CHAR_def pos_ok_def)
  next
    case n: False
    with False c p2 ev assms(2) show ?thesis
      by (intro that [of c "p - 2"]) (auto simp: GET_PREV_CHAR_def pos_ok_def)
  qed
qed

lemma PEEK_PREV_CHAR_ok:
  assumes "subject_ok s" "pos_ok s p" "0 < p"
  obtains c where "PEEK_PREV_CHAR s p 0 = Some c"
proof -
  have "pos_ok s 0" by (simp add: pos_ok_def)
  from assms(1,2) this assms(3) obtain c p' where "GET_PREV_CHAR s p 0 = Some (c, p')" by (rule GET_PREV_CHAR_ok)
  then have "PEEK_PREV_CHAR s p 0 = Some c"
    by (auto simp: GET_PREV_CHAR_def PEEK_PREV_CHAR_def bind_eq_Some_iff split: if_splits)
  then show ?thesis by (rule that)
qed

lemma PREV_CHAR_ok:
  assumes "subject_ok s" "pos_ok s p" "0 < p"
  obtains p' where "PREV_CHAR s p 0 = Some p'" "pos_ok s p'"
proof -
  have "pos_ok s 0" by (simp add: pos_ok_def)
  from assms(1,2) this assms(3) obtain c p' where g: "GET_PREV_CHAR s p 0 = Some (c, p')" "pos_ok s p'" by (rule GET_PREV_CHAR_ok)
  then have "PREV_CHAR s p 0 = Some p'"
    by (auto simp: GET_PREV_CHAR_def PREV_CHAR_def bind_eq_Some_iff split: if_splits)
  with g(2) show ?thesis by (rule that [rotated])
qed

lemma lre_canonicalize_total: "\<exists>c'. lre_canonicalize c utf16 = Some c'"
proof -
  obtain r where r: "lre_case_conv c (if utf16 then 2 else 0) = Some r" "r \<noteq> []"
    using lre_case_conv_ok [of c "if utf16 then 2 else 0"] by (metis list.size(3) not_one_le_zero)
  then show ?thesis by (cases utf16) (auto simp: lre_canonicalize_def)
qed

lemma canonical_total: "\<exists>c'. canonical s c = Some c'"
  by (auto simp: canonical_def lre_canonicalize_total)

section \<open>Going back over characters\<close>

text \<open>n characters from p on.\<close>

fun fwd_chars :: "REExecContext \<Rightarrow> nat \<Rightarrow> nat \<Rightarrow> nat option" where
  "fwd_chars s 0 p = Some p"
| "fwd_chars s (Suc n) p =
     (if p < cbuf_end s then do { (c, p') \<leftarrow> GET_CHAR s p (cbuf_end s); fwd_chars s n p' } else None)"

lemma fwd_chars_add: "fwd_chars s (m + n) p = do { q \<leftarrow> fwd_chars s m p; fwd_chars s n q }"
  by (induction m arbitrary: p) (auto split: option.splits prod.splits Option.bind_splits)

lemma fwd_chars_snoc:
  "fwd_chars s (Suc n) p = Some q \<longleftrightarrow>
     (\<exists>p1 c. fwd_chars s n p = Some p1 \<and> p1 < cbuf_end s \<and> GET_CHAR s p1 (cbuf_end s) = Some (c, q))"
  by (induction n arbitrary: p) (auto simp: bind_eq_Some_iff split: if_splits)

lemma fwd_chars_ok: "subject_ok s \<Longrightarrow> pos_ok s p \<Longrightarrow> fwd_chars s n p = Some q \<Longrightarrow> pos_ok s q \<and> p + n \<le> q"
proof (induction n arbitrary: p)
  case (Suc n)
  have e: "pos_ok s (cbuf_end s)" using Suc.prems(1) by (simp add: pos_ok_def subject_ok_def)
  from Suc.prems have l: "p < cbuf_end s" by (simp split: if_splits)
  obtain c p' where g: "GET_CHAR s p (cbuf_end s) = Some (c, p')" "pos_ok s p'"
    by (rule GET_CHAR_ok [OF Suc.prems(1,2) e l])
  with Suc.prems(3) l have "fwd_chars s n p' = Some q" by simp
  from Suc.IH [OF Suc.prems(1) g(2) this] GET_CHAR_advances [OF g(1)] show ?case by simp
qed simp

text \<open>
  PREV_CHAR undoes GET_CHAR, except in the middle of a surrogate pair: a low surrogate at p whose high
  surrogate is in front of p is one character going forward from p and part of the pair going backward.
\<close>

lemma PREV_of_GET:
  assumes "subject_ok s" "pos_ok s p" "GET_CHAR s p (cbuf_end s) = Some (c, q)"
  shows "PREV_CHAR s q 0 = Some p \<or>
    2 \<le> p \<and> PREV_CHAR s q 0 = Some (p - 2) \<and> cbuf_type s = 2 \<and> q = p + 2 \<and>
      (\<exists>lo hi. unit_at (cbuf s) p = Some lo \<and> lo \<ge> 0xdc00 \<and> lo < 0xe000 \<and>
        unit_at (cbuf s) (p - 2) = Some hi \<and> hi \<ge> 0xd800 \<and> hi < 0xdc00)"
proof (cases "cbuf_type s = 2")
  case False
  then show ?thesis using assms(3) by (auto simp: GET_CHAR_def PREV_CHAR_def bind_eq_Some_iff split: if_splits)
next
  case True
  have ev: "even p" using assms(2) True by (simp add: pos_ok_def)
  obtain u where u: "unit_at (cbuf s) p = Some u" using assms(3) True by (auto simp: GET_CHAR_def bind_eq_Some_iff)
  show ?thesis
  proof (cases "q = p + 4")
    case q4: True
    then obtain c1 where "unit_at (cbuf s) (p + 2) = Some c1" "c1 \<ge> 0xdc00" "c1 < 0xe000" "u \<ge> 0xd800" "u < 0xdc00"
      using assms(3) True u by (auto simp: GET_CHAR_def bind_eq_Some_iff split: if_splits)
    then show ?thesis using True u q4 by (simp add: PREV_CHAR_def)
  next
    case False
    then have q: "q = p + 2" using assms(3) True by (auto simp: GET_CHAR_def bind_eq_Some_iff split: if_splits)
    show ?thesis
    proof (cases "u \<ge> 0xdc00 \<and> u < 0xe000 \<and> 0 < p")
      case low: True
      then have p: "2 \<le> p" using even_less [of 0 p] ev by simp
      have "p - 2 + 2 \<le> cbuf_end s" using p assms(2) by (auto simp: pos_ok_def)
      then obtain hi where hi: "unit_at (cbuf s) (p - 2) = Some hi" using unit_at_some [OF assms(1)] by blast
      have pv: "PREV_CHAR s q 0 = Some (if hi \<ge> 0xd800 \<and> hi < 0xdc00 then p - 2 else p)"
        using True u q low p hi by (simp add: PREV_CHAR_def)
      then show ?thesis using True u q low p hi by (cases "hi \<ge> 0xd800 \<and> hi < 0xdc00") auto
    next
      case False
      then show ?thesis using True u q by (auto simp: PREV_CHAR_def)
    qed
  qed
qed

lemma GET_then_PREV:
  assumes "subject_ok s" "pos_ok s p0" "GET_CHAR s p0 (cbuf_end s) = Some (c0, p)" "GET_CHAR s p (cbuf_end s) = Some (c, q)"
    "p < cbuf_end s"
  shows "PREV_CHAR s q 0 = Some p"
proof (rule ccontr)
  assume n: "PREV_CHAR s q 0 \<noteq> Some p"
  have "p0 < cbuf_end s" using GET_CHAR_advances [OF assms(3)] assms(5) by simp
  moreover have e: "pos_ok s (cbuf_end s)" using assms(1) by (simp add: pos_ok_def subject_ok_def)
  ultimately have pk: "pos_ok s p" by (metis GET_CHAR_ok [OF assms(1,2) e] assms(3) option.inject prod.inject)
  from PREV_of_GET [OF assms(1) pk assms(4)] n obtain lo hi where
    u: "2 \<le> p" "cbuf_type s = 2" "unit_at (cbuf s) p = Some lo" "lo \<ge> 0xdc00" "lo < 0xe000"
      "unit_at (cbuf s) (p - 2) = Some hi" "hi \<ge> 0xd800" "hi < 0xdc00" by auto
  show False
  proof (cases "p = p0 + 4")
    case True
    then obtain c1 where "unit_at (cbuf s) (p0 + 2) = Some c1" "c1 \<ge> 0xdc00"
      using assms(3) u(2) by (auto simp: GET_CHAR_def bind_eq_Some_iff split: if_splits)
    with True u(6,8) show False by simp
  next
    case False
    then have p: "p = p0 + 2" using assms(3) u(2) by (auto simp: GET_CHAR_def bind_eq_Some_iff split: if_splits)
    with u assms(3,5) show False by (simp add: GET_CHAR_def)
  qed
qed

lemma prev_chars_ok:
  assumes "subject_ok s" "pos_ok s p0" "fwd_chars s n p0 = Some p" "k \<le> n"
  shows "\<exists>q. prev_chars s k p = Some q \<and> pos_ok s q \<and> (k < n \<or> k = 0 \<longrightarrow> fwd_chars s (n - k) p0 = Some q)"
  using assms(3,4)
proof (induction k arbitrary: n p)
  case 0
  then show ?case using fwd_chars_ok [OF assms(1,2)] by simp
next
  case (Suc k)
  then obtain m where n: "n = m + 1" by (cases n) auto
  with Suc.prems(1) obtain p1 c where p1: "fwd_chars s m p0 = Some p1" "p1 < cbuf_end s" "GET_CHAR s p1 (cbuf_end s) = Some (c, p)"
    using fwd_chars_snoc [of s m p0 p] by auto
  note k1 = fwd_chars_ok [OF assms(1,2) p1(1)]
  show ?case
  proof (cases m)
    case 0
    with Suc.prems(2) n have k: "k = 0" by simp
    from PREV_of_GET [OF assms(1) _ p1(3)] k1 obtain q where "PREV_CHAR s p 0 = Some q" "q = p1 \<or> q = p1 - 2 \<and> cbuf_type s = 2"
      by auto
    then show ?thesis using k n 0 k1 by (auto simp: pos_ok_def)
  next
    case m: (Suc m')
    then obtain p2 c2 where p2: "fwd_chars s m' p0 = Some p2" "GET_CHAR s p2 (cbuf_end s) = Some (c2, p1)"
      using p1(1) fwd_chars_snoc [of s m' p0 p1] by auto
    have "PREV_CHAR s p 0 = Some p1"
      using fwd_chars_ok [OF assms(1,2) p2(1)] by (intro GET_then_PREV [OF assms(1) _ p2(2) p1(3,2)]) simp
    with Suc.IH [OF p1(1)] Suc.prems(2) n m show ?thesis by auto
  qed
qed

section \<open>One instruction stays in bounds\<close>

definition arrays_ok :: "REExecContext \<Rightarrow> re_regs \<Rightarrow> bool" where
  "arrays_ok s r \<longleftrightarrow> pos_ok s (r_cptr r) \<and> length (r_capture r) = 2 * capture_count s \<and>
     (\<forall>p. Some p \<in> set (r_capture r) \<longrightarrow> pos_ok s p) \<and> length (r_stack r) = stack_size_max s \<and>
     r_stack_len r \<le> stack_size_max s"

definition cfg_ok :: "REExecContext \<Rightarrow> (nat \<Rightarrow> nat option) \<Rightarrow> re_regs \<Rightarrow> bool" where
  "cfg_ok s L r \<longleftrightarrow> arrays_ok s r \<and> L (r_pc r) = Some (r_stack_len r)"

definition vm_ok :: "REExecContext \<Rightarrow> (nat \<Rightarrow> nat option) \<Rightarrow> bool" where
  "vm_ok s L \<longleftrightarrow> subject_ok s \<and> code_typed (bc_buf s) (capture_count s) (stack_size_max s) L \<and> stack_size_max s < 256"

text \<open>The simple quantifier whose body is at pc1, continues at \<open>target\<close> and matches k characters.\<close>

definition quant_at :: "REExecContext \<Rightarrow> nat \<Rightarrow> nat \<Rightarrow> nat \<Rightarrow> bool" where
  "quant_at s pc1 target k \<longleftrightarrow> 16 \<le> pc1 \<and>
     (\<exists>next cc body rest. code_u32 s (pc1 - 16) = Some next \<and> pc_plus s pc1 next = Some target \<and>
        code_u32 s (pc1 - 16 + 12) = Some cc \<and> unat cc = k \<and> drop pc1 (bc_buf s) = body @ 10 # rest \<and>
        simple_chars body = Some k)"

definition act_ok :: "REExecContext \<Rightarrow> (nat \<Rightarrow> nat option) \<Rightarrow> re_action \<Rightarrow> bool" where
  "act_ok s L a =
     (case a of
        Next r \<Rightarrow> cfg_ok s L r
      | No_match \<Rightarrow> True
      | Matched r \<Rightarrow> arrays_ok s r
      | Save ty pc r \<Rightarrow> ty \<noteq> RE_EXEC_STATE_GREEDY_QUANT \<and> cfg_ok s L r \<and> L pc = Some (r_stack_len r)
      | Quant pc1 mn mx r \<Rightarrow> cfg_ok s L r \<and> L pc1 = Some (r_stack_len r) \<and> (\<exists>k. quant_at s pc1 (r_pc r) k))"

lemma act_ok_simps [simp]:
  "act_ok s L (Next r) = cfg_ok s L r" "act_ok s L No_match" "act_ok s L (Matched r) = arrays_ok s r"
  by (simp_all add: act_ok_def)

abbreviation (input) acts :: "REExecContext \<Rightarrow> (nat \<Rightarrow> nat option) \<Rightarrow> re_action option \<Rightarrow> bool" where
  "acts s L x \<equiv> \<exists>a. x = Some a \<and> act_ok s L a"

lemma arrays_ok_simps [simp]:
  "arrays_ok s (r\<lparr>r_pc := p\<rparr>) = arrays_ok s r"
  "arrays_ok s r \<Longrightarrow> pos_ok s p \<Longrightarrow> arrays_ok s (r\<lparr>r_cptr := p\<rparr>)"
  by (simp_all add: arrays_ok_def)

lemma pos_ok_end: "subject_ok s \<Longrightarrow> pos_ok s (cbuf_end s)"
  by (simp add: pos_ok_def subject_ok_def)

lemma next_char:
  assumes "subject_ok s" "arrays_ok s r" "r_cptr r < cbuf_end s"
  obtains c p where "GET_CHAR s (r_cptr r) (cbuf_end s) = Some (c, p)" "arrays_ok s (r\<lparr>r_cptr := p\<rparr>)" "pos_ok s p"
proof -
  have "pos_ok s (r_cptr r)" using assms(2) by (simp add: arrays_ok_def)
  from assms(1) this pos_ok_end [OF assms(1)] assms(3) obtain c p where
    "GET_CHAR s (r_cptr r) (cbuf_end s) = Some (c, p)" "pos_ok s p" by (rule GET_CHAR_ok)
  with assms(2) show ?thesis by (intro that [of c p]) simp_all
qed

lemma test_char_ok:
  assumes "subject_ok s" "cfg_ok s L r"
  shows "acts s L (test_char s v r)"
proof (cases "r_cptr r \<ge> cbuf_end s")
  case False
  have ar: "arrays_ok s r" using assms(2) by (simp add: cfg_ok_def)
  from False have "r_cptr r < cbuf_end s" by simp
  from assms(1) ar this obtain c p where g: "GET_CHAR s (r_cptr r) (cbuf_end s) = Some (c, p)" "arrays_ok s (r\<lparr>r_cptr := p\<rparr>)"
    by (rule next_char)
  obtain c' where "canonical s c = Some c'" using canonical_total by blast
  with False g assms(2) show ?thesis by (simp add: test_char_def cfg_ok_def)
qed (simp add: test_char_def)

lemma op_any_ok:
  assumes "subject_ok s" "cfg_ok s L r"
  shows "acts s L (op_any s b r)"
proof (cases "r_cptr r = cbuf_end s")
  case False
  have ar: "arrays_ok s r" using assms(2) by (simp add: cfg_ok_def)
  with False have "r_cptr r < cbuf_end s" by (simp add: arrays_ok_def pos_ok_def)
  from assms(1) ar this obtain c p where g: "GET_CHAR s (r_cptr r) (cbuf_end s) = Some (c, p)" "arrays_ok s (r\<lparr>r_cptr := p\<rparr>)"
    by (rule next_char)
  with False assms(2) show ?thesis by (simp add: op_any_def cfg_ok_def)
qed (simp add: op_any_def)

lemma cfg_pos: "cfg_ok s L r \<Longrightarrow> pos_ok s (r_cptr r)"
  by (simp add: cfg_ok_def arrays_ok_def)

lemma op_line_ok:
  assumes "subject_ok s" "cfg_ok s L r"
  shows "acts s L (op_line_start s r)" "acts s L (op_line_end s r)"
proof -
  note p = cfg_pos [OF assms(2)]
  show "acts s L (op_line_start s r)"
  proof (cases "r_cptr r = 0 \<or> \<not> multi_line s")
    case False
    then obtain c where "PEEK_PREV_CHAR s (r_cptr r) 0 = Some c" using PEEK_PREV_CHAR_ok [OF assms(1) p] by blast
    with False assms(2) show ?thesis by (simp add: op_line_start_def)
  qed (use assms(2) in \<open>auto simp: op_line_start_def\<close>)
  show "acts s L (op_line_end s r)"
  proof (cases "r_cptr r = cbuf_end s \<or> \<not> multi_line s")
    case False
    with p have "r_cptr r < cbuf_end s" by (simp add: pos_ok_def)
    then obtain c where "PEEK_CHAR s (r_cptr r) (cbuf_end s) = Some c" using PEEK_CHAR_ok [OF assms(1) p] by blast
    with False assms(2) show ?thesis by (simp add: op_line_end_def)
  qed (use assms(2) in \<open>auto simp: op_line_end_def\<close>)
qed

lemma op_word_boundary_ok:
  assumes "subject_ok s" "cfg_ok s L r"
  shows "acts s L (op_word_boundary s b r)"
proof -
  note p = cfg_pos [OF assms(2)]
  obtain v1 where v1: "(if r_cptr r = 0 then Some False else map_option is_word_char (PEEK_PREV_CHAR s (r_cptr r) 0)) = Some v1"
  proof (cases "r_cptr r = 0")
    case False
    then obtain c where "PEEK_PREV_CHAR s (r_cptr r) 0 = Some c" using PEEK_PREV_CHAR_ok [OF assms(1) p] by blast
    with False that show ?thesis by simp
  qed (use that [of False] in simp)
  obtain v2 where v2: "(if r_cptr r \<ge> cbuf_end s then Some False else map_option is_word_char (PEEK_CHAR s (r_cptr r) (cbuf_end s))) = Some v2"
  proof (cases "r_cptr r \<ge> cbuf_end s")
    case False
    then obtain c where "PEEK_CHAR s (r_cptr r) (cbuf_end s) = Some c"
      using PEEK_CHAR_ok [OF assms(1) p] by (metis linorder_not_le)
    with False that show ?thesis by simp
  qed (use that [of False] in simp)
  show ?thesis unfolding op_word_boundary_def v1 v2 using assms(2) by simp
qed

lemma op_prev_ok:
  assumes "subject_ok s" "cfg_ok s L r"
  shows "acts s L (op_prev s r)"
proof (cases "r_cptr r = 0")
  case False
  then obtain p where "PREV_CHAR s (r_cptr r) 0 = Some p" "pos_ok s p" using PREV_CHAR_ok [OF assms(1) cfg_pos [OF assms(2)]] by blast
  with False assms(2) show ?thesis by (simp add: op_prev_def cfg_ok_def)
qed (simp add: op_prev_def)

lemma back_forward_ok:
  assumes "subject_ok s" "pos_ok s e"
  shows "pos_ok s p \<Longrightarrow> pos_ok s q \<Longrightarrow> \<exists>res. back_forward s p e q = Some res \<and> (\<forall>x. res = Some x \<longrightarrow> pos_ok s x)"
proof (induction "e - p" arbitrary: p q rule: less_induct)
  case less
  note en = pos_ok_end [OF assms(1)]
  show ?case
  proof (cases "p < e \<and> q < cbuf_end s")
    case True
    obtain c1 p' where g1: "GET_CHAR s p e = Some (c1, p')" "pos_ok s p'" "p' \<le> e"
      by (rule GET_CHAR_ok [OF assms(1) less.prems(1) assms(2)]) (use True in auto)
    obtain c2 q' where g2: "GET_CHAR s q (cbuf_end s) = Some (c2, q')" "pos_ok s q'"
      by (rule GET_CHAR_ok [OF assms(1) less.prems(2) en]) (use True in auto)
    obtain d1 d2 where d: "canonical s c1 = Some d1" "canonical s c2 = Some d2" using canonical_total by blast
    have "e - p' < e - p" using GET_CHAR_advances [OF g1(1)] True by auto
    from less.hyps [OF this g1(2) g2(2)] show ?thesis
      using True g1 g2 d by (subst (1) back_forward.simps) (auto split: if_splits)
  qed (use less.prems in \<open>subst back_forward.simps, auto\<close>)
qed

lemma back_backward_ok:
  assumes "subject_ok s" "pos_ok s b"
  shows "pos_ok s p \<Longrightarrow> pos_ok s q \<Longrightarrow> \<exists>res. back_backward s p b q = Some res \<and> (\<forall>x. res = Some x \<longrightarrow> pos_ok s x)"
proof (induction p arbitrary: q rule: less_induct)
  case (less p)
  have z: "pos_ok s 0" by (simp add: pos_ok_def)
  show ?case
  proof (cases "b < p \<and> 0 < q")
    case True
    obtain c1 p' where g1: "GET_PREV_CHAR s p b = Some (c1, p')" "pos_ok s p'"
      by (rule GET_PREV_CHAR_ok [OF assms(1) less.prems(1) assms(2)]) (use True in auto)
    obtain c2 q' where g2: "GET_PREV_CHAR s q 0 = Some (c2, q')" "pos_ok s q'"
      by (rule GET_PREV_CHAR_ok [OF assms(1) less.prems(2) z]) (use True in auto)
    obtain d1 d2 where d: "canonical s c1 = Some d1" "canonical s c2 = Some d2" using canonical_total by blast
    from less.IH [OF GET_PREV_CHAR_retreats [OF g1(1)] g1(2) g2(2)] show ?thesis
      using True g1 g2 d by (subst (1) back_backward.simps) (auto split: if_splits)
  qed (use less.prems in \<open>subst back_backward.simps, auto\<close>)
qed

lemma op_back_reference_ok:
  assumes "subject_ok s" "arrays_ok s r" "r_pc r < length (bc_buf s)" "L (r_pc r + 1) = Some (r_stack_len r)"
  shows "acts s L (op_back_reference s b r)"
proof -
  obtain v where v: "rd (bc_buf s) (r_pc r) = Some v" using assms(3) by (simp add: rd_def)
  show ?thesis
  proof (cases "unat v < capture_count s \<and> (\<exists>p q. r_capture r ! (2 * unat v) = Some p \<and> r_capture r ! (2 * unat v + 1) = Some q)")
    case True
    then obtain p q where pq: "r_capture r ! (2 * unat v) = Some p" "r_capture r ! (2 * unat v + 1) = Some q" by blast
    have l: "2 * unat v + 1 < length (r_capture r)" using True assms(2) by (simp add: arrays_ok_def)
    then have "Some p \<in> set (r_capture r)" "Some q \<in> set (r_capture r)" using pq by (metis add_lessD1 nth_mem)+
    then have po: "pos_ok s p" "pos_ok s q" "pos_ok s (r_cptr r)" using assms(2) by (auto simp: arrays_ok_def)
    obtain res where "(if b then back_backward s q p (r_cptr r) else back_forward s p q (r_cptr r)) = Some res"
      "\<forall>x. res = Some x \<longrightarrow> pos_ok s x"
      using back_forward_ok [OF assms(1) po(2,1,3)] back_backward_ok [OF assms(1) po(1,2,3)] by (cases b) auto
    then show ?thesis
      using v l pq True assms by (cases res) (auto simp: op_back_reference_def cfg_ok_def Let_def)
  next
    case False
    then show ?thesis
      using v assms by (auto simp: op_back_reference_def cfg_ok_def arrays_ok_def Let_def split: option.splits)
  qed
qed

text \<open>Operands and jumps, read through the bytes from the instruction on.\<close>

lemma code_reads:
  "code_u32 s (p + n) = get_u32 (drop n (drop p (bc_buf s)))" "code_u16 s (p + n) = get_u16 (drop n (drop p (bc_buf s)))"
  by (simp_all add: code_u32_def code_u16_def add.commute)

lemma code_typedD: "vm_ok s L \<Longrightarrow> L pos = Some d \<Longrightarrow> instr_ok (capture_count s) (stack_size_max s) L (drop pos (bc_buf s)) pos d"
  by (simp add: vm_ok_def code_typed_def)

lemma instr_okD:
  assumes "instr_ok cc sz L b pos d"
  obtains c op len where "rd b 0 = Some c" "reop_of c = Some op" "instr_len b = Some len" "len \<le> length b" "d \<le> sz"
    "op_ok cc sz L b pos d len op"
  using assms by (auto simp: instr_ok_def bind_eq_Some_iff split: option.splits)

lemma typed_inside:
  assumes "vm_ok s L" "L p = Some d"
  shows "p < length (bc_buf s)" "d \<le> stack_size_max s"
  using code_typedD [OF assms] by (auto elim!: instr_okD simp: rd_def split: if_splits)

lemma jumps_toD:
  assumes "vm_ok s L" "jumps_to L (drop pos (bc_buf s)) pos d"
  obtains v t where "code_u32 s (pos + 1) = Some v" "pc_plus s (pos + 5) v = Some t" "L t = Some d"
proof -
  from assms(2) obtain v where v: "get_u32 (drop 1 (drop pos (bc_buf s))) = Some v" "0 \<le> int (pos + 5) + sint v"
    "L (nat (int (pos + 5) + sint v)) = Some d"
    by (auto simp: jumps_to_def split: option.splits)
  from typed_inside(1) [OF assms(1) v(3)] v(2) have "pc_plus s (pos + 5) v = Some (nat (int (pos + 5) + sint v))"
    by (simp add: pc_plus_def Let_def)
  with v show ?thesis using code_reads(1) [of s pos 1] by (intro that) simp_all
qed

text \<open>The search in the table of a range; w is 2 or 4.\<close>

definition range_table_ok :: "REExecContext \<Rightarrow> nat \<Rightarrow> nat \<Rightarrow> u32 \<Rightarrow> bool" where
  "range_table_ok s w pc n \<longleftrightarrow> (w = 2 \<or> w = 4) \<and> 0 < unat n \<and> unat n < 65536 \<and> pc + 2 * w * unat n \<le> length (bc_buf s)"

lemma table_index:
  fixes i :: u32
  assumes "range_table_ok s w pc n" "unat i < unat n"
  shows "unat (i * of_nat (2 * w)) = unat i * (2 * w)" "unat (i * of_nat (2 * w) + of_nat w) = unat i * (2 * w) + w"
proof -
  have i: "unat i < 65536" and w: "w = 2 \<or> w = 4" using assms by (auto simp: range_table_ok_def)
  from i w show "unat (i * of_nat (2 * w)) = unat i * (2 * w)" by (auto simp: unat_word_ariths)
  from i w show "unat (i * of_nat (2 * w) + of_nat w) = unat i * (2 * w) + w" by (auto simp: unat_word_ariths)
qed

lemma table_read:
  assumes "range_table_ok s w pc n" "unat i < unat n"
  shows "\<exists>v. range_read s w pc (i * of_nat (2 * w)) = Some v" "\<exists>v. range_read s w pc (i * of_nat (2 * w) + of_nat w) = Some v"
proof -
  have "unat i * (2 * w) + 2 * w \<le> 2 * w * unat n" using assms(2) mult_le_mono2 [of "Suc (unat i)" "unat n" "2 * w"] by (simp add: algebra_simps)
  then have le: "pc + (unat i * (2 * w) + w) + w \<le> length (bc_buf s)" "pc + unat i * (2 * w) + w \<le> length (bc_buf s)"
    using assms(1) by (auto simp: range_table_ok_def)
  have w: "w = 2 \<or> w = 4" using assms(1) by (simp add: range_table_ok_def)
  show "\<exists>v. range_read s w pc (i * of_nat (2 * w)) = Some v"
    unfolding range_read_def table_index [OF assms] code_u16_def code_u32_def using w le(2) by (auto intro!: get_u16_some get_u32_some)
  show "\<exists>v. range_read s w pc (i * of_nat (2 * w) + of_nat w) = Some v"
    unfolding range_read_def table_index [OF assms] code_u16_def code_u32_def using w le(1) by (auto intro!: get_u16_some get_u32_some)
qed

lemma range_search_ok:
  assumes t: "range_table_ok s w pc n" and low: "range_read s w pc 0 = Some low" "\<not> c < low"
  shows "unat hi < unat n \<Longrightarrow> unat lo < 65537 \<Longrightarrow> \<exists>b. range_search s w pc c lo hi = Some b"
proof (induction "unat hi + 1 - unat lo" arbitrary: lo hi rule: less_induct)
  case less
  have n: "unat n < 65536" using t by (simp add: range_table_ok_def)
  show ?case
  proof (cases "lo \<le> hi")
    case False
    then show ?thesis by (subst range_search.simps) auto
  next
    case True
    then have le: "unat lo \<le> unat hi" by (simp add: word_le_nat_alt)
    define idx where "idx = (lo + hi) div 2"
    have idx: "unat idx = (unat lo + unat hi) div 2"
      using less.prems n by (simp add: idx_def unat_div unat_word_ariths)
    then have ib: "unat idx < unat n" "unat lo \<le> unat idx" "unat idx \<le> unat hi" using le less.prems by auto
    obtain l h where lh: "range_read s w pc (idx * of_nat (2 * w)) = Some l" "range_read s w pc (idx * of_nat (2 * w) + of_nat w) = Some h"
      using table_read [OF t ib(1)] by blast
    have down: "\<exists>b. range_search s w pc c lo (idx - 1) = Some b" if "c < l"
    proof -
      have "idx \<noteq> 0" using that low lh by auto
      then have "unat (idx - 1) = unat idx - 1" "0 < unat idx" by (simp_all add: unat_minus_one unat_gt_0)
      with less.prems ib show ?thesis by (intro less.hyps) auto
    qed
    have "unat (idx + 1) = unat idx + 1" using ib n by (simp add: unat_word_ariths)
    then have up: "\<exists>b. range_search s w pc c (idx + 1) hi = Some b"
      using less.prems ib n by (intro less.hyps) auto
    show ?thesis
      using True lh down up by (subst range_search.simps) (auto simp: Let_def idx_def)
  qed
qed

lemma range_test_ok:
  assumes t: "range_table_ok s w pc n"
  shows "\<exists>b. range_test s w pc n c = Some b"
proof -
  have n: "0 < unat n" "unat n < 65536" using t by (auto simp: range_table_ok_def)
  then have n1: "unat (n - 1) < unat n" by (subst unat_minus_one) (auto simp: unat_gt_0)
  obtain low where low: "range_read s w pc 0 = Some low" using table_read(1) [OF t, of 0] n by auto
  obtain high where high: "range_read s w pc ((n - 1) * of_nat (2 * w) + of_nat w) = Some high" using table_read(2) [OF t n1] by blast
  show ?thesis
    using low high range_search_ok [OF t low, of c "n - 1" 0] n1 by (auto simp: range_test_def Let_def)
qed

lemma op_range_ok:
  assumes s: "subject_ok s" and ar: "arrays_ok s r" and n: "code_u16 s (r_pc r) = Some n" "n \<noteq> 0" "unat n < 65536"
    and w: "w = 2 \<or> w = 4" and len: "r_pc r + 2 + 2 * w * unat n \<le> length (bc_buf s)"
    and L: "L (r_pc r + 2 + 2 * w * unat n) = Some (r_stack_len r)"
  shows "acts s L (op_range s w r)"
proof (cases "r_cptr r \<ge> cbuf_end s")
  case True
  then show ?thesis using n by (simp add: op_range_def Let_def)
next
  case False
  then have "r_cptr r < cbuf_end s" by simp
  from s ar this obtain c p where g: "GET_CHAR s (r_cptr r) (cbuf_end s) = Some (c, p)" "arrays_ok s (r\<lparr>r_cptr := p\<rparr>)"
    by (rule next_char)
  obtain c' where c': "canonical s c = Some c'" using canonical_total by blast
  have "range_table_ok s w (r_pc r + 2) n" using n w len by (simp add: range_table_ok_def unat_gt_0)
  from range_test_ok [OF this] obtain b where "range_test s w (r_pc r + 2) n c' = Some b" by blast
  then show ?thesis
    using False n g c' L by (cases b) (auto simp: op_range_def Let_def cfg_ok_def arrays_ok_def)
qed

lemma opcode_sizes: "\<forall>i < REOP_COUNT. reopcode_info ! i = (fst (reopcode_info ! i), the (map_of reopcode_info (fst (reopcode_info ! i))))"
  by code_simp

text \<open>The length of an instruction: its size in the table and, for the ranges, the table behind it.\<close>

lemma instr_len_op:
  assumes "rd b 0 = Some c" "reop_of c = Some op" "instr_len b = Some len"
  shows "op \<noteq> REOP_range \<Longrightarrow> op \<noteq> REOP_range32 \<Longrightarrow> len = the (map_of reopcode_info op)"
    "op = REOP_range \<Longrightarrow> \<exists>n. get_u16 (drop 1 b) = Some n \<and> len = 3 + unat n * 4"
    "op = REOP_range32 \<Longrightarrow> \<exists>n. get_u16 (drop 1 b) = Some n \<and> len = 3 + unat n * 8"
proof -
  from assms(2) have c: "unat c < REOP_COUNT" "op = fst (reopcode_info ! unat c)" by (auto simp: reop_of_def split: if_splits)
  with opcode_sizes have sz: "snd (reopcode_info ! unat c) = the (map_of reopcode_info op)" by (metis snd_conv)
  show "op \<noteq> REOP_range \<Longrightarrow> op \<noteq> REOP_range32 \<Longrightarrow> len = the (map_of reopcode_info op)"
    using assms sz by (cases op) (simp_all add: instr_len_def Let_def)
  show "op = REOP_range \<Longrightarrow> \<exists>n. get_u16 (drop 1 b) = Some n \<and> len = 3 + unat n * 4"
    using assms sz by (auto simp: instr_len_def Let_def bind_eq_Some_iff reopcode_info_def)
  show "op = REOP_range32 \<Longrightarrow> \<exists>n. get_u16 (drop 1 b) = Some n \<and> len = 3 + unat n * 8"
    using assms sz by (auto simp: instr_len_def Let_def bind_eq_Some_iff reopcode_info_def)
qed

lemma get_u16_bound: "get_u16 b = Some n \<Longrightarrow> unat n < 65536"
proof -
  assume "get_u16 b = Some n"
  then obtain v where v: "rd_bytes b 0 2 = Some v" "n = of_nat (le_nat v)" by (auto simp: get_u16_def)
  have "le_nat v < 256 ^ 2" using le_nat_bound [of v] rd_bytes_length [OF v(1)] by simp
  with v(2) show ?thesis by (simp add: unat_of_nat_u32)
qed

lemma set_reset_captures: "Some p \<in> set (reset_captures cap v n) \<Longrightarrow> Some p \<in> set cap"
proof (induction cap v n rule: reset_captures.induct)
  case (2 cap v n)
  then have "Some p \<in> set (cap[2 * v := None, 2 * v + 1 := None])" by simp
  then show ?case using set_update_subset_insert [of cap "2 * v" None] set_update_subset_insert [of "cap[2 * v := None]" "2 * v + 1" None]
    by blast
qed simp

lemma op_save_ok:
  assumes "arrays_ok s r" "rd (bc_buf s) (r_pc r) = Some v" "unat v < capture_count s" "k < 2" "L (r_pc r + 1) = Some (r_stack_len r)"
  shows "acts s L (op_save s k r)"
proof -
  have "Some p \<in> set ((r_capture r)[2 * unat v + k := Some (r_cptr r)]) \<Longrightarrow> pos_ok s p" for p
    using assms(1) set_update_subset_insert [of "r_capture r" "2 * unat v + k" "Some (r_cptr r)"] by (auto simp: arrays_ok_def)
  with assms show ?thesis by (auto simp: op_save_def cfg_ok_def arrays_ok_def Let_def)
qed

lemma op_save_reset_ok:
  assumes "arrays_ok s r" "rd (bc_buf s) (r_pc r) = Some v" "rd (bc_buf s) (r_pc r + 1) = Some v2" "unat v2 < capture_count s"
    "L (r_pc r + 2) = Some (r_stack_len r)"
  shows "acts s L (op_save_reset s r)"
  using assms by (auto simp: op_save_reset_def cfg_ok_def arrays_ok_def Let_def dest: set_reset_captures)

lemma push_int_ok:
  assumes "arrays_ok s r" "r_stack_len r < stack_size_max s" "L (r_pc r) = Some (r_stack_len r + 1)"
  shows "acts s L (push_int x r)"
  using assms by (simp add: push_int_def cfg_ok_def arrays_ok_def)

lemma op_loop_ok:
  assumes "arrays_ok s r" "0 < r_stack_len r" "code_u32 s (r_pc r) = Some v" "pc_plus s (r_pc r + 4) v = Some t"
    "L t = Some (r_stack_len r)" "L (r_pc r + 4) = Some (r_stack_len r)"
  shows "acts s L (op_loop s r)"
  using assms by (auto simp: op_loop_def cfg_ok_def arrays_ok_def Let_def)

lemma op_bne_ok:
  assumes "arrays_ok s r" "0 < r_stack_len r" "code_u32 s (r_pc r) = Some v" "pc_plus s (r_pc r + 4) v = Some t"
    "L t = Some (r_stack_len r - 1)" "L (r_pc r + 4) = Some (r_stack_len r - 1)"
  shows "acts s L (op_bne_char_pos s r)"
  using assms by (auto simp: op_bne_char_pos_def cfg_ok_def arrays_ok_def Let_def)

lemma op_jump_ok:
  assumes "arrays_ok s r" "code_u32 s (r_pc r) = Some v" "pc_plus s (r_pc r + 4) v = Some t"
    "L t = Some (r_stack_len r)" "L (r_pc r + 4) = Some (r_stack_len r)"
  shows "acts s L (op_split s b r)" "ty \<noteq> RE_EXEC_STATE_GREEDY_QUANT \<Longrightarrow> acts s L (op_lookahead s ty r)"
  using assms by (auto simp: op_split_def op_lookahead_def act_ok_def cfg_ok_def Let_def)

lemma op_greedy_quant_ok:
  assumes vm: "vm_ok s L" and ar: "arrays_ok s r" and q: "quant_ok L (drop pos (bc_buf s)) pos (r_stack_len r)" and pos: "r_pc r = pos + 1"
    and len: "17 \<le> length (drop pos (bc_buf s))"
  shows "acts s L (op_greedy_quant s r)"
proof -
  let ?b = "drop pos (bc_buf s)"
  from q obtain nx cc where nx: "get_u32 (drop 1 ?b) = Some nx" "get_u32 (drop 13 ?b) = Some cc" "0 < sint nx"
    "L (pos + 17) = Some (r_stack_len r)" "L (pos + 17 + nat (sint nx)) = Some (r_stack_len r)"
    "rd ?b (16 + nat (sint nx)) = Some 10" "simple_chars (take (nat (sint nx) - 1) (drop 17 ?b)) = Some (unat cc)"
    by (auto simp: quant_ok_def split: option.splits)
  define body where "body = take (nat (sint nx) - 1) (drop 17 ?b)"
  obtain mn where mn: "get_u32 (drop 5 ?b) = Some mn" using get_u32_some [of 5 ?b] len by auto
  obtain mx where mx: "get_u32 (drop 9 ?b) = Some mx" using get_u32_some [of 9 ?b] len by auto
  have at: "16 + nat (sint nx) < length ?b" "?b ! (16 + nat (sint nx)) = 10" using nx(6) by (auto simp: rd_def split: if_splits)
  have e: "17 + (nat (sint nx) - 1) = 16 + nat (sint nx)" using nx(3) by simp
  have "drop 17 ?b = body @ drop (nat (sint nx) - 1) (drop 17 ?b)" by (simp add: body_def del: drop_drop)
  also have "drop (nat (sint nx) - 1) (drop 17 ?b) = drop (16 + nat (sint nx)) ?b"
    unfolding drop_drop e [symmetric] by (simp add: ac_simps)
  also have "\<dots> = 10 # drop (Suc (16 + nat (sint nx))) ?b" using Cons_nth_drop_Suc [OF at(1)] at(2) by simp
  finally have body: "drop (pos + 17) (bc_buf s) = body @ 10 # drop (Suc (16 + nat (sint nx))) ?b" by (simp add: add.commute)
  have tgt: "pc_plus s (pos + 17) nx = Some (pos + 17 + nat (sint nx))"
    using typed_inside(1) [OF vm nx(5)] nx(3) by (simp add: pc_plus_def Let_def nat_add_distrib)
  have reads: "code_u32 s (pos + 1) = Some nx" "code_u32 s (pos + 5) = Some mn" "code_u32 s (pos + 9) = Some mx" "code_u32 s (pos + 13) = Some cc"
    by (simp_all only: code_reads nx mn mx)
  have "quant_at s (pos + 17) (pos + 17 + nat (sint nx)) (unat cc)"
    unfolding quant_at_def using reads(1,4) tgt body nx(7) unfolding body_def [symmetric]
    by (intro conjI exI [of _ nx] exI [of _ cc] exI [of _ body] exI) (simp_all add: add.commute)
  moreover have "op_greedy_quant s r = Some (Quant (pos + 17) mn mx (r\<lparr>r_pc := pos + 17 + nat (sint nx)\<rparr>))"
    using reads tgt by (simp add: op_greedy_quant_def pos Let_def add.commute)
  ultimately show ?thesis using ar nx(4,5) by (auto simp: act_ok_def cfg_ok_def)
qed

lemma exec_op_ok:
  assumes vm: "vm_ok s L" and cfg: "cfg_ok s L r"
  shows "acts s L (exec_op s r)"
proof -
  define pos where "pos = r_pc r"
  define b where "b = drop pos (bc_buf s)"
  define r1 where "r1 = r\<lparr>r_pc := pos + 1\<rparr>"
  have sub: "subject_ok s" using vm by (simp add: vm_ok_def)
  have ar: "arrays_ok s r1" and ar': "\<And>p. arrays_ok s (r1\<lparr>r_pc := p\<rparr>)" and d: "L pos = Some (r_stack_len r)"
    using cfg by (simp_all add: r1_def pos_def cfg_ok_def)
  from code_typedD [OF vm d] obtain c op len where i: "rd b 0 = Some c" "reop_of c = Some op" "instr_len b = Some len"
    "len \<le> length b" and ok: "op_ok (capture_count s) (stack_size_max s) L b pos (r_stack_len r) len op"
    unfolding b_def by (rule instr_okD)
  have rdb: "rd (bc_buf s) (pos + n) = rd b n" for n by (auto simp: rd_def b_def add.commute)
  have ex: "exec_op s r = exec_opcode s op r1"
    using i rdb [of 0] by (simp add: exec_op_def r1_def pos_def)
  note len = instr_len_op [OF i(1-3)]
  have sizes: "op \<noteq> REOP_range \<Longrightarrow> op \<noteq> REOP_range32 \<Longrightarrow> the (map_of reopcode_info op) \<le> length b" using len(1) i(4) by simp
  obtain p1 p2 p3 p5 where q: "pos + 1 = p1" "Suc pos = p1" "pos + 2 = p2" "pos + 3 = p3" "pos + 5 = p5" "p1 + 4 = p5" "p1 + 2 = p3"
    "p1 + 1 = p2" "Suc p1 = p2" by auto
  have r1 [simp]: "r_pc r1 = p1" "r_stack_len r1 = r_stack_len r" by (simp_all add: r1_def q)
  note plus [simp] = q(6,7)
  have u32: "\<exists>v. code_u32 s p1 = Some v" if "5 \<le> length b"
    using get_u32_some [of 1 b] that code_reads(1) [of s pos 1] by (simp add: b_def q)
  have u16: "\<exists>v. code_u16 s p1 = Some v" if "3 \<le> length b"
    using get_u16_some [of 1 b] that code_reads(2) [of s pos 1] by (simp add: b_def q)
  have inside: "p1 < length (bc_buf s)" if "2 \<le> length b" using that unfolding q(1) [symmetric] by (auto simp: b_def)
  have jump: "\<exists>v t. code_u32 s p1 = Some v \<and> pc_plus s p5 v = Some t \<and> L t = Some e" if "jumps_to L b pos e" for e
    using jumps_toD [OF vm that [unfolded b_def]] unfolding q by metis
  have cfg1: "cfg_ok s L (r1\<lparr>r_pc := p\<rparr>)" if "L p = Some (r_stack_len r)" for p using that ar' by (simp add: cfg_ok_def)
  have cfg11: "cfg_ok s L r1" if "L p1 = Some (r_stack_len r)" using that ar by (simp add: cfg_ok_def)
  note defs = op_ok_def exec_opcode_def reopcode_info_def
  show ?thesis unfolding ex
  proof (cases op)
    case REOP_char
    then have n: "L p3 = Some (r_stack_len r)" using ok len(1) by (simp add: defs q)
    obtain v where "code_u16 s p1 = Some v" using u16 sizes REOP_char by (auto simp: reopcode_info_def)
    then show "acts s L (exec_opcode s op r1)"
      using REOP_char test_char_ok [OF sub cfg1 [OF n], of v] unfolding exec_opcode_def by (simp del: add_2_eq_Suc')
  next
    case REOP_char32
    then have n: "L p5 = Some (r_stack_len r)" using ok len(1) by (simp add: defs q)
    obtain v where "code_u32 s p1 = Some v" using u32 sizes REOP_char32 by (auto simp: reopcode_info_def)
    then show "acts s L (exec_opcode s op r1)"
      using REOP_char32 test_char_ok [OF sub cfg1 [OF n], of v] by (simp add: exec_opcode_def)
  next
    case REOP_push_i32
    then have n: "L p5 = Some (r_stack_len r + 1)" "r_stack_len r < stack_size_max s" using ok len(1) by (simp_all add: defs q)
    obtain v where "code_u32 s p1 = Some v" using u32 sizes REOP_push_i32 by (auto simp: reopcode_info_def)
    then show "acts s L (exec_opcode s op r1)"
      using REOP_push_i32 push_int_ok [OF ar', of p5 L] n by (simp add: exec_opcode_def)
  next
    case REOP_save_start
    with ok len(1) obtain v where "rd b 1 = Some v" "unat v < capture_count s" "L p2 = Some (r_stack_len r)"
      by (auto simp: defs q split: option.splits)
    then show "acts s L (exec_opcode s op r1)"
      using REOP_save_start op_save_ok [OF ar, of v 0 L] rdb [of 1] q by (simp add: exec_opcode_def)
  next
    case REOP_save_end
    with ok len(1) obtain v where "rd b 1 = Some v" "unat v < capture_count s" "L p2 = Some (r_stack_len r)"
      by (auto simp: defs q split: option.splits)
    then show "acts s L (exec_opcode s op r1)"
      using REOP_save_end op_save_ok [OF ar, of v 1 L] rdb [of 1] q by (simp add: exec_opcode_def)
  next
    case REOP_save_reset
    with ok len(1) obtain v2 where v2: "rd b 2 = Some v2" "unat v2 < capture_count s" "L p3 = Some (r_stack_len r)"
      by (auto simp: defs q split: option.splits)
    obtain v where v: "rd b 1 = Some v" using REOP_save_reset sizes by (auto simp: rd_def reopcode_info_def)
    show "acts s L (exec_opcode s op r1)"
      using REOP_save_reset op_save_reset_ok [OF ar, of v v2 L] v v2 rdb [of 1] rdb [of 2] q by (simp add: exec_opcode_def)
  next
    case REOP_range
    with len(2) obtain n where n: "get_u16 (drop 1 b) = Some n" "len = 3 + unat n * 4" by auto
    have c: "code_u16 s p1 = Some n" using n(1) code_reads(2) [of s pos 1] by (simp add: b_def q)
    have l: "p3 + 4 * unat n \<le> length (bc_buf s)" using n(2) i(4) len(1) i(1) unfolding b_def q(4) [symmetric] by (auto simp: rd_def split: if_splits)
    have "n \<noteq> 0" "L (p3 + 4 * unat n) = Some (r_stack_len r)"
      using REOP_range ok n unfolding q(4) [symmetric] by (auto simp: op_ok_def algebra_simps)
    then show "acts s L (exec_opcode s op r1)"
      using REOP_range op_range_ok [OF sub ar, of n 2 L] get_u16_bound [OF n(1)] c l by (simp add: exec_opcode_def del: add_2_eq_Suc')
  next
    case REOP_range32
    with len(3) obtain n where n: "get_u16 (drop 1 b) = Some n" "len = 3 + unat n * 8" by auto
    have c: "code_u16 s p1 = Some n" using n(1) code_reads(2) [of s pos 1] by (simp add: b_def q)
    have l: "p3 + 8 * unat n \<le> length (bc_buf s)" using n(2) i(4) len(1) i(1) unfolding b_def q(4) [symmetric] by (auto simp: rd_def split: if_splits)
    have "n \<noteq> 0" "L (p3 + 8 * unat n) = Some (r_stack_len r)"
      using REOP_range32 ok n unfolding q(4) [symmetric] by (auto simp: op_ok_def algebra_simps)
    then show "acts s L (exec_opcode s op r1)"
      using REOP_range32 op_range_ok [OF sub ar, of n 4 L] get_u16_bound [OF n(1)] c l by (simp add: exec_opcode_def del: add_2_eq_Suc')
  next
    case REOP_simple_greedy_quant
    with ok have "quant_ok L b pos (r_stack_len r)" by (simp add: op_ok_def)
    then show "acts s L (exec_opcode s op r1)"
      using REOP_simple_greedy_quant sizes op_greedy_quant_ok [OF vm ar, of pos] q by (simp add: defs b_def)
  next
    case REOP_drop
    with ok len(1) show "acts s L (exec_opcode s op r1)"
      using ar by (auto simp: defs cfg_ok_def arrays_ok_def q)
  next
    case REOP_push_char_pos
    with ok len(1) show "acts s L (exec_opcode s op r1)"
      using push_int_ok [OF ar] by (simp add: defs q)
  next
    case REOP_back_reference
    with ok len(1) sizes show "acts s L (exec_opcode s op r1)"
      using op_back_reference_ok [OF sub ar, of L] q inside by (simp add: defs)
  next
    case REOP_backward_back_reference
    with ok len(1) sizes show "acts s L (exec_opcode s op r1)"
      using op_back_reference_ok [OF sub ar, of L] q inside by (simp add: defs)
  next
    case REOP_goto
    then have "jumps_to L b pos (r_stack_len r)" using ok by (simp add: op_ok_def)
    from jump [OF this] obtain v t where "code_u32 s p1 = Some v" "pc_plus s p5 v = Some t" "L t = Some (r_stack_len r)" by blast
    then show "acts s L (exec_opcode s op r1)"
      using REOP_goto cfg1 by (simp add: exec_opcode_def)
  next
    case REOP_bne_char_pos
    then have j: "jumps_to L b pos (r_stack_len r - 1)" and n: "L p5 = Some (r_stack_len r - 1)" "0 < r_stack_len r"
      using ok len(1) by (simp_all add: defs q)
    from jump [OF j] obtain v t where "code_u32 s p1 = Some v" "pc_plus s p5 v = Some t" "L t = Some (r_stack_len r - 1)" by blast
    with n show "acts s L (exec_opcode s op r1)"
      using REOP_bne_char_pos op_bne_ok [OF ar, of v t L] by (simp add: exec_opcode_def)
  next
    case REOP_loop
    then have j: "jumps_to L b pos (r_stack_len r)" and n: "L p5 = Some (r_stack_len r)" "0 < r_stack_len r"
      using ok len(1) by (simp_all add: defs q)
    from jump [OF j] obtain v t where "code_u32 s p1 = Some v" "pc_plus s p5 v = Some t" "L t = Some (r_stack_len r)" by blast
    with n show "acts s L (exec_opcode s op r1)"
      using REOP_loop op_loop_ok [OF ar, of v t L] by (simp add: exec_opcode_def)
  next
    case REOP_split_goto_first
    then have j: "jumps_to L b pos (r_stack_len r)" and n: "L p5 = Some (r_stack_len r)" 
      using ok len(1) by (simp_all add: defs q)
    from jump [OF j] obtain v t where "code_u32 s p1 = Some v" "pc_plus s p5 v = Some t" "L t = Some (r_stack_len r)" by blast
    with n show "acts s L (exec_opcode s op r1)"
      using REOP_split_goto_first op_jump_ok(1) [OF ar, of v t L] by (simp add: exec_opcode_def)
  next
    case REOP_split_next_first
    then have j: "jumps_to L b pos (r_stack_len r)" and n: "L p5 = Some (r_stack_len r)" 
      using ok len(1) by (simp_all add: defs q)
    from jump [OF j] obtain v t where "code_u32 s p1 = Some v" "pc_plus s p5 v = Some t" "L t = Some (r_stack_len r)" by blast
    with n show "acts s L (exec_opcode s op r1)"
      using REOP_split_next_first op_jump_ok(1) [OF ar, of v t L] by (simp add: exec_opcode_def)
  next
    case REOP_lookahead
    then have j: "jumps_to L b pos (r_stack_len r)" and n: "L p5 = Some (r_stack_len r)" 
      using ok len(1) by (simp_all add: defs q)
    from jump [OF j] obtain v t where "code_u32 s p1 = Some v" "pc_plus s p5 v = Some t" "L t = Some (r_stack_len r)" by blast
    with n show "acts s L (exec_opcode s op r1)"
      using REOP_lookahead op_jump_ok(2) [OF ar, of v t L] by (simp add: exec_opcode_def)
  next
    case REOP_negative_lookahead
    then have j: "jumps_to L b pos (r_stack_len r)" and n: "L p5 = Some (r_stack_len r)" 
      using ok len(1) by (simp_all add: defs q)
    from jump [OF j] obtain v t where "code_u32 s p1 = Some v" "pc_plus s p5 v = Some t" "L t = Some (r_stack_len r)" by blast
    with n show "acts s L (exec_opcode s op r1)"
      using REOP_negative_lookahead op_jump_ok(2) [OF ar, of v t L] by (simp add: exec_opcode_def)
  qed (use ok len(1) ar cfg11 op_any_ok [OF sub] op_line_ok [OF sub] op_word_boundary_ok [OF sub] op_prev_ok [OF sub] q in
      \<open>simp_all add: defs\<close>)
qed

section \<open>The executor stays in bounds\<close>

lemma chars_or_test:
  assumes "vm_ok s L" "cfg_ok s L r" "drop (r_pc r) (bc_buf s) = b" "rd b 0 = Some c" "reop_of c = Some op" "instr_len b = Some len"
    "is_char_op op \<or> is_test_op op"
  shows "exec_op s r = Some No_match \<or>
    (\<exists>r'. exec_op s r = Some (Next r') \<and> r_pc r' = r_pc r + len \<and> cfg_ok s L r' \<and> r_capture r' = r_capture r \<and>
       r_stack r' = r_stack r \<and> r_stack_len r' = r_stack_len r \<and>
       fwd_chars s (if is_char_op op then 1 else 0) (r_cptr r) = Some (r_cptr r'))"
proof -
  obtain a where a: "exec_op s r = Some a" "act_ok s L a" using exec_op_ok [OF assms(1,2)] by blast
  have "rd (bc_buf s) (r_pc r) = Some c" using assms(3,4) by (auto simp: rd_def split: if_splits)
  then have e: "exec_opcode s op (r\<lparr>r_pc := r_pc r + 1\<rparr>) = Some a" using a(1) assms(5) by (simp add: exec_op_def)
  note len = instr_len_op [OF assms(4-6)]
  have p: "r_cptr r \<le> cbuf_end s" using assms(2) by (simp add: cfg_ok_def arrays_ok_def pos_ok_def)
  show ?thesis
  proof (cases "a = No_match")
    case False
    have "\<exists>r'. a = Next r' \<and> r_pc r' = r_pc r + len \<and> r_capture r' = r_capture r \<and> r_stack r' = r_stack r \<and>
      r_stack_len r' = r_stack_len r \<and> fwd_chars s (if is_char_op op then 1 else 0) (r_cptr r) = Some (r_cptr r')"
    proof (cases op)
      case REOP_range
      with len(2) obtain n where n: "code_u16 s (r_pc r + 1) = Some n" "len = 3 + unat n * 4"
        using assms(3) code_reads(2) [of s "r_pc r" 1] by auto
      with REOP_range e False show ?thesis
        by (auto simp: exec_opcode_def op_range_def bind_eq_Some_iff is_char_op_def Let_def split: if_splits)
    next
      case REOP_range32
      with len(3) obtain n where n: "code_u16 s (r_pc r + 1) = Some n" "len = 3 + unat n * 8"
        using assms(3) code_reads(2) [of s "r_pc r" 1] by auto
      with REOP_range32 e False show ?thesis
        by (auto simp: exec_opcode_def op_range_def bind_eq_Some_iff is_char_op_def Let_def split: if_splits)
    qed (use assms(7) e False len(1) p in \<open>auto simp: exec_opcode_def test_char_def op_any_def op_line_start_def op_line_end_def
      op_word_boundary_def reopcode_info_def bind_eq_Some_iff is_char_op_def is_test_op_def Let_def split: if_splits\<close>)
    with a show ?thesis by auto
  qed (use a in simp)
qed

lemma rd_append: "rd b i = Some v \<Longrightarrow> rd (b @ c) i = Some v"
  by (auto simp: rd_def nth_append split: if_splits)

lemma get_u16_append: "get_u16 b = Some v \<Longrightarrow> get_u16 (b @ c) = Some v"
  by (auto simp: get_u16_def rd_bytes_def split: if_splits)

lemma get_u32_append: "get_u32 b = Some v \<Longrightarrow> get_u32 (b @ c) = Some v"
  by (auto simp: get_u32_def rd_bytes_def split: if_splits)

lemma instr_len_append:
  assumes "instr_len b = Some n"
  shows "instr_len (b @ c) = Some n"
proof -
  have d: "get_u16 (drop 1 (b @ c)) = Some v" if "get_u16 (drop 1 b) = Some v" for v
    using get_u16_append [OF that, of c] that by (cases b) (auto simp: get_u16_def rd_bytes_def split: if_splits)
  from assms obtain x op where x: "rd b 0 = Some x" "reop_of x = Some op" by (auto simp: instr_len_def bind_eq_Some_iff)
  show ?thesis
    using assms x rd_append [OF x(1), of c] d
    by (cases op) (auto simp: instr_len_def bind_eq_Some_iff Let_def)
qed

text \<open>The body of a simple quantifier ends, and moves over as many characters as the checker counted.\<close>

lemma simple_body_runs:
  assumes vm: "vm_ok s L"
  shows "simple_chars body = Some k \<Longrightarrow> cfg_ok s L r \<Longrightarrow> drop (r_pc r) (bc_buf s) = body @ 10 # rest \<Longrightarrow>
    \<exists>res rb. lre_exec_backtrack ra s (Run True r) v = Some (Some (res, rb, v)) \<and> r_capture rb = r_capture r \<and>
      r_stack rb = r_stack r \<and> (res = Ret 0 \<or> (\<exists>p. res = Ret_ptr p \<and> fwd_chars s k (r_cptr r) = Some p))"
proof (induction "length body" arbitrary: body k r rule: less_induct)
  case less
  show ?case
  proof (cases "body = []")
    case True
    then have "rd (bc_buf s) (r_pc r) = Some 10" using less.prems(3) by (metis append_Nil rd_def drop_eq_Nil2 list.discI linorder_not_le hd_drop_conv_nth list.sel(1))
    moreover have "reop_of 10 = Some REOP_match" by (simp add: reop_of_def reopcode_info_def REOP_COUNT_def)
    ultimately have "exec_op s r = Some (Matched (r\<lparr>r_pc := r_pc r + 1\<rparr>))" by (simp add: exec_op_def exec_opcode_def)
    moreover have "k = 0" using less.prems(1) True by (simp add: simple_chars.simps)
    ultimately show ?thesis by (simp add: exec_run re_step_def re_end_def)
  next
    case False
    then obtain c op len where i: "rd body 0 = Some c" "reop_of c = Some op" "instr_len body = Some len" "len \<le> length body"
      and k: "if is_char_op op then \<exists>k'. simple_chars (drop len body) = Some k' \<and> k = k' + 1
         else is_test_op op \<and> simple_chars (drop len body) = Some k"
      using less.prems(1) by (subst (asm) simple_chars.simps) (auto simp: bind_eq_Some_iff split: if_splits option.splits)
    define k' where "k' = (if is_char_op op then k - 1 else k)"
    have k': "simple_chars (drop len body) = Some k'" "k = (if is_char_op op then 1 else 0) + k'" "is_char_op op \<or> is_test_op op"
      using k by (auto simp: k'_def split: if_splits)
    let ?b = "body @ 10 # rest"
    from chars_or_test [OF vm less.prems(2,3) rd_append [OF i(1)] i(2) instr_len_append [OF i(3)] k'(3)]
    show ?thesis
    proof (elim disjE exE conjE)
      assume "exec_op s r = Some No_match"
      then show ?thesis by (simp add: exec_run re_step_def re_end_def)
    next
      fix r' assume n: "exec_op s r = Some (Next r')" "r_pc r' = r_pc r + len" "cfg_ok s L r'" "r_capture r' = r_capture r"
        "r_stack r' = r_stack r" "r_stack_len r' = r_stack_len r"
        "fwd_chars s (if is_char_op op then 1 else 0) (r_cptr r) = Some (r_cptr r')"
      have "drop (r_pc r') (bc_buf s) = drop len (drop (r_pc r) (bc_buf s))" by (simp add: n(2) add.commute)
      then have d: "drop (r_pc r') (bc_buf s) = drop len body @ 10 # rest" using less.prems(3) i(4) by simp
      have "length (drop len body) < length body" using instr_len_pos [OF i(3)] False by simp
      from less.hyps [OF this k'(1) n(3) d] obtain res rb where h:
        "lre_exec_backtrack ra s (Run True r') v = Some (Some (res, rb, v))" "r_capture rb = r_capture r'" "r_stack rb = r_stack r'"
        "res = Ret 0 \<or> (\<exists>p. res = Ret_ptr p \<and> fwd_chars s k' (r_cptr r') = Some p)" by blast
      have "lre_exec_backtrack ra s (Run True r) v = Some (Some (res, rb, v))"
        using n(1) h(1) by (simp add: exec_run [of _ _ _ r] re_step_def)
      moreover have "fwd_chars s k (r_cptr r) = fwd_chars s k' (r_cptr r')"
        using n(7) unfolding k'(2) fwd_chars_add by simp
      ultimately show ?thesis using h n(4,5) by auto
    qed
  qed
qed

section \<open>Saved states\<close>

definition capture_ok :: "REExecContext \<Rightarrow> nat option list \<Rightarrow> bool" where
  "capture_ok s cap \<longleftrightarrow> length cap = 2 * capture_count s \<and> (\<forall>p. Some p \<in> set cap \<longrightarrow> pos_ok s p)"

definition state_ok :: "REExecContext \<Rightarrow> (nat \<Rightarrow> nat option) \<Rightarrow> REExecState \<Rightarrow> bool" where
  "state_ok s L rs \<longleftrightarrow> pos_ok s (rs_cptr rs) \<and> capture_ok s (rs_capture rs) \<and> length (rs_stack rs) = unat (rs_stack_len rs) \<and>
     unat (rs_stack_len rs) \<le> stack_size_max s \<and>
     (if rs_type rs = RE_EXEC_STATE_GREEDY_QUANT
      then rs_count rs \<noteq> 0 \<and> (\<exists>k p0 target. quant_at s (rs_pc rs + 16) target k \<and> L target = Some (unat (rs_stack_len rs)) \<and>
             pos_ok s p0 \<and> fwd_chars s (unat (rs_count rs) * k) p0 = Some (rs_cptr rs))
      else L (rs_pc rs) = Some (unat (rs_stack_len rs)))"

lemma arrays_ok_iff:
  "arrays_ok s r \<longleftrightarrow> pos_ok s (r_cptr r) \<and> capture_ok s (r_capture r) \<and> length (r_stack r) = stack_size_max s \<and>
     r_stack_len r \<le> stack_size_max s"
  by (auto simp: arrays_ok_def capture_ok_def)

lemma restored_ok:
  assumes "state_ok s L rs" "capture_ok s (r_capture r)" "length (r_stack r) = stack_size_max s"
  shows "arrays_ok s (restore_stack rs (r\<lparr>r_pc := p, r_cptr := rs_cptr rs\<rparr>))"
    "arrays_ok s (restore_stack rs (restore_capture rs r)\<lparr>r_pc := p, r_cptr := rs_cptr rs\<rparr>)"
    "r_stack_len (restore_stack rs r) = unat (rs_stack_len rs)"
  using assms by (auto simp: arrays_ok_iff state_ok_def restore_stack_def restore_capture_def Let_def capture_ok_def)

lemma popped_ok:
  assumes "state_ok s L rs" "rs_type rs \<noteq> RE_EXEC_STATE_GREEDY_QUANT" "capture_ok s (r_capture r)" "length (r_stack r) = stack_size_max s"
  shows "cfg_ok s L (pop_state1 rs r)" "cfg_ok s L (pop_state rs r)"
  using assms
  by (auto simp: cfg_ok_def arrays_ok_iff state_ok_def pop_state_def pop_state1_def restore_stack_def restore_capture_def Let_def capture_ok_def)

lemma resume_greedy_ok:
  assumes sub: "subject_ok s" and st: "state_ok s L rs" "rs_type rs = RE_EXEC_STATE_GREEDY_QUANT" and r: "capture_ok s (r_capture r)"
    "length (r_stack r) = stack_size_max s" and rest: "\<forall>x\<in>set rest. state_ok s L x"
  shows "\<exists>r' st'. resume_greedy s rs r rest = Some (Resumed r' st') \<and> cfg_ok s L r' \<and> (\<forall>x\<in>set st'. state_ok s L x)"
proof -
  from st obtain k p0 target where c: "rs_count rs \<noteq> 0" "quant_at s (rs_pc rs + 16) target k" "L target = Some (unat (rs_stack_len rs))"
    "pos_ok s p0" "fwd_chars s (unat (rs_count rs) * k) p0 = Some (rs_cptr rs)" by (auto simp: state_ok_def)
  from c(2) obtain nx cc where q: "code_u32 s (rs_pc rs) = Some nx" "pc_plus s (rs_pc rs + 16) nx = Some target"
    "code_u32 s (rs_pc rs + 12) = Some cc" "unat cc = k" by (auto simp: quant_at_def)
  obtain n where n: "unat (rs_count rs) = Suc n" using c(1) by (metis not0_implies_Suc unat_eq_zero)
  have n1: "unat (rs_count rs - 1) = n" using c(1) n by (simp add: unat_minus_one)
  have "k \<le> unat (rs_count rs) * k" using n by simp
  from prev_chars_ok [OF sub c(4,5) this] obtain q' where q': "prev_chars s k (rs_cptr rs) = Some q'" "pos_ok s q'"
    "k < unat (rs_count rs) * k \<or> k = 0 \<longrightarrow> fwd_chars s (unat (rs_count rs) * k - k) p0 = Some q'" by blast
  define r' where "r' = restore_stack rs (restore_capture rs r)\<lparr>r_pc := target, r_cptr := q'\<rparr>"
  define rs' where "rs' = rs\<lparr>rs_cptr := q', rs_count := rs_count rs - 1\<rparr>"
  have e: "resume_greedy s rs r rest = Some (Resumed r' (if rs_count rs' = 0 then rest else rs' # rest))"
    using q q'(1) by (simp add: resume_greedy_def r'_def rs'_def Let_def)
  have "cfg_ok s L r'"
    using restored_ok(2,3) [OF st(1) r] c(3) q'(2) st(1) r
    by (auto simp: cfg_ok_def r'_def arrays_ok_iff restore_stack_def restore_capture_def state_ok_def capture_ok_def Let_def)
  moreover have "state_ok s L rs'" if "rs_count rs' \<noteq> 0"
  proof -
    have "rs_count rs - 1 \<noteq> 0" using that by (simp add: rs'_def)
    then have "n \<noteq> 0" using n1 unat_eq_zero by blast
    then have "fwd_chars s (unat (rs_count rs') * k) p0 = Some q'" using q'(3) n n1 by (auto simp: rs'_def)
    with that st c q'(2) show ?thesis by (auto simp: state_ok_def rs'_def)
  qed
  ultimately show ?thesis using e rest by auto
qed

lemma re_resume_ok:
  assumes sub: "subject_ok s" and r: "capture_ok s (r_capture r)" "length (r_stack r) = stack_size_max s"
  shows "\<forall>x\<in>set st. state_ok s L x \<Longrightarrow> \<exists>x. re_resume s ret r st = Some x \<and>
    (\<forall>r' st'. x = Resumed r' st' \<longrightarrow> cfg_ok s L r' \<and> (\<forall>y\<in>set st'. state_ok s L y))"
proof (induction st arbitrary: ret)
  case (Cons rs st)
  then have ok: "state_ok s L rs" "\<forall>x\<in>set st. state_ok s L x" by auto
  note IH = Cons.IH [OF ok(2)]
  note pop = popped_ok [OF ok(1) _ r]
  show ?case
    using IH [of ret] IH [of False] pop ok(2) resume_greedy_ok [OF sub ok(1) _ r ok(2)]
    by (cases "rs_type rs") auto
qed simp

section \<open>The whole run\<close>

definition out_ok :: "REExecContext \<Rightarrow> re_ret \<Rightarrow> re_regs \<Rightarrow> bool" where
  "out_ok s res r \<longleftrightarrow> (res = Ret (- 1) \<or> res = Ret 0 \<or> res = Ret 1) \<and> capture_ok s (r_capture r)"

definition states_ok :: "REExecContext \<Rightarrow> (nat \<Rightarrow> nat option) \<Rightarrow> 'm re_vm \<Rightarrow> bool" where
  "states_ok s L v \<longleftrightarrow> (\<forall>x\<in>set (v_states v). state_ok s L x)"

definition repeat_ok :: "REExecContext \<Rightarrow> (nat \<Rightarrow> nat option) \<Rightarrow> nat \<Rightarrow> u64 \<Rightarrow> re_regs \<Rightarrow> bool" where
  "repeat_ok s L pc1 q r \<longleftrightarrow> cfg_ok s L r \<and> L pc1 = Some (r_stack_len r) \<and>
     (\<exists>k p0. quant_at s pc1 (r_pc r) k \<and> pos_ok s p0 \<and> fwd_chars s (unat q * k) p0 = Some (r_cptr r))"

fun job_ok :: "REExecContext \<Rightarrow> (nat \<Rightarrow> nat option) \<Rightarrow> re_job \<Rightarrow> bool" where
  "job_ok s L (Run nr r) \<longleftrightarrow> \<not> nr \<and> cfg_ok s L r"
| "job_ok s L (Iterate nr pc1 mn mx q r) \<longleftrightarrow> \<not> nr \<and> repeat_ok s L pc1 q r"

fun turn_ok :: "REExecContext \<Rightarrow> (nat \<Rightarrow> nat option) \<Rightarrow> 'm re_turn option \<Rightarrow> bool" where
  "turn_ok s L None = False"
| "turn_ok s L (Some (Stop res r v)) = out_ok s res r"
| "turn_ok s L (Some (Continue j v)) \<longleftrightarrow> job_ok s L j \<and> states_ok s L v"

lemma arrays_capture_ok: "arrays_ok s r \<Longrightarrow> capture_ok s (r_capture r)"
  by (simp add: arrays_ok_iff)

lemma re_end_ok:
  assumes "vm_ok s L" "arrays_ok s r" "states_ok s L v"
  shows "turn_ok s L (re_end s False ret r v)"
proof -
  have "subject_ok s" "capture_ok s (r_capture r)" "length (r_stack r) = stack_size_max s"
    using assms by (auto simp: vm_ok_def arrays_ok_iff)
  from re_resume_ok [OF this, of "v_states v" L ret] assms(3) obtain x where x: "re_resume s ret r (v_states v) = Some x"
    "\<forall>r' st'. x = Resumed r' st' \<longrightarrow> cfg_ok s L r' \<and> (\<forall>y\<in>set st'. state_ok s L y)" by (auto simp: states_ok_def)
  then show ?thesis using arrays_capture_ok [OF assms(2)]
    by (cases x) (auto simp: re_end_def out_ok_def states_ok_def)
qed

lemma re_push_ok:
  assumes vm: "vm_ok s L" and r: "cfg_ok s L r" and st: "states_ok s L v"
    and new: "if ty = RE_EXEC_STATE_GREEDY_QUANT
      then count \<noteq> 0 \<and> (\<exists>k p0 target. quant_at s (pc + 16) target k \<and> L target = Some (r_stack_len r) \<and>
             pos_ok s p0 \<and> fwd_chars s (unat count * k) p0 = Some (r_cptr r))
      else L pc = Some (r_stack_len r)"
  shows "turn_ok s L (re_push ra s False ty pc count r v)"
proof (cases "grow_states ra s v")
  case (Pair v1 ok)
  have v1: "v_states v1 = v_states v" using Pair by (auto simp: grow_states_def Let_def split: if_splits prod.splits)
  have ar: "arrays_ok s r" using r by (simp add: cfg_ok_def)
  then have len: "r_stack_len r < 256" "unat (of_nat (r_stack_len r) :: u8) = r_stack_len r"
    using vm by (auto simp: vm_ok_def arrays_ok_iff unat_of_nat_u8)
  show ?thesis
  proof (cases ok)
    case False
    with Pair show ?thesis using arrays_capture_ok [OF ar] by (simp add: re_push_def push_state_def out_ok_def)
  next
    case True
    have "state_ok s L \<lparr>rs_type = ty, rs_stack_len = of_nat (r_stack_len r), rs_count = count, rs_cptr = r_cptr r, rs_pc = pc,
        rs_capture = take (2 * capture_count s) (r_capture r), rs_stack = take (r_stack_len r) (r_stack r)\<rparr>"
      using new ar len by (auto simp: state_ok_def arrays_ok_iff capture_ok_def)
    with True Pair v1 st r ar show ?thesis
      by (auto simp: re_push_def push_state_def arrays_ok_iff capture_ok_def states_ok_def)
  qed
qed

lemma re_step_ok:
  assumes vm: "vm_ok s L" and r: "cfg_ok s L r" and st: "states_ok s L v"
  shows "turn_ok s L (re_step ra s False r v)"
proof -
  obtain a where a: "exec_op s r = Some a" "act_ok s L a" using exec_op_ok [OF vm r] by blast
  have ar: "arrays_ok s r" using r by (simp add: cfg_ok_def)
  show ?thesis
  proof (cases a)
    case (Next r')
    with a st show ?thesis by (simp add: re_step_def)
  next
    case No_match
    with a re_end_ok [OF vm ar st] show ?thesis by (simp add: re_step_def)
  next
    case (Matched r')
    with a have "arrays_ok s r'" by simp
    from re_end_ok [OF vm this st] a Matched show ?thesis by (simp add: re_step_def)
  next
    case (Save ty pc r')
    with a have "ty \<noteq> RE_EXEC_STATE_GREEDY_QUANT" "cfg_ok s L r'" "L pc = Some (r_stack_len r')" by (auto simp: act_ok_def)
    with re_push_ok [OF vm this(2) st, of ty 0 pc ra] a Save show ?thesis by (simp add: re_step_def)
  next
    case (Quant pc1 mn mx r')
    with a obtain k where k: "cfg_ok s L r'" "L pc1 = Some (r_stack_len r')" "quant_at s pc1 (r_pc r') k" by (auto simp: act_ok_def)
    then have "repeat_ok s L pc1 0 r'"
      unfolding repeat_ok_def using cfg_pos [OF k(1)] by (intro conjI exI [of _ k] exI [of _ "r_cptr r'"]) simp_all
    with a Quant st show ?thesis by (simp add: re_step_def)
  qed
qed

lemma quant_end_ok:
  assumes vm: "vm_ok s L" and rp: "repeat_ok s L pc1 q r" and st: "states_ok s L v"
  shows "turn_ok s L (quant_end ra s False pc1 mn q r v)"
proof -
  have r: "cfg_ok s L r" and ar: "arrays_ok s r" using rp by (auto simp: repeat_ok_def cfg_ok_def)
  from rp obtain k p0 where k: "quant_at s pc1 (r_pc r) k" "pos_ok s p0" "fwd_chars s (unat q * k) p0 = Some (r_cptr r)"
    by (auto simp: repeat_ok_def)
  have pc1: "pc1 - 16 + 16 = pc1" using k(1) by (simp add: quant_at_def)
  have sub: "subject_ok s" using vm by (simp add: vm_ok_def)
  consider "q < ucast mn" | "q = ucast mn" | "ucast mn < q" by fastforce
  then show ?thesis
  proof cases
    case 1
    with re_end_ok [OF vm ar st] show ?thesis by (simp add: quant_end_def)
  next
    case 2
    with r st show ?thesis by (simp add: quant_end_def)
  next
    case 3
    define m where "m = unat (ucast mn :: u64)"
    have m: "m < unat q" "unat (q - ucast mn) = unat q - m" using 3 by (simp_all add: m_def word_less_nat_alt unat_sub_if')
    then have "unat q * k = m * k + unat (q - ucast mn) * k" by (simp flip: add_mult_distrib)
    with k(3) obtain p1 where p1: "fwd_chars s (m * k) p0 = Some p1" "fwd_chars s (unat (q - ucast mn) * k) p1 = Some (r_cptr r)"
      by (auto simp: fwd_chars_add bind_eq_Some_iff)
    have "pos_ok s p1" using fwd_chars_ok [OF sub k(2) p1(1)] by simp
    moreover have "q - ucast mn \<noteq> 0" using 3 by simp
    ultimately have "turn_ok s L (re_push ra s False RE_EXEC_STATE_GREEDY_QUANT (pc1 - 16) (q - ucast mn) r v)"
      using k(1) p1(2) r unfolding cfg_ok_def by (intro re_push_ok [OF vm r st]) (auto simp: pc1)
    moreover have "\<not> q < ucast mn" using 3 by (simp add: not_less)
    ultimately show ?thesis using 3 by (simp add: quant_end_def)
  qed
qed

lemma quant_turn_ok:
  assumes vm: "vm_ok s L" and rp: "repeat_ok s L pc1 q r" and st: "states_ok s L v"
    and body: "r_capture rb = r_capture r" "r_stack rb = r_stack r"
    and res: "res = Ret 0 \<or> (\<exists>p k. res = Ret_ptr p \<and> quant_at s pc1 (r_pc r) k \<and> fwd_chars s k (r_cptr r) = Some p)"
  shows "turn_ok s L (quant_turn ra s False pc1 mn mx q r res rb v)"
proof -
  have r: "r\<lparr>r_capture := r_capture r, r_stack := r_stack r\<rparr> = r" by simp
  from res show ?thesis
  proof (elim disjE exE conjE)
    assume "res = Ret 0"
    with quant_end_ok [OF vm rp st] show ?thesis by (simp add: quant_turn_def body)
  next
    fix p k' assume p: "res = Ret_ptr p" "quant_at s pc1 (r_pc r) k'" "fwd_chars s k' (r_cptr r) = Some p"
    from rp obtain k p0 where k: "quant_at s pc1 (r_pc r) k" "pos_ok s p0" "fwd_chars s (unat q * k) p0 = Some (r_cptr r)"
      and c: "cfg_ok s L r" "L pc1 = Some (r_stack_len r)" by (auto simp: repeat_ok_def)
    have "k' = k" using p(2) k(1) by (auto simp: quant_at_def)
    with p(3) have pk: "fwd_chars s k (r_cptr r) = Some p" by simp
    have sub: "subject_ok s" using vm by (simp add: vm_ok_def)
    have pp: "pos_ok s (r_cptr r)" "r_cptr r < 2 ^ 63" using cfg_pos [OF c(1)] sub by (auto simp: pos_ok_def subject_ok_def)
    have q1: "unat (q + 1) * k = unat q * k + k"
    proof (cases "k = 0")
      case False
      then have "unat q \<le> unat q * k" by simp
      also have "\<dots> \<le> r_cptr r" using fwd_chars_ok [OF sub k(2,3)] by simp
      finally have "unat q < 2 ^ 63" using pp(2) by simp
      then have "unat (q + 1) = unat q + 1" by (simp add: unat_word_ariths)
      then show ?thesis by simp
    qed simp
    have "fwd_chars s (unat (q + 1) * k) p0 = Some p" unfolding q1 fwd_chars_add using k(3) pk by simp
    moreover have "pos_ok s p" using fwd_chars_ok [OF sub pp(1) pk] by simp
    ultimately have "repeat_ok s L pc1 (q + 1) (r\<lparr>r_cptr := p\<rparr>)"
      using k(1,2) c by (auto simp: repeat_ok_def cfg_ok_def)
    with quant_end_ok [OF vm this st] st p(1) show ?thesis by (simp add: quant_turn_def body Let_def)
  qed
qed

lemma exec_safe:
  assumes run: "lre_exec_backtrack ra s j v = Some y"
  shows "lre_exec_backtrack ra s j v = Some y \<and>
    (vm_ok s L \<longrightarrow> job_ok s L j \<longrightarrow> states_ok s L v \<longrightarrow> (\<exists>res r v'. y = Some (res, r, v') \<and> out_ok s res r))"
  using run
proof (induction ra s j v y rule: lre_exec_backtrack.raw_induct [rotated, consumes 1])
  case (1 f ra s j v y)
  note IH = 1(1) and eq = 1(2)
  have go: "continue_with ra s t = Some y \<and> (vm_ok s L \<longrightarrow> turn_ok s L t \<longrightarrow> (\<exists>res r v'. y = Some (res, r, v') \<and> out_ok s res r))"
    if "(case t of None \<Rightarrow> Some None | Some (Stop res r v) \<Rightarrow> Some (Some (res, r, v)) | Some (Continue j v) \<Rightarrow> f ra s j v) = Some y" for t
  proof (cases t)
    case (Some x)
    with that IH show ?thesis by (cases x) auto
  qed (use that in simp)
  show ?case
  proof (cases j)
    case (Run nr r)
    have e: "(case re_step ra s nr r v of None \<Rightarrow> Some None | Some (Stop res r v) \<Rightarrow> Some (Some (res, r, v))
        | Some (Continue j v) \<Rightarrow> f ra s j v) = Some y" using eq Run by simp
    from go [OF e] show ?thesis using Run re_step_ok [of s L r v ra] by (auto simp: exec_run)
  next
    case (Iterate nr pc1 mn mx q r)
    with eq obtain x where x: "f ra s (Run True (r\<lparr>r_pc := pc1\<rparr>)) v = Some x" by (auto simp: bind_eq_Some_iff)
    then have xe: "lre_exec_backtrack ra s (Run True (r\<lparr>r_pc := pc1\<rparr>)) v = Some x" using IH by blast
    have body: "\<exists>res rb. x = Some (res, rb, v) \<and> r_capture rb = r_capture r \<and> r_stack rb = r_stack r \<and>
        (res = Ret 0 \<or> (\<exists>p k. res = Ret_ptr p \<and> quant_at s pc1 (r_pc r) k \<and> fwd_chars s k (r_cptr r) = Some p))"
      if vm: "vm_ok s L" and rp: "repeat_ok s L pc1 q r"
    proof -
      from rp obtain k where k: "quant_at s pc1 (r_pc r) k" and c: "cfg_ok s L (r\<lparr>r_pc := pc1\<rparr>)"
        by (auto simp: repeat_ok_def cfg_ok_def)
      from k obtain b rest where b: "drop pc1 (bc_buf s) = b @ 10 # rest" "simple_chars b = Some k" by (auto simp: quant_at_def)
      from simple_body_runs [OF vm b(2) c, of rest ra v] b(1) xe k show ?thesis by auto
    qed
    show ?thesis
    proof (cases x)
      case None
      with eq x Iterate have y: "y = None" by simp
      with None xe have "lre_exec_backtrack ra s j v = Some y" by (simp add: Iterate exec_iterate)
      moreover have "\<not> (vm_ok s L \<and> job_ok s L j)" using body None Iterate by auto
      ultimately show ?thesis by blast
    next
      case (Some z)
      obtain res rb v1 where z: "z = (res, rb, v1)" by (cases z)
      have e: "(case quant_turn ra s nr pc1 mn mx q r res rb v1 of None \<Rightarrow> Some None | Some (Stop res r v) \<Rightarrow> Some (Some (res, r, v))
        | Some (Continue j v) \<Rightarrow> f ra s j v) = Some y" using eq x Iterate Some z by simp
      have t: "turn_ok s L (quant_turn ra s nr pc1 mn mx q r res rb v1)" if "vm_ok s L" "job_ok s L j" "states_ok s L v"
      proof -
        have rp: "repeat_ok s L pc1 q r" "\<not> nr" using that(2) Iterate by auto
        from body [OF that(1) rp(1)] Some z have b: "v1 = v" "r_capture rb = r_capture r" "r_stack rb = r_stack r"
          "res = Ret 0 \<or> (\<exists>p k. res = Ret_ptr p \<and> quant_at s pc1 (r_pc r) k \<and> fwd_chars s k (r_cptr r) = Some p)" by auto
        from quant_turn_ok [OF that(1) rp(1) that(3) b(2-4)] show ?thesis using b(1) rp(2) by simp
      qed
      have "lre_exec_backtrack ra s j v = Some y" using go [OF e] xe Some z by (simp add: Iterate exec_iterate)
      with go [OF e] t show ?thesis by blast
    qed
  qed
qed

text \<open>
  C39. The executor never leaves the bytecode, the subject, the captures, the stack or the saved states when
  it runs bytecode that passes the checker, whatever the subject, the start and the outcome of the
  memory allocations: its result is -1, 0 or 1, and every capture is unset or a place in the subject.
\<close>

theorem lre_exec_in_bounds:
  assumes code: "re_code_ok bc" and cc: "rd bc 1 = Some cc" "length capture = 2 * unat cc" and sz: "rd bc 2 = Some sz" "length junk = unat sz"
    and subject: "type \<le> 1" "clen * 2 ^ type \<le> length buf" "clen < 2 ^ 31" "cindex \<le> clen"
    and run: "lre_exec ra m junk addr capture bc buf cindex clen type = Some x"
  shows "\<exists>ret cap m'. x = Some (ret, cap, m') \<and> ret \<in> {- 1, 0, 1} \<and> length cap = 2 * unat cc \<and>
    (\<forall>p. Some p \<in> set cap \<longrightarrow> p \<le> clen * 2 ^ type \<and> 2 ^ type dvd p)"
proof -
  from re_code_typed [OF code] cc sz obtain fl L where fl: "rd bc 0 = Some fl" and L: "code_typed bc (unat cc) (unat sz) L"
    by (metis option.inject)
  define s where "s = exec_context bc buf addr clen type fl cc sz"
  define r where "r = \<lparr>r_pc = RE_HEADER_LEN, r_cptr = cindex * 2 ^ type, r_capture = replicate (2 * unat cc) None,
    r_stack = take (unat sz) junk, r_stack_len = 0\<rparr>"
  have ty: "type = 0 \<or> type = 1" using subject(1) by auto
  have "unat sz < 256" by (rule unat_u8_bound)
  then have vm: "vm_ok s L" using L subject ty by (auto simp: vm_ok_def s_def exec_context_def subject_ok_def)
  have j: "job_ok s L (Run False r)"
    using L subject ty sz by (auto simp: cfg_ok_def arrays_ok_def pos_ok_def s_def r_def exec_context_def code_typed_def)
  define v where "v = \<lparr>v_states = [], v_size = 0, v_mem = m\<rparr>"
  have st: "states_ok s L v" by (simp add: states_ok_def v_def)
  from run cc fl sz obtain y where y: "lre_exec_backtrack ra s (Run False r) v = Some y"
    "x = (case y of Some (Ret ret, r, v) \<Rightarrow> Some (ret, r_capture r, fst (ra (v_mem v) 0)) | _ \<Rightarrow> None)"
    by (auto simp: lre_exec_def s_def r_def v_def bind_eq_Some_iff)
  from exec_safe [OF y(1)] vm j st obtain res r' v' where o: "y = Some (res, r', v')" "out_ok s res r'" by blast
  have cbt: "cbuf_end s = clen * 2 ^ type" "cbuf_type s = 0 \<longleftrightarrow> type = 0" "capture_count s = unat cc"
    using ty by (auto simp: s_def exec_context_def)
  have "p \<le> clen * 2 ^ type \<and> 2 ^ type dvd p" if "Some p \<in> set (r_capture r')" for p
    using o(2) that ty cbt by (auto simp: out_ok_def capture_ok_def pos_ok_def)
  then show ?thesis using o y(2) cbt(3) by (auto simp: out_ok_def capture_ok_def)
qed

lemma demo_code_ok: "re_code_ok demo_code"
  by code_simp

lemma demo_run: "lre_exec (\<lambda>m n. (m, True)) () [] 0 [None, None] demo_code [97, 97] 0 2 0 = Some (Some (1, [Some 0, Some 2], ()))"
  by code_simp

lemma lre_exec_in_bounds_witness:
  "\<exists>ret cap m'. lre_exec (\<lambda>m n. (m, True)) () [] 0 [None, None] demo_code [97, 97] 0 2 0 = Some (Some (ret, cap, m')) \<and>
     ret \<in> {- 1, 0, 1} \<and> length cap = 2 \<and> (\<forall>p. Some p \<in> set cap \<longrightarrow> p \<le> 2)"
  using lre_exec_in_bounds [OF demo_code_ok _ _ _ _ _ _ _ _ demo_run, of 1 0] demo_run by (simp add: demo_code_def rd_def)

end
