(* ===== verification/Spec2Isabelle.thy ===== *)
theory Spec2Isabelle
  imports Qjs_Main Cell_FS Malloc_Api Js_Number Ckb_Load Cutils Malloc_Mem Dbuf Utf8 Rqsort Js_Sort C_String
    Limbs_Div Char_Range Uni_Prop Printf Js_Date_Iso Regexp_Match Regexp_Safe
begin

text \<open>
  ckb-js is a JavaScript runtime for CKB: a RISC-V program that a CKB cell carries and that
  the CKB virtual machine runs to validate a transaction. The program (quickjs/qjs.c) finds its
  JavaScript or bytecode in a cell of the transaction, evaluates it with the QuickJS engine and
  gives it the syscalls of CKB as the object \<open>ckb\<close>. It brings its own C library
  (include/c-stdlib) and a file system for modules packed into one cell (include/ckb_cell_fs.c).
  This development models these parts as HOL functions and proves what makes them correct.

  \<^bold>\<open>Conventions.\<close> Machine integers are words of their width; an integer that C keeps in a
  type it cannot overflow is a \<^typ>\<open>nat\<close> or \<^typ>\<open>int\<close>. Undefined behaviour (an access
  outside an object, a cast or a shift that C does not define) is \<^term>\<open>None\<close> of an option
  type, so that a theorem that a function returns \<^term>\<open>Some\<close> also says that it stays
  inside its objects. Error codes and thrown exceptions are values. A loop whose end is not evident
  is a \<open>partial_function (option)\<close>, whose \<^term>\<open>None\<close> is also \<open>does not end\<close>, and that it ends
  is part of what is proved of it; no definition has fuel. Code outside the repository's sources
  (kernel, submodule ckb-c-stdlib, molecule reader) is a parameter: a record of functions, whose laws are the
  named hypotheses of the properties that need them; their witnesses give a concrete function.

  \<^bold>\<open>Parts, theories and sources.\<close>

  \<^item> Ckb_Prelude: option binding of lists, words as bytes, C strings, the collections of
    simplification rules that the components share.

  \<^item> Malloc (definitions), Malloc_Inv (invariant and its preservation by the elementary steps),
    Malloc_Correct (operations), Malloc_Api (contract), Malloc_Mem:
    include/c-stdlib/src/malloc_impl.c, on a memory of 64-bit cells: bins, chunks with boundary
    tags, \<open>malloc\<close>, \<open>realloc\<close>, \<open>free\<close>. The invariant \<open>alloc_inv\<close> says that the heap is a
    gapless sequence of chunks, that the free ones are exactly those in the bins, in doubly linked
    rings, and that no two free chunks are neighbours. \<open>live\<close> reads the map of blocks in use off the heap.

  \<^item> Heap_Ops and Heap_Mem: what clients of the allocator rely on, as locales (laws of
    malloc and free on live blocks; reallocated memory with contents), interpreted on the
    allocator in Malloc_Api and Malloc_Mem.

  \<^item> Cell_FS: include/ckb_cell_fs.c with the packer of tools/fs.lua: load_fs, get_file over
    the stack of images, the abstract view of an image as a map from names to contents.

  \<^item> Ckb_Module (definitions) and Ckb_Load (what they do): quickjs/ckb_module.c: the syscall
    bindings, the argument parser, the table of functions and constants of the \<open>ckb\<close> object, and the
    search for the code cell that the script's arguments name. Js_Number: the conversions of quickjs.c
    that the bindings put their arguments through, on the bits of a double.

  \<^item> Std_Module: quickjs/std_module.c, console and module loader, which looks modules up with
    get_file. Qjs_Main: quickjs/qjs.c, options, the ways to find the code, its evaluation, main. Both take the
    engine as a record of operations over an abstract engine state.

  \<^item> Cutils, Utf8, Dbuf, Rqsort: quickjs/cutils.c and cutils.h: bounded strings, bytes,
    UTF-8, dynamic buffers, and rqsort with its explicit stack and its heap sort. Js_Sort: the sort of typed
    arrays of quickjs.c, on rqsort.

  \<^item> C_String: include/c-stdlib/src/string_impl.c: memchr by words, searches, spans, character classes.
    Printf: include/c-stdlib/src/printf_impl.c: the parser of directives, the digits, padding
    and signs, the output functions and snprintf.

  \<^item> Js_Date (definitions), Js_Date_Correct (calendar), Js_Date_Iso (texts): the Date component
    of quickjs.c: the calendar on doubles rounded to 53 bits, getters, setters and constructor, the texts
    that get_date_string prints with the snprintf of Printf, and js_Date_parse.

  \<^item> Limbs, Limbs_Div: the natural numbers of quickjs/libbf.c as limbs of 64 bits: addition,
    subtraction, multiplication, schoolbook division.

  \<^item> Char_Range, Uni_Tables, Uni_Case, Uni_Prop: quickjs/libunicode.c, libunicode.h and the
    tables of libunicode-table.h that they use: sets of code points as lists of boundaries, case
    conversion, properties kept as run lengths.

  \<^item> Regexp (definitions), Regexp_Match, Regexp_Safe: quickjs/libregexp.c, the executor of the
    bytecode of regular expressions: every instruction of lre_exec_backtrack (\<open>exec_opcode\<close>), the stack
    of saved states with its growing memory (\<open>push_state\<close>, \<open>re_resume\<close>), the recursive call for simple
    quantifiers and lre_exec. Regexp_Match refines it to a recursive backtracking matcher; Regexp_Safe has a
    checker of bytecode and shows that checked bytecode never makes the executor leave its objects.

  \<^bold>\<open>How the parts interact.\<close> qjs.c calls load_cell_code_info and load_cell_code
  (ckb_module.c) to get the code, mounts it with load_fs when it is a packed image, and evaluates it in the
  engine; an import in that code calls js_module_loader (std_module.c), which reads get_file's stack
  of images. The bindings allocate with malloc and call the kernel. These calls are
  composed here as in the code: Qjs_Main is over Ckb_Module, Std_Module and Cell_FS, whose get_file
  and load_fs are over any heap with the laws of Heap_Ops; below, in this theory, they run on the allocator
  of Malloc.

  \<^bold>\<open>What the lemmas show.\<close> Per component: the invariant and its preservation (Malloc_Inv,
  Malloc_Correct; \<open>date_value_invariant\<close>; canonical form in Char_Range); the result of
  every operation on success and failure (Ckb_Load, Cell_FS, Dbuf, Std_Module); that accesses stay in bounds, or
  exactly when they do (\<open>load_fs_in_bounds_iff\<close>, \<open>ckb_call_in_bounds\<close>, \<open>js_module_loader_name_bound\<close>,
  \<open>memchr_finds_first\<close>, \<open>lre_case_conv_total\<close>); termination and the permutation property of
  rqsort for every comparison function; arithmetic (\<open>mp_mul_multiplies\<close>, \<open>mp_divnorm_divides\<close>,
  \<open>JS_ToInt64_modular\<close>); round trips (pack/load/get_file, UTF-8, date fields, ISO date texts); refinement and
  memory safety of the executor of regular expressions (\<open>lre_exec_matches\<close>, \<open>lre_exec_in_bounds\<close>).

  \<^bold>\<open>Bounds.\<close> Where the source has a bound it is in the model: the 256 entries of passed_argv, the
  stack of 50 entries of rqsort, the 64 bins, the name buffer of the module loader, the 32-digit buffer
  of printf, the 64-byte buffer of the date texts. Each theorem about such a function either shows
  that the bound suffices or states the inputs for which it does. Sizes of blocks are below 2^64
  and addresses of the heap below the limit of the program break.

  \<^bold>\<open>Not modelled.\<close> Of quickjs.c: the parser and bytecode compiler, the interpreter loop,
  objects, shapes, atoms, garbage collection, modules and the builtin objects except the conversions, the
  sort of typed arrays and Date: they work on one graph of mutable reference-counted values, and a
  model of a single builtin would have to take the rest as a parameter. Of libbf.c: the layer of arbitrary
  precision floats and decimals above the limbs, and the multiplication by Fourier transform.
  Of libunicode.c: general categories, scripts and normalisation.
  Of libregexp.c: the parser of patterns and the emission of bytecode, so that the checker of Regexp_Safe
  is a hypothesis about bytecode and not a theorem about the compiler. Floating-point texts
  (strtod, js_dtoa, _ftoa) and the functions of math_impl.c, math_log_impl.c and
  math_pow_impl.c, which compute with the rounding of IEEE doubles. The stubs of locale_impl.c and the test
  shims of mocked.c; the files of stdio_impl.c (fopen, fread and fgetc read what get_file found, most of the
  others stop the program); start-up code and build files. Time zone and clock are parameters of Js_Date.
\<close>

section \<open>The file system on the allocator\<close>

interpretation fs_ckb: fs_heap ckb_heap alloc_inv live
  by unfold_locales

text \<open>
  C7. On the allocator of the program, load_fs of a buffer that holds its table of entries
  returns, and is all or nothing: it pushes one image, or it returns -1, leaves the stack of
  images as it was and has given back every block it allocated.
\<close>

theorem load_fs_all_or_nothing:
  assumes "alloc_inv h" "4 \<le> length b" "4 + 16 * le_nat (take 4 b) \<le> length b"
  shows "\<exists>ret fs' h'. load_fs ckb_heap h (Some old) (Some b) buflen = Some (ret, fs', h') \<and> alloc_inv h' \<and>
    (ret = 0 \<and> (\<exists>node. fs' = Some (Some (CellFileSystem (Some node) old)) \<and> unat (node_count node) = le_nat (take 4 b)) \<or>
     ret = - 1 \<and> fs' = Some old \<and> live h' = live h)"
  by (rule fs_ckb.load_fs_transaction [OF assms])

lemma load_fs_all_or_nothing_witness:
  "\<exists>ret fs' h'. load_fs ckb_heap demo_heap (Some None) (Some demo_image) 0 = Some (ret, fs', h') \<and> alloc_inv h' \<and>
     (ret = 0 \<or> live h' = live demo_heap)"
proof -
  have "4 + 16 * le_nat (take 4 demo_image) \<le> length demo_image" "4 \<le> length demo_image"
    by (simp_all add: demo_image_def)
  from load_fs_all_or_nothing [OF demo_heap_inv this(2,1), of None 0] show ?thesis by blast
qed

text \<open>
  On the allocator of the program, a call of get_file that does not find the name returns
  -1, stores nothing through f and leaves no block behind; one that does find it leaves exactly
  the block of the FSFile it returns.
\<close>

theorem get_file_heap:
  assumes "alloc_inv h" "get_file ckb_heap h fs fname = Some (ret, f, h')"
  shows "alloc_inv h' \<and>
    (if ret = 0 then f \<noteq> None \<and> (\<exists>p k. live h p = None \<and> sizeof_FSFile \<le> k \<and> live h' = (live h)(p \<mapsto> k))
     else ret = - 1 \<and> f = None \<and> live h' = live h)"
  using fs_ckb.get_file_success_alloc [of h fs fname f h'] fs_ckb.get_file_failure_no_leak [of h fs fname ret f h'] assms
  by (cases "ret = 0") auto

lemma get_file_heap_witness:
  "\<exists>ret f h'. get_file ckb_heap demo_heap (Some demo_fs) [120, 0] = Some (ret, f, h') \<and>
     ret = - 1 \<and> live h' = live demo_heap"
proof -
  obtain l where l: "fs_view demo_fs = Some l" "map_of l [120] = None"
    using demo_view by blast
  have s: "cstr [120, 0] = Some [120 :: u8]" by simp
  note w = walk_fs_view [OF s l(1)]
  obtain p h1 where m: "h_malloc ckb_heap demo_heap sizeof_FSFile = (p, h1)" by fastforce
  have "\<exists>r. get_file ckb_heap demo_heap (Some demo_fs) [120, 0] = Some r \<and> fst r \<noteq> 0"
  proof (cases "p = 0")
    case False
    with ckb.malloc_free_restores [OF demo_heap_inv _ m] m w l(2) show ?thesis
      by (auto simp: get_file_def sizeof_FSFile_def)
  qed (use m in \<open>simp add: get_file_def\<close>)
  then obtain ret f h' where r: "get_file ckb_heap demo_heap (Some demo_fs) [120, 0] = Some (ret, f, h')" "ret \<noteq> 0"
    by (metis fst_conv prod_cases3)
  with get_file_heap [OF demo_heap_inv r(1)] show ?thesis by auto
qed

end
